(* ===== verification/Hive_Prelude.thy ===== *)
theory Hive_Prelude
  imports Main "HOL-Library.Word" "HOL-Library.Monad_Syntax"
begin

text \<open>
  What every theory of the development shares: the machine integers of
  \<^verbatim>\<open>sdk/inc/sys/types.h\<close>, the alignment and bit macros of
  \<^verbatim>\<open>sdk/inc/sys/param.h\<close>, the error numbers of \<^verbatim>\<open>sdk/inc/sys/errno.h\<close>, and the
  byte-addressed memory in which the kernel keeps every object that C code reaches through a
  pointer. A pointer is a 64-bit word, the null pointer is 0, and a struct field is a load or a
  store at its offset, so overlapping objects, interior pointers and aliasing behave as they do
  in the machine.

  Conventions of the models. A C function that may not return to its caller (it panics, spins
  forever or reads an object that does not exist) has an option type, with None for not
  returning. A C function that returns an error number has a sum type: Inl with the negative
  error number, or Inr with what it wrote through its out-parameter. An out-parameter itself is
  a truth value that says whether the pointer is non-null.
\<close>

unbundle bit_operations_syntax

section \<open>Machine integers\<close>

type_synonym u8 = "8 word"
type_synonym u16 = "16 word"
type_synonym u32 = "32 word"
type_synonym u64 = "64 word"
type_synonym addr = u64
type_synonym memory = "addr \<Rightarrow> u8"
type_synonym 'a result = "int + 'a"

abbreviation NULL :: addr where "NULL \<equiv> 0"

named_theorems mem_simps \<open>loads after stores, apart or at the same place\<close>
named_theorems al8_intros \<open>closure of 8-byte alignment\<close>

lemma unat64_lt: "unat (x :: u64) < 18446744073709551616"
  using unsigned_less [of x, where 'a = nat] by simp

lemma unat_of_nat64: "i < 18446744073709551616 \<Longrightarrow> unat (of_nat i :: u64) = i"
  by (simp add: unat_of_nat take_bit_nat_eq_self)

lemma sint_of_nat64: "i < 9223372036854775808 \<Longrightarrow> sint (of_nat i :: u64) = int i"
  by (simp add: signed_of_nat signed_take_bit_int_eq_self)

lemma unat_add64: "unat (a :: u64) + unat b < 18446744073709551616 \<Longrightarrow> unat (a + b) = unat a + unat b"
  using unat_add_lem [of a b] by simp

lemma unat_sub64: "unat b \<le> unat a \<Longrightarrow> unat (a - b :: u64) = unat a - unat b"
  by (simp add: unat_sub_if')

lemma unat_sum_diff64:
  assumes "(a :: u64) \<noteq> b"
  shows "unat (a - b) + unat (b - a) = 18446744073709551616"
  using assms unat64_lt [of a] unat64_lt [of b]
  by (auto simp: unat_sub_if' word_unat_eq_iff)

section \<open>Error numbers\<close>

text \<open>The error numbers of \<^verbatim>\<open>errno.h\<close> that the kernel uses.\<close>

definition EIO :: int where "EIO = 5"
definition ENOENT :: int where "ENOENT = 2"
definition ENOMEM :: int where "ENOMEM = 12"
definition ENOTDIR :: int where "ENOTDIR = 20"
definition EINVAL :: int where "EINVAL = 22"
definition ENAMETOOLONG :: int where "ENAMETOOLONG = 31"
definition ENOTSUP :: int where "ENOTSUP = 32"

lemmas errno_defs =
  EIO_def ENOENT_def ENOMEM_def ENOTDIR_def EINVAL_def ENAMETOOLONG_def ENOTSUP_def

section \<open>The macros of param.h\<close>

definition PTR_OFFSET :: "addr \<Rightarrow> u64 \<Rightarrow> addr" where
  "PTR_OFFSET p off = p + off"

definition PTR_NOFFSET :: "addr \<Rightarrow> u64 \<Rightarrow> addr" where
  "PTR_NOFFSET p off = p - off"

definition ISSET :: "u64 \<Rightarrow> u64 \<Rightarrow> bool" where
  "ISSET v f \<longleftrightarrow> v AND f \<noteq> 0"

definition BIT :: "nat \<Rightarrow> u64" where
  "BIT n = push_bit n 1"

definition MASK :: "nat \<Rightarrow> u64" where
  "MASK n = push_bit n 1 - 1"

definition ALIGN_DOWN :: "u64 \<Rightarrow> u64 \<Rightarrow> u64" where
  "ALIGN_DOWN v align = v AND NOT (align - 1)"

definition ALIGN_UP :: "u64 \<Rightarrow> u64 \<Rightarrow> u64" where
  "ALIGN_UP v align = (v + align - 1) AND NOT (align - 1)"

text \<open>The bitmap macros, on the byte array at address \<open>a\<close>.\<close>

definition SETBIT :: "memory \<Rightarrow> addr \<Rightarrow> u64 \<Rightarrow> memory" where
  "SETBIT m a b = (let p = a + drop_bit 3 b in m(p := m p OR ucast (BIT (unat (b mod 8)))))"

definition CLRBIT :: "memory \<Rightarrow> addr \<Rightarrow> u64 \<Rightarrow> memory" where
  "CLRBIT m a b = (let p = a + drop_bit 3 b in m(p := m p AND NOT (ucast (BIT (unat (b mod 8))))))"

definition TESTBIT :: "memory \<Rightarrow> addr \<Rightarrow> u64 \<Rightarrow> bool" where
  "TESTBIT m a b \<longleftrightarrow> ISSET (ucast (m (a + drop_bit 3 b))) (BIT (unat (b mod 8)))"

definition PAGESIZE :: u64 where "PAGESIZE = 4096"
definition UNIT_GIB :: u64 where "UNIT_GIB = 0x40000000"
definition UNIT_MIB :: u64 where "UNIT_MIB = 0x100000"
definition CHAR_BIT :: u64 where "CHAR_BIT = 8"

lemma bit_BIT: "n < 64 \<Longrightarrow> bit (BIT n) i \<longleftrightarrow> i = n"
  by (auto simp: BIT_def bit_simps)

lemma ISSET_BIT: "n < 64 \<Longrightarrow> ISSET v (BIT n) \<longleftrightarrow> bit v n"
  by (simp add: ISSET_def BIT_def push_bit_eq_mult and_exp_eq_0_iff_not_bit)

lemma and_not_mask_word:
  "(v :: u64) AND NOT (mask n) = v - take_bit n v"
proof -
  have "v = push_bit n (drop_bit n v) + take_bit n v" by (simp add: bits_ident)
  moreover have "push_bit n (drop_bit n v) = v AND NOT (mask n)"
    by (rule bit_word_eqI) (auto simp: bit_simps)
  ultimately show ?thesis by (metis add_diff_cancel_right')
qed

lemma unat_exp64: "n < 64 \<Longrightarrow> unat (2 ^ n :: u64) = 2 ^ n"
  using unat_of_nat64 [of "2 ^ n"] power_strict_increasing [of n 64 "2 :: nat"] by simp

lemma unat_align_down_mask:
  "unat ((v :: u64) AND NOT (mask n)) = unat v - unat v mod 2 ^ n"
proof -
  have t: "unat (take_bit n v) = unat v mod 2 ^ n"
    by (simp add: unsigned_take_bit_eq take_bit_nat_def)
  then have "unat (take_bit n v) \<le> unat v" by simp
  then have "unat (v - take_bit n v) = unat v - unat (take_bit n v)"
    by (rule unat_sub64)
  then show ?thesis by (simp add: and_not_mask_word t)
qed

lemma unat_ALIGN_DOWN:
  "unat (ALIGN_DOWN v (2 ^ n)) = unat v - unat v mod 2 ^ n"
  by (simp add: ALIGN_DOWN_def unat_align_down_mask flip: mask_eq_exp_minus_1)

lemma unat_ALIGN_UP:
  assumes "n < 64" "unat v + 2 ^ n \<le> 18446744073709551616"
  shows "unat (ALIGN_UP v (2 ^ n)) = (unat v + (2 ^ n - 1)) div 2 ^ n * 2 ^ n"
proof -
  have e: "unat (2 ^ n - 1 :: u64) = 2 ^ n - 1"
    using assms(1) by (subst unat_sub64) (simp_all add: unat_exp64)
  have "unat (v + (2 ^ n - 1)) = unat v + (2 ^ n - 1)"
    using assms e by (subst unat_add64) (auto simp: Suc_le_eq)
  moreover have "ALIGN_UP v (2 ^ n) = (v + (2 ^ n - 1)) AND NOT (mask n)"
    by (simp add: ALIGN_UP_def mask_eq_exp_minus_1 add_diff_eq)
  ultimately show ?thesis by (simp add: unat_align_down_mask minus_mod_eq_div_mult)
qed

lemmas unat_ALIGN_DOWN_page = unat_ALIGN_DOWN [of _ 12, simplified]
lemmas unat_ALIGN_UP_page = unat_ALIGN_UP [of 12, simplified]
lemmas unat_ALIGN_UP_8 = unat_ALIGN_UP [of 3, simplified]

section \<open>Loads and stores\<close>

text \<open>
  An n-byte little-endian load, and the store of the low n bytes of a word. Two ranges are
  apart when neither starts inside the other, computed modulo 2^64.
\<close>

primrec load_n :: "nat \<Rightarrow> memory \<Rightarrow> addr \<Rightarrow> u64" where
  "load_n 0 m a = 0"
| "load_n (Suc n) m a = ucast (m a) OR push_bit 8 (load_n n m (a + 1))"

definition store_n :: "nat \<Rightarrow> memory \<Rightarrow> addr \<Rightarrow> u64 \<Rightarrow> memory" where
  "store_n n m a v = (\<lambda>x. if unat (x - a) < n then ucast (drop_bit (8 * unat (x - a)) v) else m x)"

lemma load_n_cong:
  assumes "\<And>i. i < n \<Longrightarrow> m' (a + of_nat i) = m (a + of_nat i)"
  shows "load_n n m' a = load_n n m a"
  using assms
proof (induction n arbitrary: a)
  case (Suc n)
  have "load_n n m' (a + 1) = load_n n m (a + 1)"
  proof (rule Suc.IH)
    fix i assume "i < n"
    then show "m' (a + 1 + of_nat i) = m (a + 1 + of_nat i)"
      using Suc.prems [of "Suc i"] by (simp add: algebra_simps)
  qed
  with Suc.prems [of 0] show ?case by simp
qed simp

definition apart :: "addr \<Rightarrow> nat \<Rightarrow> addr \<Rightarrow> nat \<Rightarrow> bool" where
  "apart a n b k \<longleftrightarrow> n \<le> unat (b - a) \<and> k \<le> unat (a - b)"

lemma apart_byte:
  assumes "apart a n b k" "i < k" "k < 2 ^ 63"
  shows "n \<le> unat (b + of_nat i - a)"
proof -
  have i: "unat (of_nat i :: u64) = i" using assms by (intro unat_of_nat64) simp
  show ?thesis
  proof (cases "b = a")
    case True
    then show ?thesis using assms by (simp add: apart_def)
  next
    case False
    have ab: "unat (a - b) + unat (b - a) = 18446744073709551616"
      using False by (intro unat_sum_diff64) simp
    have "unat ((b - a) + of_nat i) = unat (b - a) + i"
      using ab assms i by (subst unat_add_lem [THEN iffD1]) (auto simp: apart_def)
    then show ?thesis using assms by (simp add: apart_def algebra_simps)
  qed
qed

lemma load_store_apart:
  assumes "apart a n b k" "k < 2 ^ 63"
  shows "load_n k (store_n n m a v) b = load_n k m b"
proof (rule load_n_cong)
  fix i assume "i < k"
  then have "n \<le> unat (b + of_nat i - a)" using apart_byte assms by blast
  then show "store_n n m a v (b + of_nat i) = m (b + of_nat i)"
    by (simp add: store_n_def)
qed

lemma load_n_bytes:
  assumes "n \<le> 8" "\<And>i. i < n \<Longrightarrow> m (a + of_nat i) = ucast (drop_bit (8 * i) v)"
  shows "load_n n m a = take_bit (8 * n) v"
  using assms
proof (induction n arbitrary: a v)
  case (Suc n)
  have "load_n n m (a + 1) = take_bit (8 * n) (drop_bit 8 v)"
  proof (rule Suc.IH)
    fix i assume "i < n"
    then show "m (a + 1 + of_nat i) = ucast (drop_bit (8 * i) (drop_bit 8 v))"
      using Suc.prems(2) [of "Suc i"] by (simp add: algebra_simps)
  qed (use Suc.prems in simp)
  moreover have "m a = ucast v" using Suc.prems(2) [of 0] by simp
  ultimately show ?case
    by (auto intro!: bit_word_eqI simp: bit_simps not_less less_diff_conv2)
qed simp

lemma load_store_same:
  assumes "n \<le> 8"
  shows "load_n n (store_n n m a v) a = take_bit (8 * n) v"
proof (rule load_n_bytes [OF assms])
  fix i assume "i < n"
  then have "unat (of_nat i :: u64) = i" using assms by (intro unat_of_nat64) simp
  then show "store_n n m a v (a + of_nat i) = ucast (drop_bit (8 * i) v)"
    using \<open>i < n\<close> by (simp add: store_n_def)
qed

definition load64 :: "memory \<Rightarrow> addr \<Rightarrow> u64" where
  "load64 m a = load_n 8 m a"
definition store64 :: "memory \<Rightarrow> addr \<Rightarrow> u64 \<Rightarrow> memory" where
  "store64 m a v = store_n 8 m a v"
definition load32 :: "memory \<Rightarrow> addr \<Rightarrow> u32" where
  "load32 m a = ucast (load_n 4 m a)"
definition load16 :: "memory \<Rightarrow> addr \<Rightarrow> u16" where
  "load16 m a = ucast (load_n 2 m a)"
definition store32 :: "memory \<Rightarrow> addr \<Rightarrow> u32 \<Rightarrow> memory" where
  "store32 m a v = store_n 4 m a (ucast v)"

lemma load64_store64 [simp]: "load64 (store64 m a v) a = v"
  by (simp add: load64_def store64_def load_store_same take_bit_word_eq_self)

lemma load32_store32 [simp]: "load32 (store32 m a v) a = v"
  by (simp add: load32_def store32_def load_store_same) (rule bit_word_eqI, auto simp: bit_simps)

lemma load64_store64_apart: "apart a 8 b 8 \<Longrightarrow> load64 (store64 m a v) b = load64 m b"
  by (simp add: load64_def store64_def load_store_apart)

definition al8 :: "addr \<Rightarrow> bool" where
  "al8 a \<longleftrightarrow> unat a mod 8 = 0"

lemma al8_add: "al8 a \<Longrightarrow> al8 b \<Longrightarrow> al8 (a + b)"
  by (simp add: al8_def unat_plus_if') presburger
lemma al8_diff: "al8 a \<Longrightarrow> al8 b \<Longrightarrow> al8 (a - b)"
  using unat64_lt [of b] by (simp add: al8_def unat_sub_if') presburger

lemma al8_apart:
  assumes "al8 a" "al8 b" "a \<noteq> b"
  shows "apart a 8 b 8"
proof -
  have "8 dvd unat (a - b)" "8 dvd unat (b - a)"
    using assms al8_diff by (auto simp: al8_def dvd_eq_mod_eq_0)
  moreover have "unat (a - b) \<noteq> 0" "unat (b - a) \<noteq> 0" using assms by (auto simp: unat_eq_0)
  ultimately show ?thesis by (auto simp: apart_def dest: dvd_imp_le)
qed


declare load64_store64_apart [mem_simps]

lemma apart_offset [simp]: "apart (p + x) n (p + y) k = apart x n y k"
  by (simp add: apart_def)
lemma apart_offset_left [simp]: "apart p n (p + y) k = apart 0 n y k"
  by (simp add: apart_def)
lemma apart_offset_right [simp]: "apart (p + x) n p k = apart x n 0 k"
  by (simp add: apart_def)

lemma apart_sym: "apart a n b k \<Longrightarrow> apart b k a n"
  by (simp add: apart_def)

lemma al8_load_store:
  "al8 a \<Longrightarrow> al8 b \<Longrightarrow> load64 (store64 m a v) b = (if a = b then v else load64 m b)"
  by (simp add: load64_store64_apart al8_apart)

section \<open>Bitmaps\<close>

lemma TESTBIT_bit: "TESTBIT m a b \<longleftrightarrow> bit (m (a + drop_bit 3 b)) (unat (b mod 8))"
proof -
  have "unat (b mod 8) < 8" by (simp add: unat_mod)
  then show ?thesis
    by (simp add: TESTBIT_def ISSET_def BIT_def push_bit_eq_mult and_exp_eq_0_iff_not_bit bit_simps)
qed

lemma bit_index_eq:
  "(b :: u64) = c \<longleftrightarrow> drop_bit 3 b = drop_bit 3 c \<and> unat (b mod 8) = unat (c mod 8)"
proof
  assume h: "drop_bit 3 b = drop_bit 3 c \<and> unat (b mod 8) = unat (c mod 8)"
  then have "take_bit 3 b = take_bit 3 c" by (simp add: take_bit_eq_mod word_unat_eq_iff)
  then show "b = c" using h by (metis bits_ident)
qed simp

lemma TESTBIT_SETBIT: "TESTBIT (SETBIT m a b) a c \<longleftrightarrow> c = b \<or> TESTBIT m a c"
proof -
  have "unat (b mod 8) < 8" "unat (c mod 8) < 8" by (simp_all add: unat_mod)
  then show ?thesis
    using bit_index_eq [of c b]
    by (auto simp: TESTBIT_bit SETBIT_def Let_def BIT_def bit_simps)
qed

lemma TESTBIT_CLRBIT: "TESTBIT (CLRBIT m a b) a c \<longleftrightarrow> c \<noteq> b \<and> TESTBIT m a c"
proof -
  have "unat (b mod 8) < 8" "unat (c mod 8) < 8" by (simp_all add: unat_mod)
  then show ?thesis
    using bit_index_eq [of c b]
    by (auto simp: TESTBIT_bit CLRBIT_def Let_def BIT_def bit_simps)
qed

section \<open>The machine\<close>

text \<open>
  The part of the machine every component can reach: the memory, the paging registers, the
  interrupt flag of the processor, and the bytes written to the serial port. The theories of
  the components extend this record with the static variables of their C files.
\<close>

record machine =
  mem :: memory
  cr3 :: u64
  cr4 :: u64
  irq_on :: bool
  uart :: "u8 list"

end
