(* ===== verification/Hive_Tlsf_Map.thy ===== *)
theory Hive_Tlsf_Map
  imports Hive_Prelude
begin

text \<open>
  The size classes of the allocator in \<^verbatim>\<open>mm/tlsf.c\<close>: the bit searches, the rounding of request
  sizes, and the two maps from a size to the first-level and second-level index of its free
  list. The kernel is built with a GNU compiler for a 64-bit target, so the variants of the
  bit searches that call \<^verbatim>\<open>__builtin_clz\<close> and \<^verbatim>\<open>__builtin_ffs\<close> are the ones compiled; the generic
  ones are modelled beside them and proved equal.
\<close>

section \<open>Bit searches\<close>

text \<open>The compiler's count of leading zeros, and its position of the lowest set bit from 1.\<close>

fun clz_below :: "nat \<Rightarrow> u32 \<Rightarrow> nat" where
  "clz_below 0 w = 0"
| "clz_below (Suc n) w = (if bit w n then 0 else Suc (clz_below n w))"

definition builtin_clz :: "u32 \<Rightarrow> int" where
  "builtin_clz w = int (clz_below 32 w)"

fun ffs_above :: "nat \<Rightarrow> nat \<Rightarrow> u32 \<Rightarrow> nat" where
  "ffs_above i 0 w = 0"
| "ffs_above i (Suc k) w = (if bit w i then Suc i else ffs_above (Suc i) k w)"

definition builtin_ffs :: "u32 \<Rightarrow> int" where
  "builtin_ffs w = int (ffs_above 0 32 w)"

definition tlsf_ffs :: "u32 \<Rightarrow> int" where
  "tlsf_ffs word = builtin_ffs word - 1"

definition tlsf_fls :: "u32 \<Rightarrow> int" where
  "tlsf_fls word = (let bit = (if word \<noteq> 0 then 32 - builtin_clz word else 0) in bit - 1)"

text \<open>The fallback for other compilers.\<close>

definition tlsf_fls_generic :: "u32 \<Rightarrow> int" where
  "tlsf_fls_generic word = (
     let bit = 32;
         bit = (if word = 0 then bit - 1 else bit);
         (word, bit) = (if word AND 0xffff0000 = 0 then (push_bit 16 word, bit - 16) else (word, bit));
         (word, bit) = (if word AND 0xff000000 = 0 then (push_bit 8 word, bit - 8) else (word, bit));
         (word, bit) = (if word AND 0xf0000000 = 0 then (push_bit 4 word, bit - 4) else (word, bit));
         (word, bit) = (if word AND 0xc0000000 = 0 then (push_bit 2 word, bit - 2) else (word, bit));
         (word, bit) = (if word AND 0x80000000 = 0 then (push_bit 1 word, bit - 1) else (word, bit))
     in bit)"

definition tlsf_ffs_fallback :: "u32 \<Rightarrow> int" where
  "tlsf_ffs_fallback word = tlsf_fls_generic (word AND (NOT word + 1)) - 1"

definition tlsf_fls_fallback :: "u32 \<Rightarrow> int" where
  "tlsf_fls_fallback word = tlsf_fls_generic word - 1"

definition tlsf_fls_sizet :: "u64 \<Rightarrow> int" where
  "tlsf_fls_sizet sz = (
     let high = (ucast (drop_bit 32 sz) :: u32)
     in if high \<noteq> 0 then 32 + tlsf_fls high else tlsf_fls (ucast sz AND 0xffffffff))"

section \<open>Constants\<close>

definition SL_INDEX_COUNT_LOG2 :: nat where "SL_INDEX_COUNT_LOG2 = 5"
definition ALIGN_SIZE_LOG2 :: nat where "ALIGN_SIZE_LOG2 = 3"
definition ALIGN_SIZE :: u64 where "ALIGN_SIZE = push_bit ALIGN_SIZE_LOG2 1"
definition FL_INDEX_MAX :: nat where "FL_INDEX_MAX = 32"
definition SL_INDEX_COUNT :: nat where "SL_INDEX_COUNT = push_bit SL_INDEX_COUNT_LOG2 1"
definition FL_INDEX_SHIFT :: nat where "FL_INDEX_SHIFT = SL_INDEX_COUNT_LOG2 + ALIGN_SIZE_LOG2"
definition FL_INDEX_COUNT :: nat where "FL_INDEX_COUNT = FL_INDEX_MAX - FL_INDEX_SHIFT + 1"
definition SMALL_BLOCK_SIZE :: u64 where "SMALL_BLOCK_SIZE = push_bit FL_INDEX_SHIFT 1"

text \<open>The header of a block is four 64-bit words.\<close>

definition sizeof_block_header_t :: u64 where "sizeof_block_header_t = 32"
definition block_header_overhead :: u64 where "block_header_overhead = 8"
definition block_start_offset :: u64 where "block_start_offset = 8 + 8"
definition block_size_min :: u64 where "block_size_min = sizeof_block_header_t - 8"
definition block_size_max :: u64 where "block_size_max = push_bit FL_INDEX_MAX 1"

lemmas tlsf_consts =
  SL_INDEX_COUNT_LOG2_def ALIGN_SIZE_LOG2_def ALIGN_SIZE_def FL_INDEX_MAX_def SL_INDEX_COUNT_def
  FL_INDEX_SHIFT_def FL_INDEX_COUNT_def SMALL_BLOCK_SIZE_def sizeof_block_header_t_def
  block_header_overhead_def block_start_offset_def block_size_min_def block_size_max_def

lemma tlsf_const_values [simp]:
  "ALIGN_SIZE = 8" "FL_INDEX_COUNT = 25" "SL_INDEX_COUNT = 32" "SMALL_BLOCK_SIZE = 256"
  "FL_INDEX_SHIFT = 8" "SL_INDEX_COUNT_LOG2 = 5" "block_size_min = 24" "block_size_max = 4294967296"
  "sizeof_block_header_t = 32" "block_header_overhead = 8" "block_start_offset = 16"
  by (simp_all add: tlsf_consts push_bit_eq_mult)

section \<open>Rounding\<close>

text \<open>A failing \<^verbatim>\<open>tlsf_assert\<close> panics.\<close>

definition tlsf_assert :: "bool \<Rightarrow> unit option" where
  "tlsf_assert c = (if c then Some () else None)"

definition align_up :: "u64 \<Rightarrow> u64 \<Rightarrow> u64 option" where
  "align_up x align = do {
     tlsf_assert (0 = (align AND (align - 1)));
     Some ((x + (align - 1)) AND NOT (align - 1)) }"

definition align_down :: "u64 \<Rightarrow> u64 \<Rightarrow> u64 option" where
  "align_down x align = do {
     tlsf_assert (0 = (align AND (align - 1)));
     Some (x - (x AND (align - 1))) }"

definition align_ptr :: "addr \<Rightarrow> u64 \<Rightarrow> addr option" where
  "align_ptr ptr align = (
     let aligned = (ptr + (align - 1)) AND NOT (align - 1)
     in do { tlsf_assert (0 = (align AND (align - 1))); Some aligned })"

definition adjust_request_size :: "u64 \<Rightarrow> u64 \<Rightarrow> u64 option" where
  "adjust_request_size sz align =
     (if sz \<noteq> 0 then do {
        aligned \<leftarrow> align_up sz align;
        Some (if aligned < block_size_max then max aligned block_size_min else 0) }
      else Some 0)"

section \<open>Size classes\<close>

text \<open>The indices are never negative, so they are natural numbers here.\<close>

definition mapping_insert :: "u64 \<Rightarrow> nat \<times> nat" where
  "mapping_insert sz =
     (if sz < SMALL_BLOCK_SIZE
      then (0, unat sz div (unat SMALL_BLOCK_SIZE div SL_INDEX_COUNT))
      else let fl = nat (tlsf_fls_sizet sz);
               sl = unat ((ucast (drop_bit (fl - SL_INDEX_COUNT_LOG2) sz) :: u32)
                          XOR push_bit SL_INDEX_COUNT_LOG2 1)
           in (fl - (FL_INDEX_SHIFT - 1), sl))"

text \<open>The shift of an \<^verbatim>\<open>int\<close> here is by at most 26, as the only caller passes a size below 2^32.\<close>

definition mapping_search :: "u64 \<Rightarrow> nat \<times> nat" where
  "mapping_search sz =
     (let sz = (if sz \<ge> SMALL_BLOCK_SIZE
                  then let round = push_bit (nat (tlsf_fls_sizet sz) - SL_INDEX_COUNT_LOG2) 1 - 1
                       in sz + round
                  else sz)
      in mapping_insert sz)"

section \<open>The bit searches agree\<close>

text \<open>The position of the highest set bit of a number.\<close>

definition top_bit :: "nat \<Rightarrow> nat \<Rightarrow> bool" where
  "top_bit n k \<longleftrightarrow> 2 ^ k \<le> n \<and> n < 2 ^ Suc k"

lemma top_bit_unique: "top_bit n k \<Longrightarrow> top_bit n l \<Longrightarrow> k = l"
proof -
  have "k \<le> l" if "top_bit n k" "top_bit n l" for k l
  proof -
    have "(2 :: nat) ^ k < 2 ^ Suc l" using that by (auto simp: top_bit_def)
    then have "k < Suc l" by (rule power_less_imp_less_exp [rotated]) simp
    then show ?thesis by simp
  qed
  then show "top_bit n k \<Longrightarrow> top_bit n l \<Longrightarrow> k = l" by (meson le_antisym)
qed

lemma top_bit_ex: "0 < n \<Longrightarrow> \<exists>k. top_bit n k"
proof (induction n rule: less_induct)
  case (less n)
  show ?case
  proof (cases "n = 1")
    case False
    then have "0 < n div 2" "n div 2 < n" using less.prems by auto
    then obtain k where "top_bit (n div 2) k" using less.IH by blast
    then have "top_bit n (Suc k)" by (auto simp: top_bit_def)
    then show ?thesis ..
  qed (auto simp: top_bit_def intro: exI [of _ 0])
qed

lemma top_bit_shift: "top_bit n k \<Longrightarrow> top_bit (n * 2 ^ s) (k + s)"
  by (simp add: top_bit_def power_add)

lemma top_bit_less: "top_bit n k \<Longrightarrow> n < 2 ^ m \<Longrightarrow> k < m"
  unfolding top_bit_def by (metis le_less_trans power_less_imp_less_exp one_less_numeral_iff semiring_norm(76))

lemma top_bit_ge: "top_bit n k \<Longrightarrow> 2 ^ m \<le> n \<Longrightarrow> m \<le> k"
proof -
  assume "top_bit n k" "2 ^ m \<le> n"
  then have "(2 :: nat) ^ m < 2 ^ Suc k" by (simp add: top_bit_def)
  then have "m < Suc k" by (rule power_less_imp_less_exp [rotated]) simp
  then show "m \<le> k" by simp
qed

lemma clz_below_top: "top_bit (unat w) k \<Longrightarrow> unat w < 2 ^ n \<Longrightarrow> k + clz_below n w + 1 = n"
proof (induction n)
  case (Suc n)
  show ?case
  proof (cases "bit w n")
    case True
    have "2 ^ n \<le> unat w"
    proof (rule ccontr)
      assume "\<not> 2 ^ n \<le> unat w"
      then have "\<not> bit (unat w) n" by (simp add: bit_iff_odd)
      then show False using True by (simp add: bit_unsigned_iff)
    qed
    then have "n \<le> k" "k < Suc n" using Suc.prems top_bit_ge top_bit_less by blast+
    then show ?thesis using True by simp
  next
    case False
    have "unat w < 2 ^ n"
    proof (rule ccontr)
      assume a: "\<not> unat w < 2 ^ n"
      then have "unat w div 2 ^ n = 1" using Suc.prems(2) by (intro div_nat_eqI) auto
      then have "bit (unat w) n" by (simp add: bit_iff_odd)
      then show False using False by (simp add: bit_unsigned_iff)
    qed
    then show ?thesis using Suc False by simp
  qed
qed (simp add: top_bit_def)

lemma unat32_lt: "unat (w :: u32) < 2 ^ 32"
  using unsigned_less [of w, where 'a = nat] by simp

lemma tlsf_fls_top: "top_bit (unat w) k \<Longrightarrow> tlsf_fls w = int k"
proof -
  assume t: "top_bit (unat w) k"
  then have "w \<noteq> 0" by (auto simp: top_bit_def)
  then show ?thesis
    using clz_below_top [OF t unat32_lt] by (simp add: tlsf_fls_def builtin_clz_def)
qed

lemma tlsf_fls_0: "tlsf_fls 0 = - 1"
  by (simp add: tlsf_fls_def)

lemma tlsf_fls_sizet_top:
  assumes "top_bit (unat w) k"
  shows "tlsf_fls_sizet w = int k"
proof -
  let ?h = "ucast (drop_bit 32 w) :: u32" and ?l = "ucast w AND 0xffffffff :: u32"
  have m: "(0xffffffff :: u32) = mask 32" by (simp add: mask_eq_exp_minus_1)
  have h: "unat ?h = unat w div 4294967296"
    using unat64_lt [of w] by (simp add: unsigned_ucast_eq take_bit_nat_eq_self unat_div drop_bit_eq_div less_mult_imp_div_less)
  have l: "unat ?l = unat w mod 4294967296"
  proof -
    have "?l = ucast w" unfolding m by (rule bit_word_eqI) (auto simp: bit_simps)
    then show ?thesis by (simp add: unsigned_ucast_eq take_bit_nat_def)
  qed
  show ?thesis
  proof (cases "?h = 0")
    case True
    then have "unat w < 4294967296" using h by (simp add: div_eq_0_iff)
    then have "top_bit (unat ?l) k" using assms l by simp
    then show ?thesis using True tlsf_fls_top by (simp add: tlsf_fls_sizet_def)
  next
    case False
    have "0 < unat ?h" using False by (simp add: unat_gt_0)
    then obtain k' where k': "top_bit (unat ?h) k'" using top_bit_ex by blast
    have "top_bit (unat w) (k' + 32)"
    proof -
      have "2 ^ k' \<le> unat w div 4294967296" "unat w div 4294967296 < 2 ^ Suc k'" using k' h by (simp_all add: top_bit_def)
      then have "2 ^ k' * 4294967296 \<le> unat w" "unat w < 2 ^ Suc k' * 4294967296"
        by (auto simp: less_eq_div_iff_mult_less_eq div_less_iff_less_mult)
      then show ?thesis by (simp add: top_bit_def power_add)
    qed
    then have "k = k' + 32" using assms top_bit_unique by blast
    then show ?thesis using False tlsf_fls_top [OF k'] by (simp add: tlsf_fls_sizet_def)
  qed
qed

lemma and_high_zero: "(w :: u32) AND NOT (mask n) = 0 \<longleftrightarrow> unat w < 2 ^ n"
proof -
  have "w AND NOT (mask n) = push_bit n (drop_bit n w)"
    by (rule bit_word_eqI) (auto simp: bit_simps)
  moreover have "push_bit n (drop_bit n w) = 0 \<longleftrightarrow> drop_bit n w = 0"
  proof
    assume "push_bit n (drop_bit n w) = 0"
    then have "bit (push_bit n (drop_bit n w)) (n + i) = False" for i by simp
    moreover have "n + i < 32" if "bit w (n + i)" for i using bit_imp_le_length [OF that] by simp
    ultimately show "drop_bit n w = 0"
      by (intro bit_word_eqI) (auto simp: bit_simps)
  qed simp
  moreover have "unat (drop_bit n w) = unat w div 2 ^ n"
    by (metis unat_drop_bit_eq drop_bit_eq_div)
  then have "drop_bit n w = 0 \<longleftrightarrow> unat w div 2 ^ n = 0" by (metis unat_eq_0)
  ultimately show ?thesis by (simp add: div_eq_0_iff)
qed

definition fls_step :: "nat \<Rightarrow> u32 \<times> int \<Rightarrow> u32 \<times> int" where
  "fls_step s wb = (if fst wb AND NOT (mask (32 - s)) = 0 then (push_bit s (fst wb), snd wb - int s) else wb)"

text \<open>After a step of width \<open>s\<close> the highest bit is in the upper \<open>s\<close> bits of the word.\<close>

definition fls_inv :: "int \<Rightarrow> nat \<Rightarrow> u32 \<times> int \<Rightarrow> bool" where
  "fls_inv k s wb \<longleftrightarrow> (\<exists>j. top_bit (unat (fst wb)) j \<and> snd wb = k + 32 - int j \<and> 32 - s \<le> j)"

lemma fls_step_inv:
  assumes "fls_inv k s' wb" "s' \<le> 2 * s" "s \<le> 32"
  shows "fls_inv k s (fls_step s wb)"
proof -
  obtain w b where wb: "wb = (w, b)" by (cases wb)
  obtain j where j: "top_bit (unat w) j" "b = k + 32 - int j" "32 - s' \<le> j"
    using assms(1) by (auto simp: fls_inv_def wb)
  show ?thesis
  proof (cases "unat w < 2 ^ (32 - s)")
    case True
    have "unat w * 2 ^ s < 2 ^ (32 - s) * 2 ^ s" using True by simp
    also have "(2 :: nat) ^ (32 - s) * 2 ^ s = 2 ^ 32" using assms(3) by (simp flip: power_add)
    finally have "take_bit 32 (unat w * 2 ^ s) = unat w * 2 ^ s" by (simp only: take_bit_nat_eq_self)
    then have "unat (push_bit s w) = unat w * 2 ^ s"
      by (simp only: unsigned_push_bit_eq) (simp add: push_bit_eq_mult)
    then have "top_bit (unat (push_bit s w)) (j + s)" using top_bit_shift [OF j(1), of s] by simp
    moreover have "32 - s \<le> j + s" using j(3) assms(2) by simp
    ultimately show ?thesis using j True and_high_zero by (auto simp: fls_inv_def fls_step_def wb intro!: exI [of _ "j + s"])
  next
    case False
    then have "32 - s \<le> j" using top_bit_ge [OF j(1)] by simp
    then show ?thesis using j False and_high_zero by (auto simp: fls_inv_def fls_step_def wb)
  qed
qed

lemma tlsf_fls_generic_steps:
  "tlsf_fls_generic w = snd (fls_step 1 (fls_step 2 (fls_step 4 (fls_step 8 (fls_step 16
     (w, if w = 0 then 31 else 32))))))"
proof -
  have m: "NOT (mask 16) = (0xffff0000 :: u32)" "NOT (mask 24) = (0xff000000 :: u32)"
    "NOT (mask 28) = (0xf0000000 :: u32)" "NOT (mask 30) = (0xc0000000 :: u32)" "NOT (mask 31) = (0x80000000 :: u32)"
    by (simp_all add: mask_eq_exp_minus_1)
  show ?thesis
    unfolding tlsf_fls_generic_def fls_step_def Let_def
    by (simp add: m)
qed

lemma tlsf_fls_generic_top: "top_bit (unat w) k \<Longrightarrow> tlsf_fls_generic w = int k + 1"
proof -
  assume t: "top_bit (unat w) k"
  then have w: "w \<noteq> 0" by (auto simp: top_bit_def)
  have "fls_inv (int k) 32 (w, 32)"
    using t top_bit_less [OF t unat32_lt] by (auto simp: fls_inv_def)
  then have "fls_inv (int k) 1 (fls_step 1 (fls_step 2 (fls_step 4 (fls_step 8 (fls_step 16 (w, 32))))))"
    by (intro fls_step_inv [of _ 2] fls_step_inv [of _ 4] fls_step_inv [of _ 8] fls_step_inv [of _ 16] fls_step_inv [of _ 32]) simp_all
  then obtain j where j: "top_bit (unat (fst (fls_step 1 (fls_step 2 (fls_step 4 (fls_step 8 (fls_step 16 (w, 32)))))))) j"
    "tlsf_fls_generic w = int k + 32 - int j" "31 \<le> j"
    using w by (auto simp: fls_inv_def tlsf_fls_generic_steps)
  have "j < 32" using top_bit_less [OF j(1) unat32_lt] .
  then show ?thesis using j by simp
qed

lemma tlsf_fls_generic_fls: "tlsf_fls_generic w = tlsf_fls w + 1"
proof (cases "w = 0")
  case False
  then have "0 < unat w" by (simp add: unat_gt_0)
  then obtain k where "top_bit (unat w) k" using top_bit_ex by blast
  then show ?thesis using tlsf_fls_generic_top tlsf_fls_top by simp
qed (simp add: tlsf_fls_generic_def tlsf_fls_def)

text \<open>The position of the lowest set bit.\<close>

definition low_bit :: "u32 \<Rightarrow> nat \<Rightarrow> bool" where
  "low_bit w i \<longleftrightarrow> bit w i \<and> (\<forall>j < i. \<not> bit w j)"

lemma low_bit_ex: "w \<noteq> 0 \<Longrightarrow> \<exists>i < 32. low_bit w i"
proof -
  assume "w \<noteq> 0"
  then obtain n where n: "bit w n" by (auto simp: bit_eq_iff)
  define i where "i = (LEAST i. bit w i)"
  have "bit w i" unfolding i_def using n by (rule LeastI)
  moreover have "\<forall>j < i. \<not> bit w j" unfolding i_def using not_less_Least by blast
  ultimately show ?thesis using bit_imp_le_length [of w i] by (intro exI [of _ i]) (simp add: low_bit_def)
qed

lemma ffs_above_low: "low_bit w i \<Longrightarrow> a \<le> i \<Longrightarrow> i < a + k \<Longrightarrow> ffs_above a k w = Suc i"
proof (induction k arbitrary: a)
  case (Suc k)
  show ?case
  proof (cases "a = i")
    case False
    then have "\<not> bit w a" "Suc a \<le> i" using Suc.prems by (auto simp: low_bit_def)
    then show ?thesis using Suc by simp
  qed (use Suc.prems in \<open>simp add: low_bit_def\<close>)
qed simp

lemma tlsf_ffs_low: "low_bit w i \<Longrightarrow> tlsf_ffs w = int i"
proof -
  assume l: "low_bit w i"
  then have "i < 32" using bit_imp_le_length [of w i] by (simp add: low_bit_def)
  then show ?thesis using ffs_above_low [OF l, of 0 32] by (simp add: tlsf_ffs_def builtin_ffs_def)
qed

lemma tlsf_ffs_0: "tlsf_ffs 0 = - 1"
proof -
  have "ffs_above a k 0 = 0" for a k by (induction k arbitrary: a) simp_all
  then show ?thesis by (simp add: tlsf_ffs_def builtin_ffs_def)
qed

lemma lowest_bit_isolated:
  assumes "low_bit w i"
  shows "w AND (NOT w + 1) = 2 ^ i"
proof -
  let ?v = "drop_bit i w"
  have "take_bit i w = 0" using assms by (intro bit_word_eqI) (auto simp: bit_simps low_bit_def)
  then have w: "w = push_bit i ?v" using bits_ident [of i w] by simp
  have odd: "odd ?v" using assms by (simp add: low_bit_def flip: bit_0) (simp add: bit_simps)
  have "NOT w + 1 = push_bit i (- ?v)"
    using w by (metis minus_eq_not_plus_1 push_bit_minus)
  moreover have "- ?v = NOT ?v OR 1" using odd by (simp add: minus_eq_not_plus_1 or_one_eq)
  moreover have "?v AND (NOT ?v OR 1) = 1"
  proof (rule bit_word_eqI)
    fix n
    have "bit ?v 0" using odd by (simp add: bit_0)
    then show "bit (?v AND (NOT ?v OR 1)) n = bit (1 :: u32) n"
      by (cases n) (auto simp: bit_and_iff bit_or_iff bit_not_iff bit_1_iff simp del: bit_0)
  qed
  ultimately have "w AND (NOT w + 1) = push_bit i 1" using w by (metis push_bit_and)
  then show ?thesis by (simp add: push_bit_eq_mult)
qed

text \<open>
  C31: The bit searches of the fallback code compute what the compiler's builtins give, for every
  word, and these are the position of the highest and of the lowest set bit, or -1 for zero; the
  64-bit search finds the highest set bit of every non-zero size.
\<close>

theorem tlsf_bit_searches:
  "tlsf_fls_fallback w = tlsf_fls w \<and> tlsf_ffs_fallback w = tlsf_ffs w \<and>
   tlsf_fls w = (if w = 0 then - 1 else int (GREATEST i. bit w i)) \<and>
   tlsf_ffs w = (if w = 0 then - 1 else int (LEAST i. bit w i)) \<and>
   (sz = 0 \<or> 2 ^ nat (tlsf_fls_sizet sz) \<le> unat sz \<and> unat sz < 2 * 2 ^ nat (tlsf_fls_sizet sz))"
proof (intro conjI)
  show "tlsf_fls_fallback w = tlsf_fls w" by (simp add: tlsf_fls_fallback_def tlsf_fls_generic_fls)
  show "tlsf_ffs_fallback w = tlsf_ffs w"
  proof (cases "w = 0")
    case False
    then obtain i where i: "i < 32" "low_bit w i" using low_bit_ex by blast
    have "(2 :: nat) ^ i < 2 ^ 32" using i(1) by (intro power_strict_increasing) simp_all
    then have "unat (of_nat (2 ^ i) :: u32) = 2 ^ i"
      by (simp only: unat_of_nat) (simp add: take_bit_nat_eq_self)
    then have "top_bit (unat (2 ^ i :: u32)) i" by (simp add: top_bit_def)
    then show ?thesis
      using i by (simp add: tlsf_ffs_fallback_def lowest_bit_isolated tlsf_fls_generic_top tlsf_ffs_low)
  qed (simp add: tlsf_ffs_fallback_def tlsf_ffs_0 tlsf_fls_generic_def)
  show "tlsf_fls w = (if w = 0 then - 1 else int (GREATEST i. bit w i))"
  proof (cases "w = 0")
    case False
    then have "0 < unat w" by (simp add: unat_gt_0)
    then obtain k where k: "top_bit (unat w) k" using top_bit_ex by blast
    have "bit (unat w) k"
    proof -
      have "unat w div 2 ^ k = 1" using k by (intro div_nat_eqI) (auto simp: top_bit_def)
      then show ?thesis by (simp add: bit_iff_odd)
    qed
    then have "bit w k" by (simp add: bit_unsigned_iff)
    moreover have "i \<le> k" if "bit w i" for i
    proof (rule ccontr)
      assume "\<not> i \<le> k"
      then have "(2 :: nat) ^ Suc k \<le> 2 ^ i" by (intro power_increasing) simp_all
      then have "\<not> bit (unat w) i" using k by (simp add: top_bit_def bit_iff_odd)
      then show False using that bit_imp_le_length [OF that] by (simp add: bit_unsigned_iff)
    qed
    ultimately have "(GREATEST i. bit w i) = k" by (rule Greatest_equality)
    then show ?thesis using False tlsf_fls_top [OF k] by simp
  qed (simp add: tlsf_fls_0)
  show "tlsf_ffs w = (if w = 0 then - 1 else int (LEAST i. bit w i))"
  proof (cases "w = 0")
    case False
    then obtain i where i: "low_bit w i" using low_bit_ex by blast
    then have "(LEAST i. bit w i) = i" by (intro Least_equality) (auto simp: low_bit_def not_le [symmetric])
    then show ?thesis using False tlsf_ffs_low [OF i] by simp
  qed (simp add: tlsf_ffs_0)
  show "sz = 0 \<or> 2 ^ nat (tlsf_fls_sizet sz) \<le> unat sz \<and> unat sz < 2 * 2 ^ nat (tlsf_fls_sizet sz)"
  proof (cases "sz = 0")
    case False
    then have "0 < unat sz" by (simp add: unat_gt_0)
    then obtain k where "top_bit (unat sz) k" using top_bit_ex by blast
    then show ?thesis using tlsf_fls_sizet_top by (simp add: top_bit_def)
  qed simp
qed

lemma tlsf_bit_searches_witness:
  "tlsf_fls_fallback 0x80000008 = tlsf_fls 0x80000008 \<and> 2 ^ nat (tlsf_fls_sizet 0x100000000) \<le> unat (0x100000000 :: u64)"
  using tlsf_bit_searches [of "0x80000008" "0x100000000"] by simp

section \<open>The size classes\<close>

text \<open>The smallest size of a class, and the width of the classes of a first-level index.\<close>

definition class_size :: "nat \<Rightarrow> nat \<Rightarrow> nat" where
  "class_size fl sl = (if fl = 0 then sl * 8 else 2 ^ (fl + 7) + sl * 2 ^ (fl + 2))"

definition class_width :: "nat \<Rightarrow> nat" where
  "class_width fl = (if fl = 0 then 8 else 2 ^ (fl + 2))"

lemma xor_32: "32 \<le> q \<Longrightarrow> q < 64 \<Longrightarrow> unat ((of_nat q :: u32) XOR 32) = q - 32"
proof -
  have "\<forall>q \<in> set [32..<64]. unat ((of_nat q :: u32) XOR 32) = q - 32" by code_simp
  moreover assume "32 \<le> q" "q < 64"
  then have "q \<in> set [32..<64]" by (simp only: set_upt atLeastLessThan_iff)
  ultimately show "unat ((of_nat q :: u32) XOR 32) = q - 32" by (rule bspec)
qed

lemma top_bit_div:
  assumes "top_bit n k" "s \<le> k"
  shows "2 ^ (k - s) \<le> n div 2 ^ s" "n div 2 ^ s < 2 ^ Suc (k - s)"
proof -
  have "2 ^ (k - s) * 2 ^ s = (2 :: nat) ^ k" using assms(2) by (simp flip: power_add)
  then show "2 ^ (k - s) \<le> n div 2 ^ s" "n div 2 ^ s < 2 ^ Suc (k - s)"
    using assms(1) by (simp_all add: top_bit_def less_eq_div_iff_mult_less_eq div_less_iff_less_mult mult.assoc)
qed

lemma mapping_insert_small: "unat sz < 256 \<Longrightarrow> mapping_insert sz = (0, unat sz div 8)"
  by (simp add: mapping_insert_def word_less_nat_alt)

lemma mapping_insert_big:
  assumes t: "top_bit (unat sz) k" and k: "8 \<le> k"
  shows "mapping_insert sz = (k - 7, unat sz div 2 ^ (k - 5) - 32)"
proof -
  let ?q = "unat sz div 2 ^ (k - 5)"
  have "(2 :: nat) ^ 8 \<le> 2 ^ k" using k by (intro power_increasing) simp_all
  then have big: "\<not> unat sz < 256" using t by (simp add: top_bit_def)
  have q: "32 \<le> ?q" "?q < 64" using top_bit_div [OF t, of "k - 5"] k by simp_all
  have "unat (drop_bit (k - 5) sz) = ?q" by (metis unat_drop_bit_eq drop_bit_eq_div)
  then have "(ucast (drop_bit (k - 5) sz) :: u32) = of_nat ?q" by (metis of_nat_unat)
  then show ?thesis
    using big tlsf_fls_sizet_top [OF t] xor_32 [OF q]
    by (simp add: mapping_insert_def Let_def word_less_nat_alt push_bit_eq_mult)
qed

lemma class_size_big:
  assumes t: "top_bit n k" and k: "8 \<le> k"
  shows "class_size (k - 7) (n div 2 ^ (k - 5) - 32) = n div 2 ^ (k - 5) * 2 ^ (k - 5)"
    "class_width (k - 7) = 2 ^ (k - 5)"
proof -
  have q: "32 \<le> n div 2 ^ (k - 5)" using top_bit_div(1) [OF t, of "k - 5"] k by simp
  have e: "k - 7 + 7 = k" "k - 7 + 2 = k - 5" using k by auto
  have "(2 :: nat) ^ k = 32 * 2 ^ (k - 5)"
    using k power_add [of "2 :: nat" 5 "k - 5"] by simp
  then show "class_size (k - 7) (n div 2 ^ (k - 5) - 32) = n div 2 ^ (k - 5) * 2 ^ (k - 5)"
    unfolding class_size_def e using k q by (simp add: diff_mult_distrib)
  show "class_width (k - 7) = 2 ^ (k - 5)" unfolding class_width_def e using k by simp
qed

lemma mapping_cases:
  obtains (small) "unat sz < 256" | (big) k where "top_bit (unat sz) k" "8 \<le> k" "256 \<le> unat sz"
proof (cases "unat sz < 256")
  case False
  then obtain k where k: "top_bit (unat sz) k" using top_bit_ex by (metis gr0I not_less zero_less_numeral)
  then have "8 \<le> k" using False top_bit_ge [OF k, of 8] by simp
  then show ?thesis using k False that(2) by simp
qed (use that in blast)

lemma mapping_insert_in_class:
  assumes "mapping_insert sz = (fl, sl)"
  shows "class_size fl sl \<le> unat sz" "unat sz < class_size fl sl + class_width fl" "sl < 32"
    "unat sz < 4294967296 \<Longrightarrow> fl < 25"
proof -
  have "class_size fl sl \<le> unat sz \<and> unat sz < class_size fl sl + class_width fl \<and> sl < 32 \<and>
    (unat sz < 4294967296 \<longrightarrow> fl < 25)"
  proof (cases sz rule: mapping_cases)
    case small
    then show ?thesis using assms mapping_insert_small [OF small]
      by (auto simp: class_size_def class_width_def)
  next
    case (big k)
    have e: "fl = k - 7" "sl = unat sz div 2 ^ (k - 5) - 32"
      using assms mapping_insert_big [OF big(1,2)] by simp_all
    have "unat sz div 2 ^ (k - 5) < 64" using top_bit_div(2) [OF big(1), of "k - 5"] big(2) by simp
    moreover have "unat sz < unat sz div 2 ^ (k - 5) * 2 ^ (k - 5) + 2 ^ (k - 5)"
      using dividend_less_div_times [of "2 ^ (k - 5)" "unat sz"] by simp
    moreover have "k < 32" if "unat sz < 4294967296" using top_bit_less [OF big(1), of 32] that by simp
    ultimately show ?thesis unfolding e class_size_big [OF big(1,2)] using big(2) by auto
  qed
  then show "class_size fl sl \<le> unat sz" "unat sz < class_size fl sl + class_width fl" "sl < 32"
    "unat sz < 4294967296 \<Longrightarrow> fl < 25" by auto
qed

text \<open>The classes are ordered like their indices.\<close>

definition class_le :: "nat \<times> nat \<Rightarrow> nat \<times> nat \<Rightarrow> bool" where
  "class_le a b \<longleftrightarrow> fst a < fst b \<or> (fst a = fst b \<and> snd a \<le> snd b)"

lemma class_size_mono:
  assumes "class_le (fl, sl) (fl', sl')" "sl < 32"
  shows "class_size fl sl \<le> class_size fl' sl'"
proof (cases "fl < fl'")
  case True
  have "class_size fl sl \<le> 2 ^ (fl + 8)"
  proof (cases "fl = 0")
    case False
    have "sl * 2 ^ (fl + 2) \<le> 32 * 2 ^ (fl + 2)" using assms(2) by simp
    then show ?thesis using False by (simp add: class_size_def power_add)
  qed (use assms(2) in \<open>simp add: class_size_def\<close>)
  also have "(2 :: nat) ^ (fl + 8) \<le> 2 ^ (fl' + 7)" using True by (intro power_increasing) simp_all
  also have "\<dots> \<le> class_size fl' sl'" using True by (simp add: class_size_def)
  finally show ?thesis .
qed (use assms in \<open>auto simp: class_le_def class_size_def\<close>)

text \<open>Every size of the class found by \<^verbatim>\<open>mapping_search\<close>, and of every later class, is enough.\<close>

lemma mapping_search_class:
  assumes "mapping_search sz = (fl, sl)" "unat sz < 4294967296" "unat sz mod 8 = 0"
  shows "unat sz \<le> class_size fl sl" "sl < 32"
proof -
  have "unat sz \<le> class_size fl sl \<and> sl < 32"
  proof (cases sz rule: mapping_cases)
    case small
    then have "mapping_search sz = (0, unat sz div 8)"
      by (simp add: mapping_search_def word_le_nat_alt mapping_insert_small)
    then show ?thesis using assms small by (auto simp: class_size_def)
  next
    case (big k)
    let ?r = "push_bit (k - 5) 1 - 1 :: u64"
    have k: "k < 32" using top_bit_less [OF big(1), of 32] assms(2) by simp
    have p: "(2 :: nat) ^ (k - 5) \<le> 2 ^ 26" using k by (intro power_increasing) simp_all
    have ur: "unat ?r = 2 ^ (k - 5) - 1"
      using k by (simp add: push_bit_eq_mult unat_sub64 unat_exp64)
    let ?s = "sz + ?r"
    have us: "unat ?s = unat sz + (2 ^ (k - 5) - 1)"
      using ur p assms(2) by (subst unat_add64) simp_all
    have ms: "mapping_insert ?s = (fl, sl)"
      using assms(1) big(3) tlsf_fls_sizet_top [OF big(1)] by (simp add: mapping_search_def word_le_nat_alt Let_def)
    have "256 \<le> unat ?s" using us big(3) by (metis le_add1 le_trans)
    then obtain k' where k': "top_bit (unat ?s) k'" "8 \<le> k'"
      by (cases ?s rule: mapping_cases) auto
    have e: "fl = k' - 7" "sl = unat ?s div 2 ^ (k' - 5) - 32"
      using ms mapping_insert_big [OF k'] by simp_all
    have sl: "sl < 32" using mapping_insert_in_class(3) [OF ms] .
    have pk: "(2 :: nat) ^ k = 32 * 2 ^ (k - 5)" using big(2) power_add [of "2 :: nat" 5 "k - 5"] by simp
    consider "k' = k" | "k < k'"
      using top_bit_ge [OF k'(1), of k] big(1) us by (fastforce simp: top_bit_def)
    then have "unat sz \<le> class_size fl sl"
    proof cases
      case 1
      have "unat sz \<le> (unat sz + (2 ^ (k - 5) - 1)) div 2 ^ (k - 5) * 2 ^ (k - 5)"
      proof -
        let ?p = "(2 :: nat) ^ (k - 5)"
        have "0 < ?p" by simp
        moreover have "unat sz + (?p - 1) < ?p + (unat sz + (?p - 1)) div ?p * ?p"
          by (rule dividend_less_div_times) simp
        ultimately show ?thesis by linarith
      qed
      then have "unat sz \<le> unat ?s div 2 ^ (k' - 5) * 2 ^ (k' - 5)" by (simp only: us 1)
      then show ?thesis unfolding e class_size_big [OF k'] .
    next
      case 2
      have "unat sz < 2 ^ Suc k" using big(1) by (simp add: top_bit_def)
      also have "(2 :: nat) ^ Suc k \<le> 2 ^ k'" using 2 by (intro power_increasing) simp_all
      also have "\<dots> \<le> class_size fl sl" using k'(2) by (simp add: e class_size_def)
      finally show ?thesis by simp
    qed
    then show ?thesis using sl by simp
  qed
  then show "unat sz \<le> class_size fl sl" "sl < 32" by auto
qed

text \<open>
  The indices of a block size below 2^32 are inside the arrays of the control structure, and
  the size lies in the class of its indices, between the smallest size of the class and that of
  the next one. The size 2^32 itself, which \<^verbatim>\<open>tlsf_add_pool\<close> still accepts, has the
  first-level index 25, one behind the last.
\<close>

theorem mapping_insert_class:
  "(unat sz < 4294967296 \<longrightarrow> fst (mapping_insert sz) < FL_INDEX_COUNT) \<and>
   snd (mapping_insert sz) < SL_INDEX_COUNT \<and>
   class_size (fst (mapping_insert sz)) (snd (mapping_insert sz)) \<le> unat sz \<and>
   unat sz < class_size (fst (mapping_insert sz)) (snd (mapping_insert sz)) + class_width (fst (mapping_insert sz)) \<and>
   mapping_insert block_size_max = (FL_INDEX_COUNT, 0)"
proof -
  have t: "top_bit (unat block_size_max) 32" by (simp add: top_bit_def)
  have "mapping_insert block_size_max = (FL_INDEX_COUNT, 0)" using mapping_insert_big [OF t] by simp
  then show ?thesis using mapping_insert_in_class [of sz "fst (mapping_insert sz)" "snd (mapping_insert sz)"] by auto
qed

lemma mapping_insert_class_witness:
  "fst (mapping_insert 0x1000) < FL_INDEX_COUNT \<and> snd (mapping_insert 0x1000) < SL_INDEX_COUNT"
  using mapping_insert_class [of "0x1000"] by simp

text \<open>
  C30: The good-fit guarantee: for a request that is a multiple of the alignment, every block
  whose size class is the one \<^verbatim>\<open>mapping_search\<close> computes, or any later one, is at least as large as
  the request.
\<close>

theorem mapping_search_good_fit:
  assumes "unat req < 4294967296" "unat req mod 8 = 0"
    and "class_le (mapping_search req) (mapping_insert sz)"
  shows "req \<le> sz"
proof -
  obtain fl sl where s: "mapping_search req = (fl, sl)" by (cases "mapping_search req")
  obtain fl' sl' where i: "mapping_insert sz = (fl', sl')" by (cases "mapping_insert sz")
  have "unat req \<le> class_size fl sl" "sl < 32" using mapping_search_class [OF s assms(1,2)] .
  moreover have "class_size fl sl \<le> class_size fl' sl'"
    using class_size_mono assms(3) \<open>sl < 32\<close> s i by simp
  ultimately show ?thesis using mapping_insert_in_class(1) [OF i] by (simp add: word_le_nat_alt)
qed

lemma mapping_search_good_fit_witness: "(1000 :: u64) \<le> 4096"
proof (rule mapping_search_good_fit)
  have "tlsf_fls_sizet 1000 = 9" using tlsf_fls_sizet_top [of 1000 9] by (simp add: top_bit_def)
  moreover have "mapping_insert 1015 = (2, 31)" using mapping_insert_big [of 1015 9] by (simp add: top_bit_def)
  moreover have "mapping_insert 4096 = (5, 0)" using mapping_insert_big [of 4096 12] by (simp add: top_bit_def)
  ultimately show "class_le (mapping_search 1000) (mapping_insert 4096)"
    by (simp add: mapping_search_def push_bit_eq_mult class_le_def)
qed simp_all

section \<open>Which blocks the search finds\<close>

lemma class_next:
  assumes "class_le (i, j) (i', j')" "(i, j) \<noteq> (i', j')" "j < 32" "j' < 32"
  shows "class_size i j + class_width i \<le> class_size i' j'"
proof (cases "i = i'")
  case True
  then have "Suc j \<le> j'" using assms(1,2) by (simp add: class_le_def)
  then have "class_size i (Suc j) \<le> class_size i' j'" unfolding True using assms(4) by (intro class_size_mono) (auto simp: class_le_def)
  then show ?thesis by (simp add: class_size_def class_width_def split: if_splits)
next
  case False
  then have "i < i'" using assms(1) by (simp add: class_le_def)
  have "class_size i j + class_width i \<le> class_size i 32"
  proof -
    have "Suc j * 2 ^ (i + 2) \<le> 32 * (2 :: nat) ^ (i + 2)" using assms(3) by (intro mult_le_mono1) simp
    then have "class_size i (Suc j) \<le> class_size i 32" using assms(3) by (auto simp: class_size_def)
    then show ?thesis by (simp add: class_size_def class_width_def split: if_splits)
  qed
  also have "\<dots> = class_size (Suc i) 0" by (simp add: class_size_def power_add)
  also have "\<dots> \<le> class_size i' j'"
    using \<open>i < i'\<close> by (intro class_size_mono) (auto simp: class_le_def)
  finally show ?thesis .
qed

lemma mapping_insert_mono:
  assumes "unat x \<le> unat y"
  shows "class_le (mapping_insert x) (mapping_insert y)"
proof -
  obtain i j where x: "mapping_insert x = (i, j)" by (cases "mapping_insert x")
  obtain i' j' where y: "mapping_insert y = (i', j')" by (cases "mapping_insert y")
  note cx = mapping_insert_in_class(1-3) [OF x] and cy = mapping_insert_in_class(1-3) [OF y]
  show ?thesis
  proof (rule ccontr)
    assume "\<not> ?thesis"
    then have "class_le (i', j') (i, j)" "(i', j') \<noteq> (i, j)" using x y by (auto simp: class_le_def)
    then have "class_size i' j' + class_width i' \<le> class_size i j" using class_next cx(3) cy(3) by blast
    then show False using cx(1) cy(2) assms by simp
  qed
qed

text \<open>A block a thirty-second larger than the request is in a class the search looks at.\<close>

lemma mapping_search_finds:
  assumes "unat q < 4294967296" "unat q + unat q div 32 \<le> unat s"
  shows "class_le (mapping_search q) (mapping_insert s)"
proof (cases "unat q < 256")
  case True
  then have "mapping_search q = mapping_insert q" by (simp add: mapping_search_def word_le_nat_alt)
  then show ?thesis using mapping_insert_mono assms(2) by simp
next
  case False
  obtain k where k: "top_bit (unat q) k" using top_bit_ex [of "unat q"] False by auto
  have k8: "8 \<le> k" using top_bit_ge [OF k, of 8] False by simp
  have k32: "k < 32" using top_bit_less [OF k, of 32] assms(1) by simp
  let ?r = "push_bit (k - 5) 1 - 1 :: u64"
  have r: "unat ?r = 2 ^ (k - 5) - 1"
    using k32 by (subst unat_sub64) (simp_all add: push_bit_eq_mult unat_exp64)
  have "2 ^ (k - 5) \<le> unat q div 32"
  proof -
    have "2 ^ k = 2 ^ (k - 5) * (2 :: nat) ^ 5" unfolding power_add [symmetric] using k8 by simp
    then have "2 ^ (k - 5) * 32 \<le> unat q" using k by (simp add: top_bit_def)
    then show ?thesis by (simp add: less_eq_div_iff_mult_less_eq)
  qed
  then have "unat (q + ?r) \<le> unat s" using r assms unat64_lt [of s] by (subst unat_add64) simp_all
  moreover have "mapping_search q = mapping_insert (q + ?r)"
    using False tlsf_fls_sizet_top [OF k] by (simp add: mapping_search_def word_le_nat_alt)
  ultimately show ?thesis using mapping_insert_mono by simp
qed

section \<open>Request sizes\<close>

lemma align_up_8: "align_up x 8 = Some ((x + 7) AND NOT (mask 3))"
  by (simp add: align_up_def tlsf_assert_def mask_eq_exp_minus_1)

lemma adjust_request_size_8:
  assumes "unat sz + 8 \<le> 18446744073709551616"
  shows "\<exists>a. adjust_request_size sz ALIGN_SIZE = Some a \<and>
    unat a = (if unat sz = 0 \<or> 4294967288 < unat sz then 0 else max ((unat sz + 7) div 8 * 8) 24)"
proof -
  let ?a = "(sz + 7) AND NOT (mask 3) :: u64"
  have a: "unat ?a = (unat sz + 7) div 8 * 8"
    using assms by (simp add: unat_align_down_mask unat_add64 minus_mod_eq_div_mult)
  have lt: "?a < block_size_max \<longleftrightarrow> \<not> 4294967288 < unat sz"
  proof -
    have "x div 8 * 8 < 4294967296 \<longleftrightarrow> x < 4294967296" for x :: nat
      using less_mult_imp_div_less [of x 536870912 8] div_mult_mod_eq [of x 8] by (auto simp: div_less_iff_less_mult)
    from this [of "unat sz + 7"] show ?thesis unfolding word_less_nat_alt a by auto
  qed
  show ?thesis
  proof (cases "sz = 0")
    case False
    then have z: "unat sz \<noteq> 0" by (simp add: unat_eq_0)
    have "adjust_request_size sz ALIGN_SIZE = Some (if ?a < block_size_max then max ?a block_size_min else 0)"
      using False by (simp add: adjust_request_size_def align_up_8)
    moreover have "unat (max ?a block_size_min) = max (unat ?a) 24"
      by (auto simp: max_def word_le_nat_alt)
    ultimately show ?thesis using lt a z by simp
  qed (simp add: adjust_request_size_def)
qed
end
