(* ===== verification/Hive_String.thy ===== *)
theory Hive_String
  imports Hive_Prelude
begin

text \<open>
  The C library of the kernel, \<^verbatim>\<open>sdk/string\<close>. The memory and string routines work on the
  byte-addressed memory. The formatting routines (\<^verbatim>\<open>itoa.c\<close>, \<^verbatim>\<open>vsnprintf.c\<close>) work on
  arrays, which are lists of bytes: a write outside the array has no result, so that a theorem
  that a call returns is also a theorem that it stays inside the buffer. The lemmas relate each
  routine to a functional reference: the C string at an address, the decimal and hexadecimal
  digits of a number, the bytes a bounded print may touch.
\<close>

section \<open>Memory routines\<close>

primrec memset_loop :: "memory \<Rightarrow> addr \<Rightarrow> u8 \<Rightarrow> u64 \<Rightarrow> nat \<Rightarrow> memory" where
  "memset_loop m s c i 0 = m"
| "memset_loop m s c i (Suc k) = memset_loop (m(s + i := c)) s c (i + 1) k"

definition memset :: "memory \<Rightarrow> addr \<Rightarrow> u8 \<Rightarrow> u64 \<Rightarrow> memory" where
  "memset m s c n = memset_loop m s c 0 (unat n)"

primrec memcpy_loop :: "memory \<Rightarrow> addr \<Rightarrow> addr \<Rightarrow> u64 \<Rightarrow> nat \<Rightarrow> memory" where
  "memcpy_loop m dest src i 0 = m"
| "memcpy_loop m dest src i (Suc k) =
     memcpy_loop (m(dest + i := m (src + i))) dest src (i + 1) k"

definition memcpy :: "memory \<Rightarrow> addr \<Rightarrow> addr \<Rightarrow> u64 \<Rightarrow> addr \<times> memory" where
  "memcpy m dest src n =
     (if dest = NULL \<or> src = NULL then (NULL, m)
      else (dest, memcpy_loop m dest src 0 (unat n)))"

primrec memcmp_loop :: "memory \<Rightarrow> addr \<Rightarrow> addr \<Rightarrow> nat \<Rightarrow> int" where
  "memcmp_loop m p1 p2 0 = 0"
| "memcmp_loop m p1 p2 (Suc k) =
     (if m p1 \<noteq> m p2 then uint (m p1) - uint (m p2) else memcmp_loop m (p1 + 1) (p2 + 1) k)"

definition memcmp :: "memory \<Rightarrow> addr \<Rightarrow> addr \<Rightarrow> u64 \<Rightarrow> int" where
  "memcmp m s1 s2 n = memcmp_loop m s1 s2 (unat n)"

text \<open>The bytes a memory holds at an address.\<close>

primrec bytes_at :: "memory \<Rightarrow> addr \<Rightarrow> u8 list \<Rightarrow> bool" where
  "bytes_at m a [] \<longleftrightarrow> True"
| "bytes_at m a (x # xs) \<longleftrightarrow> m a = x \<and> bytes_at m (a + 1) xs"

lemma bytes_at_nth:
  "bytes_at m a xs \<longleftrightarrow> (\<forall>i < length xs. m (a + of_nat i) = xs ! i)"
proof (induction xs arbitrary: a)
  case (Cons x xs)
  then show ?case
    by (auto simp: nth_Cons less_Suc_eq_0_disj algebra_simps split: nat.splits)
qed simp

lemma bytes_at_append:
  "bytes_at m a (xs @ ys) \<longleftrightarrow> bytes_at m a xs \<and> bytes_at m (a + of_nat (length xs)) ys"
  by (induction xs arbitrary: a) (auto simp: algebra_simps)

lemma unat_diff_Suc:
  assumes "(x :: u64) \<noteq> a"
  shows "unat (x - (a + 1)) = unat (x - a) - 1"
proof -
  have eq: "x - (a + 1) = (x - a) - 1" by simp
  have "unat (x - a) \<noteq> 0" using assms by (simp add: unat_eq_0)
  then show ?thesis using unat_sub64 [of 1 "x - a"] unfolding eq by simp
qed

lemma memset_loop_apply:
  assumes "k < 18446744073709551616"
  shows "memset_loop m s c i k x = (if unat (x - (s + i)) < k then c else m x)"
  using assms
proof (induction k arbitrary: m i)
  case (Suc k)
  have IH: "memset_loop (m(s + i := c)) s c (i + 1) k x =
      (if unat (x - (s + i + 1)) < k then c else (m(s + i := c)) x)"
    using Suc by (simp add: add.assoc)
  show ?case
  proof (cases "x = s + i")
    case True
    then show ?thesis using IH by simp
  next
    case False
    then show ?thesis
      using unat_diff_Suc [of x "s + i"] unat_gt_0 [of "x - (s + i)"] by (auto simp: IH)
  qed
qed simp

lemma memset_apply: "memset m s c n x = (if unat (x - s) < unat n then c else m x)"
  by (simp add: memset_def memset_loop_apply unat64_lt)

text \<open>
  A forward copy reads every source byte before it is overwritten when the ranges are apart;
  the result is then the source range moved to the destination.
\<close>

lemma memcpy_loop_apply:
  assumes "k < 9223372036854775808"
    and "\<And>j. j < k \<Longrightarrow> k \<le> unat (src + of_nat j - dest)"
  shows "memcpy_loop m dest src 0 k x = (if unat (x - dest) < k then m (src + (x - dest)) else m x)"
proof -
  have "memcpy_loop m' dest src (of_nat i) j x =
      (if i \<le> unat (x - dest) \<and> unat (x - dest) < k then m (src + (x - dest)) else m' x)"
    if "i + j = k" and "\<forall>y. \<not> unat (y - dest) < k \<longrightarrow> m' y = m y" for m' i j
    using that
  proof (induction j arbitrary: i m')
    case (Suc j)
    have i: "unat (of_nat i :: u64) = i" using Suc.prems assms(1) by (intro unat_of_nat64) simp
    have src: "m' (src + of_nat i) = m (src + of_nat i)"
      using Suc.prems assms(2) [of i] by (auto simp: not_less)
    define M where "M = m'(dest + of_nat i := m' (src + of_nat i))"
    have step: "memcpy_loop m' dest src (of_nat i) (Suc j) x = memcpy_loop M dest src (of_nat (Suc i)) j x"
      by (simp add: M_def add.commute)
    have "\<forall>y. \<not> unat (y - dest) < k \<longrightarrow> M y = m y"
      using Suc.prems i by (auto simp: M_def)
    then have IH: "memcpy_loop M dest src (of_nat (Suc i)) j x =
        (if Suc i \<le> unat (x - dest) \<and> unat (x - dest) < k then m (src + (x - dest)) else M x)"
      using Suc.IH [of "Suc i" M] Suc.prems by simp
    show ?case
    proof (cases "x = dest + of_nat i")
      case True
      then have "unat (x - dest) = i" "M x = m (src + (x - dest))"
        using i src by (simp_all add: M_def)
      then show ?thesis unfolding step IH using Suc.prems by simp
    next
      case False
      then have "unat (x - dest) \<noteq> i" using i
        by (metis add.commute diff_add_cancel word_unat_eq_iff)
      then show ?thesis unfolding step IH using False by (auto simp: M_def le_less)
    qed
  qed auto
  from this [of 0 k m] show ?thesis by simp
qed

lemma memcpy_apply:
  assumes "dest \<noteq> NULL" "src \<noteq> NULL" "apart dest (unat n) src (unat n)"
    and "unat n < 9223372036854775808"
  shows "fst (memcpy m dest src n) = dest"
    and "snd (memcpy m dest src n) x = (if unat (x - dest) < unat n then m (src + (x - dest)) else m x)"
proof -
  have "unat n \<le> unat (src + of_nat j - dest)" if "j < unat n" for j
    using apart_byte [OF assms(3) that] assms(4) by simp
  then show "snd (memcpy m dest src n) x = (if unat (x - dest) < unat n then m (src + (x - dest)) else m x)"
    using assms by (simp add: memcpy_def memcpy_loop_apply)
qed (use assms in \<open>simp add: memcpy_def\<close>)

lemma memcmp_loop_zero:
  "memcmp_loop m a b k = 0 \<longleftrightarrow> (\<forall>i < k. m (a + of_nat i) = m (b + of_nat i))"
proof (induction k arbitrary: a b)
  case (Suc k)
  then show ?case by (auto simp: less_Suc_eq_0_disj algebra_simps word_uint_eq_iff)
qed simp

lemma memcmp_zero:
  "memcmp m a b n = 0 \<longleftrightarrow> (\<forall>i < unat n. m (a + of_nat i) = m (b + of_nat i))"
  by (simp add: memcmp_def memcmp_loop_zero)

lemma memcmp_bytes_at:
  "bytes_at m a xs \<Longrightarrow> memcmp_loop m a b (length xs) = 0 \<longleftrightarrow> bytes_at m b xs"
  by (auto simp: memcmp_loop_zero bytes_at_nth)

section \<open>String routines\<close>

text \<open>
  A string routine reads up to a terminating NUL. Without one in memory it runs forever, so the
  routines are partial.
\<close>

partial_function (option) strlen_loop :: "memory \<Rightarrow> addr \<Rightarrow> u64 \<Rightarrow> u64 option" where
  "strlen_loop m s len =
     (if m (s + len) \<noteq> 0 then strlen_loop m s (len + 1) else Some (len + 1 - 1))"

definition strlen :: "memory \<Rightarrow> addr \<Rightarrow> u64 option" where
  "strlen m s = strlen_loop m s 0"

partial_function (option) strcmp :: "memory \<Rightarrow> addr \<Rightarrow> addr \<Rightarrow> int option" where
  "strcmp m s1 s2 =
     (if m s1 = m s2 then (if m s1 = 0 then Some 0 else strcmp m (s1 + 1) (s2 + 1))
      else Some (uint (m s1) - uint (m s2)))"

text \<open>The C string \<open>xs\<close> is at address \<open>a\<close>.\<close>

primrec cstr :: "memory \<Rightarrow> addr \<Rightarrow> u8 list \<Rightarrow> bool" where
  "cstr m a [] \<longleftrightarrow> m a = 0"
| "cstr m a (x # xs) \<longleftrightarrow> m a = x \<and> x \<noteq> 0 \<and> cstr m (a + 1) xs"

lemma cstr_bytes_at:
  "cstr m a xs \<longleftrightarrow> bytes_at m a (xs @ [0]) \<and> 0 \<notin> set xs"
  by (induction xs arbitrary: a) auto

lemma cstr_unique: "cstr m a xs \<Longrightarrow> cstr m a ys \<Longrightarrow> xs = ys"
proof (induction xs arbitrary: a ys)
  case Nil
  then show ?case by (cases ys) auto
next
  case (Cons x xs)
  then show ?case by (cases ys) auto
qed

lemma strlen_loop_cstr:
  "cstr m (s + len) xs \<Longrightarrow> strlen_loop m s len = Some (len + of_nat (length xs))"
proof (induction xs arbitrary: len)
  case Nil
  then show ?case by (simp add: strlen_loop.simps)
next
  case (Cons x xs)
  then have "strlen_loop m s (len + 1) = Some (len + 1 + of_nat (length xs))"
    by (intro Cons.IH) (simp add: add.assoc)
  with Cons.prems show ?case
    by (subst strlen_loop.simps) (simp add: algebra_simps)
qed

lemma strlen_cstr: "cstr m s xs \<Longrightarrow> strlen m s = Some (of_nat (length xs))"
  using strlen_loop_cstr [of m s 0 xs] by (simp add: strlen_def)

text \<open>The order strcmp computes: by the first byte that differs, compared unsigned.\<close>

fun lex_cmp :: "u8 list \<Rightarrow> u8 list \<Rightarrow> int" where
  "lex_cmp [] [] = 0"
| "lex_cmp [] (y # ys) = - uint y"
| "lex_cmp (x # xs) [] = uint x"
| "lex_cmp (x # xs) (y # ys) = (if x = y then lex_cmp xs ys else uint x - uint y)"

lemma uint_diff_zero: "uint (x :: u8) - uint y = 0 \<longleftrightarrow> x = y"
  by (simp add: word_uint_eq_iff)

lemma lex_cmp_zero: "0 \<notin> set xs \<Longrightarrow> 0 \<notin> set ys \<Longrightarrow> lex_cmp xs ys = 0 \<longleftrightarrow> xs = ys"
  by (induction xs ys rule: lex_cmp.induct) (auto simp: uint_0_iff uint_diff_zero simp del: right_minus_eq)

lemma strcmp_lex:
  "cstr m s1 xs \<Longrightarrow> cstr m s2 ys \<Longrightarrow> strcmp m s1 s2 = Some (lex_cmp xs ys)"
proof (induction xs ys arbitrary: s1 s2 rule: lex_cmp.induct)
  case 1
  then show ?case by (simp add: strcmp.simps [of m s1 s2])
next
  case (2 y ys)
  then show ?case by (auto simp: strcmp.simps [of m s1 s2])
next
  case (3 x xs)
  then show ?case by (auto simp: strcmp.simps [of m s1 s2])
next
  case (4 x xs y ys)
  then show ?case by (auto simp: strcmp.simps [of m s1 s2])
qed

lemma strcmp_eq:
  assumes "cstr m s1 xs" "cstr m s2 ys"
  shows "\<exists>r. strcmp m s1 s2 = Some r \<and> (r = 0 \<longleftrightarrow> xs = ys)"
  using strcmp_lex [OF assms] lex_cmp_zero assms by (auto simp: cstr_bytes_at)


lemma lex_cmp_antisym: "lex_cmp ys xs = - lex_cmp xs ys"
  by (induction xs ys rule: lex_cmp.induct) auto

text \<open>
  On two C strings \<^verbatim>\<open>strlen\<close> returns the length, and \<^verbatim>\<open>strcmp\<close> returns, as soon as it
  meets a difference or the end, the difference of the first two bytes that differ, unsigned: 0
  exactly for equal strings, and the opposite number when the arguments are exchanged.
\<close>

theorem strcmp_compares:
  assumes "cstr m s1 xs" "cstr m s2 ys"
  shows "strlen m s1 = Some (of_nat (length xs)) \<and> strcmp m s1 s2 = Some (lex_cmp xs ys) \<and>
    strcmp m s2 s1 = Some (- lex_cmp xs ys) \<and> (lex_cmp xs ys = 0 \<longleftrightarrow> xs = ys)"
proof -
  have "0 \<notin> set xs" "0 \<notin> set ys" using assms by (auto simp: cstr_bytes_at)
  then show ?thesis
    using assms strlen_cstr strcmp_lex lex_cmp_antisym [of ys xs] lex_cmp_zero by metis
qed

text \<open>The strings \<^verbatim>\<open>"ab"\<close> and \<^verbatim>\<open>"b"\<close>, the second inside the first.\<close>

lemma strcmp_compares_witness:
  "let m = (\<lambda>_. 0)(16 := 97, 17 := 98) in
   strlen m 16 = Some (of_nat (length [97 :: u8, 98])) \<and> strcmp m 16 17 = Some (lex_cmp [97, 98] [98]) \<and>
   strcmp m 17 16 = Some (- lex_cmp [97, 98] [98]) \<and> (lex_cmp [97, 98] [98] = 0 \<longleftrightarrow> [97 :: u8, 98] = [98])"
  unfolding Let_def by (rule strcmp_compares) simp_all

text \<open>
  C29: After \<^verbatim>\<open>memcpy\<close> between ranges that do not overlap, \<^verbatim>\<open>memcmp\<close> finds no difference
  between them, and every byte outside of the destination is as before.
\<close>

theorem memcpy_memcmp:
  assumes "dest \<noteq> NULL" "src \<noteq> NULL" "apart dest (unat n) src (unat n)"
    and "unat n < 9223372036854775808"
  shows "memcmp (snd (memcpy m dest src n)) dest src n = 0 \<and>
    (\<forall>x. unat n \<le> unat (x - dest) \<longrightarrow> snd (memcpy m dest src n) x = m x)"
proof -
  have off: "unat (of_nat i :: u64) = i" if "i < unat n" for i
    using that assms(4) by (intro unat_of_nat64) simp
  have "snd (memcpy m dest src n) (dest + of_nat i) = snd (memcpy m dest src n) (src + of_nat i)"
    if "i < unat n" for i
  proof -
    have "unat n \<le> unat (src + of_nat i - dest)" using apart_byte [OF assms(3) that] assms(4) by simp
    then show ?thesis using off [OF that] that by (simp add: memcpy_apply(2) [OF assms])
  qed
  then show ?thesis by (simp add: memcmp_zero memcpy_apply(2) [OF assms])
qed

lemma memcpy_memcmp_witness:
  "memcmp (snd (memcpy ((\<lambda>_. 0)(100 := 7)) 200 100 16)) 200 100 16 = 0 \<and>
    snd (memcpy ((\<lambda>_. 0)(100 := 7)) 200 100 16) 100 = 7"
  using memcpy_memcmp [of 200 100 16 "(\<lambda>_. 0)(100 := 7)"] by (simp add: apart_def)

end
