(* ===== verification/Hive_Boot.thy ===== *)
theory Hive_Boot
  imports Hive_String
begin

text \<open>
  The boot protocol translation layer: \<^verbatim>\<open>inc/core/bpt.h\<close>, \<^verbatim>\<open>core/bpt.c\<close> and the Limine
  back end \<^verbatim>\<open>bpt/limine.c\<close>, with the parts of \<^verbatim>\<open>inc/boot/limine.h\<close> it reads. A hook
  is an optional function, None for a null function pointer; a response the boot loader did not
  provide is a null pointer, and reading through it has no result.
\<close>

section \<open>The memory map and the variables\<close>

datatype mem_type_t =
    MEM_USABLE | MEM_RESERVED | MEM_ACPI_RECLAIM | MEM_ACPI_NVS
  | MEM_BAD | MEM_BOOTLOADER | MEM_KERNEL | MEM_FRAMEBUFFER | MEM_OTHER u32

text \<open>The value of the enumeration, for the assignment of an integer to it.\<close>

definition mem_type_of :: "u32 \<Rightarrow> mem_type_t" where
  "mem_type_of n =
     (if n < 8
      then [MEM_USABLE, MEM_RESERVED, MEM_ACPI_RECLAIM, MEM_ACPI_NVS, MEM_BAD, MEM_BOOTLOADER,
            MEM_KERNEL, MEM_FRAMEBUFFER] ! unat n
      else MEM_OTHER n)"

record bpt_vars =
  kernel_base :: addr
  rsdp_base :: addr

record bpt_module =
  module_address :: addr
  module_length :: u64

record bpt_mementry =
  ent_base :: addr
  ent_length :: u64
  ent_type :: mem_type_t

section \<open>The Limine responses\<close>

record limine_memmap_entry =
  lm_base :: u64
  lm_length :: u64
  lm_type :: u64

record limine_memmap_response =
  lm_entry_count :: u64
  lm_entries :: "limine_memmap_entry list"

record limine_file =
  lf_address :: addr
  lf_size :: u64
  lf_path :: addr

record limine_module_response =
  lm_module_count :: u64
  lm_modules :: "limine_file list"

record limine_responses =
  r_memmap :: "limine_memmap_response option"
  r_hhdm_offset :: "u64 option"
  r_rsdp_address :: "addr option"
  r_module :: "limine_module_response option"

definition list_at :: "'b list \<Rightarrow> u64 \<Rightarrow> 'b option" where
  "list_at xs i = (if unat i < length xs then Some (xs ! unat i) else None)"

text \<open>The loop of \<^verbatim>\<open>limine_get_module\<close> from module \<open>i\<close> on.\<close>

partial_function (option) find_module ::
    "memory \<Rightarrow> limine_module_response \<Rightarrow> addr \<Rightarrow> u64 \<Rightarrow> bpt_module result option" where
  "find_module m mods name i =
     (if i < lm_module_count mods then do {
        file \<leftarrow> list_at (lm_modules mods) i;
        c \<leftarrow> strcmp m (lf_path file) name;
        (if c = 0 then Some (Inr \<lparr>module_address = lf_address file, module_length = lf_size file\<rparr>)
         else find_module m mods name (i + 1)) }
      else Some (Inl (- ENOENT)))"

definition limine_get_module ::
    "memory \<Rightarrow> limine_responses \<Rightarrow> addr \<Rightarrow> bool \<Rightarrow> bpt_module result option" where
  "limine_get_module m lim name res =
     (if name = NULL \<or> \<not> res then Some (Inl (- EINVAL))
      else do { mods \<leftarrow> r_module lim; find_module m mods name 0 })"

definition limine_get_vars :: "limine_responses \<Rightarrow> bool \<Rightarrow> bpt_vars result option" where
  "limine_get_vars lim vars =
     (if \<not> vars then Some (Inl (- 1))
      else do {
        hhdm \<leftarrow> r_hhdm_offset lim;
        rsdp \<leftarrow> r_rsdp_address lim;
        Some (Inr \<lparr>kernel_base = hhdm, rsdp_base = rsdp\<rparr>) })"

definition limine_get_mementry :: "limine_responses \<Rightarrow> u64 \<Rightarrow> bool \<Rightarrow> bpt_mementry result option" where
  "limine_get_mementry lim index res =
     (if \<not> res then Some (Inl (- 1))
      else do {
        mm \<leftarrow> r_memmap lim;
        (if index \<ge> lm_entry_count mm then Some (Inl (- 1))
         else do {
           entry \<leftarrow> list_at (lm_entries mm) index;
           Some (Inr \<lparr>ent_base = lm_base entry, ent_length = lm_length entry,
                      ent_type = mem_type_of (ucast (lm_type entry))\<rparr>) }) })"

section \<open>The hooks\<close>

text \<open>
  A hook reads the static response pointers of the back end at the time of the call, and the
  memory, so both are its arguments.
\<close>

record bpt_hooks =
  hook_get_vars :: "(limine_responses \<Rightarrow> bool \<Rightarrow> bpt_vars result option) option"
  hook_get_mementry :: "(limine_responses \<Rightarrow> u64 \<Rightarrow> bool \<Rightarrow> bpt_mementry result option) option"
  hook_get_module :: "(memory \<Rightarrow> limine_responses \<Rightarrow> addr \<Rightarrow> bool \<Rightarrow> bpt_module result option) option"

text \<open>
  The machine with the static variables of \<^verbatim>\<open>bpt.c\<close> and \<^verbatim>\<open>limine.c\<close>: the hooks, the
  response pointers, and the responses the boot loader stored in the requests.
\<close>

record boot = machine +
  hooks :: bpt_hooks
  resp :: limine_responses
  req :: limine_responses

definition bpt_get_vars :: "bool \<Rightarrow> 'a boot_scheme \<Rightarrow> bpt_vars result option" where
  "bpt_get_vars res m =
     (case hook_get_vars (hooks m) of None \<Rightarrow> Some (Inl (- 1)) | Some f \<Rightarrow> f (resp m) res)"

definition bpt_get_mementry :: "u64 \<Rightarrow> bool \<Rightarrow> 'a boot_scheme \<Rightarrow> bpt_mementry result option" where
  "bpt_get_mementry index res m =
     (case hook_get_mementry (hooks m) of None \<Rightarrow> Some (Inl (- 1)) | Some f \<Rightarrow> f (resp m) index res)"

definition bpt_get_module :: "addr \<Rightarrow> bool \<Rightarrow> 'a boot_scheme \<Rightarrow> bpt_module result option" where
  "bpt_get_module name res m =
     (case hook_get_module (hooks m) of None \<Rightarrow> Some (Inl (- 1)) | Some f \<Rightarrow> f (mem m) (resp m) name res)"

definition bpt_init_limine :: "'a boot_scheme \<Rightarrow> int \<times> 'a boot_scheme" where
  "bpt_init_limine m =
     (0, m\<lparr>resp := req m,
           hooks := \<lparr>hook_get_vars = Some limine_get_vars,
                     hook_get_mementry = Some limine_get_mementry,
                     hook_get_module = Some limine_get_module\<rparr>\<rparr>)"

text \<open>The two string literals are arguments: where the compiler put them in memory.\<close>

definition bpt_init :: "addr \<Rightarrow> addr \<Rightarrow> 'a boot_scheme \<Rightarrow> (int \<times> 'a boot_scheme) option" where
  "bpt_init BOOT_PROTO BPT_SIG_LIMINE m =
     (if mem m BOOT_PROTO = 108 then do {
        c \<leftarrow> strcmp (mem m) BOOT_PROTO BPT_SIG_LIMINE;
        Some (if c = 0 then bpt_init_limine m else (- 1, m)) }
      else Some (- 1, m))"

definition bpt_kernel_base :: "'a boot_scheme \<Rightarrow> addr option" where
  "bpt_kernel_base m = do {
     r \<leftarrow> bpt_get_vars True m;
     Some (case r of Inl e \<Rightarrow> 0 | Inr vars \<Rightarrow> kernel_base vars) }"

definition PHYS_TO_VIRT :: "addr \<Rightarrow> 'a boot_scheme \<Rightarrow> addr option" where
  "PHYS_TO_VIRT phys m = do { b \<leftarrow> bpt_kernel_base m; Some (PTR_OFFSET phys b) }"

text \<open>
  The loop \<^verbatim>\<open>for (size_t i = 0;; ++i)\<close> over the memory map that \<^verbatim>\<open>pmem.c\<close> writes three times.
  The body returns whether it breaks out.
\<close>

partial_function (option) mementry_loop ::
    "(bpt_mementry \<Rightarrow> 'a boot_scheme \<Rightarrow> ('a boot_scheme \<times> bool) option) \<Rightarrow> u64
      \<Rightarrow> 'a boot_scheme \<Rightarrow> 'a boot_scheme option" where
  "mementry_loop body i m = do {
     r \<leftarrow> bpt_get_mementry i True m;
     (case r of Inl e \<Rightarrow> Some m
      | Inr entry \<Rightarrow> do {
          ms \<leftarrow> body entry m;
          (if snd ms then Some (fst ms) else mementry_loop body (i + 1) (fst ms)) }) }"

section \<open>The memory map as a list\<close>

text \<open>What a loop over the memory map does, on the list of its entries.\<close>

fun entries_loop :: "('e \<Rightarrow> 's \<Rightarrow> ('s \<times> bool) option) \<Rightarrow> 'e list \<Rightarrow> 's \<Rightarrow> 's option" where
  "entries_loop body [] s = Some s"
| "entries_loop body (e # es) s = do {
     ss \<leftarrow> body e s;
     (if snd ss then Some (fst ss) else entries_loop body es (fst ss)) }"

text \<open>
  A provider of a memory map answers the index of an entry with the entry and the first index
  behind the last one with an error, in every state that satisfies \<open>ready\<close>.
\<close>

locale memory_map =
  fixes get :: "u64 \<Rightarrow> 'a boot_scheme \<Rightarrow> bpt_mementry result option"
    and ready :: "'a boot_scheme \<Rightarrow> bool"
    and entries :: "bpt_mementry list"
  assumes count: "length entries < 18446744073709551616"
    and entry: "ready m \<Longrightarrow> unat i < length entries \<Longrightarrow> get i m = Some (Inr (entries ! unat i))"
    and behind: "ready m \<Longrightarrow> unat i = length entries \<Longrightarrow> \<exists>e. get i m = Some (Inl e)"
begin

text \<open>A loop that asks the provider for one entry after the other visits the list.\<close>

lemma loop_visits:
  assumes loop: "\<And>i m. loop i m = do {
      r \<leftarrow> get i m;
      (case r of Inl e \<Rightarrow> Some m
       | Inr entry \<Rightarrow> do {
           ms \<leftarrow> body entry m;
           (if snd ms then Some (fst ms) else loop (i + 1) (fst ms)) }) }"
    and keeps: "\<And>e m m' b. ready m \<Longrightarrow> body e m = Some (m', b) \<Longrightarrow> ready m'"
    and ready: "ready m" and i: "unat i \<le> length entries"
  shows "loop i m = entries_loop body (drop (unat i) entries) m"
  using ready i
proof (induction "length entries - unat i" arbitrary: i m)
  case 0
  then show ?case using behind [of m i] by (auto simp: loop [of i])
next
  case (Suc k)
  then have lt: "unat i < length entries" by simp
  then have nxt: "unat (i + 1) = unat i + 1" using count by (subst unat_add64) auto
  have d: "drop (unat i) entries = entries ! unat i # drop (unat (i + 1)) entries"
    using lt nxt by (simp add: Cons_nth_drop_Suc)
  have "loop (i + 1) m' = entries_loop body (drop (unat (i + 1)) entries) m'"
    if "body (entries ! unat i) m = Some (m', b)" for m' b
    using Suc nxt keeps [OF Suc.prems(1) that] by auto
  then show ?case
    using entry [OF Suc.prems(1) lt] d
    by (subst loop) (auto split: option.splits bind_splits)
qed

end

text \<open>The Limine back end is a provider of the entries of its response.\<close>

definition mem_entries :: "limine_memmap_response \<Rightarrow> bpt_mementry list" where
  "mem_entries mm = map (\<lambda>e. \<lparr>ent_base = lm_base e, ent_length = lm_length e,
     ent_type = mem_type_of (ucast (lm_type e))\<rparr>) (take (unat (lm_entry_count mm)) (lm_entries mm))"

definition limine_ready :: "limine_memmap_response \<Rightarrow> 'a boot_scheme \<Rightarrow> bool" where
  "limine_ready mm m \<longleftrightarrow> hook_get_mementry (hooks m) = Some limine_get_mementry \<and>
     r_memmap (resp m) = Some mm \<and> unat (lm_entry_count mm) \<le> length (lm_entries mm)"

lemma length_mem_entries:
  "limine_ready mm m \<Longrightarrow> length (mem_entries mm) = unat (lm_entry_count mm)"
  by (simp add: mem_entries_def limine_ready_def)


interpretation lim: memory_map "\<lambda>i. bpt_get_mementry i True" "limine_ready mm" "mem_entries mm" for mm
proof unfold_locales
  show "length (mem_entries mm) < 18446744073709551616"
    using unat64_lt [of "lm_entry_count mm"] by (simp add: mem_entries_def)
  fix m :: "'a boot_scheme" and i
  assume m: "limine_ready mm m"
  note len = length_mem_entries [OF m]
  show "bpt_get_mementry i True m = Some (Inr (mem_entries mm ! unat i))" if "unat i < length (mem_entries mm)"
    using m that len
    by (auto simp: bpt_get_mementry_def limine_ready_def limine_get_mementry_def list_at_def
        word_le_nat_alt mem_entries_def)
  show "\<exists>e. bpt_get_mementry i True m = Some (Inl e)" if "unat i = length (mem_entries mm)"
    using m that len
    by (auto simp: bpt_get_mementry_def limine_ready_def limine_get_mementry_def word_le_nat_alt)
qed

text \<open>A body keeps the map when it does not touch the hooks and the responses.\<close>

definition keeps_boot :: "('e \<Rightarrow> 'a boot_scheme \<Rightarrow> ('a boot_scheme \<times> bool) option) \<Rightarrow> bool" where
  "keeps_boot body \<longleftrightarrow> (\<forall>e m m' b. body e m = Some (m', b) \<longrightarrow> hooks m' = hooks m \<and> resp m' = resp m)"

lemma mementry_loop_visits:
  assumes "limine_ready mm m" "keeps_boot body"
  shows "mementry_loop body 0 m = entries_loop body (mem_entries mm) m"
proof -
  have "mementry_loop body 0 m = entries_loop body (drop (unat (0 :: u64)) (mem_entries mm)) m"
  proof (rule lim.loop_visits)
    show "limine_ready mm m'" if "limine_ready mm m" "body e m = Some (m', b)" for e m m' b
      using assms(2) that unfolding keeps_boot_def limine_ready_def by metis
  qed (use assms(1) mementry_loop.simps in auto)
  then show ?thesis by simp
qed

lemma bpt_init_ready:
  assumes "cstr (mem m) proto [108, 105, 109, 105, 110, 101]" "cstr (mem m) sig [108, 105, 109, 105, 110, 101]"
  shows "bpt_init proto sig m = Some (bpt_init_limine m)"
  using assms strcmp_eq [OF assms] by (auto simp: bpt_init_def)

text \<open>
  C28: \<^verbatim>\<open>bpt_init\<close> built for Limine succeeds, and from then on a loop over the memory map, with
  a body that leaves the boot variables alone, visits exactly the entries of the boot loader's
  response, in order, each with its type, until the body breaks out of it.
\<close>

theorem bpt_memory_map:
  assumes "cstr (mem m) proto [108, 105, 109, 105, 110, 101]" "cstr (mem m) sig [108, 105, 109, 105, 110, 101]"
    and "r_memmap (req m) = Some mm" "unat (lm_entry_count mm) \<le> length (lm_entries mm)"
    and "keeps_boot body"
  shows "\<exists>m'. bpt_init proto sig m = Some (0, m') \<and> mem m' = mem m \<and>
    mementry_loop body 0 m' = entries_loop body (mem_entries mm) m'"
proof -
  have "limine_ready mm (snd (bpt_init_limine m))"
    using assms(3,4) by (simp add: limine_ready_def bpt_init_limine_def)
  then show ?thesis
    using bpt_init_ready [OF assms(1,2)] mementry_loop_visits [OF _ assms(5)]
    by (simp add: bpt_init_limine_def)
qed

definition boot_witness :: boot where
  "boot_witness = \<lparr>mem = (\<lambda>a. if 16 \<le> a \<and> a < 22 then [108, 105, 109, 105, 110, 101] ! unat (a - 16) else 0),
     cr3 = 0, cr4 = 0, irq_on = True, uart = [],
     hooks = \<lparr>hook_get_vars = None, hook_get_mementry = None, hook_get_module = None\<rparr>,
     resp = \<lparr>r_memmap = None, r_hhdm_offset = None, r_rsdp_address = None, r_module = None\<rparr>,
     req = \<lparr>r_memmap = Some \<lparr>lm_entry_count = 2, lm_entries =
              [\<lparr>lm_base = 4096, lm_length = 8192, lm_type = 0\<rparr>, \<lparr>lm_base = 65536, lm_length = 4096, lm_type = 6\<rparr>]\<rparr>,
       r_hhdm_offset = Some 0xFFFF800000000000, r_rsdp_address = Some 0xE0000, r_module = None\<rparr>\<rparr>"

text \<open>Counting the entries of a map with one usable and one kernel entry in \<^verbatim>\<open>cr3\<close>.\<close>

lemma bpt_memory_map_witness:
  "\<exists>m'. bpt_init 16 16 boot_witness = Some (0, m') \<and> mem m' = mem boot_witness \<and>
    mementry_loop (\<lambda>e m. Some (m\<lparr>cr3 := cr3 m + 1\<rparr>, ent_type e = MEM_KERNEL)) 0 m' =
      Some (m'\<lparr>cr3 := cr3 m' + 1 + 1\<rparr>)"
proof -
  let ?mm = "\<lparr>lm_entry_count = 2, lm_entries =
    [\<lparr>lm_base = 4096, lm_length = 8192, lm_type = 0\<rparr>, \<lparr>lm_base = 65536, lm_length = 4096, lm_type = 6\<rparr>]\<rparr>"
  have c: "cstr (mem boot_witness) 16 [108, 105, 109, 105, 110, 101]"
    by (simp add: boot_witness_def)
  have k: "keeps_boot (\<lambda>e m :: boot. Some (m\<lparr>cr3 := cr3 m + 1\<rparr>, ent_type e = MEM_KERNEL))"
    by (simp add: keeps_boot_def)
  have r: "r_memmap (req boot_witness) = Some ?mm" by (simp add: boot_witness_def)
  show ?thesis
    using bpt_memory_map [OF c c r _ k] by (simp add: mem_entries_def mem_type_of_def)
qed

text \<open>\<^verbatim>\<open>bpt_get_module\<close> is the search of the first module with the given path.\<close>

lemma find_module_spec:
  assumes "cstr m name xs" "list_all2 (\<lambda>f p. cstr m (lf_path f) p) (lm_modules mods) paths"
    "unat (lm_module_count mods) = length paths" "unat i \<le> length paths"
  shows "find_module m mods name i = Some
    (case find (\<lambda>(f, p). p = xs) (drop (unat i) (zip (lm_modules mods) paths)) of
       None \<Rightarrow> Inl (- ENOENT)
     | Some (f, p) \<Rightarrow> Inr \<lparr>module_address = lf_address f, module_length = lf_size f\<rparr>)"
  using assms(4)
proof (induction "length paths - unat i" arbitrary: i)
  case 0
  then have "\<not> i < lm_module_count mods" "length paths \<le> unat i"
    using assms(3) by (auto simp: word_less_nat_alt)
  then show ?case by (subst find_module.simps) simp
next
  case (Suc k)
  have len: "length (lm_modules mods) = length paths" using assms(2) by (rule list_all2_lengthD)
  have lt: "unat i < length paths" using Suc by simp
  then have nxt: "unat (i + 1) = unat i + 1" using assms(3) unat64_lt [of "lm_module_count mods"] by (subst unat_add64) auto
  have d: "drop (unat i) (zip (lm_modules mods) paths) =
      (lm_modules mods ! unat i, paths ! unat i) # drop (unat (i + 1)) (zip (lm_modules mods) paths)"
    using lt len nxt by (simp add: Cons_nth_drop_Suc [symmetric])
  have "cstr m (lf_path (lm_modules mods ! unat i)) (paths ! unat i)"
    using list_all2_nthD2 [OF assms(2) lt] .
  from strcmp_eq [OF this assms(1)]
  obtain r where r: "strcmp m (lf_path (lm_modules mods ! unat i)) name = Some r"
    "(r = 0) = (paths ! unat i = xs)" by auto
  show ?case
    using Suc lt nxt assms(3) len r unfolding d
    by (subst find_module.simps) (auto simp: list_at_def word_less_nat_alt)
qed

text \<open>
  With the Limine hooks installed, \<^verbatim>\<open>bpt_get_module\<close> returns the first module of the boot
  loader whose path is the given name, or the error \<^verbatim>\<open>-ENOENT\<close> when none has it.
\<close>

theorem bpt_get_module_finds:
  assumes "hook_get_module (hooks m) = Some limine_get_module" "r_module (resp m) = Some mods"
    and "cstr (mem m) name xs" "name \<noteq> NULL"
    and "list_all2 (\<lambda>f p. cstr (mem m) (lf_path f) p) (lm_modules mods) paths"
    and "unat (lm_module_count mods) = length paths"
  shows "bpt_get_module name True m = Some
    (case find (\<lambda>(f, p). p = xs) (zip (lm_modules mods) paths) of
       None \<Rightarrow> Inl (- ENOENT)
     | Some (f, p) \<Rightarrow> Inr \<lparr>module_address = lf_address f, module_length = lf_size f\<rparr>)"
  using assms find_module_spec [OF assms(3,5,6), of 0]
  by (simp add: bpt_get_module_def limine_get_module_def)

lemma bpt_get_module_finds_witness:
  "bpt_get_module 16 True (boot_witness
     \<lparr>hooks := \<lparr>hook_get_vars = None, hook_get_mementry = None, hook_get_module = Some limine_get_module\<rparr>,
      resp := (resp boot_witness)\<lparr>r_module := Some \<lparr>lm_module_count = 2, lm_modules =
        [\<lparr>lf_address = 4096, lf_size = 1, lf_path = 18\<rparr>, \<lparr>lf_address = 8192, lf_size = 7, lf_path = 16\<rparr>]\<rparr>\<rparr>\<rparr>) =
   Some (Inr \<lparr>module_address = 8192, module_length = 7\<rparr>)"
  by (subst bpt_get_module_finds [where xs = "[108, 105, 109, 105, 110, 101]" and
        paths = "[[109, 105, 110, 101], [108, 105, 109, 105, 110, 101]]"])
    ((simp_all add: boot_witness_def)+)

lemma bpt_kernel_base_limine:
  "hook_get_vars (hooks m) = Some limine_get_vars \<Longrightarrow> r_hhdm_offset (resp m) = Some b \<Longrightarrow>
   r_rsdp_address (resp m) = Some a \<Longrightarrow> bpt_kernel_base m = Some b"
  by (simp add: bpt_kernel_base_def bpt_get_vars_def limine_get_vars_def)

lemma bpt_kernel_base_cong:
  assumes "hooks m' = hooks m" "resp m' = resp m"
  shows "bpt_kernel_base m' = bpt_kernel_base m"
  unfolding bpt_kernel_base_def bpt_get_vars_def assms ..

end
