(* ===== verification/Hive_Sync.thy ===== *)
theory Hive_Sync
  imports Hive_Prelude
begin

text \<open>
  Atomic operations and spinlocks: \<^verbatim>\<open>sdk/inc/sys/atomic.h\<close>, \<^verbatim>\<open>core/spinlock.c\<close>, the exchange
  \<^verbatim>\<open>mu_aswap\<close> and the interrupt flag of \<^verbatim>\<open>mu/cpu.h\<close>. A spinlock is first modelled on one
  processor, where acquiring a held lock never returns, and then on any number of processors as
  a step relation whose steps are the memory accesses and flag changes of the C code.
\<close>

section \<open>atomic.h\<close>

text \<open>
  The result and the new value of the object. \<^verbatim>\<open>unsigned int\<close> arguments are extended to 64
  bits, and \<^verbatim>\<open>unsigned int\<close> results are cut to 32.
\<close>

definition atomic_add_long_nv :: "u64 \<Rightarrow> u64 \<Rightarrow> u64 \<times> u64" where
  "atomic_add_long_nv p v = (p + v, p + v)"
definition atomic_add_int_nv :: "u32 \<Rightarrow> u32 \<Rightarrow> u32 \<times> u32" where
  "atomic_add_int_nv p v = (p + v, p + v)"
definition atomic_add_64_nv :: "u64 \<Rightarrow> u32 \<Rightarrow> u32 \<times> u64" where
  "atomic_add_64_nv p v = (ucast (p + ucast v), p + ucast v)"
definition atomic_sub_long_nv :: "u64 \<Rightarrow> u64 \<Rightarrow> u64 \<times> u64" where
  "atomic_sub_long_nv p v = (p - v, p - v)"
definition atomic_sub_int_nv :: "u32 \<Rightarrow> u32 \<Rightarrow> u32 \<times> u32" where
  "atomic_sub_int_nv p v = (p - v, p - v)"
definition atomic_sub_64_nv :: "u64 \<Rightarrow> u32 \<Rightarrow> u32 \<times> u64" where
  "atomic_sub_64_nv p v = (ucast (p - ucast v), p - ucast v)"
definition atomic_load_int_nv :: "u32 \<Rightarrow> u32" where
  "atomic_load_int_nv p = p"
definition atomic_load_long_nv :: "u64 \<Rightarrow> u32" where
  "atomic_load_long_nv p = ucast p"
definition atomic_load_64_nv :: "u64 \<Rightarrow> u32" where
  "atomic_load_64_nv p = ucast p"
definition atomic_store_int_nv :: "u32 \<Rightarrow> u32 \<Rightarrow> u32" where
  "atomic_store_int_nv p nv = nv"
definition atomic_store_long_nv :: "u64 \<Rightarrow> u64 \<Rightarrow> u64" where
  "atomic_store_long_nv p nv = nv"
definition atomic_store_64_nv :: "u64 \<Rightarrow> u64 \<Rightarrow> u64" where
  "atomic_store_64_nv p nv = nv"

definition atomic_inc_64 :: "u64 \<Rightarrow> u32 \<times> u64" where
  "atomic_inc_64 p = atomic_add_64_nv p 1"
definition atomic_dec_64 :: "u64 \<Rightarrow> u32 \<times> u64" where
  "atomic_dec_64 p = atomic_sub_64_nv p 1"
definition atomic_inc_long :: "u64 \<Rightarrow> u64 \<times> u64" where
  "atomic_inc_long p = atomic_add_long_nv p 1"
definition atomic_inc_int :: "u32 \<Rightarrow> u32 \<times> u32" where
  "atomic_inc_int p = atomic_add_int_nv p 1"
definition atomic_dec_long :: "u64 \<Rightarrow> u64 \<times> u64" where
  "atomic_dec_long p = atomic_sub_long_nv p 1"
definition atomic_dec_int :: "u32 \<Rightarrow> u32 \<times> u32" where
  "atomic_dec_int p = atomic_sub_int_nv p 1"

definition atomic_load_int :: "u32 \<Rightarrow> u32" where
  "atomic_load_int p = atomic_load_int_nv p"
definition atomic_load_long :: "u64 \<Rightarrow> u32" where
  "atomic_load_long p = atomic_load_long_nv p"
definition atomic_load_64 :: "u64 \<Rightarrow> u32" where
  "atomic_load_64 p = atomic_load_64_nv p"
definition atomic_store_int :: "u32 \<Rightarrow> u32 \<Rightarrow> u32" where
  "atomic_store_int p nv = atomic_store_int_nv p nv"
definition atomic_store_long :: "u64 \<Rightarrow> u64 \<Rightarrow> u64" where
  "atomic_store_long p nv = atomic_store_long_nv p nv"
definition atomic_store_64 :: "u64 \<Rightarrow> u64 \<Rightarrow> u64" where
  "atomic_store_64 p nv = atomic_store_64_nv p nv"

text \<open>The stored value is exact, and the returned one is only when it fits 32 bits.\<close>

lemma atomic_inc_64_result:
  "snd (atomic_inc_64 p) = p + 1"
  "ucast (fst (atomic_inc_64 p)) = p + 1 \<longleftrightarrow> take_bit 32 (p + 1) = p + 1"
proof -
  have "ucast (ucast x :: u32) = take_bit 32 x" for x :: u64
    by (rule bit_word_eqI) (auto simp: bit_simps)
  then show "snd (atomic_inc_64 p) = p + 1"
    "ucast (fst (atomic_inc_64 p)) = p + 1 \<longleftrightarrow> take_bit 32 (p + 1) = p + 1"
    by (simp_all add: atomic_inc_64_def atomic_add_64_nv_def)
qed

section \<open>One processor\<close>

definition mu_cpu_irqtest :: "'a machine_scheme \<Rightarrow> bool" where
  "mu_cpu_irqtest m = irq_on m"

definition mu_cpu_irqset :: "bool \<Rightarrow> 'a machine_scheme \<Rightarrow> 'a machine_scheme" where
  "mu_cpu_irqset mask_irqs m = m\<lparr>irq_on := \<not> mask_irqs\<rparr>"

text \<open>The old value of the object, and its new one.\<close>

definition mu_aswap :: "u64 \<Rightarrow> u64 \<Rightarrow> u64 \<times> u64" where
  "mu_aswap p v = (p, v)"

partial_function (option) spin :: "u64 \<Rightarrow> u64 option" where
  "spin lock = (let (old, lock) = mu_aswap lock 1 in if old \<noteq> 0 then spin lock else Some lock)"

text \<open>A lock is passed as the value of the object, None for a null pointer.\<close>

definition spinlock_acquire :: "u64 option \<Rightarrow> bool \<Rightarrow> 'a machine_scheme \<Rightarrow> (u64 option \<times> 'a machine_scheme) option" where
  "spinlock_acquire lock irqmut m =
     (case lock of None \<Rightarrow> Some (None, m)
      | Some l \<Rightarrow> do {
          let irq_state = mu_cpu_irqtest m;
          let m = (if irq_state \<and> irqmut then mu_cpu_irqset True m else m);
          l \<leftarrow> spin l;
          let m = (if irq_state \<and> irqmut then mu_cpu_irqset False m else m);
          Some (Some l, m) })"

definition spinlock_release :: "u64 \<Rightarrow> u64" where
  "spinlock_release lock = snd (mu_aswap lock 0)"

lemma spin_free [simp]: "spin 0 = Some 1"
  by (subst spin.simps) (simp add: mu_aswap_def)

lemma spin_Some: "spin l = Some l' \<Longrightarrow> l = 0"
  by (rule spin.raw_induct [where P = "\<lambda>l _. l = 0"]) (fastforce simp: mu_aswap_def split: if_splits)+

lemma spin_held: "l \<noteq> 0 \<Longrightarrow> spin l = None"
  using spin_Some by (cases "spin l") auto

lemma spinlock_acquire_free [simp]: "spinlock_acquire (Some 0) irqmut m = Some (Some 1, m)"
  by (cases m) (simp add: spinlock_acquire_def mu_cpu_irqtest_def mu_cpu_irqset_def Let_def)

lemma spinlock_acquire_held: "l \<noteq> 0 \<Longrightarrow> spinlock_acquire (Some l) irqmut m = None"
  by (simp add: spinlock_acquire_def spin_held Let_def)

text \<open>
  On one processor, acquiring a free lock takes it and gives back the interrupt flag it
  found, so with \<^verbatim>\<open>irqmut\<close> the critical section runs with interrupts on again; releasing
  frees it; and acquiring a lock that is held, as an interrupt handler would that interrupts the
  critical section, never returns.
\<close>

theorem spinlock_sequential:
  "spinlock_acquire (Some 0) irqmut m = Some (Some 1, m) \<and> spinlock_release 1 = 0 \<and>
   (\<forall>l. spinlock_acquire (Some l) irqmut m = None \<longleftrightarrow> l \<noteq> 0)"
proof -
  have "spinlock_acquire (Some l) irqmut m = None \<longleftrightarrow> l \<noteq> 0" for l
    by (cases "l = 0") (simp_all add: spinlock_acquire_held)
  then show ?thesis by (simp add: spinlock_release_def mu_aswap_def)
qed

section \<open>Many processors\<close>

text \<open>
  Where a processor is in \<^verbatim>\<open>spinlock_acquire\<close>: outside, in the loop, behind the loop, or in the
  critical section. The flag says that it masked its interrupts and has to unmask them.
\<close>

datatype spin_pc = Outside | Spinning bool | Acquired bool | Critical

record smp =
  lock :: u64
  pc :: "nat \<Rightarrow> spin_pc"
  irqs :: "nat \<Rightarrow> bool"

inductive smp_step :: "smp \<Rightarrow> smp \<Rightarrow> bool" where
  enter: "pc s c = Outside \<Longrightarrow> u \<longleftrightarrow> irqs s c \<and> irqmut \<Longrightarrow>
    smp_step s (s\<lparr>irqs := (irqs s)(c := irqs s c \<and> \<not> u), pc := (pc s)(c := Spinning u)\<rparr>)"
| swap: "pc s c = Spinning u \<Longrightarrow> mu_aswap (lock s) 1 = (old, new) \<Longrightarrow>
    smp_step s (s\<lparr>lock := new, pc := (pc s)(c := if old \<noteq> 0 then Spinning u else Acquired u)\<rparr>)"
| unmask: "pc s c = Acquired u \<Longrightarrow>
    smp_step s (s\<lparr>irqs := (irqs s)(c := irqs s c \<or> u), pc := (pc s)(c := Critical)\<rparr>)"
| release: "pc s c = Critical \<Longrightarrow>
    smp_step s (s\<lparr>lock := spinlock_release (lock s), pc := (pc s)(c := Outside)\<rparr>)"

inductive_cases smp_stepE: "smp_step s s'"

inductive smp_reachable :: "(nat \<Rightarrow> bool) \<Rightarrow> smp \<Rightarrow> bool" for irqs0 where
  start: "smp_reachable irqs0 \<lparr>lock = 0, pc = (\<lambda>_. Outside), irqs = irqs0\<rparr>"
| step: "smp_reachable irqs0 s \<Longrightarrow> smp_step s s' \<Longrightarrow> smp_reachable irqs0 s'"

definition holds :: "spin_pc \<Rightarrow> bool" where
  "holds p \<longleftrightarrow> (case p of Acquired u \<Rightarrow> True | Critical \<Rightarrow> True | _ \<Rightarrow> False)"

lemma holds_simps [simp]:
  "\<not> holds Outside" "\<not> holds (Spinning u)" "holds (Acquired u)" "holds Critical"
  by (simp_all add: holds_def)

definition holders :: "smp \<Rightarrow> nat set" where
  "holders s = {c. holds (pc s c)}"

lemma holders_update [simp]:
  "holders (s\<lparr>lock := l, pc := (pc s)(c := p)\<rparr>) = (if holds p then insert c (holders s) else holders s - {c})"
  "holders (s\<lparr>irqs := i, pc := (pc s)(c := p)\<rparr>) = (if holds p then insert c (holders s) else holders s - {c})"
  by (auto simp: holders_def)

text \<open>
  The lock is free exactly when no processor holds it, at most one holds it, and a processor
  that does not have to unmask its interrupts has them as it found them.
\<close>

definition irq_saved :: "bool \<Rightarrow> spin_pc \<Rightarrow> bool \<Rightarrow> bool" where
  "irq_saved irq0 p irq \<longleftrightarrow> (case p of
       Spinning u \<Rightarrow> irq = (irq0 \<and> \<not> u) \<and> (u \<longrightarrow> irq0)
     | Acquired u \<Rightarrow> irq = (irq0 \<and> \<not> u) \<and> (u \<longrightarrow> irq0)
     | _ \<Rightarrow> irq = irq0)"

definition smp_inv :: "(nat \<Rightarrow> bool) \<Rightarrow> smp \<Rightarrow> bool" where
  "smp_inv irqs0 s \<longleftrightarrow> (lock s = 0 \<longleftrightarrow> holders s = {}) \<and>
     (\<forall>c \<in> holders s. \<forall>d \<in> holders s. c = d) \<and> (\<forall>c. irq_saved (irqs0 c) (pc s c) (irqs s c))"

lemma smp_inv_step:
  assumes "smp_inv irqs0 s" "smp_step s s'"
  shows "smp_inv irqs0 s'"
proof -
  have inv: "lock s = 0 \<longleftrightarrow> holders s = {}" "\<forall>c \<in> holders s. \<forall>d \<in> holders s. c = d"
    "\<And>c. irq_saved (irqs0 c) (pc s c) (irqs s c)" using assms(1) by (auto simp: smp_inv_def)
  have nh: "\<not> holds (pc s c) \<Longrightarrow> c \<notin> holders s" and h: "holds (pc s c) \<Longrightarrow> c \<in> holders s" for c
    by (auto simp: holders_def)
  show ?thesis using assms(2)
  proof (cases rule: smp_step.cases)
    case (enter c u irqmut)
    then show ?thesis using inv nh [of c] inv(3) [of c]
      by (auto simp: smp_inv_def irq_saved_def)
  next
    case (swap c u old new)
    then show ?thesis using inv nh [of c] inv(3) [of c]
      by (auto simp: smp_inv_def irq_saved_def mu_aswap_def)
  next
    case (unmask c u)
    then show ?thesis using inv h [of c] inv(3) [of c]
      by (auto simp: smp_inv_def irq_saved_def)
  next
    case (release c)
    then show ?thesis using inv h [of c] inv(3) [of c]
      by (auto simp: smp_inv_def irq_saved_def spinlock_release_def mu_aswap_def)
  qed
qed

lemma smp_reachable_inv: "smp_reachable irqs0 s \<Longrightarrow> smp_inv irqs0 s"
proof (induction rule: smp_reachable.induct)
  case start
  then show ?case by (simp add: smp_inv_def irq_saved_def holders_def)
next
  case (step s s')
  then show ?case by (blast intro: smp_inv_step)
qed

text \<open>
  C27: In every reachable state of any number of processors that acquire and release one
  spinlock, two different processors are never both past the loop of \<^verbatim>\<open>spinlock_acquire\<close>, and
  a processor in its critical section or outside has the interrupt flag it came with.
\<close>

theorem spinlock_mutual_exclusion:
  assumes "smp_reachable irqs0 s" "holds (pc s c)"
  shows "(\<forall>d. holds (pc s d) \<longrightarrow> d = c) \<and> lock s \<noteq> 0 \<and> (pc s c = Critical \<longrightarrow> irqs s c = irqs0 c)"
proof -
  have inv: "smp_inv irqs0 s" and c: "c \<in> holders s"
    using smp_reachable_inv [OF assms(1)] assms(2) by (auto simp: holders_def)
  have "d = c" if "holds (pc s d)" for d
    using inv c that unfolding smp_inv_def by (auto simp: holders_def)
  moreover have "lock s \<noteq> 0" using inv c by (auto simp: smp_inv_def)
  moreover have "irq_saved (irqs0 c) (pc s c) (irqs s c)" using inv by (simp add: smp_inv_def)
  ultimately show ?thesis by (auto simp: irq_saved_def)
qed

text \<open>Processor 0 has entered its critical section.\<close>

lemma spinlock_mutual_exclusion_witness:
  "let s = \<lparr>lock = 1, pc = (\<lambda>_. Outside)(0 := Critical), irqs = (\<lambda>_. True)\<rparr> in
   (\<forall>d. holds (pc s d) \<longrightarrow> d = 0) \<and> lock s \<noteq> 0 \<and> (pc s 0 = Critical \<longrightarrow> irqs s 0 = True)"
proof -
  let ?o = "\<lambda>_. Outside" and ?i = "\<lambda>_ :: nat. True"
  let ?s0 = "\<lparr>lock = 0, pc = ?o, irqs = ?i\<rparr>"
  let ?s1 = "\<lparr>lock = 0, pc = ?o(0 := Spinning True), irqs = ?i(0 := False)\<rparr>"
  let ?s2 = "\<lparr>lock = 1, pc = ?o(0 := Acquired True), irqs = ?i(0 := False)\<rparr>"
  let ?s3 = "\<lparr>lock = 1, pc = ?o(0 := Critical), irqs = ?i\<rparr>"
  have id: "?i(0 := True) = ?i" by auto
  have r0: "smp_reachable ?i ?s0" by (rule smp_reachable.start)
  have 1: "smp_step ?s0 ?s1" using smp_step.enter [of ?s0 0 True True] by simp
  have 2: "smp_step ?s1 ?s2"
    using smp_step.swap [of ?s1 0 True 0 1] by (simp add: mu_aswap_def)
  have 3: "smp_step ?s2 ?s3" using smp_step.unmask [of ?s2 0 True] id by simp
  have r: "smp_reachable ?i ?s3"
    by (rule smp_reachable.step [OF smp_reachable.step [OF smp_reachable.step [OF r0 1] 2] 3])
  show ?thesis
    unfolding Let_def by (rule spinlock_mutual_exclusion [OF r]) simp
qed

end
