(* ===== verification/Hive_Itoa.thy ===== *)
theory Hive_Itoa
  imports Hive_String
begin

text \<open>
  Number formatting, \<^verbatim>\<open>sdk/string/itoa.c\<close>. A buffer is a list of bytes, and \<open>arr_set\<close>
  has no result outside of it. The lemmas show that the two conversions leave the reference
  decimal and hexadecimal digits of the number, with sign or prefix and terminator, for every
  number but the most negative one.
\<close>

section \<open>itoa.c\<close>

definition arr_set :: "u8 list \<Rightarrow> nat \<Rightarrow> u8 \<Rightarrow> u8 list option" where
  "arr_set buf i c = (if i < length buf then Some (buf[i := c]) else None)"

text \<open>The loop \<^verbatim>\<open>while (value > 0)\<close>: least significant digit first.\<close>

function itoa10_loop :: "int \<Rightarrow> u8 list \<Rightarrow> nat \<Rightarrow> (u8 list \<times> nat) option" where
  "itoa10_loop value buf i =
     (if value > 0 then
        case arr_set buf i (48 + of_int (value mod 10)) of
          None \<Rightarrow> None
        | Some buf' \<Rightarrow> itoa10_loop (value div 10) buf' (i + 1)
      else Some (buf, i))"
  by pat_completeness auto
termination by (relation "measure (\<lambda>(value, buf, i). nat value)") auto

declare itoa10_loop.simps [simp del]

text \<open>The loop that reverses the bytes from \<open>j\<close> to \<open>i\<close>.\<close>

function rev_loop :: "u8 list \<Rightarrow> nat \<Rightarrow> nat \<Rightarrow> u8 list" where
  "rev_loop buf j i =
     (if j < i then rev_loop (buf[j := buf ! i, i := buf ! j]) (j + 1) (i - 1) else buf)"
  by pat_completeness auto
termination by (relation "measure (\<lambda>(buf, j, i). i)") auto

declare rev_loop.simps [simp del]

text \<open>Negation of an \<^verbatim>\<open>int64_t\<close> wraps, so it leaves the most negative number as it is.\<close>

definition itoa_base10_convert :: "u64 \<Rightarrow> u8 list \<Rightarrow> u8 list option" where
  "itoa_base10_convert value buf =
     (if value = 0 then do { buf \<leftarrow> arr_set buf 0 48; arr_set buf 1 0 }
      else do {
        let is_negative = (sint value < 0);
        let value = (if is_negative then - value else value);
        (buf, i) \<leftarrow> itoa10_loop (sint value) buf 0;
        (buf, i) \<leftarrow> (if is_negative then map_option (\<lambda>b. (b, i + 1)) (arr_set buf i 45)
                    else Some (buf, i));
        buf \<leftarrow> arr_set buf i 0;
        Some (rev_loop buf 0 (i - 1)) })"

definition ascii_nums :: "u8 list" where
  "ascii_nums = [48, 49, 50, 51, 52, 53, 54, 55, 56, 57, 65, 66, 67, 68, 69, 70]"

lemma unat_drop_bit4_less: "(n :: u64) > 0 \<Longrightarrow> unat (drop_bit 4 n) < unat n"
  by (simp add: unat_drop_bit_eq drop_bit_nat_def word_less_nat_alt)

function itoa16_loop :: "u64 \<Rightarrow> u8 list \<Rightarrow> nat \<Rightarrow> (u8 list \<times> nat) option" where
  "itoa16_loop n buf i =
     (if n > 0 then
        case arr_set buf i (ascii_nums ! unat ((ucast n :: u8) AND 0x0F)) of
          None \<Rightarrow> None
        | Some buf' \<Rightarrow> itoa16_loop (drop_bit 4 n) buf' (i + 1)
      else Some (buf, i))"
  by pat_completeness auto
termination by (relation "measure (\<lambda>(n, buf, i). unat n)") (auto simp: unat_drop_bit4_less)

declare itoa16_loop.simps [simp del]

text \<open>\<^verbatim>\<open>memcpy(buffer, "0x00\0", 5)\<close> into an array.\<close>

fun arr_sets :: "u8 list \<Rightarrow> nat \<Rightarrow> u8 list \<Rightarrow> u8 list option" where
  "arr_sets buf i [] = Some buf"
| "arr_sets buf i (c # cs) = do { buf \<leftarrow> arr_set buf i c; arr_sets buf (i + 1) cs }"

definition itoa_convert_base16 :: "u64 \<Rightarrow> u8 list \<Rightarrow> u8 list option" where
  "itoa_convert_base16 n buf =
     (if n = 0 then arr_sets buf 0 [48, 120, 48, 48, 0]
      else do {
        let pad = (n < 0x10);
        (buf, i) \<leftarrow> itoa16_loop n buf 0;
        (buf, i) \<leftarrow> (if pad then map_option (\<lambda>b. (b, i + 1)) (arr_set buf i 48) else Some (buf, i));
        buf \<leftarrow> arr_sets buf i [120, 48, 0];
        Some (rev_loop buf 0 (i + 2 - 1)) })"

text \<open>The inner option is the returned pointer: NULL for a base other than 10 and 16.\<close>

definition itoa :: "u64 \<Rightarrow> u8 list \<Rightarrow> int \<Rightarrow> u8 list option option" where
  "itoa value buf base =
     (if base = 10 then map_option Some (itoa_base10_convert value buf)
      else if base = 16 then map_option Some (itoa_convert_base16 value buf)
      else Some None)"

section \<open>Reference definitions and correctness of itoa\<close>

fun dec_digits :: "nat \<Rightarrow> u8 list" where
  "dec_digits n = (if n < 10 then [48 + of_nat n] else dec_digits (n div 10) @ [48 + of_nat (n mod 10)])"

fun hex_digits :: "nat \<Rightarrow> u8 list" where
  "hex_digits n = (if n < 16 then [ascii_nums ! n] else hex_digits (n div 16) @ [ascii_nums ! (n mod 16)])"

declare dec_digits.simps [simp del] hex_digits.simps [simp del]

text \<open>The string in an array: the bytes before the first NUL.\<close>

definition arr_str :: "u8 list \<Rightarrow> u8 list" where
  "arr_str buf = takeWhile (\<lambda>c. c \<noteq> 0) buf"

definition placed :: "u8 list \<Rightarrow> nat \<Rightarrow> u8 list \<Rightarrow> u8 list" where
  "placed buf i ds = take i buf @ ds @ drop (i + length ds) buf"

lemma length_placed [simp]: "i + length ds \<le> length buf \<Longrightarrow> length (placed buf i ds) = length buf"
  by (simp add: placed_def)

lemma placed_Nil [simp]: "placed buf i [] = buf"
  by (simp add: placed_def)

lemma placed_Cons:
  assumes "i < length buf"
  shows "placed (buf[i := d]) (Suc i) ds = placed buf i (d # ds)"
  using assms by (simp add: placed_def take_Suc_conv_app_nth)

lemma placed_append:
  assumes "i + length ds + length es \<le> length buf"
  shows "placed (placed buf i ds) (i + length ds) es = placed buf i (ds @ es)"
  using assms by (simp add: placed_def add.commute add.left_commute)

lemma placed_snoc:
  assumes "i + length ds < length buf"
  shows "(placed buf i ds)[i + length ds := d] = placed buf i (ds @ [d])"
  using assms placed_append [of i ds "[d]" buf] placed_Cons [of "i + length ds" "placed buf i ds" d "[]"]
  by simp

lemma rev_loop_nth:
  assumes "i < length buf"
  shows "length (rev_loop buf j i) = length buf \<and>
    (\<forall>k < length buf. rev_loop buf j i ! k = (if j \<le> k \<and> k \<le> i then buf ! (j + i - k) else buf ! k))"
  using assms
proof (induction buf j i rule: rev_loop.induct)
  case (1 buf j i)
  show ?case
  proof (cases "j < i")
    case True
    have "rev_loop buf j i = rev_loop (buf[j := buf ! i, i := buf ! j]) (j + 1) (i - 1)"
      using True by (simp add: rev_loop.simps [of buf j i])
    moreover note "1.IH" [OF True]
    ultimately show ?thesis using True "1.prems"
      by (auto simp: nth_list_update)
  next
    case False
    then have "j + i - k = k" if "j \<le> k" "k \<le> i" for k using that by simp
    with False show ?thesis by (auto simp: rev_loop.simps [of buf j i])
  qed
qed

lemma rev_loop_prefix:
  assumes "0 < n" "n \<le> length buf"
  shows "rev_loop buf 0 (n - 1) = rev (take n buf) @ drop n buf"
proof (rule nth_equalityI)
  show "length (rev_loop buf 0 (n - 1)) = length (rev (take n buf) @ drop n buf)"
    using rev_loop_nth [of "n - 1" buf 0] assms by simp
  fix k assume "k < length (rev_loop buf 0 (n - 1))"
  then show "rev_loop buf 0 (n - 1) ! k = (rev (take n buf) @ drop n buf) ! k"
    using rev_loop_nth [of "n - 1" buf 0] assms by (auto simp: nth_append rev_nth)
qed

lemma dec_digits_nonempty [simp]: "dec_digits n \<noteq> []"
  by (subst dec_digits.simps) simp

lemma hex_digits_nonempty [simp]: "hex_digits n \<noteq> []"
  by (subst hex_digits.simps) simp


lemma dec_digits_step: "10 \<le> n \<Longrightarrow> dec_digits n = dec_digits (n div 10) @ [48 + of_nat (n mod 10)]"
  by (subst dec_digits.simps) simp

lemma dec_digits_small: "n < 10 \<Longrightarrow> dec_digits n = [48 + of_nat n]"
  by (subst dec_digits.simps) simp

lemma hex_digits_step: "16 \<le> n \<Longrightarrow> hex_digits n = hex_digits (n div 16) @ [ascii_nums ! (n mod 16)]"
  by (subst hex_digits.simps) simp

lemma hex_digits_small: "n < 16 \<Longrightarrow> hex_digits n = [ascii_nums ! n]"
  by (subst hex_digits.simps) simp

lemma length_dec_digits: "n < 10 ^ k \<Longrightarrow> 0 < k \<Longrightarrow> length (dec_digits n) \<le> k"
proof (induction n arbitrary: k rule: dec_digits.induct)
  case (1 n)
  show ?case
  proof (cases "n < 10")
    case False
    with "1.prems" obtain k' where k: "k = Suc k'" "0 < k'" by (cases k) (auto, case_tac nat, auto)
    then have "n div 10 < 10 ^ k'" using "1.prems" by (simp add: div_less_iff_less_mult)
    then show ?thesis using "1.IH" [OF False] k False by (simp add: dec_digits_step)
  qed (use "1.prems" in \<open>simp add: dec_digits_small\<close>)
qed

lemma length_hex_digits: "n < 16 ^ k \<Longrightarrow> 0 < k \<Longrightarrow> length (hex_digits n) \<le> k"
proof (induction n arbitrary: k rule: hex_digits.induct)
  case (1 n)
  show ?case
  proof (cases "n < 16")
    case False
    with "1.prems" obtain k' where k: "k = Suc k'" "0 < k'" by (cases k) (auto, case_tac nat, auto)
    then have "n div 16 < 16 ^ k'" using "1.prems" by (simp add: div_less_iff_less_mult)
    then show ?thesis using "1.IH" [OF False] k False by (simp add: hex_digits_step)
  qed (use "1.prems" in \<open>simp add: hex_digits_small\<close>)
qed

text \<open>The value of a digit string, and that the reference digits have the value they print.\<close>

definition dec_value :: "u8 list \<Rightarrow> nat" where
  "dec_value ds = foldl (\<lambda>a d. 10 * a + (unat d - 48)) 0 ds"

definition hex_value :: "u8 list \<Rightarrow> nat" where
  "hex_value ds = foldl (\<lambda>a d. 16 * a + (if d \<le> 57 then unat d - 48 else unat d - 55)) 0 ds"

lemma unat_dec_digit: "n < 10 \<Longrightarrow> unat (48 + of_nat n :: u8) = 48 + n"
  by (subst unat_add_lem [THEN iffD1]) (simp_all add: unat_of_nat take_bit_nat_eq_self)

lemma dec_value_digits: "dec_value (dec_digits n) = n"
proof (induction n rule: dec_digits.induct)
  case (1 n)
  show ?case
  proof (cases "n < 10")
    case True
    then show ?thesis by (simp add: dec_digits_small dec_value_def unat_dec_digit)
  next
    case False
    then show ?thesis using "1.IH"
      by (simp add: dec_digits_step dec_value_def unat_dec_digit)
  qed
qed

lemma nat_less_16_cases:
  "n < 16 \<Longrightarrow> (n :: nat) \<in> {0, 1, 2, 3, 4, 5, 6, 7, 8, 9, 10, 11, 12, 13, 14, 15}"
  by simp presburger

lemma hex_digit_value:
  "n < 16 \<Longrightarrow> (let d = ascii_nums ! n in
     (if d \<le> 57 then unat d - 48 else unat d - 55) = n \<and> d \<noteq> 0)"
  by (drule nat_less_16_cases) (auto simp: ascii_nums_def)

lemma hex_value_digits: "hex_value (hex_digits n) = n"
proof (induction n rule: hex_digits.induct)
  case (1 n)
  show ?case
  proof (cases "n < 16")
    case True
    then show ?thesis using hex_digit_value [of n] by (simp add: hex_digits_small hex_value_def Let_def)
  next
    case False
    then show ?thesis using "1.IH" hex_digit_value [of "n mod 16"]
      by (simp add: hex_digits_step hex_value_def Let_def)
  qed
qed

lemma dec_digits_nonzero: "0 \<notin> set (dec_digits n)"
proof (induction n rule: dec_digits.induct)
  case (1 n)
  have "48 + of_nat k \<noteq> (0 :: u8)" if "k < 10" for k
    using unat_dec_digit [OF that] by (metis add_is_0 unat_0 zero_neq_numeral)
  then show ?case
    using 1 by (cases "n < 10") (auto simp: dec_digits_small dec_digits_step)
qed

lemma hex_digits_nonzero: "0 \<notin> set (hex_digits n)"
proof (induction n rule: hex_digits.induct)
  case (1 n)
  then show ?case
    using hex_digit_value [of n] hex_digit_value [of "n mod 16"]
    by (cases "n < 16") (auto simp: hex_digits_small hex_digits_step Let_def)
qed

lemma arr_set_ok [simp]: "i < length buf \<Longrightarrow> arr_set buf i c = Some (buf[i := c])"
  by (simp add: arr_set_def)


lemma itoa10_loop_correct:
  assumes "0 < n" "i + length (dec_digits n) \<le> length buf"
  shows "itoa10_loop (int n) buf i =
    Some (placed buf i (rev (dec_digits n)), i + length (dec_digits n))"
  using assms
proof (induction n arbitrary: buf i rule: dec_digits.induct)
  case (1 n)
  have d: "(48 :: u8) + of_int (int n mod 10) = 48 + of_nat (n mod 10)"
    by (metis of_int_of_nat_eq of_nat_numeral zmod_int)
  have "0 < length (dec_digits n)" by simp
  then have lt: "i < length buf" using "1.prems" by linarith
  have q: "int n div 10 = int (n div 10)" by (simp add: zdiv_int)
  have unfold: "itoa10_loop (int n) buf i =
      itoa10_loop (int (n div 10)) (buf[i := 48 + of_nat (n mod 10)]) (i + 1)"
    using "1.prems" lt by (subst itoa10_loop.simps) (simp add: d q)
  show ?case
  proof (cases "n < 10")
    case True
    then show ?thesis using "1.prems" unfold
      by (simp add: itoa10_loop.simps [of 0] dec_digits_small placed_def upd_conv_take_nth_drop)
  next
    case False
    then have "itoa10_loop (int (n div 10)) (buf[i := 48 + of_nat (n mod 10)]) (i + 1) =
        Some (placed (buf[i := 48 + of_nat (n mod 10)]) (i + 1) (rev (dec_digits (n div 10))),
          i + 1 + length (dec_digits (n div 10)))"
      using "1.prems" by (intro "1.IH") (auto simp: dec_digits_step)
    with False "1.prems" unfold show ?thesis by (simp add: dec_digits_step placed_Cons)
  qed
qed

lemma itoa16_loop_correct:
  assumes "0 < n" "i + length (hex_digits (unat n)) \<le> length buf"
  shows "itoa16_loop n buf i =
    Some (placed buf i (rev (hex_digits (unat n))), i + length (hex_digits (unat n)))"
  using assms
proof (induction "unat n" arbitrary: n buf i rule: hex_digits.induct)
  case 1
  have d: "unat ((ucast n :: u8) AND 0x0F) = unat n mod 16"
  proof -
    have "(ucast n :: u8) AND 0x0F = take_bit 4 (ucast n)"
      by (simp add: take_bit_eq_mask mask_eq_exp_minus_1)
    also have "unat \<dots> = unat n mod 16"
      by (simp add: unsigned_take_bit_eq unsigned_ucast_eq take_bit_nat_def mod_mod_cancel)
    finally show ?thesis .
  qed
  have "0 < length (hex_digits (unat n))" by simp
  then have lt: "i < length buf" using "1.prems" by linarith
  have q: "unat (drop_bit 4 n) = unat n div 16" by (simp add: unat_drop_bit_eq drop_bit_nat_def)
  have unfold: "itoa16_loop n buf i =
      itoa16_loop (drop_bit 4 n) (buf[i := ascii_nums ! (unat n mod 16)]) (i + 1)"
    using "1.prems" lt by (subst itoa16_loop.simps) (simp add: d)
  show ?case
  proof (cases "unat n < 16")
    case True
    then have "drop_bit 4 n = 0" using q by (simp add: unat_eq_0 [symmetric])
    then show ?thesis using "1.prems" unfold True
      by (simp add: itoa16_loop.simps [of 0] hex_digits_small placed_def upd_conv_take_nth_drop)
  next
    case False
    then have "0 < drop_bit 4 n" using q by (simp add: word_less_nat_alt)
    then have "itoa16_loop (drop_bit 4 n) (buf[i := ascii_nums ! (unat n mod 16)]) (i + 1) =
        Some (placed (buf[i := ascii_nums ! (unat n mod 16)]) (i + 1) (rev (hex_digits (unat (drop_bit 4 n)))),
          i + 1 + length (hex_digits (unat (drop_bit 4 n))))"
      using "1.prems" False q by (intro "1.hyps") (auto simp: hex_digits_step)
    with False "1.prems" unfold q show ?thesis by (simp add: hex_digits_step placed_Cons)
  qed
qed


text \<open>What is left after the digits, the sign or prefix, and the reversal.\<close>

lemma rev_loop_placed:
  assumes "ds \<noteq> []" "length ds < length buf"
  shows "rev_loop (placed buf 0 (ds @ [0])) 0 (length ds - 1) = rev ds @ [0] @ drop (length ds + 1) buf"
  using assms by (subst rev_loop_prefix) (simp_all add: placed_def)

lemma arr_str_prefix: "0 \<notin> set xs \<Longrightarrow> arr_str (xs @ 0 # ys) = xs"
  by (simp add: arr_str_def takeWhile_append)

text \<open>The string itoa leaves for each base, on every branch but the most negative number.\<close>

definition dec_string :: "u64 \<Rightarrow> u8 list" where
  "dec_string w = (if sint w < 0 then 45 # dec_digits (nat (- sint w)) else dec_digits (nat (sint w)))"

definition hex_string :: "u64 \<Rightarrow> u8 list" where
  "hex_string w = [48, 120] @ (if w < 0x10 then [48] else []) @ hex_digits (unat w)"

lemma sint64_range: "- 9223372036854775808 \<le> sint (w :: u64)" "sint w < 9223372036854775808"
  using sint_greater_eq [of w] sint_less [of w] by simp_all

lemma dec_string_nonzero: "0 \<notin> set (dec_string w)"
  by (simp add: dec_string_def dec_digits_nonzero)

lemma hex_string_nonzero: "0 \<notin> set (hex_string w)"
  by (simp add: hex_string_def hex_digits_nonzero)

lemma length_dec_string: "length (dec_string w) \<le> 20"
proof -
  have "nat (- sint w) < 10 ^ 19" "nat (sint w) < 10 ^ 19"
    using sint64_range [of w] by auto
  then show ?thesis
    using length_dec_digits [of "nat (- sint w)" 19] length_dec_digits [of "nat (sint w)" 19]
    by (simp add: dec_string_def)
qed

lemma length_hex_string: "length (hex_string w) \<le> 18"
proof -
  have "unat w < 16 ^ 16" using unat64_lt [of w] by simp
  then show ?thesis
    using length_hex_digits [of "unat w" 16] length_hex_digits [of "unat w" 1]
    by (auto simp: hex_string_def word_less_nat_alt)
qed

lemma sint_minus64: "sint (w :: u64) \<noteq> - 9223372036854775808 \<Longrightarrow> sint (- w) = - sint w"
  using sint64_range [of w] by (simp add: sint_word_ariths signed_take_bit_int_eq_self)

lemma itoa_base10_string:
  assumes "sint w \<noteq> - 9223372036854775808" "22 \<le> length buf"
  shows "\<exists>ys. itoa_base10_convert w buf = Some (dec_string w @ 0 # ys) \<and>
    length (dec_string w @ 0 # ys) = length buf"
proof (cases "w = 0")
  case True
  then show ?thesis using assms(2)
    by (auto simp: itoa_base10_convert_def dec_string_def dec_digits_small bind_eq_Some_conv
        Suc_le_length_iff numeral_eq_Suc)
next
  case False
  define n where "n = nat (if sint w < 0 then - sint w else sint w)"
  define ds where "ds = rev (dec_digits n) @ (if sint w < 0 then [45] else [])"
  have w: "sint w \<noteq> 0" using False by (simp add: signed_eq_0_iff)
  have n: "0 < n" "sint (if sint w < 0 then - w else w) = int n"
    using w assms(1) by (auto simp: n_def sint_minus64)
  have str: "dec_string w = rev ds" by (simp add: dec_string_def ds_def n_def)
  have len: "length ds \<le> 20" using length_dec_string [of w] by (simp add: str)
  have fit: "length (dec_digits n) \<le> length buf" "length (dec_digits n) + 1 < length buf"
    using len assms(2) by (auto simp: ds_def)
  have "itoa_base10_convert w buf = Some (rev_loop (placed buf 0 (ds @ [0])) 0 (length ds - 1))"
    using False n fit itoa10_loop_correct [of n 0 buf] placed_snoc [of 0 "rev (dec_digits n)" buf]
      placed_snoc [of 0 ds buf]
    by (auto simp: itoa_base10_convert_def Let_def ds_def)
  then show ?thesis using rev_loop_placed [of ds buf] len assms(2)
    by (auto simp: str ds_def)
qed

lemma arr_sets_placed: "i + length cs \<le> length buf \<Longrightarrow> arr_sets buf i cs = Some (placed buf i cs)"
  by (induction cs arbitrary: buf i) (auto simp: placed_Cons)

lemma itoa_base16_string:
  assumes "21 \<le> length buf"
  shows "\<exists>ys. itoa_convert_base16 w buf = Some (hex_string w @ 0 # ys) \<and>
    length (hex_string w @ 0 # ys) = length buf"
proof (cases "w = 0")
  case True
  then show ?thesis using assms
    by (simp add: itoa_convert_base16_def arr_sets_placed hex_string_def hex_digits_small
        ascii_nums_def placed_def del: arr_sets.simps)
next
  case False
  define hs where "hs = rev (hex_digits (unat w)) @ (if w < 0x10 then [48] else [])"
  define ds where "ds = hs @ [120, 48]"
  have str: "hex_string w = rev ds" by (simp add: hex_string_def ds_def hs_def)
  have len: "length ds \<le> 18" using length_hex_string [of w] by (simp add: str)
  have fit: "length (hex_digits (unat w)) < length buf" "length hs + 3 \<le> length buf"
    using len assms by (auto simp: ds_def hs_def)
  have "(do { (buf, i) \<leftarrow> itoa16_loop w buf 0;
        if w < 0x10 then map_option (\<lambda>b. (b, i + 1)) (arr_set buf i 48) else Some (buf, i) })
      = Some (placed buf 0 hs, length hs)"
    using False fit itoa16_loop_correct [of w 0 buf] placed_snoc [of 0 "rev (hex_digits (unat w))" buf]
    by (auto simp: hs_def word_gt_0)
  then have "itoa_convert_base16 w buf = Some (rev_loop (placed buf 0 (ds @ [0])) 0 (length ds - 1))"
    using False fit placed_append [of 0 hs "[120, 48, 0]" buf]
    by (auto simp: itoa_convert_base16_def Let_def ds_def arr_sets_placed bind_eq_Some_conv
        simp del: arr_sets.simps split: if_splits option.splits)
  then show ?thesis using rev_loop_placed [of ds buf] len assms
    by (auto simp: str ds_def)
qed

text \<open>Negating the most negative number leaves it negative, and only the sign is printed.\<close>

lemma itoa_base10_min:
  assumes "2 \<le> length buf"
  shows "\<exists>ys. itoa_base10_convert 0x8000000000000000 buf = Some (45 # 0 # ys) \<and>
    length (45 # 0 # ys) = length buf"
proof -
  obtain a b ys where "buf = a # b # ys"
    using assms by (cases buf; cases "tl buf") auto
  then show ?thesis
    by (simp add: itoa_base10_convert_def itoa10_loop.simps rev_loop.simps)
qed


lemma dec_digits_head: "hd (dec_digits n) \<noteq> 45"
proof (induction n rule: dec_digits.induct)
  case (1 n)
  show ?case
  proof (cases "n < 10")
    case True
    have "(48 + of_nat n :: u8) \<noteq> 45"
    proof
      assume "(48 + of_nat n :: u8) = 45"
      then have "unat (48 + of_nat n :: u8) = unat (45 :: u8)" by (rule arg_cong)
      then show False using True by (simp only: unat_dec_digit) simp
    qed
    then show ?thesis using True by (simp add: dec_digits_small del: add_left_cancel)
  next
    case False
    then show ?thesis using 1 by (simp add: dec_digits_step)
  qed
qed

text \<open>
  C22: What \<^verbatim>\<open>itoa\<close> prints reads back as the number: in base 10 the optional minus sign and
  the decimal digits give the signed value of every number but the smallest one, and in base 16
  the digits after the prefix \<^verbatim>\<open>0x\<close> give the unsigned value of every number.
\<close>

theorem itoa_roundtrip:
  assumes "22 \<le> length buf"
  shows "(sint w \<noteq> - 9223372036854775808 \<longrightarrow>
      (\<exists>b. itoa w buf 10 = Some (Some b) \<and> length b = length buf \<and>
        sint w = (if hd (arr_str b) = 45 then - int (dec_value (tl (arr_str b)))
                  else int (dec_value (arr_str b))))) \<and>
    (\<exists>b. itoa w buf 16 = Some (Some b) \<and> length b = length buf \<and>
      take 2 (arr_str b) = [48, 120] \<and> hex_value (drop 2 (arr_str b)) = unat w)"
proof (intro conjI impI)
  assume "sint w \<noteq> - 9223372036854775808"
  then obtain ys where ys: "itoa_base10_convert w buf = Some (dec_string w @ 0 # ys)"
    "length (dec_string w @ 0 # ys) = length buf"
    using itoa_base10_string assms by blast
  have "arr_str (dec_string w @ 0 # ys) = dec_string w"
    by (rule arr_str_prefix [OF dec_string_nonzero])
  moreover have "sint w = (if hd (dec_string w) = 45 then - int (dec_value (tl (dec_string w)))
      else int (dec_value (dec_string w)))"
    using dec_digits_head by (simp add: dec_string_def dec_value_digits)
  ultimately show "\<exists>b. itoa w buf 10 = Some (Some b) \<and> length b = length buf \<and>
      sint w = (if hd (arr_str b) = 45 then - int (dec_value (tl (arr_str b)))
                else int (dec_value (arr_str b)))"
    using ys by (intro exI [of _ "dec_string w @ 0 # ys"]) (simp add: itoa_def)
next
  have "21 \<le> length buf" using assms by simp
  then obtain ys where ys: "itoa_convert_base16 w buf = Some (hex_string w @ 0 # ys)"
    "length (hex_string w @ 0 # ys) = length buf"
    using itoa_base16_string by blast
  have "arr_str (hex_string w @ 0 # ys) = hex_string w"
    by (rule arr_str_prefix [OF hex_string_nonzero])
  moreover have "hex_value (drop 2 (hex_string w)) = unat w"
  proof -
    have "hex_value (48 # ds) = hex_value ds" for ds by (simp add: hex_value_def)
    then show ?thesis by (simp add: hex_string_def hex_value_digits)
  qed
  ultimately show "\<exists>b. itoa w buf 16 = Some (Some b) \<and> length b = length buf \<and>
      take 2 (arr_str b) = [48, 120] \<and> hex_value (drop 2 (arr_str b)) = unat w"
    using ys by (intro exI [of _ "hex_string w @ 0 # ys"]) (simp add: itoa_def hex_string_def)
qed

text \<open>The number -42.\<close>

lemma itoa_roundtrip_witness:
  "\<exists>b. itoa (- 42) (replicate 256 0) 10 = Some (Some b) \<and> length b = 256 \<and>
    (- 42 :: int) = (if hd (arr_str b) = 45 then - int (dec_value (tl (arr_str b)))
                  else int (dec_value (arr_str b)))"
proof -
  have "22 \<le> length (replicate 256 (0 :: u8))" by simp
  from itoa_roundtrip [OF this, of "- 42"] show ?thesis by simp
qed

end
