(* ===== verification/Hive_Format.thy ===== *)
theory Hive_Format
  imports Hive_Itoa
begin

text \<open>
  String formatting: \<^verbatim>\<open>vsnprintf.c\<close> of \<^verbatim>\<open>sdk/string\<close>, and its users
  \<^verbatim>\<open>core/trace.c\<close> and \<^verbatim>\<open>core/panic.c\<close>. The format string is
  the list of its bytes with the terminating NUL; reading past its end has no result. The
  variadic arguments are a list, and reading one of the wrong kind has no result. A string
  argument is the list of its bytes; it is printed up to its first NUL, and a list without one
  stands for a string whose NUL follows its last byte.
\<close>

section \<open>vsnprintf.c\<close>

text \<open>
  The locals of \<^verbatim>\<open>vsnprintf\<close>: the destination \<^verbatim>\<open>s\<close>, the offset, the number
  buffer and the padding width, together with the variadic arguments not yet read.
\<close>

datatype va_val = VInt u64 | VStr "u8 list"

record vs_state =
  vs_buf :: "u8 list"
  vs_off :: u64
  vs_num :: "u8 list"
  vs_pad :: u8
  vs_args :: "va_val list"

definition printc :: "u64 \<Rightarrow> u8 \<Rightarrow> vs_state \<Rightarrow> vs_state option" where
  "printc sz c st = do {
     st \<leftarrow> (if vs_off st < sz - 1 then do {
              b \<leftarrow> arr_set (vs_buf st) (unat (vs_off st)) c;
              Some (st\<lparr>vs_buf := b, vs_off := vs_off st + 1\<rparr>) }
            else Some st);
     b \<leftarrow> arr_set (vs_buf st) (unat (vs_off st)) 0;
     Some (st\<lparr>vs_buf := b\<rparr>) }"

fun printstr_loop :: "u64 \<Rightarrow> u8 list \<Rightarrow> vs_state \<Rightarrow> vs_state option" where
  "printstr_loop sz [] st = Some st"
| "printstr_loop sz (c # cs) st =
     (if vs_off st < sz - 1 \<and> c \<noteq> 0 then do {
        b \<leftarrow> arr_set (vs_buf st) (unat (vs_off st)) c;
        printstr_loop sz cs (st\<lparr>vs_buf := b, vs_off := vs_off st + 1\<rparr>) }
      else Some st)"

definition printstr :: "u64 \<Rightarrow> u8 list \<Rightarrow> vs_state \<Rightarrow> vs_state option" where
  "printstr sz s st = do {
     st \<leftarrow> printstr_loop sz s st;
     b \<leftarrow> arr_set (vs_buf st) (unat (vs_off st)) 0;
     Some (st\<lparr>vs_buf := b\<rparr>) }"

text \<open>The same character printed \<open>k\<close> times, as the padding loops do.\<close>

fun printc_n :: "nat \<Rightarrow> u64 \<Rightarrow> u8 \<Rightarrow> vs_state \<Rightarrow> vs_state option" where
  "printc_n 0 sz c st = Some st"
| "printc_n (Suc k) sz c st = do { st \<leftarrow> printc sz c st; printc_n k sz c st }"

definition va_int :: "vs_state \<Rightarrow> (u64 \<times> vs_state) option" where
  "va_int st = (case vs_args st of VInt n # as \<Rightarrow> Some (n, st\<lparr>vs_args := as\<rparr>) | _ \<Rightarrow> None)"

definition va_str :: "vs_state \<Rightarrow> (u8 list \<times> vs_state) option" where
  "va_str st = (case vs_args st of VStr s # as \<Rightarrow> Some (s, st\<lparr>vs_args := as\<rparr>) | _ \<Rightarrow> None)"

text \<open>\<^verbatim>\<open>itoa(num, num_buf, base)\<close>.\<close>

definition vs_itoa :: "u64 \<Rightarrow> int \<Rightarrow> vs_state \<Rightarrow> vs_state option" where
  "vs_itoa num base st = do { r \<leftarrow> itoa num (vs_num st) base; b \<leftarrow> r; Some (st\<lparr>vs_num := b\<rparr>) }"

text \<open>The switch on the conversion character: c, percent, d, p, x, s; any other prints nothing.\<close>

definition vs_conv :: "u64 \<Rightarrow> u8 \<Rightarrow> vs_state \<Rightarrow> vs_state option" where
  "vs_conv sz c st =
     (if c = 99 then do { (n, st) \<leftarrow> va_int st; printc sz (ucast n) st }
      else if c = 37 then printc sz c st
      else if c = 100 then do {
        (n, st) \<leftarrow> va_int st;
        st \<leftarrow> vs_itoa n 10 st;
        st \<leftarrow> (if vs_pad st > 0 then do {
                 st \<leftarrow> printc_n (unat (vs_pad st) - length (arr_str (vs_num st))) sz 48 st;
                 Some (st\<lparr>vs_pad := 0\<rparr>) }
               else Some st);
        printstr sz (vs_num st) st }
      else if c = 112 then do {
        (n, st) \<leftarrow> va_int st;
        st \<leftarrow> vs_itoa n 16 st;
        st \<leftarrow> printc sz 48 st;
        st \<leftarrow> printc sz 120 st;
        st \<leftarrow> printc_n (unat (18 - of_nat (length (arr_str (vs_num st))) :: u64)) sz 48 st;
        printstr sz (drop 2 (vs_num st)) st }
      else if c = 120 then do {
        (n, st) \<leftarrow> va_int st;
        st \<leftarrow> vs_itoa n 16 st;
        printstr sz (drop 2 (vs_num st)) st }
      else if c = 115 then do { (s, st) \<leftarrow> va_str st; printstr sz s st }
      else Some st)"

text \<open>The literal text before the next percent sign; the result is the rest of the format.\<close>

fun vs_literal :: "u64 \<Rightarrow> u8 list \<Rightarrow> vs_state \<Rightarrow> (u8 list \<times> vs_state) option" where
  "vs_literal sz [] st = None"
| "vs_literal sz (c # fmt) st =
     (if c \<noteq> 0 \<and> c \<noteq> 37 then do { st \<leftarrow> printc sz c st; vs_literal sz fmt st }
      else Some (c # fmt, st))"

text \<open>The optional padding width after the percent sign, kept in eight bits.\<close>

fun vs_width :: "u8 list \<Rightarrow> u8 \<Rightarrow> (u8 list \<times> u8) option" where
  "vs_width [] pad = None"
| "vs_width (c # fmt) pad =
     (if 48 \<le> c \<and> c \<le> 57 then vs_width fmt (pad * 10 + (c - 48)) else Some (c # fmt, pad))"

definition vs_padding :: "u8 list \<Rightarrow> vs_state \<Rightarrow> (u8 list \<times> vs_state) option" where
  "vs_padding fmt st =
     (case fmt of [] \<Rightarrow> None
      | c # rest \<Rightarrow>
          if c = 48 then do { (f, pad) \<leftarrow> vs_width rest (vs_pad st); Some (f, st\<lparr>vs_pad := pad\<rparr>) }
          else Some (fmt, st))"

lemma vs_literal_length: "vs_literal sz fmt st = Some (f, st') \<Longrightarrow> length f \<le> length fmt"
  by (induction sz fmt st rule: vs_literal.induct) (auto simp: bind_eq_Some_conv split: if_splits)

lemma vs_width_length: "vs_width fmt pad = Some (f, p) \<Longrightarrow> length f \<le> length fmt"
  by (induction fmt pad rule: vs_width.induct) (auto split: if_splits)

lemma vs_padding_length: "vs_padding fmt st = Some (f, st') \<Longrightarrow> length f \<le> length fmt"
  by (auto simp: vs_padding_def bind_eq_Some_conv split: list.splits if_splits dest: vs_width_length)

function vsnprintf_loop :: "u64 \<Rightarrow> u8 list \<Rightarrow> vs_state \<Rightarrow> (u64 \<times> vs_state) option" where
  "vsnprintf_loop sz fmt st =
     (if vs_off st < sz - 1 then
        case vs_literal sz fmt st of None \<Rightarrow> None | Some (f1, st1) \<Rightarrow>
        (case f1 of [] \<Rightarrow> None | c # f2 \<Rightarrow>
         if c = 0 \<or> vs_off st1 = sz - 1 then Some (vs_off st1, st1)
         else case vs_padding f2 st1 of None \<Rightarrow> None | Some (f3, st2) \<Rightarrow>
         (case f3 of [] \<Rightarrow> None | c' # f4 \<Rightarrow>
          (case vs_conv sz c' st2 of None \<Rightarrow> None | Some st3 \<Rightarrow> vsnprintf_loop sz f4 st3)))
      else Some (0, st))"
  by pat_completeness auto
termination
  by (relation "measure (\<lambda>(sz, fmt, st). length fmt)")
    (auto dest!: vs_literal_length vs_padding_length)

declare vsnprintf_loop.simps [simp del]

text \<open>The returned \<^verbatim>\<open>size_t\<close> is converted to \<^verbatim>\<open>int\<close>.\<close>

definition vsnprintf :: "u8 list \<Rightarrow> u64 \<Rightarrow> u8 list \<Rightarrow> va_val list \<Rightarrow> (int \<times> u8 list) option" where
  "vsnprintf s sz fmt ap =
     map_option (\<lambda>(r, st). (sint (ucast r :: u32), vs_buf st))
       (vsnprintf_loop sz fmt
         \<lparr>vs_buf = s, vs_off = 0, vs_num = replicate 256 0, vs_pad = 0, vs_args = ap\<rparr>)"

definition snprintf :: "u8 list \<Rightarrow> u64 \<Rightarrow> u8 list \<Rightarrow> va_val list \<Rightarrow> (int \<times> u8 list) option" where
  "snprintf s sz fmt ap = vsnprintf s sz fmt ap"

section \<open>What the bounded print writes\<close>

text \<open>
  What every step of \<^verbatim>\<open>vsnprintf\<close> keeps, when \<open>out\<close> is the text printed so far,
  before truncation, into a destination of at least \<open>sz\<close> bytes: the destination starts with
  as much of \<open>out\<close> as fits, the byte after that is NUL once something was printed (and
  \<open>sz\<close> is not 1), the bytes
  from \<open>sz\<close> on and the length are those of the original destination \<open>b0\<close>, and the number
  buffer keeps its size.
\<close>

definition vs_inv :: "u64 \<Rightarrow> u8 list \<Rightarrow> u8 list \<Rightarrow> vs_state \<Rightarrow> bool" where
  "vs_inv sz b0 out st \<longleftrightarrow>
     0 < sz \<and> unat sz \<le> length b0 \<and> length (vs_buf st) = length b0 \<and>
     drop (unat sz) (vs_buf st) = drop (unat sz) b0 \<and>
     unat (vs_off st) = min (unat sz - 1) (length out) \<and>
     take (unat (vs_off st)) (vs_buf st) = take (unat sz - 1) out \<and>
     (out = [] \<or> sz \<le> 1 \<or> vs_buf st ! unat (vs_off st) = 0) \<and> length (vs_num st) = 256"

lemma unat_dec64: "0 < (n :: u64) \<Longrightarrow> unat (n - 1) = unat n - 1"
  using unat_sub64 [of 1 n] by (simp add: word_less_nat_alt)

lemma unat_inc64: "(n :: u64) < m \<Longrightarrow> unat (n + 1) = unat n + 1"
  using unat64_lt [of m] by (subst unat_add64) (auto simp: word_less_nat_alt)

lemma drop_update_irrelevant: "i < n \<Longrightarrow> drop n (xs[i := x]) = drop n xs"
  by (simp add: drop_update_cancel)

text \<open>Storing the next character, and storing the terminator.\<close>

lemma vs_put_room:
  assumes "0 < sz" "unat sz \<le> length b" "vs_off st < sz - 1"
  shows "unat (vs_off st) < length b" "unat (vs_off st) + 1 < unat sz"
    "unat (vs_off st + 1) = unat (vs_off st) + 1"
proof -
  have "unat (vs_off st) < unat sz - 1"
    using assms(1,3) by (simp add: word_less_nat_alt unat_dec64)
  then show "unat (vs_off st) < length b" "unat (vs_off st) + 1 < unat sz" using assms by auto
  show "unat (vs_off st + 1) = unat (vs_off st) + 1" using assms(3) by (rule unat_inc64)
qed

lemma vs_put_out:
  assumes "0 < sz" "unat sz \<le> length b" "vs_off st < sz - 1"
    "unat (vs_off st) = min (unat sz - 1) (length out)"
    "take (unat (vs_off st)) b = take (unat sz - 1) out"
  shows "unat (vs_off st + 1) = min (unat sz - 1) (length (out @ [c]))"
    "take (unat (vs_off st + 1)) (b[unat (vs_off st) := c]) = take (unat sz - 1) (out @ [c])"
proof -
  note room = vs_put_room [OF assms(1-3)]
  have out: "length out = unat (vs_off st)" "take (unat (vs_off st)) b = out"
    using room(2) assms(4,5) by auto
  show "unat (vs_off st + 1) = min (unat sz - 1) (length (out @ [c]))" using room out by simp
  show "take (unat (vs_off st + 1)) (b[unat (vs_off st) := c]) = take (unat sz - 1) (out @ [c])"
    using room out by (simp add: take_Suc_conv_app_nth)
qed

lemma vs_inv_terminate:
  assumes "length b = length b0" "drop (unat sz) b = drop (unat sz) b0"
    "0 < sz" "unat sz \<le> length b0" "unat (vs_off st) = min (unat sz - 1) (length out)"
    "take (unat (vs_off st)) b = take (unat sz - 1) out" "length (vs_num st) = 256"
  shows "arr_set b (unat (vs_off st)) 0 = Some (b[unat (vs_off st) := 0])"
    and "vs_inv sz b0 out (st\<lparr>vs_buf := b[unat (vs_off st) := 0]\<rparr>)"
proof -
  have "unat (vs_off st) < unat sz" using assms(3,5) by (simp add: word_less_nat_alt)
  then show "arr_set b (unat (vs_off st)) 0 = Some (b[unat (vs_off st) := 0])"
    and "vs_inv sz b0 out (st\<lparr>vs_buf := b[unat (vs_off st) := 0]\<rparr>)"
    using assms by (simp_all add: vs_inv_def drop_update_irrelevant)
qed

lemma vs_inv_full:
  assumes "vs_inv sz b0 out st" "\<not> vs_off st < sz - 1"
  shows "unat (vs_off st) = unat sz - 1" "unat sz - 1 \<le> length out"
    "vs_inv sz b0 (out @ xs) st"
  using assms by (auto simp: vs_inv_def word_less_nat_alt word_le_nat_alt unat_dec64)

lemma printc_inv:
  assumes "vs_inv sz b0 out st"
  shows "\<exists>st'. printc sz c st = Some st' \<and> vs_inv sz b0 (out @ [c]) st' \<and> vs_args st' = vs_args st
    \<and> vs_pad st' = vs_pad st \<and> vs_num st' = vs_num st"
proof (cases "vs_off st < sz - 1")
  case True
  let ?b = "(vs_buf st)[unat (vs_off st) := c]"
  let ?st = "st\<lparr>vs_buf := ?b, vs_off := vs_off st + 1\<rparr>"
  have st: "0 < sz" "unat sz \<le> length (vs_buf st)" "unat (vs_off st) = min (unat sz - 1) (length out)"
    "take (unat (vs_off st)) (vs_buf st) = take (unat sz - 1) out"
    using assms by (auto simp: vs_inv_def)
  note put = vs_put_room [OF st(1,2) True] vs_put_out [OF st(1,2) True st(3,4), of c]
  have "length ?b = length b0" "drop (unat sz) ?b = drop (unat sz) b0"
    using assms put(2) by (auto simp: vs_inv_def drop_update_irrelevant)
  then have "vs_inv sz b0 (out @ [c]) (?st\<lparr>vs_buf := ?b[unat (vs_off ?st) := 0]\<rparr>)"
    using assms put by (intro vs_inv_terminate(2)) (simp_all add: vs_inv_def)
  moreover have "printc sz c st = Some (?st\<lparr>vs_buf := ?b[unat (vs_off ?st) := 0]\<rparr>)"
    using True put st(2) by (simp add: printc_def)
  ultimately show ?thesis by simp
next
  case False
  have inv: "vs_inv sz b0 (out @ [c]) st" using vs_inv_full(3) [OF assms False] .
  then have "vs_inv sz b0 (out @ [c]) (st\<lparr>vs_buf := (vs_buf st)[unat (vs_off st) := 0]\<rparr>)"
    unfolding vs_inv_def [of _ _ _ st] by (elim conjE) (rule vs_inv_terminate(2); assumption)
  moreover have "unat (vs_off st) < length (vs_buf st)"
    using inv by (auto simp: vs_inv_def word_less_nat_alt)
  ultimately show ?thesis using False by (simp add: printc_def)
qed

lemma printstr_loop_inv:
  assumes "0 < sz" "unat sz \<le> length b0" "length (vs_buf st) = length b0"
    "drop (unat sz) (vs_buf st) = drop (unat sz) b0"
    "unat (vs_off st) = min (unat sz - 1) (length out)"
    "take (unat (vs_off st)) (vs_buf st) = take (unat sz - 1) out"
  shows "\<exists>st'. printstr_loop sz s st = Some st' \<and> length (vs_buf st') = length b0 \<and>
    drop (unat sz) (vs_buf st') = drop (unat sz) b0 \<and>
    unat (vs_off st') = min (unat sz - 1) (length (out @ arr_str s)) \<and>
    take (unat (vs_off st')) (vs_buf st') = take (unat sz - 1) (out @ arr_str s) \<and>
    vs_args st' = vs_args st \<and> vs_pad st' = vs_pad st \<and> vs_num st' = vs_num st"
  using assms
proof (induction s arbitrary: st out)
  case Nil
  then show ?case by (simp add: arr_str_def)
next
  case (Cons c cs)
  show ?case
  proof (cases "vs_off st < sz - 1 \<and> c \<noteq> 0")
    case True
    let ?st = "st\<lparr>vs_buf := (vs_buf st)[unat (vs_off st) := c], vs_off := vs_off st + 1\<rparr>"
    have st: "unat sz \<le> length (vs_buf st)" using Cons.prems by simp
    note put = vs_put_room [OF Cons.prems(1) st conjunct1 [OF True]]
      vs_put_out [OF Cons.prems(1) st conjunct1 [OF True] Cons.prems(5,6), of c]
    have "\<exists>st'. printstr_loop sz cs ?st = Some st' \<and> length (vs_buf st') = length b0 \<and>
        drop (unat sz) (vs_buf st') = drop (unat sz) b0 \<and>
        unat (vs_off st') = min (unat sz - 1) (length ((out @ [c]) @ arr_str cs)) \<and>
        take (unat (vs_off st')) (vs_buf st') = take (unat sz - 1) ((out @ [c]) @ arr_str cs) \<and>
        vs_args st' = vs_args ?st \<and> vs_pad st' = vs_pad ?st \<and> vs_num st' = vs_num ?st"
      using Cons.prems put by (intro Cons.IH) (auto simp: drop_update_irrelevant)
    then show ?thesis using True Cons.prems put(1) by (simp add: arr_str_def)
  next
    case False
    then have "c = 0 \<or> unat sz - 1 \<le> length out"
      using Cons.prems by (auto simp: word_less_nat_alt unat_dec64)
    then show ?thesis using False Cons.prems by (auto simp: arr_str_def)
  qed
qed

lemma printstr_inv:
  assumes "vs_inv sz b0 out st"
  shows "\<exists>st'. printstr sz s st = Some st' \<and> vs_inv sz b0 (out @ arr_str s) st' \<and>
    vs_args st' = vs_args st \<and> vs_pad st' = vs_pad st"
proof -
  obtain st1 where st1: "printstr_loop sz s st = Some st1" "length (vs_buf st1) = length b0"
    "drop (unat sz) (vs_buf st1) = drop (unat sz) b0"
    "unat (vs_off st1) = min (unat sz - 1) (length (out @ arr_str s))"
    "take (unat (vs_off st1)) (vs_buf st1) = take (unat sz - 1) (out @ arr_str s)"
    "vs_args st1 = vs_args st" "vs_pad st1 = vs_pad st" "vs_num st1 = vs_num st"
    using printstr_loop_inv [of sz b0 st out s] assms by (auto simp: vs_inv_def)
  have "vs_inv sz b0 (out @ arr_str s) (st1\<lparr>vs_buf := (vs_buf st1)[unat (vs_off st1) := 0]\<rparr>)"
    using assms st1 by (intro vs_inv_terminate) (simp_all add: vs_inv_def)
  moreover have "unat (vs_off st1) < length (vs_buf st1)"
    using assms st1 by (auto simp: vs_inv_def word_less_nat_alt)
  ultimately show ?thesis using st1 by (simp add: printstr_def)
qed

lemma printc_n_inv:
  assumes "vs_inv sz b0 out st"
  shows "\<exists>st'. printc_n k sz c st = Some st' \<and> vs_inv sz b0 (out @ replicate k c) st' \<and>
    vs_args st' = vs_args st \<and> vs_pad st' = vs_pad st \<and> vs_num st' = vs_num st"
  using assms
proof (induction k arbitrary: st out)
  case (Suc k)
  then obtain st1 where "printc sz c st = Some st1" "vs_inv sz b0 (out @ [c]) st1"
    "vs_args st1 = vs_args st" "vs_pad st1 = vs_pad st" "vs_num st1 = vs_num st"
    using printc_inv by blast
  then show ?case using Suc.IH [of "out @ [c]" st1] by auto
qed simp

text \<open>The text of one conversion, the width left for the next one, and the arguments left.\<close>

definition dec_text :: "u64 \<Rightarrow> u8 list" where
  "dec_text n = (if n = 0x8000000000000000 then [45] else dec_string n)"

definition conv_text :: "u8 \<Rightarrow> u8 \<Rightarrow> va_val list \<Rightarrow> (u8 list \<times> u8 \<times> va_val list) option" where
  "conv_text c pad as =
     (if c \<in> {99, 100, 112, 120} then
        (case as of VInt n # as' \<Rightarrow>
           Some (if c = 99 then ([ucast n], pad, as')
                 else if c = 100 then (replicate (unat pad - length (dec_text n)) 48 @ dec_text n, 0, as')
                 else if c = 112 then
                   ([48, 120] @ replicate (18 - length (hex_string n)) 48 @ drop 2 (hex_string n), pad, as')
                 else (drop 2 (hex_string n), pad, as'))
         | _ \<Rightarrow> None)
      else if c = 115 then (case as of VStr s # as' \<Rightarrow> Some (arr_str s, pad, as') | _ \<Rightarrow> None)
      else Some (if c = 37 then [c] else [], pad, as))"

text \<open>The whole text a format prints, without a bound on the destination.\<close>

function render :: "u8 list \<Rightarrow> u8 \<Rightarrow> va_val list \<Rightarrow> u8 list option" where
  "render [] pad as = None"
| "render (c # f) pad as =
     (if c = 0 then Some []
      else if c \<noteq> 37 then map_option ((#) c) (render f pad as)
      else case (case f of d # r \<Rightarrow> if d = 48 then vs_width r pad else Some (f, pad) | [] \<Rightarrow> None) of
        Some (k # f', pad') \<Rightarrow>
          (case conv_text k pad' as of None \<Rightarrow> None
           | Some (t, pad'', as') \<Rightarrow> map_option ((@) t) (render f' pad'' as'))
      | _ \<Rightarrow> None)"
  by pat_completeness auto
termination
  by (relation "measure (\<lambda>(f, pad, as). length f)")
    (auto split: list.splits if_splits dest!: vs_width_length)

lemma vs_itoa_dec:
  assumes "length (vs_num st) = 256"
  shows "\<exists>st'. vs_itoa n 10 st = Some st' \<and> length (vs_num st') = 256 \<and>
    st' = st\<lparr>vs_num := vs_num st'\<rparr> \<and> arr_str (vs_num st') = dec_text n"
proof (cases "n = 0x8000000000000000")
  case True
  then show ?thesis
    using itoa_base10_min [of "vs_num st"] assms
    by (auto simp: vs_itoa_def itoa_def dec_text_def arr_str_def)
next
  case False
  have "sint n \<noteq> - 9223372036854775808"
  proof
    assume "sint n = - 9223372036854775808"
    then have "(of_int (sint n) :: u64) = of_int (- 9223372036854775808)" by (rule arg_cong)
    with False show False by simp
  qed
  then show ?thesis
    using itoa_base10_string [of n "vs_num st"] assms False
    by (auto simp: vs_itoa_def itoa_def dec_text_def arr_str_prefix dec_string_nonzero)
qed


lemma vs_itoa_hex:
  assumes "length (vs_num st) = 256"
  shows "\<exists>st'. vs_itoa n 16 st = Some st' \<and> length (vs_num st') = 256 \<and>
    st' = st\<lparr>vs_num := vs_num st'\<rparr> \<and> arr_str (vs_num st') = hex_string n \<and>
    arr_str (drop 2 (vs_num st')) = drop 2 (hex_string n)"
proof -
  obtain ys where ys: "itoa_convert_base16 n (vs_num st) = Some (hex_string n @ 0 # ys)"
    "length (hex_string n @ 0 # ys) = length (vs_num st)"
    using itoa_base16_string [of "vs_num st" n] assms by auto
  have "drop 2 (hex_string n @ 0 # ys) = drop 2 (hex_string n) @ 0 # ys"
    by (simp add: hex_string_def)
  moreover have "0 \<notin> set (drop 2 (hex_string n))"
    using hex_string_nonzero [of n] by (auto dest: in_set_dropD)
  ultimately show ?thesis
    using ys assms by (auto simp: vs_itoa_def itoa_def arr_str_prefix hex_string_nonzero)
qed

lemma vs_inv_frame:
  "vs_inv sz b0 out st \<Longrightarrow> vs_inv sz b0 out (st\<lparr>vs_args := as\<rparr>)"
  "vs_inv sz b0 out st \<Longrightarrow> vs_inv sz b0 out (st\<lparr>vs_pad := p\<rparr>)"
  "vs_inv sz b0 out st \<Longrightarrow> length ns = 256 \<Longrightarrow> vs_inv sz b0 out (st\<lparr>vs_num := ns\<rparr>)"
  by (auto simp: vs_inv_def)

lemma vs_inv_num: "vs_inv sz b0 out st \<Longrightarrow> length (vs_num st) = 256"
  by (simp add: vs_inv_def)

lemma vs_conv_dec:
  assumes "vs_inv sz b0 out st" "vs_args st = VInt n # as"
  shows "\<exists>st'. vs_conv sz 100 st = Some st' \<and> vs_args st' = as \<and> vs_pad st' = 0 \<and>
    vs_inv sz b0 (out @ replicate (unat (vs_pad st) - length (dec_text n)) 48 @ dec_text n) st'"
proof -
  let ?st = "st\<lparr>vs_args := as\<rparr>"
  obtain st1 where st1: "vs_itoa n 10 ?st = Some st1" "length (vs_num st1) = 256"
    "st1 = ?st\<lparr>vs_num := vs_num st1\<rparr>" "arr_str (vs_num st1) = dec_text n"
    using vs_itoa_dec [of ?st n] vs_inv_num [OF assms(1)] by auto
  have inv1: "vs_inv sz b0 out st1"
    by (subst st1(3)) (use assms(1) st1(2) in \<open>simp add: vs_inv_frame\<close>)
  have pad1: "vs_pad st1 = vs_pad st" "vs_args st1 = as" by (subst st1(3), simp)+
  let ?k = "unat (vs_pad st) - length (dec_text n)"
  obtain st2 where st2: "printc_n ?k sz 48 st1 = Some st2" "vs_inv sz b0 (out @ replicate ?k 48) st2"
    "vs_args st2 = as" "vs_pad st2 = vs_pad st" "vs_num st2 = vs_num st1"
    using printc_n_inv [OF inv1] pad1 by metis
  have inv3: "vs_inv sz b0 (out @ replicate ?k 48) (st2\<lparr>vs_pad := 0\<rparr>)"
    using st2(2) by (rule vs_inv_frame)
  obtain st4 where st4: "printstr sz (vs_num st1) (st2\<lparr>vs_pad := 0\<rparr>) = Some st4"
    "vs_inv sz b0 (out @ replicate ?k 48 @ dec_text n) st4" "vs_args st4 = as" "vs_pad st4 = 0"
    using printstr_inv [OF inv3, of "vs_num st1"] st1(4) st2 by auto
  have "vs_conv sz 100 st = Some st4"
  proof (cases "vs_pad st = 0")
    case True
    then have "st2 = st1" using st2(1) by simp
    moreover have "st2\<lparr>vs_pad := 0\<rparr> = st2" using True st2(4) by (cases st2) simp
    ultimately have "printstr sz (vs_num st1) st1 = Some st4" using st4(1) by (simp only:)
    then show ?thesis
      using True st1(1) pad1 assms(2) by (simp add: vs_conv_def va_int_def)
  next
    case False
    then show ?thesis
      using st1 st2 st4(1) pad1 assms(2) by (simp add: vs_conv_def va_int_def word_gt_0)
  qed
  then show ?thesis using st4 by simp
qed

lemma vs_conv_hex:
  assumes "vs_inv sz b0 out st" "vs_args st = VInt n # as"
  shows "\<exists>st'. vs_conv sz 120 st = Some st' \<and> vs_args st' = as \<and> vs_pad st' = vs_pad st \<and>
      vs_inv sz b0 (out @ drop 2 (hex_string n)) st'"
    and "\<exists>st'. vs_conv sz 112 st = Some st' \<and> vs_args st' = as \<and> vs_pad st' = vs_pad st \<and>
      vs_inv sz b0 (out @ [48, 120] @ replicate (18 - length (hex_string n)) 48 @ drop 2 (hex_string n)) st'"
proof -
  let ?st = "st\<lparr>vs_args := as\<rparr>"
  obtain st1 where st1: "vs_itoa n 16 ?st = Some st1" "length (vs_num st1) = 256"
    "st1 = ?st\<lparr>vs_num := vs_num st1\<rparr>" "arr_str (vs_num st1) = hex_string n"
    "arr_str (drop 2 (vs_num st1)) = drop 2 (hex_string n)"
    using vs_itoa_hex [of ?st n] vs_inv_num [OF assms(1)] by auto
  have inv1: "vs_inv sz b0 out st1"
    by (subst st1(3)) (use assms(1) st1(2) in \<open>simp add: vs_inv_frame\<close>)
  have pad1: "vs_pad st1 = vs_pad st" "vs_args st1 = as" by (subst st1(3), simp)+
  show "\<exists>st'. vs_conv sz 120 st = Some st' \<and> vs_args st' = as \<and> vs_pad st' = vs_pad st \<and>
      vs_inv sz b0 (out @ drop 2 (hex_string n)) st'"
    using printstr_inv [OF inv1, of "drop 2 (vs_num st1)"] st1 pad1 assms(2)
    by (auto simp: vs_conv_def va_int_def)
  obtain st2 where st2: "printc sz 48 st1 = Some st2" "vs_inv sz b0 (out @ [48]) st2"
    "vs_args st2 = as" "vs_pad st2 = vs_pad st" "vs_num st2 = vs_num st1"
    using printc_inv [OF inv1] pad1 by metis
  obtain st3 where st3: "printc sz 120 st2 = Some st3" "vs_inv sz b0 ((out @ [48]) @ [120]) st3"
    "vs_args st3 = as" "vs_pad st3 = vs_pad st" "vs_num st3 = vs_num st1"
    using printc_inv [OF st2(2)] st2 by metis
  let ?k = "18 - length (hex_string n)"
  have k: "unat (18 - of_nat (length (hex_string n)) :: u64) = ?k"
    using length_hex_string [of n] by (subst unat_sub64) (simp_all add: unat_of_nat64)
  obtain st4 where st4: "printc_n ?k sz 48 st3 = Some st4"
    "vs_inv sz b0 (((out @ [48]) @ [120]) @ replicate ?k 48) st4"
    "vs_args st4 = as" "vs_pad st4 = vs_pad st" "vs_num st4 = vs_num st1"
    using printc_n_inv [OF st3(2)] st3 by metis
  obtain st5 where st5: "printstr sz (drop 2 (vs_num st1)) st4 = Some st5"
    "vs_inv sz b0 ((((out @ [48]) @ [120]) @ replicate ?k 48) @ drop 2 (hex_string n)) st5"
    "vs_args st5 = as" "vs_pad st5 = vs_pad st"
    using printstr_inv [OF st4(2), of "drop 2 (vs_num st1)"] st1 st4 by auto
  have "vs_conv sz 112 st = Some st5"
    using st1 st2 st3 st4 st5 assms(2) k by (simp add: vs_conv_def va_int_def)
  then show "\<exists>st'. vs_conv sz 112 st = Some st' \<and> vs_args st' = as \<and> vs_pad st' = vs_pad st \<and>
      vs_inv sz b0 (out @ [48, 120] @ replicate ?k 48 @ drop 2 (hex_string n)) st'"
    using st5 by simp
qed

lemma vs_conv_text:
  assumes "vs_inv sz b0 out st" "conv_text c (vs_pad st) (vs_args st) = Some (t, pad, as)"
  shows "\<exists>st'. vs_conv sz c st = Some st' \<and> vs_inv sz b0 (out @ t) st' \<and> vs_pad st' = pad \<and>
    vs_args st' = as"
proof -
  consider n where "c = 99" "vs_args st = VInt n # as" "t = [ucast n]" "pad = vs_pad st"
    | n where "c = 100" "vs_args st = VInt n # as" "pad = 0"
        "t = replicate (unat (vs_pad st) - length (dec_text n)) 48 @ dec_text n"
    | n where "c = 112" "vs_args st = VInt n # as" "pad = vs_pad st"
        "t = [48, 120] @ replicate (18 - length (hex_string n)) 48 @ drop 2 (hex_string n)"
    | n where "c = 120" "vs_args st = VInt n # as" "pad = vs_pad st" "t = drop 2 (hex_string n)"
    | s where "c = 115" "vs_args st = VStr s # as" "pad = vs_pad st" "t = arr_str s"
    | "c = 37" "as = vs_args st" "pad = vs_pad st" "t = [c]"
    | "c \<notin> {99, 100, 112, 120, 115, 37}" "as = vs_args st" "pad = vs_pad st" "t = []"
    using assms(2) by (fastforce simp: conv_text_def split: if_splits list.splits va_val.splits)
  then show ?thesis
  proof cases
    case (1 n)
    then show ?thesis using printc_inv [OF vs_inv_frame(1) [OF assms(1)], of "ucast n" as]
      by (auto simp: vs_conv_def va_int_def)
  next
    case (2 n)
    then show ?thesis using vs_conv_dec [OF assms(1)] by auto
  next
    case (3 n)
    then show ?thesis using vs_conv_hex(2) [OF assms(1)] by auto
  next
    case (4 n)
    then show ?thesis using vs_conv_hex(1) [OF assms(1)] by auto
  next
    case (5 s)
    then show ?thesis using printstr_inv [OF vs_inv_frame(1) [OF assms(1)], of s as]
      by (auto simp: vs_conv_def va_str_def)
  next
    case 6
    then show ?thesis using printc_inv [OF assms(1), of 37] by (auto simp: vs_conv_def)
  next
    case 7
    then show ?thesis using assms(1) by (auto simp: vs_conv_def)
  qed
qed

lemma vs_literal_render:
  assumes "vs_inv sz b0 out st" "render fmt (vs_pad st) (vs_args st) = Some t"
  shows "\<exists>c f st' t1 t2. vs_literal sz fmt st = Some (c # f, st') \<and> t = t1 @ t2 \<and>
    vs_inv sz b0 (out @ t1) st' \<and> vs_pad st' = vs_pad st \<and> vs_args st' = vs_args st \<and>
    (c = 0 \<or> c = 37) \<and> render (c # f) (vs_pad st) (vs_args st) = Some t2"
  using assms
proof (induction fmt arbitrary: out st t)
  case (Cons c fmt)
  show ?case
  proof (cases "c \<noteq> 0 \<and> c \<noteq> 37")
    case True
    then obtain t' where t': "render fmt (vs_pad st) (vs_args st) = Some t'" "t = c # t'"
      using Cons.prems by auto
    obtain st1 where st1: "printc sz c st = Some st1" "vs_inv sz b0 (out @ [c]) st1"
      "vs_args st1 = vs_args st" "vs_pad st1 = vs_pad st"
      using printc_inv [OF Cons.prems(1)] by blast
    obtain c' f st' t1 t2 where *: "vs_literal sz fmt st1 = Some (c' # f, st')" "t' = t1 @ t2"
      "vs_inv sz b0 ((out @ [c]) @ t1) st'" "vs_pad st' = vs_pad st1" "vs_args st' = vs_args st1"
      "c' = 0 \<or> c' = 37" "render (c' # f) (vs_pad st1) (vs_args st1) = Some t2"
      using Cons.IH [OF st1(2), of t'] t' st1(3,4) by metis
    then show ?thesis using True st1 t'
      by (intro exI [of _ c'] exI [of _ f] exI [of _ st'] exI [of _ "c # t1"] exI [of _ t2]) auto
  next
    case False
    then show ?thesis using Cons.prems
      by (intro exI [of _ c] exI [of _ fmt] exI [of _ st] exI [of _ "[]"] exI [of _ t]) auto
  qed
qed simp

lemma vs_padding_render:
  "vs_padding f st = (case (case f of d # r \<Rightarrow> if d = 48 then vs_width r (vs_pad st) else Some (f, vs_pad st) | [] \<Rightarrow> None)
     of None \<Rightarrow> None | Some (f', pad) \<Rightarrow> Some (f', st\<lparr>vs_pad := pad\<rparr>))"
  by (auto simp: vs_padding_def split: list.splits option.splits)

text \<open>Nothing printed after the destination is full can be seen.\<close>

definition vs_final :: "u64 \<Rightarrow> u8 list \<Rightarrow> u8 list \<Rightarrow> vs_state \<Rightarrow> bool" where
  "vs_final sz b0 out st \<longleftrightarrow> (let n = min (unat sz - 1) (length out) in
     length (vs_buf st) = length b0 \<and> take n (vs_buf st) = take n out \<and>
     drop (unat sz) (vs_buf st) = drop (unat sz) b0 \<and>
     (out = [] \<or> sz \<le> 1 \<or> vs_buf st ! n = 0))"

lemma vs_inv_final: "vs_inv sz b0 out st \<Longrightarrow> vs_final sz b0 out st"
  by (auto simp: vs_inv_def vs_final_def Let_def min_def split: if_splits)

lemma vsnprintf_loop_final:
  assumes "vs_inv sz b0 out st" "render fmt (vs_pad st) (vs_args st) = Some t"
  shows "\<exists>r st'. vsnprintf_loop sz fmt st = Some (r, st') \<and> vs_final sz b0 (out @ t) st'"
  using assms
proof (induction sz fmt st arbitrary: out t rule: vsnprintf_loop.induct)
  case (1 sz fmt st)
  show ?case
  proof (cases "vs_off st < sz - 1")
    case False
    then show ?thesis using vs_inv_full(3) [OF "1.prems"(1) False, of t]
      by (auto simp: vsnprintf_loop.simps [of sz fmt st] intro: vs_inv_final)
  next
    case room: True
    obtain c f st1 t1 t2 where lit: "vs_literal sz fmt st = Some (c # f, st1)" "t = t1 @ t2"
      "vs_inv sz b0 (out @ t1) st1" "vs_pad st1 = vs_pad st" "vs_args st1 = vs_args st"
      "c = 0 \<or> c = 37" "render (c # f) (vs_pad st) (vs_args st) = Some t2"
      using vs_literal_render [OF "1.prems"] by blast
    show ?thesis
    proof (cases "c = 0 \<or> vs_off st1 = sz - 1")
      case True
      have "vs_inv sz b0 (out @ t) st1"
        using lit True vs_inv_full(3) [OF lit(3), of t2] by (cases "c = 0") auto
      then show ?thesis using True room lit
        by (auto simp: vsnprintf_loop.simps [of sz fmt st] intro: vs_inv_final)
    next
      case False
      then obtain k f' pad' t3 pad'' as' t4 where conv:
        "(case f of d # r \<Rightarrow> if d = 48 then vs_width r (vs_pad st) else Some (f, vs_pad st) | [] \<Rightarrow> None) = Some (k # f', pad')"
        "conv_text k pad' (vs_args st) = Some (t3, pad'', as')"
        "render f' pad'' as' = Some t4" "t2 = t3 @ t4"
        using lit(6,7) by (auto split: option.splits list.splits)
      let ?st2 = "st1\<lparr>vs_pad := pad'\<rparr>"
      have pad: "vs_padding f st1 = Some (k # f', ?st2)"
        unfolding vs_padding_render lit(4) by (simp add: conv(1))
      obtain st3 where st3: "vs_conv sz k ?st2 = Some st3" "vs_inv sz b0 ((out @ t1) @ t3) st3"
        "vs_pad st3 = pad''" "vs_args st3 = as'"
        using vs_conv_text [OF vs_inv_frame(2) [OF lit(3)], of k pad' t3 pad'' as'] conv(2) lit(5) by auto
      obtain r st' where "vsnprintf_loop sz f' st3 = Some (r, st')" "vs_final sz b0 (((out @ t1) @ t3) @ t4) st'"
        using "1.IH" [OF room lit(1) refl refl False pad refl refl st3(1,2)] conv(3) st3(3,4) by auto
      then show ?thesis using room lit False pad st3(1) conv(4)
        by (auto simp: vsnprintf_loop.simps [of sz fmt st])
    qed
  qed
qed

lemma vs_inv_start:
  assumes "0 < sz" "unat sz \<le> length s"
  shows "vs_inv sz s [] \<lparr>vs_buf = s, vs_off = 0, vs_num = replicate 256 0, vs_pad = 0, vs_args = ap\<rparr>"
  using assms by (simp add: vs_inv_def)

lemma vsnprintf_text:
  assumes "0 < sz" "unat sz \<le> length s" "render fmt 0 ap = Some out"
  shows "\<exists>r s'. vsnprintf s sz fmt ap = Some (r, s') \<and> length s' = length s \<and>
    take (min (unat sz - 1) (length out)) s' = take (unat sz - 1) out \<and>
    (out = [] \<or> sz = 1 \<or> s' ! min (unat sz - 1) (length out) = 0) \<and>
    drop (unat sz) s' = drop (unat sz) s"
proof -
  let ?st = "\<lparr>vs_buf = s, vs_off = 0, vs_num = replicate 256 0, vs_pad = 0, vs_args = ap\<rparr>"
  have "render fmt (vs_pad ?st) (vs_args ?st) = Some out" using assms(3) by simp
  from vsnprintf_loop_final [OF vs_inv_start [OF assms(1,2)] this]
  obtain r st' where "vsnprintf_loop sz fmt ?st = Some (r, st')" "vs_final sz s out st'" by auto
  moreover have "sz \<le> 1 \<longleftrightarrow> sz = 1"
    using assms(1) by (auto simp: word_le_nat_alt word_less_nat_alt word_unat_eq_iff)
  ultimately show ?thesis
    by (auto simp: vsnprintf_def vs_final_def Let_def min_def)
qed

text \<open>
  C21: For every format whose conversions match the arguments, \<^verbatim>\<open>vsnprintf\<close> into a destination
  of at least \<open>sz\<close> bytes returns and never writes outside of it: the destination then starts
  with the rendered text cut to \<open>sz - 1\<close> bytes, followed by a NUL when anything was printed
  and \<open>sz\<close> is not 1, and its bytes from \<open>sz\<close> on are untouched.
\<close>

theorem vsnprintf_renders:
  assumes "0 < sz" "unat sz \<le> length s" "render fmt 0 ap = Some out"
  shows "\<exists>r s'. vsnprintf s sz fmt ap = Some (r, s') \<and> length s' = length s \<and>
    take (min (unat sz - 1) (length out)) s' = take (unat sz - 1) out \<and>
    (out = [] \<or> sz = 1 \<or> s' ! min (unat sz - 1) (length out) = 0) \<and>
    drop (unat sz) s' = drop (unat sz) s"
  using assms by (rule vsnprintf_text)

text \<open>The format \<^verbatim>\<open>"n=%04d %x"\<close> with the arguments 7 and 255, into eight bytes.\<close>

lemma vsnprintf_renders_witness:
  "\<exists>r s'. vsnprintf [1, 1, 1, 1, 1, 1, 1, 1, 1, 1] 8
      [110, 61, 37, 48, 52, 100, 32, 37, 120, 0] [VInt 7, VInt 255] = Some (r, s') \<and>
    take 7 s' = [110, 61, 48, 48, 48, 55, 32] \<and> s' ! 7 = 0 \<and> drop 8 s' = [1, 1]"
proof -
  have d: "dec_text 7 = [55]" by (simp add: dec_text_def dec_string_def dec_digits_small)
  have x: "drop 2 (hex_string 255) = [70, 70]"
    unfolding hex_string_def by simp (simp add: hex_digits_step hex_digits_small ascii_nums_def)
  have c: "conv_text 100 4 [VInt 7, VInt 255] = Some ([48, 48, 48, 55], 0, [VInt 255])"
    by (simp add: conv_text_def d) (simp add: numeral_3_eq_3)
  have r: "render [110, 61, 37, 48, 52, 100, 32, 37, 120, 0] 0 [VInt 7, VInt 255] =
      Some [110, 61, 48, 48, 48, 55, 32, 70, 70]"
    by (simp add: c) (simp add: conv_text_def x)
  show ?thesis
    using vsnprintf_renders [OF _ _ r, of 8 "[1, 1, 1, 1, 1, 1, 1, 1, 1, 1]"]
    by simp (auto simp: eval_nat_numeral)
qed

section \<open>trace.c and panic.c\<close>

text \<open>
  The serial port routine of \<^verbatim>\<open>uart.S\<close> sends a byte before it tests the count, so a count of
  zero runs on through the whole address space: it does not return.
\<close>

definition mu_uart_write :: "u8 list \<Rightarrow> 'a machine_scheme \<Rightarrow> 'a machine_scheme option" where
  "mu_uart_write s m = (if s = [] then None else Some (m\<lparr>uart := uart m @ s\<rparr>))"

text \<open>\<^verbatim>\<open>strlen\<close> of an array without a NUL reads past its end.\<close>

definition trace_write :: "u8 list \<Rightarrow> 'a machine_scheme \<Rightarrow> 'a machine_scheme option" where
  "trace_write s m = (if 0 \<in> set s then mu_uart_write (arr_str s) m else None)"

definition TRACE_BUFSIZE :: u64 where "TRACE_BUFSIZE = 128"

text \<open>The automatic buffer of \<^verbatim>\<open>printf\<close> starts with whatever the stack holds.\<close>

definition printf :: "u8 list \<Rightarrow> u8 list \<Rightarrow> va_val list \<Rightarrow> 'a machine_scheme \<Rightarrow> 'a machine_scheme option" where
  "printf stack_buf fmt ap m = do {
     (r, buf) \<leftarrow> vsnprintf stack_buf TRACE_BUFSIZE fmt ap;
     trace_write buf m }"

text \<open>The bytes of a string literal, and of one that ends in a newline.\<close>

definition cstring :: "string \<Rightarrow> u8 list" where
  "cstring s = map of_char s @ [0]"

definition cline :: "string \<Rightarrow> u8 list" where
  "cline s = map of_char s @ [10, 0]"

text \<open>
  \<^verbatim>\<open>mu_panic_preamble\<close> swaps 1 into \<^verbatim>\<open>panic_sync\<close> and goes to the lockout when it
  was set already; \<^verbatim>\<open>panic\<close> then prints and ends in the lockout. The result is the new
  \<^verbatim>\<open>panic_sync\<close> and the machine in which the processor is locked out.
\<close>

definition panic :: "u64 \<Rightarrow> u8 list \<Rightarrow> u8 list \<Rightarrow> u8 list \<Rightarrow> va_val list \<Rightarrow> 'a machine_scheme
    \<Rightarrow> (u64 \<times> 'a machine_scheme) option" where
  "panic panic_sync stack1 stack2 fmt ap m =
     (if panic_sync AND 1 \<noteq> 0 then Some (1, m)
      else do {
        (r, buf) \<leftarrow> vsnprintf (replicate 256 0) 256 fmt ap;
        m \<leftarrow> printf stack1 (cstring ''panic: '') [] m;
        m \<leftarrow> printf stack2 (cstring ''%s'') [VStr buf] m;
        Some (1, m) })"

lemma arr_str_take_nul:
  assumes "take n xs = ys" "n < length xs" "xs ! n = 0" "0 \<notin> set ys"
  shows "arr_str xs = ys" "0 \<in> set xs"
proof -
  have "xs = ys @ 0 # drop (Suc n) xs"
    using assms(1-3) by (metis append_take_drop_id Cons_nth_drop_Suc)
  then show "arr_str xs = ys" "0 \<in> set xs"
    using arr_str_prefix [OF assms(4)] by (metis, metis in_set_conv_decomp)
qed

lemma printf_vsnprintf:
  assumes "length stack_buf = 128" "render fmt 0 ap = Some out" "out \<noteq> []"
  obtains r s' where "vsnprintf stack_buf TRACE_BUFSIZE fmt ap = Some (r, s')" "length s' = 128"
    "take (min 127 (length out)) s' = take 127 out" "s' ! min 127 (length out) = 0"
  using vsnprintf_text [of 128 stack_buf fmt ap out] assms by (auto simp: TRACE_BUFSIZE_def)

text \<open>A print whose text does not start with a NUL returns and only writes to the port.\<close>

lemma printf_returns:
  assumes "length stack_buf = 128" "render fmt 0 ap = Some (c # out)" "c \<noteq> 0"
  shows "\<exists>t. printf stack_buf fmt ap m = Some (m\<lparr>uart := uart m @ t\<rparr>)"
proof -
  obtain r s' where s': "vsnprintf stack_buf TRACE_BUFSIZE fmt ap = Some (r, s')" "length s' = 128"
    "take (min 127 (length (c # out))) s' = take 127 (c # out)" "s' ! min 127 (length (c # out)) = 0"
    using printf_vsnprintf [OF assms(1,2)] by auto
  have "min 127 (length (c # out)) < length s'" using s'(2) by simp
  from nth_mem [OF this] have "0 \<in> set s'" using s'(4) by simp
  moreover have "s' \<noteq> [] \<and> hd s' = c" using s'(2,3) by (cases s') auto
  then have "arr_str s' \<noteq> []" using assms(3) by (cases s') (auto simp: arr_str_def)
  ultimately have "printf stack_buf fmt ap m = Some (m\<lparr>uart := uart m @ arr_str s'\<rparr>)"
    using s'(1) by (simp add: printf_def trace_write_def mu_uart_write_def)
  then show ?thesis by blast
qed

text \<open>
  \<^verbatim>\<open>printf\<close> of a format that renders to a non-empty text without NUL bytes returns and
  sends exactly the first 127 bytes of that text to the serial port, whatever the stack held.
\<close>

theorem printf_sends:
  assumes "length stack_buf = 128" "render fmt 0 ap = Some out" "out \<noteq> []" "0 \<notin> set out"
  shows "printf stack_buf fmt ap m = Some (m\<lparr>uart := uart m @ take 127 out\<rparr>)"
proof -
  obtain r s' where s': "vsnprintf stack_buf TRACE_BUFSIZE fmt ap = Some (r, s')" "length s' = 128"
    "take (min 127 (length out)) s' = take 127 out" "s' ! min 127 (length out) = 0"
    using printf_vsnprintf [OF assms(1-3)] by blast
  have n: "min 127 (length out) < length s'" "0 \<notin> set (take 127 out)"
    using s'(2) assms(4) by (auto dest: in_set_takeD)
  have "arr_str s' = take 127 out" "0 \<in> set s'"
    using arr_str_take_nul [OF s'(3) n(1) s'(4) n(2)] by blast+
  then show ?thesis using s'(1) assms(3)
    by (simp add: printf_def trace_write_def mu_uart_write_def)
qed

text \<open>\<^verbatim>\<open>printf("ok %d\n", 42)\<close>.\<close>

lemma printf_sends_witness:
  "printf (replicate 128 7) [111, 107, 32, 37, 100, 10, 0] [VInt 42]
     \<lparr>mem = (\<lambda>_. 0), cr3 = 0, cr4 = 0, irq_on = True, uart = [33]\<rparr> =
   Some \<lparr>mem = (\<lambda>_. 0), cr3 = 0, cr4 = 0, irq_on = True, uart = [33, 111, 107, 32, 52, 50, 10]\<rparr>"
proof -
  have r: "render [111, 107, 32, 37, 100, 10, 0] 0 [VInt 42] = Some [111, 107, 32, 52, 50, 10]"
    by (simp add: conv_text_def dec_text_def dec_string_def dec_digits_step dec_digits_small)
  show ?thesis
    by (subst printf_sends [OF _ r]) simp_all
qed

end
