(* ===== verification/Hive_Pmem.thy ===== *)
theory Hive_Pmem
  imports Hive_Boot Hive_Sync Hive_Format
begin

text \<open>
  The physical memory manager \<^verbatim>\<open>mm/pmem.c\<close>: a bitmap with a bit per page frame, set for a
  frame in use, built from the memory map. The bitmap lives in the memory of the machine, at
  the address \<^verbatim>\<open>bitmap\<close>, and writing through it while it is null has no result.
\<close>

section \<open>State and bitmap\<close>

record pmem = boot +
  usable_top :: u64
  mem_usable :: u64
  bitmap_size :: u64
  bitmap :: addr
  last_bit :: u64
  bitmap_lock :: u64

text \<open>The stack contents at the successive calls of \<^verbatim>\<open>printf\<close> are an argument.\<close>

definition pmem_print_size :: "u8 list \<Rightarrow> u8 list \<Rightarrow> u64 \<Rightarrow> 'a pmem_scheme \<Rightarrow> 'a pmem_scheme option" where
  "pmem_print_size stk name sz m =
     (if sz \<ge> UNIT_GIB then
        printf stk (cline ''pmem: %s: %d GiB'') [VStr name, VInt (sz div UNIT_GIB)] m
      else if sz \<ge> UNIT_MIB then
        printf stk (cline ''pmem: %s: %d MiB'') [VStr name, VInt (sz div UNIT_MIB)] m
      else printf stk (cline ''pmem: %s: %d bytes'') [VStr name, VInt sz] m)"

partial_function (option) set_range_loop ::
    "bool \<Rightarrow> u64 \<Rightarrow> u64 \<Rightarrow> addr \<Rightarrow> memory \<Rightarrow> memory option" where
  "set_range_loop alloc p e bm m =
     (if p < e then
        if bm = NULL then None
        else set_range_loop alloc (p + PAGESIZE) e bm
          (if alloc then SETBIT m bm (p div PAGESIZE) else CLRBIT m bm (p div PAGESIZE))
      else Some m)"

definition bitmap_set_range :: "u64 \<Rightarrow> u64 \<Rightarrow> bool \<Rightarrow> 'a pmem_scheme \<Rightarrow> 'a pmem_scheme option" where
  "bitmap_set_range start e alloc m = do {
     m' \<leftarrow> set_range_loop alloc (ALIGN_UP start PAGESIZE) (ALIGN_UP e PAGESIZE) (bitmap m) (mem m);
     Some (m\<lparr>mem := m'\<rparr>) }"

definition fill_body :: "bpt_mementry \<Rightarrow> 'a pmem_scheme \<Rightarrow> ('a pmem_scheme \<times> bool) option" where
  "fill_body entry m =
     (if ent_type entry = MEM_USABLE then do {
        let start = ent_base entry;
        m \<leftarrow> bitmap_set_range start (start + ent_length entry) False m;
        Some (m, False) }
      else Some (m, False))"

definition pmem_fill_bitmap :: "'a pmem_scheme \<Rightarrow> 'a pmem_scheme option" where
  "pmem_fill_bitmap m =
     (if bitmap m = NULL \<and> bitmap_size m \<noteq> 0 then None
      else mementry_loop fill_body 0 (m\<lparr>mem := memset (mem m) (bitmap m) 0xFF (bitmap_size m)\<rparr>))"

definition alloc_bitmap_body :: "bpt_mementry \<Rightarrow> 'a pmem_scheme \<Rightarrow> ('a pmem_scheme \<times> bool) option" where
  "alloc_bitmap_body entry m =
     (if ent_type entry \<noteq> MEM_USABLE then Some (m, False)
      else if ent_length entry < bitmap_size m then Some (m, False)
      else do { b \<leftarrow> PHYS_TO_VIRT (ent_base entry) m; Some (m\<lparr>bitmap := b\<rparr>, True) })"

definition pmem_alloc_bitmap :: "'a pmem_scheme \<Rightarrow> 'a pmem_scheme option" where
  "pmem_alloc_bitmap m = do { m \<leftarrow> mementry_loop alloc_bitmap_body 0 m; pmem_fill_bitmap m }"

definition probe_body :: "bpt_mementry \<Rightarrow> 'a pmem_scheme \<Rightarrow> ('a pmem_scheme \<times> bool) option" where
  "probe_body entry m =
     (if ent_type entry \<noteq> MEM_USABLE then Some (m, False)
      else
        let m = m\<lparr>mem_usable := mem_usable m + ent_length entry\<rparr>;
            top = ent_base entry + ent_length entry
        in Some (if top > usable_top m then m\<lparr>usable_top := top\<rparr> else m, False))"

definition pmem_probe :: "(nat \<Rightarrow> u8 list) \<Rightarrow> 'a pmem_scheme \<Rightarrow> 'a pmem_scheme option" where
  "pmem_probe stk m = do {
     m \<leftarrow> mementry_loop probe_body 0 m;
     let m = m\<lparr>bitmap_size := mem_usable m div PAGESIZE\<rparr>;
     let m = m\<lparr>bitmap_size := ALIGN_UP (bitmap_size m) CHAR_BIT div CHAR_BIT\<rparr>;
     m \<leftarrow> pmem_print_size (stk 1) (cstring ''usable'') (mem_usable m) m;
     pmem_print_size (stk 2) (cstring ''bitmap'') (bitmap_size m) m }"

definition mm_pmem_init :: "(nat \<Rightarrow> u8 list) \<Rightarrow> 'a pmem_scheme \<Rightarrow> 'a pmem_scheme option" where
  "mm_pmem_init stk m = do {
     m \<leftarrow> printf (stk 0) (cline ''pmem: probing physical memory...'') [] m;
     m \<leftarrow> pmem_probe stk m;
     m \<leftarrow> printf (stk 3) (cline ''pmem: allocating bitmap...'') [] m;
     pmem_alloc_bitmap m }"

section \<open>Allocation\<close>

text \<open>
  The search loop: \<open>i\<close> is the frame, \<open>start_idx\<close> the signed start of a run (negative for none),
  \<open>found\<close> the counter, which is not reset when a run ends. The result is the final \<open>start_idx\<close>.
\<close>

function pmem_scan :: "memory \<Rightarrow> addr \<Rightarrow> u64 \<Rightarrow> u64 \<Rightarrow> u64 \<Rightarrow> u64 \<Rightarrow> u64 \<Rightarrow> u64" where
  "pmem_scan m bm max_bit count i start_idx found =
     (if i < max_bit then
        if \<not> TESTBIT m bm i then
          let start_idx = (if sint start_idx < 0 then i else start_idx);
              found = found + 1
          in if found \<ge> count then start_idx
             else pmem_scan m bm max_bit count (i + 1) start_idx found
        else pmem_scan m bm max_bit count (i + 1) (- 1) found
      else start_idx)"
  by pat_completeness auto
termination
proof (relation "measure (\<lambda>(m, bm, max_bit, count, i, start_idx, found). unat (max_bit - i))")
  have "unat (b - (i + 1)) < unat (b - i)" if "i < b" for b i :: u64
  proof -
    have "unat (i + 1) = unat i + 1" "unat i < unat b"
      using that unat_inc64 [OF that] by (simp_all add: word_less_nat_alt)
    then show ?thesis by (simp add: unat_sub64)
  qed
  then show "\<And>m bm max_bit count i start_idx found x xa. i < max_bit \<Longrightarrow> \<not> TESTBIT m bm i \<Longrightarrow>
      x = (if sint start_idx < 0 then i else start_idx) \<Longrightarrow> xa = found + 1 \<Longrightarrow> \<not> count \<le> xa \<Longrightarrow>
      ((m, bm, max_bit, count, i + 1, x, xa), m, bm, max_bit, count, i, start_idx, found)
        \<in> measure (\<lambda>(m, bm, max_bit, count, i, start_idx, found). unat (max_bit - i))"
    and "\<And>m bm max_bit count i start_idx found. i < max_bit \<Longrightarrow> \<not> \<not> TESTBIT m bm i \<Longrightarrow>
      ((m, bm, max_bit, count, i + 1, - 1, found), m, bm, max_bit, count, i, start_idx, found)
        \<in> measure (\<lambda>(m, bm, max_bit, count, i, start_idx, found). unat (max_bit - i))"
    by simp_all
qed simp

declare pmem_scan.simps [simp del]

definition pmem_alloc :: "u64 \<Rightarrow> 'a pmem_scheme \<Rightarrow> (addr \<times> 'a pmem_scheme) option" where
  "pmem_alloc count m = (
     let max_bit = usable_top m div PAGESIZE;
         start_idx = pmem_scan (mem m) (bitmap m) max_bit count (last_bit m) (- 1) 0
     in if sint start_idx < 0 then Some (0, m)
        else do {
          let start = start_idx * PAGESIZE;
          m \<leftarrow> bitmap_set_range start (start + count * PAGESIZE) True m;
          Some (start, m) })"

text \<open>\<^verbatim>\<open>spinlock_acquire\<close> and \<^verbatim>\<open>spinlock_release\<close> on the static lock.\<close>

definition lock_bitmap :: "'a pmem_scheme \<Rightarrow> 'a pmem_scheme option" where
  "lock_bitmap m = do {
     (l, m) \<leftarrow> spinlock_acquire (Some (bitmap_lock m)) True m;
     Some (m\<lparr>bitmap_lock := the l\<rparr>) }"

definition unlock_bitmap :: "'a pmem_scheme \<Rightarrow> 'a pmem_scheme" where
  "unlock_bitmap m = m\<lparr>bitmap_lock := spinlock_release (bitmap_lock m)\<rparr>"

definition mm_pmem_alloc :: "u64 \<Rightarrow> 'a pmem_scheme \<Rightarrow> (addr \<times> 'a pmem_scheme) option" where
  "mm_pmem_alloc count m = do {
     m \<leftarrow> lock_bitmap m;
     (phys, m) \<leftarrow> pmem_alloc count m;
     (phys, m) \<leftarrow> (if phys = 0 then pmem_alloc count (m\<lparr>last_bit := 0\<rparr>) else Some (phys, m));
     Some (phys, unlock_bitmap m) }"

definition mm_pmem_free :: "addr \<Rightarrow> u64 \<Rightarrow> 'a pmem_scheme \<Rightarrow> 'a pmem_scheme option" where
  "mm_pmem_free base count m = do {
     m \<leftarrow> lock_bitmap m;
     m \<leftarrow> bitmap_set_range base (base + count * PAGESIZE) False m;
     Some (unlock_bitmap m) }"


section \<open>Marking a range\<close>

text \<open>The address of the byte a bit is in.\<close>

definition bit_byte :: "addr \<Rightarrow> u64 \<Rightarrow> addr" where
  "bit_byte bm j = bm + drop_bit 3 j"

text \<open>
  \<open>marked bm k n alloc m m'\<close>: \<open>m'\<close> differs from \<open>m\<close> only in the bits of the frames from
  \<open>k\<close> up to \<open>n\<close>, which are as \<open>alloc\<close> says.
\<close>

definition marked :: "addr \<Rightarrow> nat \<Rightarrow> nat \<Rightarrow> bool \<Rightarrow> memory \<Rightarrow> memory \<Rightarrow> bool" where
  "marked bm k n alloc m m' \<longleftrightarrow>
     (\<forall>j. TESTBIT m' bm j = (if k \<le> unat j \<and> unat j < n then alloc else TESTBIT m bm j)) \<and>
     (\<forall>a. (\<forall>j. k \<le> unat j \<and> unat j < n \<longrightarrow> a \<noteq> bit_byte bm j) \<longrightarrow> m' a = m a)"

lemma marked_empty: "marked bm k k alloc m m"
  by (auto simp: marked_def)

lemma marked_step:
  assumes "marked bm (Suc k) n alloc (if alloc then SETBIT m bm i else CLRBIT m bm i) m'"
    "unat i = k" "k < n"
  shows "marked bm k n alloc m m'"
  unfolding marked_def
proof (intro conjI allI impI)
  fix j
  have "unat j = k \<longleftrightarrow> j = i" using assms(2) by (auto simp: word_unat_eq_iff)
  then show "TESTBIT m' bm j = (if k \<le> unat j \<and> unat j < n then alloc else TESTBIT m bm j)"
    using assms by (auto simp: marked_def TESTBIT_SETBIT TESTBIT_CLRBIT)
next
  fix a assume a: "\<forall>j. k \<le> unat j \<and> unat j < n \<longrightarrow> a \<noteq> bit_byte bm j"
  then have "m' a = (if alloc then SETBIT m bm i else CLRBIT m bm i) a"
    using assms(1) unfolding marked_def by (meson Suc_leD)
  moreover have "a \<noteq> bm + drop_bit 3 i" using a assms(2,3) unfolding bit_byte_def by blast
  ultimately show "m' a = m a" by (auto simp: SETBIT_def CLRBIT_def Let_def)
qed

text \<open>The address of frame \<open>k\<close>, and the frame of an address.\<close>

definition page :: "nat \<Rightarrow> u64" where
  "page k = of_nat (k * 4096)"

lemma unat_page: "k < 4503599627370496 \<Longrightarrow> unat (page k) = k * 4096"
  unfolding page_def by (subst unat_of_nat64) auto

lemma page_div: "k < 4503599627370496 \<Longrightarrow> unat (page k div PAGESIZE) = k"
  by (simp add: unat_div PAGESIZE_def unat_page)

lemma page_Suc: "page k + PAGESIZE = page (Suc k)"
  by (simp add: page_def PAGESIZE_def algebra_simps)

lemma page_less: "k < 4503599627370496 \<Longrightarrow> n < 4503599627370496 \<Longrightarrow> page k < page n \<longleftrightarrow> k < n"
  by (simp add: word_less_nat_alt unat_page)

lemma page_align_up:
  assumes "unat a + 4096 \<le> 18446744073709551616"
  shows "ALIGN_UP a PAGESIZE = page ((unat a + 4095) div 4096)"
    "(unat a + 4095) div 4096 < 4503599627370496"
proof -
  show b: "(unat a + 4095) div 4096 < 4503599627370496"
    using assms by (intro less_mult_imp_div_less) simp
  show "ALIGN_UP a PAGESIZE = page ((unat a + 4095) div 4096)"
    using assms by (simp add: word_unat_eq_iff unat_page [OF b] PAGESIZE_def unat_ALIGN_UP_page)
qed

lemma set_range_loop_marks:
  assumes "k \<le> n" "n < 4503599627370496" "k < n \<longrightarrow> bm \<noteq> NULL"
  shows "\<exists>m'. set_range_loop alloc (page k) (page n) bm m = Some m' \<and> marked bm k n alloc m m'"
  using assms
proof (induction "n - k" arbitrary: k m)
  case 0
  then show ?case by (subst set_range_loop.simps) (auto intro: marked_empty)
next
  case (Suc d)
  then have k: "k < n" by simp
  let ?m = "if alloc then SETBIT m bm (page k div PAGESIZE) else CLRBIT m bm (page k div PAGESIZE)"
  obtain m' where m': "set_range_loop alloc (page (Suc k)) (page n) bm ?m = Some m'"
    "marked bm (Suc k) n alloc ?m m'"
  proof -
    have "d = n - Suc k" "Suc k \<le> n" "Suc k < n \<longrightarrow> bm \<noteq> NULL" using Suc.hyps(2) Suc.prems k by auto
    from Suc.hyps(1) [OF this(1,2) Suc.prems(2) this(3), of ?m] that show ?thesis by blast
  qed
  have "unat (page k div PAGESIZE) = k" using Suc.prems k by (intro page_div) simp
  then have "marked bm k n alloc m m'" using m'(2) k marked_step by blast
  moreover have "set_range_loop alloc (page k) (page n) bm m = Some m'"
    using m'(1) k Suc.prems by (subst set_range_loop.simps) (simp add: page_less page_Suc)
  ultimately show ?case by blast
qed

lemma bitmap_set_range_marks:
  assumes "unat s + 4096 \<le> 18446744073709551616" "unat e + 4096 \<le> 18446744073709551616" "s \<le> e"
    "bitmap m \<noteq> NULL"
  shows "\<exists>m'. bitmap_set_range s e alloc m = Some (m\<lparr>mem := m'\<rparr>) \<and>
    marked (bitmap m) ((unat s + 4095) div 4096) ((unat e + 4095) div 4096) alloc (mem m) m'"
proof -
  have "(unat s + 4095) div 4096 \<le> (unat e + 4095) div 4096"
    using assms(3) by (intro div_le_mono) (simp add: word_le_nat_alt)
  then show ?thesis
    using set_range_loop_marks [of "(unat s + 4095) div 4096" "(unat e + 4095) div 4096" "bitmap m" alloc "mem m"]
      page_align_up [OF assms(1)] page_align_up [OF assms(2)] assms(4)
    by (auto simp: bitmap_set_range_def)
qed

lemma bitmap_range_pages:
  assumes "k \<le> n" "n < 4503599627370496" "bitmap m \<noteq> NULL"
  shows "\<exists>m'. bitmap_set_range (page k) (page n) alloc m = Some (m\<lparr>mem := m'\<rparr>) \<and>
    marked (bitmap m) k n alloc (mem m) m'"
proof -
  have up: "(unat (page i) + 4095) div 4096 = i" if "i < 4503599627370496" for i
    using that by (simp add: unat_page)
  have "unat (page k) + 4096 \<le> 18446744073709551616" "unat (page n) + 4096 \<le> 18446744073709551616"
    "page k \<le> page n" using assms by (simp_all add: unat_page word_le_nat_alt)
  from bitmap_set_range_marks [OF this assms(3), of alloc] show ?thesis
    using up [of k] up [of n] assms(1,2) by simp
qed

section \<open>The search\<close>

text \<open>Whether a frame is in use, and what the allocator needs of its state.\<close>

definition frame_used :: "'a pmem_scheme \<Rightarrow> nat \<Rightarrow> bool" where
  "frame_used m k \<longleftrightarrow> TESTBIT (mem m) (bitmap m) (of_nat k)"

definition max_frame :: "'a pmem_scheme \<Rightarrow> nat" where
  "max_frame m = unat (usable_top m) div 4096"

definition pmem_ready :: "'a pmem_scheme \<Rightarrow> bool" where
  "pmem_ready m \<longleftrightarrow> bitmap m \<noteq> NULL \<and> bitmap_lock m = 0 \<and> max_frame m < 4503599627370495"

text \<open>The state in which the allocator writes only its bitmap.\<close>

definition same_but_bits :: "nat \<Rightarrow> nat \<Rightarrow> bool \<Rightarrow> 'a pmem_scheme \<Rightarrow> 'a pmem_scheme \<Rightarrow> bool" where
  "same_but_bits k n alloc m m' \<longleftrightarrow>
     (\<exists>mm. m' = m\<lparr>mem := mm\<rparr> \<and> marked (bitmap m) k n alloc (mem m) mm)"

lemma same_but_bits_used:
  assumes "same_but_bits k n alloc m m'" "j < 18446744073709551616"
  shows "frame_used m' j = (if k \<le> j \<and> j < n then alloc else frame_used m j)"
  using assms by (auto simp: same_but_bits_def frame_used_def marked_def unat_of_nat64)

lemma lock_bitmap_free: "bitmap_lock m = 0 \<Longrightarrow> lock_bitmap m = Some (m\<lparr>bitmap_lock := 1\<rparr>)"
  by (simp add: lock_bitmap_def)

lemma unlock_bitmap: "unlock_bitmap m = m\<lparr>bitmap_lock := 0\<rparr>"
  by (simp add: unlock_bitmap_def spinlock_release_def mu_aswap_def)

section \<open>What the search finds\<close>

text \<open>The number of free frames below a frame, and the start of the run of free frames that ends there.\<close>

definition free_below :: "'a pmem_scheme \<Rightarrow> nat \<Rightarrow> nat" where
  "free_below m n = card {k. k < n \<and> \<not> frame_used m k}"

primrec run_start :: "(nat \<Rightarrow> bool) \<Rightarrow> nat \<Rightarrow> nat option" where
  "run_start u 0 = None"
| "run_start u (Suc k) = (if u k then None else Some (case run_start u k of None \<Rightarrow> k | Some s \<Rightarrow> s))"

lemma free_below_0: "free_below m 0 = 0"
  by (simp add: free_below_def)

lemma free_below_Suc: "free_below m (Suc n) = free_below m n + (if frame_used m n then 0 else 1)"
proof -
  have "{k. k < Suc n \<and> \<not> frame_used m k} =
      (if frame_used m n then {} else {n}) \<union> {k. k < n \<and> \<not> frame_used m k}"
    by (auto simp: less_Suc_eq)
  then show ?thesis by (simp add: free_below_def)
qed

lemma free_below_mono: "k \<le> n \<Longrightarrow> free_below m k \<le> free_below m n"
  unfolding free_below_def by (rule card_mono) auto

lemma free_below_run:
  "\<forall>k. s \<le> k \<and> k < s + n \<longrightarrow> \<not> frame_used m k \<Longrightarrow> free_below m (s + n) = free_below m s + n"
  by (induction n) (simp_all add: free_below_Suc)

lemma free_below_none: "\<forall>k < n. frame_used m k \<Longrightarrow> free_below m n = 0"
  by (simp add: free_below_def)

lemma run_start_lt: "run_start u k = Some s \<Longrightarrow> s < k"
  by (induction k) (auto split: if_splits option.splits)

lemma run_startI:
  assumes "s < k" "\<forall>j. s \<le> j \<and> j < k \<longrightarrow> \<not> u j" "u (s - 1)" "0 < s"
  shows "run_start u k = Some s"
  using assms(1,2)
proof (induction k)
  case (Suc k)
  show ?case
  proof (cases "s = k")
    case True
    then have "run_start u k = None" using assms(3,4) by (cases k) auto
    then show ?thesis using Suc.prems True by simp
  qed (use Suc in simp)
qed simp

text \<open>The variable \<open>start_idx\<close> when the search comes to frame \<open>k\<close>.\<close>

definition scan_start :: "'a pmem_scheme \<Rightarrow> nat \<Rightarrow> u64" where
  "scan_start m k = (case run_start (frame_used m) k of None \<Rightarrow> - 1 | Some s \<Rightarrow> of_nat s)"

abbreviation scan_from :: "'a pmem_scheme \<Rightarrow> u64 \<Rightarrow> nat \<Rightarrow> u64" where
  "scan_from m count k \<equiv> pmem_scan (mem m) (bitmap m) (usable_top m div PAGESIZE) count (of_nat k) (scan_start m k) (of_nat (free_below m k))"

lemma max_word: "unat (usable_top m div PAGESIZE) = max_frame m"
  by (simp add: max_frame_def PAGESIZE_def unat_div)

lemma frame_lt_max:
  assumes "max_frame m < 4503599627370496" "k \<le> max_frame m"
  shows "(of_nat k :: u64) < usable_top m div PAGESIZE \<longleftrightarrow> k < max_frame m"
  using assms by (simp add: word_less_nat_alt max_word unat_of_nat64)

lemma scan_step:
  assumes "max_frame m < 4503599627370496" "k < max_frame m"
  shows "scan_from m count k = (if \<not> frame_used m k \<and> unat count \<le> free_below m (Suc k) then scan_start m (Suc k)
    else scan_from m count (Suc k))"
proof -
  have lt: "(of_nat k :: u64) < usable_top m div PAGESIZE" using frame_lt_max [OF assms(1)] assms(2) by simp
  have free: "free_below m (Suc k) \<le> Suc k" unfolding free_below_def by (rule order_trans [OF card_mono [of "{..<Suc k}"]]) auto
  then have found: "unat (of_nat (free_below m (Suc k)) :: u64) = free_below m (Suc k)" using assms by (intro unat_of_nat64) simp
  have start: "scan_start m (Suc k) = (if frame_used m k then - 1 else if sint (scan_start m k) < 0 then of_nat k else scan_start m k)"
  proof (cases "run_start (frame_used m) k")
    case (Some s)
    then have "s < k" by (rule run_start_lt)
    then have "0 \<le> sint (of_nat s :: u64)" using assms by (simp add: sint_of_nat64)
    then show ?thesis using Some by (simp add: scan_start_def)
  qed (simp add: scan_start_def)
  show ?thesis
  proof (cases "frame_used m k")
    case True
    then show ?thesis using lt start by (subst pmem_scan.simps) (simp add: frame_used_def free_below_Suc add.commute)
  next
    case False
    then have "\<not> TESTBIT (mem m) (bitmap m) (of_nat k)" by (simp add: frame_used_def)
    moreover have "of_nat (free_below m k) + 1 = (of_nat (free_below m (Suc k)) :: u64)" using False by (simp add: free_below_Suc add.commute)
    moreover have "count \<le> of_nat (free_below m (Suc k)) \<longleftrightarrow> unat count \<le> free_below m (Suc k)" using found by (simp add: word_le_nat_alt)
    moreover have "of_nat k + 1 = (of_nat (Suc k) :: u64)" by simp
    ultimately show ?thesis using lt start False by (subst pmem_scan.simps) (simp only: Let_def if_True if_False simp_thms)
  qed
qed

text \<open>The search goes on as long as fewer frames than requested have been found.\<close>

lemma scan_skip:
  assumes "max_frame m < 4503599627370496" "n \<le> max_frame m" "free_below m n < unat count" "k \<le> n"
  shows "scan_from m count k = scan_from m count n"
  using assms(4)
proof (induction k rule: inc_induct)
  case (step k)
  have "free_below m (Suc k) < unat count" using free_below_mono [of "Suc k" n m] step assms(3) by simp
  then show ?case using scan_step [OF assms(1), of k count] step assms(2) by simp
qed simp

text \<open>The start of the run in which the count of free frames since frame 0 comes to the request.\<close>

lemma pmem_scan_found:
  assumes "max_frame m < 4503599627370496" "K < max_frame m" "\<not> frame_used m K" "free_below m K < unat count"
    "unat count \<le> free_below m (Suc K)"
  shows "scan_from m count 0 = scan_start m (Suc K)"
proof -
  have "scan_from m count 0 = scan_from m count K" using scan_skip [OF assms(1) less_imp_le [OF assms(2)] assms(4) le0] .
  also have "\<dots> = scan_start m (Suc K)" using scan_step [OF assms(1,2), of count] assms(3,5) by (simp only: if_True simp_thms)
  finally show ?thesis .
qed

text \<open>Fewer frames are free than requested: the start of the run at the end of memory, if there is one.\<close>

lemma pmem_scan_short:
  assumes "max_frame m < 4503599627370496" "free_below m (max_frame m) < unat count"
  shows "scan_from m count 0 = scan_start m (max_frame m)"
proof -
  have "scan_from m count 0 = scan_from m count (max_frame m)" using scan_skip [OF assms(1) order_refl assms(2) le0] .
  also have "\<dots> = scan_start m (max_frame m)"
    using frame_lt_max [OF assms(1) order_refl] by (subst pmem_scan.simps) (simp only: if_False less_irrefl)
  finally show ?thesis .
qed

text \<open>A run of \<open>n\<close> free frames from \<open>s\<close> on, with a frame in use before it.\<close>

definition run_from :: "'a pmem_scheme \<Rightarrow> nat \<Rightarrow> nat \<Rightarrow> bool" where
  "run_from m s n \<longleftrightarrow> 0 < s \<and> frame_used m (s - 1) \<and> (\<forall>k. s \<le> k \<and> k < s + n \<longrightarrow> \<not> frame_used m k)"

lemma scan_start_run: "run_from m s n \<Longrightarrow> 0 < n \<Longrightarrow> scan_start m (s + n) = of_nat s"
  using run_startI [of s "s + n" "frame_used m"] by (simp add: run_from_def scan_start_def)

text \<open>The allocator when the search comes to a start index, and when it comes to none.\<close>

lemma mm_pmem_alloc_at:
  assumes "pmem_ready m" "last_bit m = 0" "0 < s" "s + unat count < 4503599627370496" "scan_from m count 0 = of_nat s"
  shows "\<exists>m'. mm_pmem_alloc count m = Some (page s, m') \<and> same_but_bits s (s + unat count) True m m'"
proof -
  let ?m = "m\<lparr>bitmap_lock := 1\<rparr>" and ?s = "of_nat s :: u64" and ?n = "unat count"
  have pos: "0 \<le> sint ?s" using assms(4) by (simp add: sint_of_nat64)
  have scan: "pmem_scan (mem m) (bitmap m) (usable_top m div PAGESIZE) count 0 (- 1) 0 = ?s"
    using assms(5) by (simp add: scan_start_def free_below_0)
  have start: "?s * PAGESIZE = page s" "page s + count * PAGESIZE = page (s + ?n)"
    by (simp_all add: page_def PAGESIZE_def algebra_simps)
  obtain mm where mm: "bitmap_set_range (page s) (page (s + ?n)) True ?m = Some (?m\<lparr>mem := mm\<rparr>)"
    "marked (bitmap m) s (s + ?n) True (mem m) mm"
    using bitmap_range_pages [of s "s + ?n" ?m True] assms(1,4) by (auto simp: pmem_ready_def)
  have "pmem_alloc count ?m = Some (page s, ?m\<lparr>mem := mm\<rparr>)"
    using pos scan mm(1) assms(2) by (simp add: pmem_alloc_def Let_def start)
  moreover have "page s \<noteq> 0" using assms(3,4) unat_page [of s] by auto
  moreover have "unlock_bitmap (?m\<lparr>mem := mm\<rparr>) = m\<lparr>mem := mm\<rparr>"
    using assms(1) by (cases m) (simp add: unlock_bitmap pmem_ready_def)
  ultimately have "mm_pmem_alloc count m = Some (page s, m\<lparr>mem := mm\<rparr>)"
    using assms(1) by (simp add: mm_pmem_alloc_def lock_bitmap_free pmem_ready_def)
  then show ?thesis using mm(2) by (auto simp: same_but_bits_def)
qed

lemma mm_pmem_alloc_found:
  assumes "pmem_ready m" "last_bit m = 0" "s + unat count < 4503599627370496"
    and "run_from m s n" "0 < n" "s + n \<le> max_frame m"
    and "free_below m (s + n - 1) < unat count" "unat count \<le> free_below m (s + n)"
  shows "\<exists>m'. mm_pmem_alloc count m = Some (page s, m') \<and> same_but_bits s (s + unat count) True m m'"
proof (rule mm_pmem_alloc_at [OF assms(1,2) _ assms(3)])
  show "0 < s" using assms(4) by (simp add: run_from_def)
  have "max_frame m < 4503599627370496" using assms(1) by (simp add: pmem_ready_def)
  then have "scan_from m count 0 = scan_start m (Suc (s + n - 1))"
    by (rule pmem_scan_found) (use assms(4-8) in \<open>auto simp: run_from_def\<close>)
  then show "scan_from m count 0 = of_nat s" using scan_start_run [OF assms(4,5)] assms(5) by simp
qed

lemma mm_pmem_alloc_none:
  assumes "pmem_ready m" "last_bit m = 0" "scan_from m count 0 = - 1"
  shows "mm_pmem_alloc count m = Some (0, m)"
proof -
  have "pmem_scan (mem m) (bitmap m) (usable_top m div PAGESIZE) count 0 (- 1) 0 = - 1"
    using assms(3) by (simp add: scan_start_def free_below_0)
  then have "pmem_alloc count (m\<lparr>bitmap_lock := 1\<rparr>) = Some (0, m\<lparr>bitmap_lock := 1\<rparr>)"
    using assms(2) by (simp add: pmem_alloc_def Let_def)
  moreover have "m\<lparr>bitmap_lock := x, last_bit := 0\<rparr> = m\<lparr>bitmap_lock := x\<rparr>" "m\<lparr>bitmap_lock := 0\<rparr> = m" for x
    using assms(1,2) by (cases m; simp add: pmem_ready_def)+
  ultimately show ?thesis using assms(1) by (simp add: mm_pmem_alloc_def lock_bitmap_free pmem_ready_def unlock_bitmap)
qed

lemma mm_pmem_alloc_refused:
  assumes "pmem_ready m" "last_bit m = 0" "free_below m (max_frame m) < unat count" "frame_used m (max_frame m - 1)"
  shows "mm_pmem_alloc count m = Some (0, m)"
proof (rule mm_pmem_alloc_none [OF assms(1,2)])
  have "scan_start m (max_frame m) = - 1" using assms(4) by (cases "max_frame m") (simp_all add: scan_start_def)
  moreover have "scan_from m count 0 = scan_start m (max_frame m)"
    by (rule pmem_scan_short [OF _ assms(3)]) (use assms(1) in \<open>simp add: pmem_ready_def\<close>)
  ultimately show "scan_from m count 0 = - 1" by (rule trans [rotated])
qed

text \<open>The case the kernel uses: the first run of free frames, behind frames that are all in use, is long enough.\<close>

lemma mm_pmem_alloc_run:
  assumes "pmem_ready m" "last_bit m = 0" "0 < unat count" "0 < s" "s + unat count \<le> max_frame m"
    and "\<And>k. k < s \<Longrightarrow> frame_used m k"
    and "\<And>k. s \<le> k \<Longrightarrow> k < s + unat count \<Longrightarrow> \<not> frame_used m k"
  shows "\<exists>m'. mm_pmem_alloc count m = Some (page s, m') \<and> same_but_bits s (s + unat count) True m m'"
proof -
  have "free_below m (s + n) = n" if "n \<le> unat count" for n
    using free_below_run [of s n m] free_below_none [of s m] assms(6,7) that by simp
  moreover have "free_below m (s + unat count - 1) = unat count - 1"
    using calculation [of "unat count - 1"] assms(3) by simp
  moreover have "run_from m s (unat count)" using assms(4,6,7) by (simp add: run_from_def)
  ultimately show ?thesis
    using mm_pmem_alloc_found [OF assms(1,2), of s count "unat count"] assms(1,3,5) by (simp add: pmem_ready_def)
qed

lemma mm_pmem_free_run:
  assumes "bitmap m \<noteq> NULL" "bitmap_lock m = 0" "s + unat count < 4503599627370496"
  shows "\<exists>m'. mm_pmem_free (page s) count m = Some m' \<and> same_but_bits s (s + unat count) False m m'"
proof -
  let ?m = "m\<lparr>bitmap_lock := 1\<rparr>" and ?e = "page (s + unat count)"
  have e: "page s + count * PAGESIZE = ?e" by (simp add: page_def PAGESIZE_def algebra_simps)
  obtain mm where "bitmap_set_range (page s) ?e False ?m = Some (?m\<lparr>mem := mm\<rparr>)"
    "marked (bitmap m) s (s + unat count) False (mem m) mm"
    using bitmap_range_pages [of s "s + unat count" ?m False] assms by auto
  moreover have "unlock_bitmap (?m\<lparr>mem := mm\<rparr>) = m\<lparr>mem := mm\<rparr>"
    using assms(2) by (cases m) (simp add: unlock_bitmap)
  ultimately have "mm_pmem_free (page s) count m = Some (m\<lparr>mem := mm\<rparr>)"
    using assms(2) by (simp add: mm_pmem_free_def lock_bitmap_free e)
  then show ?thesis using \<open>marked _ _ _ _ _ mm\<close> by (auto simp: same_but_bits_def)
qed


text \<open>
  C37: When fewer frames than requested are free in the whole memory, the outcome depends on the last
  frame. If it is in use, the request is refused with 0 and nothing changes. If the run at the end of
  memory is free, from \<open>s\<close> on with the frame before \<open>s\<close> in use, \<^verbatim>\<open>mm_pmem_alloc\<close>
  does not fail: whatever other runs there are, it returns \<open>s\<close>
  and marks as many frames from there as were requested, those behind the end of memory included (as
  long as their addresses do not wrap around, below frame 2^52).
\<close>

theorem pmem_alloc_short_run:
  assumes "pmem_ready m" "last_bit m = 0" "free_below m (max_frame m) < unat count"
  shows "(frame_used m (max_frame m - 1) \<longrightarrow> mm_pmem_alloc count m = Some (0, m)) \<and>
    (run_from m s (max_frame m - s) \<and> s < max_frame m \<and> s + unat count < 4503599627370496 \<longrightarrow>
      (\<exists>m'. mm_pmem_alloc count m = Some (page s, m') \<and> same_but_bits s (s + unat count) True m m' \<and>
         max_frame m < s + unat count))"
proof (intro conjI impI)
  show "mm_pmem_alloc count m = Some (0, m)" if "frame_used m (max_frame m - 1)"
    by (rule mm_pmem_alloc_refused [OF assms that])
  assume s: "run_from m s (max_frame m - s) \<and> s < max_frame m \<and> s + unat count < 4503599627370496"
  have "scan_from m count 0 = scan_start m (max_frame m)"
    by (rule pmem_scan_short [OF _ assms(3)]) (use assms(1) in \<open>simp add: pmem_ready_def\<close>)
  also have "\<dots> = of_nat s" using s scan_start_run [of m s "max_frame m - s"] by simp
  finally have "\<exists>m'. mm_pmem_alloc count m = Some (page s, m') \<and> same_but_bits s (s + unat count) True m m'"
    using s by (intro mm_pmem_alloc_at [OF assms(1,2)]) (auto simp: run_from_def)
  moreover have "free_below m (s + (max_frame m - s)) = free_below m s + (max_frame m - s)"
    by (rule free_below_run) (use s in \<open>simp add: run_from_def\<close>)
  then have "max_frame m < s + unat count" using assms(3) s by simp
  ultimately show "\<exists>m'. mm_pmem_alloc count m = Some (page s, m') \<and> same_but_bits s (s + unat count) True m m' \<and>
         max_frame m < s + unat count" by blast
qed

text \<open>A machine with four frames, the first two in use, and the bitmap in the byte at 16.\<close>

definition pmem_witness :: "u8 \<Rightarrow> pmem" where
  "pmem_witness bits = \<lparr>mem = (\<lambda>_. 0)(16 := bits), cr3 = 0, cr4 = 0, irq_on = True, uart = [],
     hooks = \<lparr>hook_get_vars = None, hook_get_mementry = None, hook_get_module = None\<rparr>,
     resp = \<lparr>r_memmap = None, r_hhdm_offset = None, r_rsdp_address = None, r_module = None\<rparr>,
     req = \<lparr>r_memmap = None, r_hhdm_offset = None, r_rsdp_address = None, r_module = None\<rparr>,
     usable_top = 16384, mem_usable = 16384, bitmap_size = 1, bitmap = 16, last_bit = 0, bitmap_lock = 0\<rparr>"

lemma pmem_witness_used:
  assumes "k < 8"
  shows "frame_used (pmem_witness bits) k = bit bits k"
proof -
  have "unat (drop_bit 3 (of_nat k :: u64)) = 0"
    using assms by (simp add: drop_bit_eq_div unat_div unat_of_nat64)
  then have "drop_bit 3 (of_nat k :: u64) = 0" by (simp only: unat_eq_0)
  then show ?thesis
    using assms by (simp add: frame_used_def pmem_witness_def TESTBIT_bit unat_mod unat_of_nat64)
qed

text \<open>Eight frames. Frames 0, 2 and 4 are in use, and three frames are requested.\<close>

definition pmem_witness8 :: pmem where
  "pmem_witness8 = (pmem_witness 21)\<lparr>usable_top := 32768\<rparr>"

lemma pmem_witness8_used: "k < 8 \<Longrightarrow> frame_used pmem_witness8 k \<longleftrightarrow> k \<in> {0, 2, 4}"
  using pmem_witness_used [of k 21] by (auto simp: pmem_witness8_def frame_used_def less_Suc_eq numeral_eq_Suc)


text \<open>Frames 0 and 2 of four are in use; a request for three is given frame 3 and two behind the end.\<close>

lemma pmem_alloc_short_run_witness:
  "\<exists>m'. mm_pmem_alloc 3 (pmem_witness 5) = Some (page 3, m') \<and>
    same_but_bits 3 (3 + unat (3 :: u64)) True (pmem_witness 5) m'"
proof -
  have m: "max_frame (pmem_witness 5) = 4" "pmem_ready (pmem_witness 5)" "last_bit (pmem_witness 5) = 0"
    by (simp_all add: pmem_witness_def max_frame_def pmem_ready_def)
  have u: "frame_used (pmem_witness 5) k \<longleftrightarrow> k \<in> {0, 2}" if "k < 4" for k
    using that by (auto simp: pmem_witness_used less_Suc_eq numeral_eq_Suc)
  have "{k. k < 4 \<and> \<not> frame_used (pmem_witness 5) k} = {1, 3}" by (auto simp: u less_Suc_eq numeral_eq_Suc)
  then have "free_below (pmem_witness 5) (max_frame (pmem_witness 5)) < unat (3 :: u64)" by (simp add: free_below_def m)
  moreover have "run_from (pmem_witness 5) 3 (max_frame (pmem_witness 5) - 3)" by (simp add: run_from_def u m)
  ultimately show ?thesis using pmem_alloc_short_run [OF m(2,3), of 3 3] by (auto simp: m)
qed

text \<open>A single frame: the first free one, or none when all are in use.\<close>

lemma mm_pmem_alloc_one:
  assumes "pmem_ready m" "last_bit m = 0" "frame_used m 0"
  shows "(\<exists>s m'. mm_pmem_alloc 1 m = Some (page s, m') \<and> 0 < s \<and> s < max_frame m \<and>
      \<not> frame_used m s \<and> (\<forall>k < s. frame_used m k) \<and> same_but_bits s (Suc s) True m m') \<or>
    ((\<forall>k < max_frame m. frame_used m k) \<and> mm_pmem_alloc 1 m = Some (0, m))"
proof (cases "\<forall>k < max_frame m. frame_used m k")
  case True
  have "frame_used m (max_frame m - 1)" using True assms(3) by (cases "max_frame m") auto
  then have "mm_pmem_alloc 1 m = Some (0, m)"
    using mm_pmem_alloc_refused [OF assms(1,2), of 1] free_below_none [of "max_frame m" m] True by simp
  then show ?thesis using True by simp
next
  case False
  define s where "s = (LEAST k. k < max_frame m \<and> \<not> frame_used m k)"
  have s: "s < max_frame m" "\<not> frame_used m s" using False LeastI_ex [of "\<lambda>k. k < max_frame m \<and> \<not> frame_used m k"]
    unfolding s_def by blast+
  have used: "frame_used m k" if "k < s" for k
    using not_less_Least [of k "\<lambda>k. k < max_frame m \<and> \<not> frame_used m k"] that s(1) unfolding s_def by auto
  have "0 < s" using s(2) assms(3) by (cases s) auto
  moreover have "\<exists>m'. mm_pmem_alloc 1 m = Some (page s, m') \<and> same_but_bits s (s + unat (1 :: u64)) True m m'"
    using assms s used \<open>0 < s\<close> by (intro mm_pmem_alloc_run) (auto simp: less_Suc_eq)
  ultimately show ?thesis using s used by auto
qed

text \<open>
  C20: The counter of free frames is not reset when a run ends: when every frame below \<open>b\<close> but
  \<open>a\<close> is in use, with \<open>a + 1 < b\<close>, and \<open>b\<close> is free, a request for two frames is given \<open>b\<close>
  and \<open>b + 1\<close> and marks both, whether or not \<open>b + 1\<close> was already in use.
\<close>

theorem pmem_alloc_counts_across_runs:
  assumes "pmem_ready m" "last_bit m = 0" "a + 1 < b" "b < max_frame m"
    and "\<forall>k < b. frame_used m k \<longleftrightarrow> k \<noteq> a" "\<not> frame_used m b"
  shows "\<exists>m'. mm_pmem_alloc 2 m = Some (page b, m') \<and> same_but_bits b (b + 2) True m m'"
proof -
  have "{k. k < b \<and> \<not> frame_used m k} = {a}" using assms(3,5) by auto
  then have "free_below m b = 1" by (simp add: free_below_def)
  moreover have "run_from m b 1" using assms(3,5,6) by (auto simp: run_from_def le_less_Suc_eq)
  ultimately show ?thesis
    using mm_pmem_alloc_found [OF assms(1,2), of b 2 1] assms(1,4,6) by (simp add: pmem_ready_def free_below_Suc)
qed

text \<open>Frames 0 and 2 are in use, and the request gets frame 3 and the frame 4 behind the end.\<close>

lemma pmem_alloc_counts_across_runs_witness:
  "\<exists>m'. mm_pmem_alloc 2 (pmem_witness 21) = Some (page 3, m') \<and>
    same_but_bits 3 (3 + 2) True (pmem_witness 21) m'"
proof (rule pmem_alloc_counts_across_runs)
  show "pmem_ready (pmem_witness 21)" by (simp add: pmem_ready_def pmem_witness_def max_frame_def)
  have "frame_used (pmem_witness 21) k \<longleftrightarrow> k \<noteq> 1" if "k = 0 \<or> k = 1 \<or> k = 2" for k
    using that by (auto simp: pmem_witness_used)
  moreover have "k = 0 \<or> k = 1 \<or> k = 2" if "k < 3" for k :: nat using that by auto
  ultimately show "\<forall>k < 3. frame_used (pmem_witness 21) k \<longleftrightarrow> k \<noteq> 1" by blast
  show "\<not> frame_used (pmem_witness 21) 3" by (simp add: pmem_witness_used)
qed (simp_all add: pmem_witness_def max_frame_def)


section \<open>Start-up\<close>

definition usable :: "bpt_mementry \<Rightarrow> bool" where
  "usable e \<longleftrightarrow> ent_type e = MEM_USABLE"

definition ent_end :: "bpt_mementry \<Rightarrow> nat" where
  "ent_end e = unat (ent_base e) + unat (ent_length e)"

text \<open>The frames of an entry, both of its ends rounded up.\<close>

definition ent_frames :: "bpt_mementry \<Rightarrow> nat set" where
  "ent_frames e = {(unat (ent_base e) + 4095) div 4096 ..< (ent_end e + 4095) div 4096}"

definition free_frames :: "bpt_mementry list \<Rightarrow> nat set" where
  "free_frames es = (\<Union>e \<in> {e \<in> set es. usable e}. ent_frames e)"

definition usable_bytes :: "bpt_mementry list \<Rightarrow> nat" where
  "usable_bytes es = sum_list (map (unat \<circ> ent_length) (List.filter usable es))"

fun usable_end :: "bpt_mementry list \<Rightarrow> nat \<Rightarrow> nat" where
  "usable_end [] t = t"
| "usable_end (e # es) t = usable_end es (if usable e then max t (ent_end e) else t)"

text \<open>No entry, and no sum of entries, comes near the end of the address space.\<close>

definition small_map :: "bpt_mementry list \<Rightarrow> bool" where
  "small_map es \<longleftrightarrow> (\<forall>e \<in> set es. usable e \<longrightarrow> ent_end e + 4096 \<le> 18446744073709551616) \<and>
     usable_bytes es + 65536 \<le> 18446744073709551616"

lemma ent_end_unat:
  "ent_end e + 4096 \<le> 18446744073709551616 \<Longrightarrow> unat (ent_base e + ent_length e) = ent_end e"
  unfolding ent_end_def by (subst unat_add64) auto

lemma probe_entries:
  assumes "\<forall>e \<in> set es. usable e \<longrightarrow> ent_end e + 4096 \<le> 18446744073709551616"
    "unat (mem_usable m) + usable_bytes es < 18446744073709551616"
  shows "entries_loop probe_body es m = Some
    (m\<lparr>mem_usable := of_nat (unat (mem_usable m) + usable_bytes es),
       usable_top := of_nat (usable_end es (unat (usable_top m)))\<rparr>)"
  using assms
proof (induction es arbitrary: m)
  case Nil
  then show ?case by (cases m) (simp add: usable_bytes_def)
next
  case (Cons e es)
  show ?case
  proof (cases "usable e")
    case False
    then show ?thesis using Cons by (simp add: probe_body_def usable_def usable_bytes_def)
  next
    case True
    let ?m = "m\<lparr>mem_usable := mem_usable m + ent_length e,
      usable_top := if ent_base e + ent_length e > usable_top m then ent_base e + ent_length e else usable_top m\<rparr>"
    have bytes: "usable_bytes (e # es) = unat (ent_length e) + usable_bytes es"
      using True by (simp add: usable_bytes_def)
    have mu: "unat (mem_usable m + ent_length e) = unat (mem_usable m) + unat (ent_length e)"
      using Cons.prems(2) bytes by (subst unat_add64) auto
    have e: "unat (ent_base e + ent_length e) = ent_end e" using Cons.prems(1) True by (intro ent_end_unat) simp
    have step: "probe_body e m = Some (?m, False)"
      using True by (cases m) (simp add: probe_body_def usable_def Let_def)
    have "entries_loop probe_body es ?m = Some
      (?m\<lparr>mem_usable := of_nat (unat (mem_usable ?m) + usable_bytes es),
          usable_top := of_nat (usable_end es (unat (usable_top ?m)))\<rparr>)"
      using Cons.prems mu bytes by (intro Cons.IH) auto
    moreover have "unat (usable_top ?m) = max (unat (usable_top m)) (ent_end e)"
      using e by (auto simp: word_less_nat_alt max_def)
    ultimately show ?thesis using step mu bytes True by (simp add: add.assoc)
  qed
qed

lemma probe_keeps: "keeps_boot probe_body" "keeps_boot fill_body" "keeps_boot alloc_bitmap_body"
  by (auto simp: keeps_boot_def probe_body_def fill_body_def alloc_bitmap_body_def bitmap_set_range_def
      Let_def split: if_splits bind_splits)

text \<open>The first usable entry of at least \<open>size\<close> bytes holds the bitmap.\<close>

lemma alloc_bitmap_entries:
  assumes "hook_get_vars (hooks m) = Some limine_get_vars" "r_hhdm_offset (resp m) = Some off"
    "r_rsdp_address (resp m) = Some rsdp"
    "find (\<lambda>e. usable e \<and> bitmap_size m \<le> ent_length e) es = Some e0"
  shows "entries_loop alloc_bitmap_body es m = Some (m\<lparr>bitmap := ent_base e0 + off\<rparr>)"
  using assms(4)
proof (induction es)
  case (Cons e es)
  have base: "PHYS_TO_VIRT a m = Some (a + off)" for a
    using bpt_kernel_base_limine [OF assms(1-3)] by (simp add: PHYS_TO_VIRT_def PTR_OFFSET_def)
  show ?case using Cons base
    by (auto simp: alloc_bitmap_body_def usable_def not_le split: if_splits)
qed simp

lemma fill_entries:
  assumes "\<forall>e \<in> set es. usable e \<longrightarrow> ent_end e + 4096 \<le> 18446744073709551616" "bitmap m \<noteq> NULL"
  shows "\<exists>mm. entries_loop fill_body es m = Some (m\<lparr>mem := mm\<rparr>) \<and>
    (\<forall>j. TESTBIT mm (bitmap m) j \<longleftrightarrow> TESTBIT (mem m) (bitmap m) j \<and> unat j \<notin> free_frames es)"
  using assms
proof (induction es arbitrary: m)
  case Nil
  then show ?case by (cases m) (simp add: free_frames_def)
next
  case (Cons e es)
  show ?case
  proof (cases "usable e")
    case False
    then have "free_frames (e # es) = free_frames es" by (auto simp: free_frames_def)
    then show ?thesis using Cons.IH [of m] Cons.prems False by (simp add: fill_body_def usable_def)
  next
    case True
    have e: "unat (ent_base e + ent_length e) = ent_end e" "ent_end e + 4096 \<le> 18446744073709551616"
      using Cons.prems(1) True by (auto intro: ent_end_unat)
    have "unat (ent_base e) + 4096 \<le> 18446744073709551616" "ent_base e \<le> ent_base e + ent_length e"
      using e by (auto simp: word_le_nat_alt ent_end_def)
    from bitmap_set_range_marks [OF this(1) _ this(2) Cons.prems(2), of False] e
    obtain m1 where m1: "bitmap_set_range (ent_base e) (ent_base e + ent_length e) False m = Some (m\<lparr>mem := m1\<rparr>)"
      "marked (bitmap m) ((unat (ent_base e) + 4095) div 4096) ((ent_end e + 4095) div 4096) False (mem m) m1"
      by auto
    have b1: "TESTBIT m1 (bitmap m) j \<longleftrightarrow> TESTBIT (mem m) (bitmap m) j \<and> unat j \<notin> ent_frames e" for j
      using m1(2) by (auto simp: marked_def ent_frames_def)
    obtain mm where "entries_loop fill_body es (m\<lparr>mem := m1\<rparr>) = Some (m\<lparr>mem := m1\<rparr>\<lparr>mem := mm\<rparr>)"
      "\<forall>j. TESTBIT mm (bitmap m) j \<longleftrightarrow> TESTBIT m1 (bitmap m) j \<and> unat j \<notin> free_frames es"
      using Cons.IH [of "m\<lparr>mem := m1\<rparr>"] Cons.prems by auto
    moreover have "free_frames (e # es) = ent_frames e \<union> free_frames es"
      using True by (auto simp: free_frames_def)
    moreover have "fill_body e m = Some (m\<lparr>mem := m1\<rparr>, False)"
      using True m1(1) by (simp add: fill_body_def usable_def)
    ultimately show ?thesis using b1 by (intro exI [of _ mm]) simp
  qed
qed


lemma pmem_print_size_returns:
  assumes "length stk = 128"
  shows "\<exists>t. pmem_print_size stk name sz m = Some (m\<lparr>uart := uart m @ t\<rparr>)"
proof -
  have r: "\<exists>t. render (cline ''pmem: %s: %d GiB'') 0 [VStr name, VInt n] = Some (112 # t)"
    "\<exists>t. render (cline ''pmem: %s: %d MiB'') 0 [VStr name, VInt n] = Some (112 # t)"
    "\<exists>t. render (cline ''pmem: %s: %d bytes'') 0 [VStr name, VInt n] = Some (112 # t)" for n
    by (simp_all add: cline_def conv_text_def)
  have p: "\<exists>t'. printf stk fmt as m = Some (m\<lparr>uart := uart m @ t'\<rparr>)"
    if "\<exists>t. render fmt 0 as = Some (112 # t)" for fmt as
    using that printf_returns [OF assms] by fastforce
  show ?thesis
    unfolding pmem_print_size_def
    using p [OF r(1)] p [OF r(2)] p [OF r(3)] by (cases "sz \<ge> UNIT_GIB"; cases "sz \<ge> UNIT_MIB") auto
qed

definition bitmap_bytes :: "bpt_mementry list \<Rightarrow> nat" where
  "bitmap_bytes es = (usable_bytes es div 4096 + 7) div 8"

lemma bitmap_size_word:
  assumes "usable_bytes es + 65536 \<le> 18446744073709551616"
  shows "unat (ALIGN_UP (of_nat (usable_bytes es) div PAGESIZE) CHAR_BIT div CHAR_BIT) = bitmap_bytes es"
proof -
  have up: "unat (ALIGN_UP x CHAR_BIT div CHAR_BIT) = (unat x + 7) div 8"
    if "unat x + 8 \<le> 18446744073709551616" for x
    using unat_ALIGN_UP_8 [of x] that by (simp add: unat_div CHAR_BIT_def)
  have "unat (of_nat (usable_bytes es) div PAGESIZE :: u64) = usable_bytes es div 4096"
    using assms by (simp add: unat_div PAGESIZE_def unat_of_nat64)
  then show ?thesis using up [of "of_nat (usable_bytes es) div PAGESIZE"] assms
    by (simp add: bitmap_bytes_def)
qed

lemma memset_bits:
  assumes "unat j div 8 < unat n"
  shows "TESTBIT (memset m bm 0xFF n) bm j"
proof -
  have "unat (drop_bit 3 j) < unat n" using assms by (simp add: drop_bit_eq_div unat_div)
  then have "memset m bm 0xFF n (bm + drop_bit 3 j) = 0xFF" by (simp add: memset_apply)
  moreover have "bit (0xFF :: u8) (unat (j mod 8))"
  proof -
    have "(0xFF :: u8) = mask 8" by (simp add: mask_eq_exp_minus_1)
    then show ?thesis by (simp only: bit_mask_iff) (simp add: unat_mod)
  qed
  ultimately show ?thesis by (simp only: TESTBIT_bit)
qed

text \<open>
  C18: Started on a Limine memory map that stays away from the end of the address space, with
  a usable entry large enough for the bitmap, \<^verbatim>\<open>mm_pmem_init\<close> returns with the bitmap in the
  first such entry, one bit per usable page, and the top of the usable memory as the limit of
  the search; every frame of a usable entry is free, also the frames the bitmap is in, and
  every other frame the bitmap has a bit for is in use.
\<close>

theorem mm_pmem_init_frames:
  assumes "limine_ready mm m" "hook_get_vars (hooks m) = Some limine_get_vars"
    "r_hhdm_offset (resp m) = Some off" "r_rsdp_address (resp m) = Some rsdp"
    and "usable_top m = 0" "mem_usable m = 0" "\<forall>i. length (stk i) = 128"
    and "small_map (mem_entries mm)"
    and "find (\<lambda>e. usable e \<and> bitmap_bytes (mem_entries mm) \<le> unat (ent_length e)) (mem_entries mm) = Some e0"
      "ent_base e0 + off \<noteq> NULL"
  shows "\<exists>m'. mm_pmem_init stk m = Some m' \<and> bitmap m' = ent_base e0 + off \<and>
    unat (bitmap_size m') = bitmap_bytes (mem_entries mm) \<and>
    usable_top m' = of_nat (usable_end (mem_entries mm) 0) \<and>
    (\<forall>k < 18446744073709551616. k \<in> free_frames (mem_entries mm) \<longrightarrow> \<not> frame_used m' k) \<and>
    (\<forall>k < 8 * bitmap_bytes (mem_entries mm). k \<notin> free_frames (mem_entries mm) \<longrightarrow> frame_used m' k)"
proof -
  let ?es = "mem_entries mm"
  have sm: "\<forall>e \<in> set ?es. usable e \<longrightarrow> ent_end e + 4096 \<le> 18446744073709551616"
    "usable_bytes ?es + 65536 \<le> 18446744073709551616" using assms(8) by (auto simp: small_map_def)
  have pr: "\<exists>t. render (cline ''pmem: probing physical memory...'') 0 [] = Some (112 # t)"
    "\<exists>t. render (cline ''pmem: allocating bitmap...'') 0 [] = Some (112 # t)" by (simp_all add: cline_def)
  have prt: "\<exists>t'. printf (stk i) fmt [] m' = Some (m'\<lparr>uart := uart m' @ t'\<rparr>)"
    if "\<exists>t. render fmt 0 [] = Some (112 # t)" for fmt i and m' :: "'a pmem_scheme"
    using that printf_returns [of "stk i"] assms(7) by fastforce
  obtain t0 where t0: "printf (stk 0) (cline ''pmem: probing physical memory...'') [] m = Some (m\<lparr>uart := t0\<rparr>)"
    using prt [OF pr(1)] by blast
  let ?m1 = "m\<lparr>uart := t0, mem_usable := of_nat (usable_bytes ?es), usable_top := of_nat (usable_end ?es 0)\<rparr>"
  have "mementry_loop probe_body 0 (m\<lparr>uart := t0\<rparr>) = entries_loop probe_body ?es (m\<lparr>uart := t0\<rparr>)"
    using assms(1) by (intro mementry_loop_visits probe_keeps) (simp add: limine_ready_def)
  then have l1: "mementry_loop probe_body 0 (m\<lparr>uart := t0\<rparr>) = Some ?m1"
    using probe_entries [of ?es "m\<lparr>uart := t0\<rparr>"] sm assms(5,6) by simp
  let ?bs = "ALIGN_UP (of_nat (usable_bytes ?es) div PAGESIZE) CHAR_BIT div CHAR_BIT :: u64"
  have bs: "unat ?bs = bitmap_bytes ?es" using sm(2) by (rule bitmap_size_word)
  obtain t1 where t1: "pmem_probe stk (m\<lparr>uart := t0\<rparr>) = Some (?m1\<lparr>bitmap_size := ?bs, uart := t1\<rparr>)"
  proof -
    let ?m2 = "?m1\<lparr>bitmap_size := ?bs\<rparr>"
    obtain u1 where u1: "pmem_print_size (stk 1) (cstring ''usable'') (mem_usable ?m2) ?m2 = Some (?m2\<lparr>uart := u1\<rparr>)"
      using pmem_print_size_returns [of "stk 1"] assms(7) by blast
    obtain u2 where u2: "pmem_print_size (stk 2) (cstring ''bitmap'') ?bs (?m2\<lparr>uart := u1\<rparr>) =
        Some (?m2\<lparr>uart := u1\<rparr>\<lparr>uart := u2\<rparr>)"
      using pmem_print_size_returns [of "stk 2"] assms(7) by blast
    show thesis using l1 u1 u2 by (intro that [of u2]) (simp add: pmem_probe_def Let_def)
  qed
  let ?m3 = "?m1\<lparr>bitmap_size := ?bs, uart := t1\<rparr>"
  obtain t2 where t2: "printf (stk 3) (cline ''pmem: allocating bitmap...'') [] ?m3 = Some (?m3\<lparr>uart := t2\<rparr>)"
    using prt [OF pr(2)] by blast
  let ?m4 = "?m3\<lparr>uart := t2\<rparr>"
  have r4: "limine_ready mm ?m4" "limine_ready mm (?m4\<lparr>bitmap := b, mem := x\<rparr>)" for b x
    using assms(1) by (auto simp: limine_ready_def)
  have "find (\<lambda>e. usable e \<and> bitmap_size ?m4 \<le> ent_length e) ?es = Some e0"
    using assms(9) bs by (simp add: word_le_nat_alt)
  then have l2: "mementry_loop alloc_bitmap_body 0 ?m4 = Some (?m4\<lparr>bitmap := ent_base e0 + off\<rparr>)"
    using alloc_bitmap_entries [of ?m4 off rsdp ?es e0] assms(2-4)
      mementry_loop_visits [OF r4(1) probe_keeps(3)] by simp
  let ?bm = "ent_base e0 + off" and ?x = "memset (mem m) (ent_base e0 + off) 0xFF ?bs"
  obtain mm' where mm': "mementry_loop fill_body 0 (?m4\<lparr>bitmap := ?bm, mem := ?x\<rparr>) =
      Some (?m4\<lparr>bitmap := ?bm, mem := mm'\<rparr>)"
    "\<forall>j. TESTBIT mm' ?bm j \<longleftrightarrow> TESTBIT ?x ?bm j \<and> unat j \<notin> free_frames ?es"
    using fill_entries [OF sm(1), of "?m4\<lparr>bitmap := ?bm, mem := ?x\<rparr>"] assms(10)
      mementry_loop_visits [OF r4(2) probe_keeps(2)] by auto
  have "mm_pmem_init stk m = Some (?m4\<lparr>bitmap := ?bm, mem := mm'\<rparr>)"
    using t0 t1 t2 l2 mm'(1) assms(10)
    by (simp add: mm_pmem_init_def pmem_alloc_bitmap_def pmem_fill_bitmap_def)
  moreover have "TESTBIT ?x ?bm (of_nat k)" if "k < 8 * bitmap_bytes ?es" for k
  proof (rule memset_bits)
    have "unat (of_nat k :: u64) \<le> k" by (simp add: unat_of_nat take_bit_nat_less_eq_self)
    then show "unat (of_nat k :: u64) div 8 < unat ?bs" using that bs by simp
  qed
  moreover have "unat (of_nat k :: u64) = k" if "k < 8 * bitmap_bytes ?es" for k
    using that sm(2) by (intro unat_of_nat64) (simp add: bitmap_bytes_def)
  ultimately show ?thesis
    using mm'(2) bs by (simp add: frame_used_def unat_of_nat64)
qed


text \<open>
  One usable entry of three pages at 64 KiB: the bitmap of one byte is put into the first page
  of the entry, whose frame 16 is free afterwards and has its bit outside of that byte.
\<close>

definition init_map :: limine_memmap_response where
  "init_map = \<lparr>lm_entry_count = 1, lm_entries = [\<lparr>lm_base = 0x10000, lm_length = 0x3000, lm_type = 0\<rparr>]\<rparr>"

definition init_witness :: pmem where
  "init_witness = (pmem_witness 0)\<lparr>usable_top := 0, mem_usable := 0,
     hooks := \<lparr>hook_get_vars = Some limine_get_vars, hook_get_mementry = Some limine_get_mementry, hook_get_module = None\<rparr>,
     resp := \<lparr>r_memmap = Some init_map, r_hhdm_offset = Some 0xFFFF800000000000, r_rsdp_address = Some 0, r_module = None\<rparr>\<rparr>"

lemma mm_pmem_init_frames_witness:
  "\<exists>m'. mm_pmem_init (\<lambda>_. replicate 128 0) init_witness = Some m' \<and> bitmap m' = 0xFFFF800000010000 \<and>
    unat (bitmap_size m') = 1 \<and> usable_top m' = 0x13000 \<and> \<not> frame_used m' 16 \<and> frame_used m' 0"
proof -
  have es: "mem_entries init_map = [\<lparr>ent_base = 0x10000, ent_length = 0x3000, ent_type = MEM_USABLE\<rparr>]"
    by (simp add: mem_entries_def init_map_def mem_type_of_def)
  have b: "bitmap_bytes (mem_entries init_map) = 1"
    by (simp add: es bitmap_bytes_def usable_bytes_def usable_def)
  have f: "free_frames (mem_entries init_map) = {16..<19}"
    by (simp add: es free_frames_def usable_def ent_frames_def ent_end_def Collect_conv_if)
  have "\<exists>m'. mm_pmem_init (\<lambda>_. replicate 128 0) init_witness = Some m' \<and> bitmap m' = ent_base \<lparr>ent_base = 0x10000, ent_length = 0x3000, ent_type = MEM_USABLE\<rparr> + 0xFFFF800000000000 \<and>
    unat (bitmap_size m') = bitmap_bytes (mem_entries init_map) \<and>
    usable_top m' = of_nat (usable_end (mem_entries init_map) 0) \<and>
    (\<forall>k < 18446744073709551616. k \<in> free_frames (mem_entries init_map) \<longrightarrow> \<not> frame_used m' k) \<and>
    (\<forall>k < 8 * bitmap_bytes (mem_entries init_map). k \<notin> free_frames (mem_entries init_map) \<longrightarrow> frame_used m' k)"
  proof (rule mm_pmem_init_frames)
    let ?e = "\<lparr>ent_base = 0x10000, ent_length = 0x3000, ent_type = MEM_USABLE\<rparr>"
    show "limine_ready init_map init_witness"
      by (simp add: limine_ready_def init_witness_def init_map_def)
    show "small_map (mem_entries init_map)"
      by (simp add: es small_map_def usable_def ent_end_def usable_bytes_def)
    show "find (\<lambda>e. usable e \<and> bitmap_bytes (mem_entries init_map) \<le> unat (ent_length e))
        (mem_entries init_map) = Some ?e"
      unfolding b by (simp add: es usable_def)
  qed (simp_all add: init_witness_def pmem_witness_def)
  then show ?thesis unfolding f b by (auto simp: es usable_def ent_end_def)
qed

end
