(* ===== verification/Hive_Tlsf.thy ===== *)
theory Hive_Tlsf
  imports Hive_Tlsf_Map Hive_Pmem
begin

text \<open>
  The two-level segregated fit allocator of \<^verbatim>\<open>mm/tlsf.c\<close>. The headers of the blocks are words in
  the memory of the machine: \<^verbatim>\<open>prev_phys_block\<close> at offset 0, \<^verbatim>\<open>size\<close> with the two status bits at 8,
  \<^verbatim>\<open>next_free\<close> at 16 and \<^verbatim>\<open>prev_free\<close> at 24. The bitmaps and the list heads of the control structure
  are a record; its first member \<^verbatim>\<open>block_null\<close>, to which the lists point, is a header in memory at
  the address \<open>ctl\<close> of the control structure. Reading or writing an array of the structure outside
  its bounds has no result, and neither has a failing assertion, which panics.
\<close>

section \<open>Block headers\<close>

definition block_header_free_bit :: u64 where "block_header_free_bit = push_bit 0 1"
definition block_header_prev_free_bit :: u64 where "block_header_prev_free_bit = push_bit 1 1"

definition size_field :: "addr \<Rightarrow> addr" where "size_field b = b + 8"
definition next_free_field :: "addr \<Rightarrow> addr" where "next_free_field b = b + 16"
definition prev_free_field :: "addr \<Rightarrow> addr" where "prev_free_field b = b + 24"

definition block_size :: "memory \<Rightarrow> addr \<Rightarrow> u64" where
  "block_size M b = load64 M (size_field b) AND NOT (block_header_free_bit OR block_header_prev_free_bit)"

definition block_set_size :: "addr \<Rightarrow> u64 \<Rightarrow> memory \<Rightarrow> memory" where
  "block_set_size b sz M = (
     let oldsize = load64 M (size_field b)
     in store64 M (size_field b) (sz OR (oldsize AND (block_header_free_bit OR block_header_prev_free_bit))))"

definition block_is_last :: "memory \<Rightarrow> addr \<Rightarrow> bool" where
  "block_is_last M b \<longleftrightarrow> block_size M b = 0"

definition block_is_free :: "memory \<Rightarrow> addr \<Rightarrow> bool" where
  "block_is_free M b \<longleftrightarrow> load64 M (size_field b) AND block_header_free_bit \<noteq> 0"

definition block_set_free :: "addr \<Rightarrow> memory \<Rightarrow> memory" where
  "block_set_free b M = store64 M (size_field b) (load64 M (size_field b) OR block_header_free_bit)"

definition block_set_used :: "addr \<Rightarrow> memory \<Rightarrow> memory" where
  "block_set_used b M = store64 M (size_field b) (load64 M (size_field b) AND NOT block_header_free_bit)"

definition block_is_prev_free :: "memory \<Rightarrow> addr \<Rightarrow> bool" where
  "block_is_prev_free M b \<longleftrightarrow> load64 M (size_field b) AND block_header_prev_free_bit \<noteq> 0"

definition block_set_prev_free :: "addr \<Rightarrow> memory \<Rightarrow> memory" where
  "block_set_prev_free b M = store64 M (size_field b) (load64 M (size_field b) OR block_header_prev_free_bit)"

definition block_set_prev_used :: "addr \<Rightarrow> memory \<Rightarrow> memory" where
  "block_set_prev_used b M = store64 M (size_field b) (load64 M (size_field b) AND NOT block_header_prev_free_bit)"

definition block_from_ptr :: "addr \<Rightarrow> addr" where
  "block_from_ptr p = p - block_start_offset"

definition block_to_ptr :: "addr \<Rightarrow> addr" where
  "block_to_ptr b = b + block_start_offset"

definition offset_to_block :: "addr \<Rightarrow> u64 \<Rightarrow> addr" where
  "offset_to_block p sz = p + sz"

definition block_prev :: "memory \<Rightarrow> addr \<Rightarrow> addr option" where
  "block_prev M b = do { tlsf_assert (block_is_prev_free M b); Some (load64 M b) }"

definition block_next :: "memory \<Rightarrow> addr \<Rightarrow> addr option" where
  "block_next M b = (
     let next = offset_to_block (block_to_ptr b) (block_size M b - block_header_overhead)
     in do { tlsf_assert (\<not> block_is_last M b); Some next })"

definition block_link_next :: "addr \<Rightarrow> memory \<Rightarrow> (addr \<times> memory) option" where
  "block_link_next b M = do { next \<leftarrow> block_next M b; Some (next, store64 M next b) }"

definition block_mark_as_free :: "addr \<Rightarrow> memory \<Rightarrow> memory option" where
  "block_mark_as_free b M = do {
     (next, M) \<leftarrow> block_link_next b M;
     let M = block_set_prev_free next M;
     Some (block_set_free b M) }"

definition block_mark_as_used :: "addr \<Rightarrow> memory \<Rightarrow> memory option" where
  "block_mark_as_used b M = do {
     next \<leftarrow> block_next M b;
     let M = block_set_prev_used next M;
     Some (block_set_used b M) }"

definition block_can_split :: "memory \<Rightarrow> addr \<Rightarrow> u64 \<Rightarrow> bool" where
  "block_can_split M b sz \<longleftrightarrow> block_size M b \<ge> sizeof_block_header_t + sz"

definition block_split :: "addr \<Rightarrow> u64 \<Rightarrow> memory \<Rightarrow> (addr \<times> memory) option" where
  "block_split b sz M = (
     let remaining = offset_to_block (block_to_ptr b) (sz - block_header_overhead);
         remain_size = block_size M b - (sz + block_header_overhead)
     in do {
       aligned \<leftarrow> align_ptr (block_to_ptr remaining) ALIGN_SIZE;
       tlsf_assert (block_to_ptr remaining = aligned);
       tlsf_assert (block_size M b = remain_size + sz + block_header_overhead);
       let M = block_set_size remaining remain_size M;
       tlsf_assert (block_size M remaining \<ge> block_size_min);
       let M = block_set_size b sz M;
       M \<leftarrow> block_mark_as_free remaining M;
       Some (remaining, M) })"

definition block_absorb :: "addr \<Rightarrow> addr \<Rightarrow> memory \<Rightarrow> (addr \<times> memory) option" where
  "block_absorb prev b M = do {
     tlsf_assert (\<not> block_is_last M prev);
     let M = store64 M (size_field prev) (load64 M (size_field prev) + (block_size M b + block_header_overhead));
     (next, M) \<leftarrow> block_link_next prev M;
     Some (prev, M) }"

section \<open>The control structure\<close>

record control_t =
  fl_bitmap :: u32
  sl_bitmap :: "nat \<Rightarrow> u32"
  blocks :: "nat \<Rightarrow> nat \<Rightarrow> addr"

record tlsf = pmem +
  control :: control_t

text \<open>\<^verbatim>\<open>sizeof(control_t)\<close>: the null block, the bitmaps, and the heads of the lists.\<close>

definition tlsf_size :: u64 where
  "tlsf_size = sizeof_block_header_t + 4 + 4 * of_nat FL_INDEX_COUNT + 8 * of_nat FL_INDEX_COUNT * of_nat SL_INDEX_COUNT"

definition sl_at :: "control_t \<Rightarrow> nat \<Rightarrow> u32 option" where
  "sl_at c fl = (if fl < FL_INDEX_COUNT then Some (sl_bitmap c fl) else None)"

definition head_at :: "control_t \<Rightarrow> nat \<Rightarrow> nat \<Rightarrow> addr option" where
  "head_at c fl sl = (if fl < FL_INDEX_COUNT \<and> sl < SL_INDEX_COUNT then Some (blocks c fl sl) else None)"

definition first_of :: "control_t \<Rightarrow> nat \<Rightarrow> u32 \<Rightarrow> (addr \<times> nat \<times> nat) option" where
  "first_of c fl sl_map = do {
     tlsf_assert (sl_map \<noteq> 0);
     let sl = nat (tlsf_ffs sl_map);
     b \<leftarrow> head_at c fl sl;
     Some (b, fl, sl) }"

definition search_suitable_block :: "control_t \<Rightarrow> nat \<Rightarrow> nat \<Rightarrow> (addr \<times> nat \<times> nat) option" where
  "search_suitable_block c fl sl = do {
     sl_map \<leftarrow> sl_at c fl;
     let sl_map = sl_map AND push_bit sl (NOT 0);
     (if sl_map = 0 then
        let fl_map = fl_bitmap c AND push_bit (fl + 1) (NOT 0) in
        if fl_map = 0 then Some (NULL, fl, sl)
        else let fl = nat (tlsf_ffs fl_map) in do {
          sl_map \<leftarrow> sl_at c fl;
          first_of c fl sl_map }
      else first_of c fl sl_map) }"

definition set_head :: "nat \<Rightarrow> nat \<Rightarrow> addr \<Rightarrow> control_t \<Rightarrow> control_t" where
  "set_head fl sl b c = c\<lparr>blocks := (blocks c)(fl := (blocks c fl)(sl := b))\<rparr>"

definition remove_free_block :: "addr \<Rightarrow> addr \<Rightarrow> nat \<Rightarrow> nat \<Rightarrow> 'a tlsf_scheme \<Rightarrow> 'a tlsf_scheme option" where
  "remove_free_block ctl b fl sl m = (
     let prev = load64 (mem m) (prev_free_field b);
         next = load64 (mem m) (next_free_field b)
     in do {
       tlsf_assert (prev \<noteq> NULL);
       tlsf_assert (next \<noteq> NULL);
       let m = m\<lparr>mem := store64 (mem m) (prev_free_field next) prev\<rparr>;
       let m = m\<lparr>mem := store64 (mem m) (next_free_field prev) next\<rparr>;
       h \<leftarrow> head_at (control m) fl sl;
       (if h = b then
          let c = set_head fl sl next (control m) in
          if next = ctl then
            let c = c\<lparr>sl_bitmap := (sl_bitmap c)(fl := sl_bitmap c fl AND NOT (push_bit sl 1))\<rparr>;
                c = (if sl_bitmap c fl = 0 then c\<lparr>fl_bitmap := fl_bitmap c AND NOT (push_bit fl 1)\<rparr> else c)
            in Some (m\<lparr>control := c\<rparr>)
          else Some (m\<lparr>control := c\<rparr>)
        else Some m) })"

definition insert_free_block :: "addr \<Rightarrow> addr \<Rightarrow> nat \<Rightarrow> nat \<Rightarrow> 'a tlsf_scheme \<Rightarrow> 'a tlsf_scheme option" where
  "insert_free_block ctl b fl sl m = do {
     current \<leftarrow> head_at (control m) fl sl;
     tlsf_assert (current \<noteq> NULL);
     tlsf_assert (b \<noteq> NULL);
     let M = store64 (mem m) (next_free_field b) current;
     let M = store64 M (prev_free_field b) ctl;
     let M = store64 M (prev_free_field current) b;
     aligned \<leftarrow> align_ptr (block_to_ptr b) ALIGN_SIZE;
     tlsf_assert (block_to_ptr b = aligned);
     let c = set_head fl sl b (control m);
     let c = c\<lparr>fl_bitmap := fl_bitmap c OR push_bit fl 1\<rparr>;
     let c = c\<lparr>sl_bitmap := (sl_bitmap c)(fl := sl_bitmap c fl OR push_bit sl 1)\<rparr>;
     Some (m\<lparr>mem := M, control := c\<rparr>) }"

definition block_remove :: "addr \<Rightarrow> addr \<Rightarrow> 'a tlsf_scheme \<Rightarrow> 'a tlsf_scheme option" where
  "block_remove ctl b m = (case mapping_insert (block_size (mem m) b) of (fl, sl) \<Rightarrow> remove_free_block ctl b fl sl m)"

definition block_insert :: "addr \<Rightarrow> addr \<Rightarrow> 'a tlsf_scheme \<Rightarrow> 'a tlsf_scheme option" where
  "block_insert ctl b m = (case mapping_insert (block_size (mem m) b) of (fl, sl) \<Rightarrow> insert_free_block ctl b fl sl m)"

text \<open>A step on the memory alone, as a step on the state.\<close>

definition on_mem :: "(memory \<Rightarrow> ('r \<times> memory) option) \<Rightarrow> 'a tlsf_scheme \<Rightarrow> ('r \<times> 'a tlsf_scheme) option" where
  "on_mem f m = do { (r, M) \<leftarrow> f (mem m); Some (r, m\<lparr>mem := M\<rparr>) }"

definition on_mem0 :: "(memory \<Rightarrow> memory option) \<Rightarrow> 'a tlsf_scheme \<Rightarrow> 'a tlsf_scheme option" where
  "on_mem0 f m = do { M \<leftarrow> f (mem m); Some (m\<lparr>mem := M\<rparr>) }"

definition block_merge_prev :: "addr \<Rightarrow> addr \<Rightarrow> 'a tlsf_scheme \<Rightarrow> (addr \<times> 'a tlsf_scheme) option" where
  "block_merge_prev ctl b m =
     (if block_is_prev_free (mem m) b then do {
        prev \<leftarrow> block_prev (mem m) b;
        tlsf_assert (prev \<noteq> NULL);
        tlsf_assert (block_is_free (mem m) prev);
        m \<leftarrow> block_remove ctl prev m;
        on_mem (block_absorb prev b) m }
      else Some (b, m))"

definition block_merge_next :: "addr \<Rightarrow> addr \<Rightarrow> 'a tlsf_scheme \<Rightarrow> (addr \<times> 'a tlsf_scheme) option" where
  "block_merge_next ctl b m = do {
     next \<leftarrow> block_next (mem m) b;
     tlsf_assert (next \<noteq> NULL);
     (if block_is_free (mem m) next then do {
        tlsf_assert (\<not> block_is_last (mem m) b);
        m \<leftarrow> block_remove ctl next m;
        on_mem (block_absorb b next) m }
      else Some (b, m)) }"

definition block_trim_free :: "addr \<Rightarrow> addr \<Rightarrow> u64 \<Rightarrow> 'a tlsf_scheme \<Rightarrow> 'a tlsf_scheme option" where
  "block_trim_free ctl b sz m = do {
     tlsf_assert (block_is_free (mem m) b);
     (if block_can_split (mem m) b sz then do {
        (remaining_block, m) \<leftarrow> on_mem (block_split b sz) m;
        (next, m) \<leftarrow> on_mem (block_link_next b) m;
        let m = m\<lparr>mem := block_set_prev_free remaining_block (mem m)\<rparr>;
        block_insert ctl remaining_block m }
      else Some m) }"

definition block_trim_used :: "addr \<Rightarrow> addr \<Rightarrow> u64 \<Rightarrow> 'a tlsf_scheme \<Rightarrow> 'a tlsf_scheme option" where
  "block_trim_used ctl b sz m = do {
     tlsf_assert (\<not> block_is_free (mem m) b);
     (if block_can_split (mem m) b sz then do {
        (remaining_block, m) \<leftarrow> on_mem (block_split b sz) m;
        let m = m\<lparr>mem := block_set_prev_used remaining_block (mem m)\<rparr>;
        (remaining_block, m) \<leftarrow> block_merge_next ctl remaining_block m;
        block_insert ctl remaining_block m }
      else Some m) }"

definition block_trim_free_leading :: "addr \<Rightarrow> addr \<Rightarrow> u64 \<Rightarrow> 'a tlsf_scheme \<Rightarrow> (addr \<times> 'a tlsf_scheme) option" where
  "block_trim_free_leading ctl b sz m =
     (if block_can_split (mem m) b sz then do {
        (remaining_block, m) \<leftarrow> on_mem (block_split b (sz - block_header_overhead)) m;
        let m = m\<lparr>mem := block_set_prev_free remaining_block (mem m)\<rparr>;
        (next, m) \<leftarrow> on_mem (block_link_next b) m;
        m \<leftarrow> block_insert ctl b m;
        Some (remaining_block, m) }
      else Some (b, m))"

definition block_locate_free :: "addr \<Rightarrow> u64 \<Rightarrow> 'a tlsf_scheme \<Rightarrow> (addr \<times> 'a tlsf_scheme) option" where
  "block_locate_free ctl sz m = do {
     (b, fl, sl) \<leftarrow>
       (if sz \<noteq> 0 then
          case mapping_search sz of (fl, sl) \<Rightarrow>
            if fl < FL_INDEX_COUNT then search_suitable_block (control m) fl sl else Some (NULL, fl, sl)
        else Some (NULL, 0, 0));
     (if b \<noteq> NULL then do {
        tlsf_assert (block_size (mem m) b \<ge> sz);
        m \<leftarrow> remove_free_block ctl b fl sl m;
        Some (b, m) }
      else Some (b, m)) }"

definition block_prepare_used :: "addr \<Rightarrow> addr \<Rightarrow> u64 \<Rightarrow> 'a tlsf_scheme \<Rightarrow> (addr \<times> 'a tlsf_scheme) option" where
  "block_prepare_used ctl b sz m =
     (if b \<noteq> NULL then do {
        tlsf_assert (sz \<noteq> 0);
        m \<leftarrow> block_trim_free ctl b sz m;
        m \<leftarrow> on_mem0 (block_mark_as_used b) m;
        Some (block_to_ptr b, m) }
      else Some (NULL, m))"

definition control_construct :: "addr \<Rightarrow> 'a tlsf_scheme \<Rightarrow> 'a tlsf_scheme" where
  "control_construct ctl m = (
     let M = store64 (mem m) (next_free_field ctl) ctl;
         M = store64 M (prev_free_field ctl) ctl;
         c = \<lparr>fl_bitmap = 0, sl_bitmap = (\<lambda>i. 0), blocks = (\<lambda>i j. ctl)\<rparr>
     in m\<lparr>mem := M, control := c\<rparr>)"

section \<open>The interface\<close>

definition tlsf_pool_overhead :: u64 where "tlsf_pool_overhead = 2 * block_header_overhead"
definition tlsf_alloc_overhead :: u64 where "tlsf_alloc_overhead = block_header_overhead"
definition tlsf_align_size :: u64 where "tlsf_align_size = ALIGN_SIZE"
definition tlsf_block_size_min :: u64 where "tlsf_block_size_min = block_size_min"
definition tlsf_block_size_max :: u64 where "tlsf_block_size_max = block_size_max"

definition tlsf_block_size :: "addr \<Rightarrow> memory \<Rightarrow> u64" where
  "tlsf_block_size p M = (if p \<noteq> NULL then block_size M (block_from_ptr p) else 0)"

text \<open>The stack contents at the calls of \<^verbatim>\<open>printf\<close> are an argument.\<close>

definition tlsf_add_pool ::
    "u8 list \<Rightarrow> addr \<Rightarrow> addr \<Rightarrow> u64 \<Rightarrow> 'a tlsf_scheme \<Rightarrow> (addr \<times> 'a tlsf_scheme) option" where
  "tlsf_add_pool stk ctl p bytes m = do {
     let pool_overhead = tlsf_pool_overhead;
     pool_bytes \<leftarrow> align_down (bytes - pool_overhead) ALIGN_SIZE;
     (if p mod ALIGN_SIZE \<noteq> 0 then do {
        m \<leftarrow> printf stk (cline ''tlsf_add_pool: Memory must be aligned by %u bytes.'') [VInt ALIGN_SIZE] m;
        Some (NULL, m) }
      else if pool_bytes < block_size_min \<or> pool_bytes > block_size_max then do {
        m \<leftarrow> printf stk (cline ''tlsf_add_pool: Memory size must be between 0x%x and 0x%x00 bytes.'')
          [VInt (take_bit 32 (pool_overhead + block_size_min)),
           VInt (take_bit 32 ((pool_overhead + block_size_max) div 256))] m;
        Some (NULL, m) }
      else do {
        let b = offset_to_block p (- block_header_overhead);
        let M = block_set_size b pool_bytes (mem m);
        let M = block_set_free b M;
        let M = block_set_prev_used b M;
        m \<leftarrow> block_insert ctl b (m\<lparr>mem := M\<rparr>);
        (next, m) \<leftarrow> on_mem (block_link_next b) m;
        let M = block_set_size next 0 (mem m);
        let M = block_set_used next M;
        let M = block_set_prev_free next M;
        Some (p, m\<lparr>mem := M\<rparr>) }) }"

definition tlsf_remove_pool :: "addr \<Rightarrow> addr \<Rightarrow> 'a tlsf_scheme \<Rightarrow> 'a tlsf_scheme option" where
  "tlsf_remove_pool ctl p m = (
     let b = offset_to_block p (- block_header_overhead) in do {
       tlsf_assert (block_is_free (mem m) b);
       next \<leftarrow> block_next (mem m) b;
       tlsf_assert (\<not> block_is_free (mem m) next);
       tlsf_assert (block_size (mem m) next = 0);
       case mapping_insert (block_size (mem m) b) of (fl, sl) \<Rightarrow> remove_free_block ctl b fl sl m })"

definition tlsf_create :: "u8 list \<Rightarrow> addr \<Rightarrow> 'a tlsf_scheme \<Rightarrow> (addr \<times> 'a tlsf_scheme) option" where
  "tlsf_create stk p m =
     (if p mod ALIGN_SIZE \<noteq> 0 then do {
        m \<leftarrow> printf stk (cline ''tlsf_create: Memory must be aligned to %u bytes.'') [VInt ALIGN_SIZE] m;
        Some (NULL, m) }
      else Some (p, control_construct p m))"

definition tlsf_create_with_pool ::
    "u8 list \<Rightarrow> u8 list \<Rightarrow> addr \<Rightarrow> u64 \<Rightarrow> 'a tlsf_scheme \<Rightarrow> (addr \<times> 'a tlsf_scheme) option" where
  "tlsf_create_with_pool stk1 stk2 p bytes m = do {
     (tlsf, m) \<leftarrow> tlsf_create stk1 p m;
     (pool, m) \<leftarrow> tlsf_add_pool stk2 tlsf (p + tlsf_size) (bytes - tlsf_size) m;
     Some (tlsf, m) }"

definition tlsf_destroy :: "addr \<Rightarrow> 'a tlsf_scheme \<Rightarrow> 'a tlsf_scheme" where
  "tlsf_destroy tlsf m = m"

definition tlsf_get_pool :: "addr \<Rightarrow> addr" where
  "tlsf_get_pool tlsf = tlsf + tlsf_size"

definition tlsf_malloc :: "addr \<Rightarrow> u64 \<Rightarrow> 'a tlsf_scheme \<Rightarrow> (addr \<times> 'a tlsf_scheme) option" where
  "tlsf_malloc ctl sz m = do {
     adjust \<leftarrow> adjust_request_size sz ALIGN_SIZE;
     (b, m) \<leftarrow> block_locate_free ctl adjust m;
     block_prepare_used ctl b adjust m }"

definition tlsf_memalign :: "addr \<Rightarrow> u64 \<Rightarrow> u64 \<Rightarrow> 'a tlsf_scheme \<Rightarrow> (addr \<times> 'a tlsf_scheme) option" where
  "tlsf_memalign ctl align sz m = do {
     adjust \<leftarrow> adjust_request_size sz ALIGN_SIZE;
     let gap_minimum = sizeof_block_header_t;
     size_with_gap \<leftarrow> adjust_request_size (adjust + align + gap_minimum) align;
     let aligned_size = (if adjust \<noteq> 0 \<and> align > ALIGN_SIZE then size_with_gap else adjust);
     (b, m) \<leftarrow> block_locate_free ctl aligned_size m;
     tlsf_assert (sizeof_block_header_t = block_size_min + block_header_overhead);
     (b, m) \<leftarrow>
       (if b \<noteq> NULL then do {
          let p = block_to_ptr b;
          aligned \<leftarrow> align_ptr p align;
          let gap = aligned - p;
          gap \<leftarrow>
            (if gap \<noteq> 0 \<and> gap < gap_minimum then do {
               let gap_remain = gap_minimum - gap;
               let offset = max gap_remain align;
               aligned \<leftarrow> align_ptr (aligned + offset) align;
               Some (aligned - p) }
             else Some gap);
          (if gap \<noteq> 0 then do {
             tlsf_assert (gap \<ge> gap_minimum);
             block_trim_free_leading ctl b gap m }
           else Some (b, m)) }
        else Some (b, m));
     block_prepare_used ctl b adjust m }"

definition tlsf_free :: "addr \<Rightarrow> addr \<Rightarrow> 'a tlsf_scheme \<Rightarrow> 'a tlsf_scheme option" where
  "tlsf_free ctl p m =
     (if p \<noteq> NULL then do {
        let b = block_from_ptr p;
        tlsf_assert (\<not> block_is_free (mem m) b);
        m \<leftarrow> on_mem0 (block_mark_as_free b) m;
        (b, m) \<leftarrow> block_merge_prev ctl b m;
        (b, m) \<leftarrow> block_merge_next ctl b m;
        block_insert ctl b m }
      else Some m)"

definition tlsf_realloc :: "addr \<Rightarrow> addr \<Rightarrow> u64 \<Rightarrow> 'a tlsf_scheme \<Rightarrow> (addr \<times> 'a tlsf_scheme) option" where
  "tlsf_realloc ctl p sz m =
     (if p \<noteq> NULL \<and> sz = 0 then do {
        m \<leftarrow> tlsf_free ctl p m;
        Some (NULL, m) }
      else if p = NULL then tlsf_malloc ctl sz m
      else do {
        let b = block_from_ptr p;
        next \<leftarrow> block_next (mem m) b;
        let cursize = block_size (mem m) b;
        let combined = cursize + block_size (mem m) next + block_header_overhead;
        adjust \<leftarrow> adjust_request_size sz ALIGN_SIZE;
        tlsf_assert (\<not> block_is_free (mem m) b);
        (if adjust > cursize \<and> (\<not> block_is_free (mem m) next \<or> adjust > combined) then do {
           (q, m) \<leftarrow> tlsf_malloc ctl sz m;
           (if q \<noteq> NULL then do {
              let minsize = min cursize sz;
              let m = m\<lparr>mem := snd (memcpy (mem m) q p minsize)\<rparr>;
              m \<leftarrow> tlsf_free ctl p m;
              Some (q, m) }
            else Some (q, m)) }
         else do {
           m \<leftarrow>
             (if adjust > cursize then do {
                (b', m) \<leftarrow> block_merge_next ctl b m;
                on_mem0 (block_mark_as_used b) m }
              else Some m);
           m \<leftarrow> block_trim_used ctl b adjust m;
           Some (p, m) }) })"

section \<open>Debugging\<close>

text \<open>A walker is called with the address and the size of a block, and whether it is used.\<close>

partial_function (option) walk_loop ::
    "(addr \<Rightarrow> u64 \<Rightarrow> bool \<Rightarrow> 'u \<times> 'a machine_scheme \<Rightarrow> ('u \<times> 'a machine_scheme) option) \<Rightarrow> addr
      \<Rightarrow> 'u \<times> 'a machine_scheme \<Rightarrow> ('u \<times> 'a machine_scheme) option" where
  "walk_loop walker b um =
     (if b \<noteq> NULL \<and> \<not> block_is_last (mem (snd um)) b then do {
        um \<leftarrow> walker (block_to_ptr b) (block_size (mem (snd um)) b) (\<not> block_is_free (mem (snd um)) b) um;
        next \<leftarrow> block_next (mem (snd um)) b;
        walk_loop walker next um }
      else Some um)"

definition default_walker ::
    "u8 list \<Rightarrow> addr \<Rightarrow> u64 \<Rightarrow> bool \<Rightarrow> 'u \<times> 'a machine_scheme \<Rightarrow> ('u \<times> 'a machine_scheme) option" where
  "default_walker stk p sz used um = do {
     m \<leftarrow> printf stk (of_char (CHR 0x09) # cline ''%p %s size: %x (%p)'')
       [VInt p, VStr (cstring (if used then ''used'' else ''free'')), VInt (take_bit 32 sz), VInt (block_from_ptr p)] (snd um);
     Some (fst um, m) }"

definition tlsf_walk_pool ::
    "u8 list \<Rightarrow> addr \<Rightarrow> (addr \<Rightarrow> u64 \<Rightarrow> bool \<Rightarrow> 'u \<times> 'a machine_scheme \<Rightarrow> ('u \<times> 'a machine_scheme) option) option
      \<Rightarrow> 'u \<times> 'a machine_scheme \<Rightarrow> ('u \<times> 'a machine_scheme) option" where
  "tlsf_walk_pool stk pool walker um = (
     let pool_walker = (case walker of None \<Rightarrow> default_walker stk | Some w \<Rightarrow> w);
         b = offset_to_block pool (- block_header_overhead)
     in walk_loop pool_walker b um)"

record integrity_t =
  prev_status :: int
  istatus :: int

definition tlsf_insist :: "bool \<Rightarrow> int \<Rightarrow> int option" where
  "tlsf_insist x status = do { tlsf_assert x; Some (if \<not> x then status - 1 else status) }"

definition integrity_walker ::
    "addr \<Rightarrow> u64 \<Rightarrow> bool \<Rightarrow> integrity_t \<times> 'a machine_scheme \<Rightarrow> (integrity_t \<times> 'a machine_scheme) option" where
  "integrity_walker p sz used um = (
     let b = block_from_ptr p; M = mem (snd um); integ = fst um;
         this_prev_status = (if block_is_prev_free M b then 1 else 0);
         this_status = (if block_is_free M b then 1 else 0);
         this_block_size = block_size M b
     in do {
       status \<leftarrow> tlsf_insist (prev_status integ = this_prev_status) 0;
       status \<leftarrow> tlsf_insist (sz = this_block_size) status;
       Some (integ\<lparr>prev_status := this_status, istatus := istatus integ + status\<rparr>, snd um) })"

definition tlsf_check_pool :: "addr \<Rightarrow> 'a machine_scheme \<Rightarrow> int option" where
  "tlsf_check_pool pool m = do {
     (integ, m) \<leftarrow> tlsf_walk_pool [] pool (Some integrity_walker) (\<lparr>prev_status = 0, istatus = 0\<rparr>, m);
     Some (istatus integ) }"

partial_function (option) check_list :: "addr \<Rightarrow> memory \<Rightarrow> nat \<Rightarrow> nat \<Rightarrow> addr \<Rightarrow> int \<Rightarrow> int option" where
  "check_list ctl M i j b status =
     (if b \<noteq> ctl then do {
        status \<leftarrow> tlsf_insist (block_is_free M b) status;
        status \<leftarrow> tlsf_insist (\<not> block_is_prev_free M b) status;
        next \<leftarrow> block_next M b;
        status \<leftarrow> tlsf_insist (\<not> block_is_free M next) status;
        next \<leftarrow> block_next M b;
        status \<leftarrow> tlsf_insist (block_is_prev_free M next) status;
        status \<leftarrow> tlsf_insist (block_size M b \<ge> block_size_min) status;
        status \<leftarrow> tlsf_insist (mapping_insert (block_size M b) = (i, j)) status;
        check_list ctl M i j (load64 M (next_free_field b)) status }
      else Some status)"

definition check_class :: "addr \<Rightarrow> memory \<Rightarrow> control_t \<Rightarrow> nat \<Rightarrow> nat \<Rightarrow> int \<Rightarrow> int option" where
  "check_class ctl M c i j status = (
     let fl_map = fl_bitmap c AND push_bit i 1 in do {
       sl_list \<leftarrow> sl_at c i;
       let sl_map = sl_list AND push_bit j 1;
       b \<leftarrow> head_at c i j;
       status \<leftarrow> (if fl_map = 0 then tlsf_insist (sl_map = 0) status else Some status);
       (if sl_map = 0 then tlsf_insist (b = ctl) status
        else do {
          status \<leftarrow> tlsf_insist (sl_list \<noteq> 0) status;
          status \<leftarrow> tlsf_insist (b \<noteq> ctl) status;
          check_list ctl M i j b status }) })"

fun check_classes :: "addr \<Rightarrow> memory \<Rightarrow> control_t \<Rightarrow> (nat \<times> nat) list \<Rightarrow> int \<Rightarrow> int option" where
  "check_classes ctl M c [] status = Some status"
| "check_classes ctl M c ((i, j) # ijs) status = do {
     status \<leftarrow> check_class ctl M c i j status;
     check_classes ctl M c ijs status }"

definition tlsf_check :: "addr \<Rightarrow> 'a tlsf_scheme \<Rightarrow> int option" where
  "tlsf_check ctl m =
     check_classes ctl (mem m) (control m) (List.product [0..<FL_INDEX_COUNT] [0..<SL_INDEX_COUNT]) 0"

text \<open>\<^verbatim>\<open>test_ffs_fls\<close>, of builds with \<^verbatim>\<open>_DEBUG\<close>.\<close>

definition test_ffs_fls :: "u8 list \<Rightarrow> 'a machine_scheme \<Rightarrow> (int \<times> 'a machine_scheme) option" where
  "test_ffs_fls stk m = (
     let rv = 0;
         rv = rv + (if tlsf_ffs 0 = - 1 then 0 else 0x1);
         rv = rv + (if tlsf_fls 0 = - 1 then 0 else 0x2);
         rv = rv + (if tlsf_ffs 1 = 0 then 0 else 0x4);
         rv = rv + (if tlsf_fls 1 = 0 then 0 else 0x8);
         rv = rv + (if tlsf_ffs 0x80000000 = 31 then 0 else 0x10);
         rv = rv + (if tlsf_ffs 0x80008000 = 15 then 0 else 0x20);
         rv = rv + (if tlsf_fls 0x80000008 = 31 then 0 else 0x40);
         rv = rv + (if tlsf_fls 0x7FFFFFFF = 30 then 0 else 0x80);
         rv = rv + (if tlsf_fls_sizet 0x80000000 = 31 then 0 else 0x100);
         rv = rv + (if tlsf_fls_sizet 0x100000000 = 32 then 0 else 0x200);
         rv = rv + (if tlsf_fls_sizet 0xffffffffffffffff = 63 then 0 else 0x400)
     in if rv \<noteq> 0 then do {
          m \<leftarrow> printf stk (cline ''test_ffs_fls: %x ffs/fls tests failed.'') [VInt (of_int rv)] m;
          Some (rv, m) }
        else Some (rv, m))"

end
