(* ===== verification/Hive_Pool.thy ===== *)
theory Hive_Pool
  imports Hive_Tlsf
begin

text \<open>
  The root memory pool of \<^verbatim>\<open>os/pool.c\<close>: the heap allocator behind a spinlock, on memory taken
  from the frame allocator. The static variables of the file extend the state of the allocator.
\<close>

section \<open>pool.c\<close>

text \<open>The comment beside the constant says 4 MiB; it is 32 MiB.\<close>

definition POOLSIZE_BYTES :: u64 where "POOLSIZE_BYTES = 0x2000000"
definition POOLSIZE_PAGES :: u64 where "POOLSIZE_PAGES = POOLSIZE_BYTES div PAGESIZE"

record pool = tlsf +
  pool_is_init :: bool
  pool_virt_base :: addr
  pool_pma :: addr
  pool_lock :: u64
  tlsf_ctx :: addr

definition pool_acquire :: "'a pool_scheme \<Rightarrow> 'a pool_scheme option" where
  "pool_acquire m = do {
     (l, m) \<leftarrow> spinlock_acquire (Some (pool_lock m)) True m;
     Some (m\<lparr>pool_lock := the l\<rparr>) }"

definition pool_release :: "'a pool_scheme \<Rightarrow> 'a pool_scheme" where
  "pool_release m = m\<lparr>pool_lock := spinlock_release (pool_lock m)\<rparr>"

definition os_pool_free :: "addr \<Rightarrow> 'a pool_scheme \<Rightarrow> 'a pool_scheme option" where
  "os_pool_free p m = do {
     m \<leftarrow> pool_acquire m;
     m \<leftarrow> tlsf_free (tlsf_ctx m) p m;
     Some (pool_release m) }"

definition os_pool_allocate :: "u64 \<Rightarrow> 'a pool_scheme \<Rightarrow> (addr \<times> 'a pool_scheme) option" where
  "os_pool_allocate len m = do {
     m \<leftarrow> pool_acquire m;
     (tmp, m) \<leftarrow> tlsf_malloc (tlsf_ctx m) len m;
     Some (tmp, pool_release m) }"

text \<open>The stack contents at the calls of \<^verbatim>\<open>printf\<close> in the allocator are arguments.\<close>

definition os_pool_init :: "u8 list \<Rightarrow> u8 list \<Rightarrow> 'a pool_scheme \<Rightarrow> 'a pool_scheme option" where
  "os_pool_init stk1 stk2 m =
     (if pool_is_init m then Some m
      else do {
        (pma, m) \<leftarrow> mm_pmem_alloc POOLSIZE_PAGES m;
        let m = m\<lparr>pool_pma := pma\<rparr>;
        (if pool_pma m = 0 then None
         else do {
           base \<leftarrow> PHYS_TO_VIRT (pool_pma m) m;
           let m = m\<lparr>pool_virt_base := base\<rparr>;
           (ctx, m) \<leftarrow> tlsf_create_with_pool stk1 stk2 (pool_virt_base m) POOLSIZE_BYTES m;
           Some (m\<lparr>tlsf_ctx := ctx, pool_is_init := True\<rparr>) }) })"

end
