(* ===== verification/Hive_Queue.thy ===== *)
theory Hive_Queue
  imports Hive_Prelude
begin

text \<open>
  The intrusive queues of \<^verbatim>\<open>sdk/inc/sys/queue.h\<close>, as the macros expand on flat memory: a tail
  queue head holds \<^verbatim>\<open>tqh_first\<close>, \<^verbatim>\<open>tqh_last\<close> and the number of elements, a list head
  holds \<^verbatim>\<open>lh_first\<close>, and every element holds, at the offset \<open>f\<close> of its entry field,
  the next element and the address of the cell that points to the element. The representation
  predicates relate a head to the list of its elements, and every macro is shown to implement
  the operation on lists.
\<close>

section \<open>Links\<close>

text \<open>Both kinds of entry have the same layout; both heads have their first element at offset 0.\<close>

definition q_next :: "addr \<Rightarrow> memory \<Rightarrow> addr \<Rightarrow> addr" where
  "q_next f m e = load64 m (e + f)"
definition q_prev :: "addr \<Rightarrow> memory \<Rightarrow> addr \<Rightarrow> addr" where
  "q_prev f m e = load64 m (e + f + 8)"
definition set_q_next :: "addr \<Rightarrow> memory \<Rightarrow> addr \<Rightarrow> addr \<Rightarrow> memory" where
  "set_q_next f m e v = store64 m (e + f) v"
definition set_q_prev :: "addr \<Rightarrow> memory \<Rightarrow> addr \<Rightarrow> addr \<Rightarrow> memory" where
  "set_q_prev f m e v = store64 m (e + f + 8) v"

lemmas q_field_defs = q_next_def q_prev_def set_q_next_def set_q_prev_def

section \<open>Tail queues\<close>

definition TAILQ_FIRST :: "memory \<Rightarrow> addr \<Rightarrow> addr" where
  "TAILQ_FIRST m h = load64 m h"
definition tqh_last :: "memory \<Rightarrow> addr \<Rightarrow> addr" where
  "tqh_last m h = load64 m (h + 8)"
definition TAILQ_NELEM :: "memory \<Rightarrow> addr \<Rightarrow> u64" where
  "TAILQ_NELEM m h = load64 m (h + 16)"
definition set_nelem :: "memory \<Rightarrow> addr \<Rightarrow> u64 \<Rightarrow> memory" where
  "set_nelem m h n = store64 m (h + 16) n"

lemmas tq_head_defs = TAILQ_FIRST_def tqh_last_def TAILQ_NELEM_def set_nelem_def

definition TAILQ_EMPTY :: "memory \<Rightarrow> addr \<Rightarrow> bool" where
  "TAILQ_EMPTY m h \<longleftrightarrow> TAILQ_FIRST m h = NULL"

text \<open>The last link is read through a pointer to the head of which it is the first word.\<close>

definition TAILQ_LAST :: "memory \<Rightarrow> addr \<Rightarrow> addr" where
  "TAILQ_LAST m h = load64 m (tqh_last m (tqh_last m h))"

definition TAILQ_PREV :: "addr \<Rightarrow> memory \<Rightarrow> addr \<Rightarrow> addr" where
  "TAILQ_PREV f m e = load64 m (tqh_last m (q_prev f m e))"

definition TAILQ_INIT :: "memory \<Rightarrow> addr \<Rightarrow> memory" where
  "TAILQ_INIT m h =
     (let m = store64 m h NULL;
          m = store64 m (h + 8) h
      in set_nelem m h 0)"

definition TAILQ_INSERT_HEAD :: "addr \<Rightarrow> memory \<Rightarrow> addr \<Rightarrow> addr \<Rightarrow> memory" where
  "TAILQ_INSERT_HEAD f m h e =
     (let m = set_q_next f m e (TAILQ_FIRST m h);
          m = (if q_next f m e \<noteq> NULL then set_q_prev f m (TAILQ_FIRST m h) (e + f)
               else store64 m (h + 8) (e + f));
          m = store64 m h e;
          m = set_q_prev f m e h
      in set_nelem m h (TAILQ_NELEM m h + 1))"

definition TAILQ_INSERT_TAIL :: "addr \<Rightarrow> memory \<Rightarrow> addr \<Rightarrow> addr \<Rightarrow> memory" where
  "TAILQ_INSERT_TAIL f m h e =
     (let m = set_q_next f m e NULL;
          m = set_q_prev f m e (tqh_last m h);
          m = store64 m (tqh_last m h) e;
          m = store64 m (h + 8) (e + f)
      in set_nelem m h (TAILQ_NELEM m h + 1))"

definition TAILQ_INSERT_AFTER :: "addr \<Rightarrow> memory \<Rightarrow> addr \<Rightarrow> addr \<Rightarrow> addr \<Rightarrow> memory" where
  "TAILQ_INSERT_AFTER f m h l e =
     (let m = set_q_next f m e (q_next f m l);
          m = (if q_next f m e \<noteq> NULL then set_q_prev f m (q_next f m e) (e + f)
               else store64 m (h + 8) (e + f));
          m = set_q_next f m l e;
          m = set_q_prev f m e (l + f)
      in set_nelem m h (TAILQ_NELEM m h + 1))"

text \<open>The macro has no head parameter and uses a variable named \<^verbatim>\<open>head\<close> of its caller.\<close>

definition TAILQ_INSERT_BEFORE :: "addr \<Rightarrow> memory \<Rightarrow> addr \<Rightarrow> addr \<Rightarrow> addr \<Rightarrow> memory" where
  "TAILQ_INSERT_BEFORE f m h l e =
     (let m = set_q_prev f m e (q_prev f m l);
          m = set_q_next f m e l;
          m = store64 m (q_prev f m l) e;
          m = set_q_prev f m l (e + f)
      in set_nelem m h (TAILQ_NELEM m h + 1))"

definition TAILQ_REMOVE :: "addr \<Rightarrow> memory \<Rightarrow> addr \<Rightarrow> addr \<Rightarrow> memory" where
  "TAILQ_REMOVE f m h e =
     (let m = (if q_next f m e \<noteq> NULL then set_q_prev f m (q_next f m e) (q_prev f m e)
               else store64 m (h + 8) (q_prev f m e));
          m = store64 m (q_prev f m e) (q_next f m e)
      in set_nelem m h (TAILQ_NELEM m h - 1))"

definition TAILQ_REPLACE :: "addr \<Rightarrow> memory \<Rightarrow> addr \<Rightarrow> addr \<Rightarrow> addr \<Rightarrow> memory" where
  "TAILQ_REPLACE f m h e e2 =
     (let m = set_q_next f m e2 (q_next f m e);
          m = (if q_next f m e2 \<noteq> NULL then set_q_prev f m (q_next f m e2) (e2 + f)
               else store64 m (h + 8) (e2 + f));
          m = set_q_prev f m e2 (q_prev f m e)
      in store64 m (q_prev f m e2) e2)"

definition TAILQ_CONCAT :: "addr \<Rightarrow> memory \<Rightarrow> addr \<Rightarrow> addr \<Rightarrow> memory" where
  "TAILQ_CONCAT f m h1 h2 =
     (if \<not> TAILQ_EMPTY m h2 then
        let m = store64 m (tqh_last m h1) (TAILQ_FIRST m h2);
            m = set_q_prev f m (TAILQ_FIRST m h2) (tqh_last m h1);
            m = store64 m (h1 + 8) (tqh_last m h2)
        in TAILQ_INIT m h2
      else m)"

text \<open>
  The loop of \<^verbatim>\<open>TAILQ_FOREACH\<close> from the element \<open>e\<close> on, for a body that does not change
  the memory: the elements it visits. On a cyclic queue it does not return.
\<close>

partial_function (option) q_walk :: "addr \<Rightarrow> memory \<Rightarrow> addr \<Rightarrow> addr list option" where
  "q_walk f m e =
     (if e = NULL then Some []
      else do { es \<leftarrow> q_walk f m (q_next f m e); Some (e # es) })"

definition TAILQ_FOREACH :: "addr \<Rightarrow> memory \<Rightarrow> addr \<Rightarrow> addr list option" where
  "TAILQ_FOREACH f m h = q_walk f m (TAILQ_FIRST m h)"

section \<open>Lists\<close>

definition LIST_FIRST :: "memory \<Rightarrow> addr \<Rightarrow> addr" where
  "LIST_FIRST m h = load64 m h"
definition LIST_EMPTY :: "memory \<Rightarrow> addr \<Rightarrow> bool" where
  "LIST_EMPTY m h \<longleftrightarrow> LIST_FIRST m h = NULL"
definition LIST_INIT :: "memory \<Rightarrow> addr \<Rightarrow> memory" where
  "LIST_INIT m h = store64 m h NULL"

definition LIST_INSERT_HEAD :: "addr \<Rightarrow> memory \<Rightarrow> addr \<Rightarrow> addr \<Rightarrow> memory" where
  "LIST_INSERT_HEAD f m h e =
     (let m = set_q_next f m e (LIST_FIRST m h);
          m = (if q_next f m e \<noteq> NULL then set_q_prev f m (LIST_FIRST m h) (e + f) else m);
          m = store64 m h e
      in set_q_prev f m e h)"

definition LIST_INSERT_AFTER :: "addr \<Rightarrow> memory \<Rightarrow> addr \<Rightarrow> addr \<Rightarrow> memory" where
  "LIST_INSERT_AFTER f m l e =
     (let m = set_q_next f m e (q_next f m l);
          m = (if q_next f m e \<noteq> NULL then set_q_prev f m (q_next f m l) (e + f) else m);
          m = set_q_next f m l e
      in set_q_prev f m e (l + f))"

definition LIST_INSERT_BEFORE :: "addr \<Rightarrow> memory \<Rightarrow> addr \<Rightarrow> addr \<Rightarrow> memory" where
  "LIST_INSERT_BEFORE f m l e =
     (let m = set_q_prev f m e (q_prev f m l);
          m = set_q_next f m e l;
          m = store64 m (q_prev f m l) e
      in set_q_prev f m l (e + f))"

definition LIST_REMOVE :: "addr \<Rightarrow> memory \<Rightarrow> addr \<Rightarrow> memory" where
  "LIST_REMOVE f m e =
     (let m = (if q_next f m e \<noteq> NULL then set_q_prev f m (q_next f m e) (q_prev f m e) else m)
      in store64 m (q_prev f m e) (q_next f m e))"

definition LIST_REPLACE :: "addr \<Rightarrow> memory \<Rightarrow> addr \<Rightarrow> addr \<Rightarrow> memory" where
  "LIST_REPLACE f m e e2 =
     (let m = set_q_next f m e2 (q_next f m e);
          m = (if q_next f m e2 \<noteq> NULL then set_q_prev f m (q_next f m e2) (e2 + f) else m);
          m = set_q_prev f m e2 (q_prev f m e)
      in store64 m (q_prev f m e2) e2)"

text \<open>The second head is initialised before the first is tested.\<close>

definition LIST_MOVE :: "addr \<Rightarrow> memory \<Rightarrow> addr \<Rightarrow> addr \<Rightarrow> memory" where
  "LIST_MOVE f m h1 h2 =
     (let m = LIST_INIT m h2 in
      if \<not> LIST_EMPTY m h1 then
        let m = store64 m h2 (LIST_FIRST m h1);
            m = set_q_prev f m (LIST_FIRST m h2) h2
        in LIST_INIT m h1
      else m)"

section \<open>Chains of links\<close>

text \<open>
  A chain from the cell \<open>p\<close> through the elements \<open>xs\<close>: every cell on the way points to the
  next element, and every element points back to the cell that points to it. The chain ends
  at the cell \<open>q_end f p xs\<close>, which it does not read.
\<close>

fun chain :: "addr \<Rightarrow> memory \<Rightarrow> addr \<Rightarrow> addr list \<Rightarrow> bool" where
  "chain f m p [] \<longleftrightarrow> True"
| "chain f m p (x # xs) \<longleftrightarrow>
     load64 m p = x \<and> x \<noteq> NULL \<and> load64 m (x + f + 8) = p \<and> chain f m (x + f) xs"

definition q_end :: "addr \<Rightarrow> addr \<Rightarrow> addr list \<Rightarrow> addr" where
  "q_end f p xs = (if xs = [] then p else last xs + f)"

lemma q_end_simps [simp]:
  "q_end f p [] = p" "q_end f p (x # xs) = q_end f (x + f) xs"
  "q_end f p (xs @ [x]) = x + f" "q_end f p (xs @ y # ys) = q_end f (y + f) ys"
  by (auto simp: q_end_def)

lemma chain_append [simp]: "chain f m p (xs @ ys) \<longleftrightarrow> chain f m p xs \<and> chain f m (q_end f p xs) ys"
  by (induction xs arbitrary: p) auto

text \<open>The words a chain reads and writes, its end included.\<close>

definition q_cells :: "addr \<Rightarrow> addr list \<Rightarrow> addr list" where
  "q_cells f xs = map (\<lambda>x. x + f) xs @ map (\<lambda>x. x + f + 8) xs"

lemma q_cells_simps [simp]:
  "set (q_cells f (xs @ ys)) = set (q_cells f xs) \<union> set (q_cells f ys)"
  "set (q_cells f (x # xs)) = {x + f, x + f + 8} \<union> set (q_cells f xs)"
  "q_cells f [] = []"
  by (auto simp: q_cells_def)

lemma q_end_cells: "q_end f p xs = p \<or> q_end f p xs \<in> set (q_cells f xs)"
  by (auto simp: q_end_def q_cells_def)

lemma chain_store:
  assumes "al8 a" "al8 p" "\<forall>c \<in> set (q_cells f xs). al8 c"
    "a \<notin> set (q_cells f xs)" "xs = [] \<or> a \<noteq> p"
  shows "chain f (store64 m a v) p xs = chain f m p xs"
  using assms by (induction xs arbitrary: p) (auto simp: al8_load_store)


section \<open>Separation\<close>

text \<open>
  The words of the head and of the elements are 8-byte aligned and pairwise distinct, so that
  they are disjoint in memory.
\<close>

definition q_sep :: "addr \<Rightarrow> addr list \<Rightarrow> addr list \<Rightarrow> bool" where
  "q_sep f hs xs \<longleftrightarrow> distinct hs \<and> (\<forall>a \<in> set hs. al8 a) \<and>
     (\<forall>x \<in> set xs. al8 (x + f) \<and> al8 (x + f + 8) \<and> x + f \<notin> set hs \<and> x + f + 8 \<notin> set hs) \<and>
     distinct xs \<and> (\<forall>x \<in> set xs. \<forall>y \<in> set xs. x \<noteq> y + 8)"

lemma q_sep_Cons [simp]:
  "q_sep f hs (x # xs) \<longleftrightarrow> q_sep f hs xs \<and> x \<notin> set xs \<and> al8 (x + f) \<and> al8 (x + f + 8) \<and>
     x + f \<notin> set hs \<and> x + f + 8 \<notin> set hs \<and> (\<forall>y \<in> set xs. x \<noteq> y + 8 \<and> y \<noteq> x + 8)"
  by (auto simp: q_sep_def)

lemma q_sep_middle [simp]: "q_sep f hs (xs @ x # ys) \<longleftrightarrow> q_sep f hs (x # xs @ ys)"
  by (auto simp: q_sep_def)

lemma q_sep_cells:
  assumes "q_sep f hs xs"
  shows "c \<in> set hs \<Longrightarrow> al8 c" "c \<in> set (q_cells f xs) \<Longrightarrow> al8 c"
    "c \<in> set hs \<Longrightarrow> c \<notin> set (q_cells f xs)" "distinct hs"
  using assms by (auto simp: q_sep_def q_cells_def)

lemma q_sep_append: "q_sep f hs (xs @ ys) \<Longrightarrow> q_sep f hs xs \<and> q_sep f hs ys"
  by (auto simp: q_sep_def)

text \<open>A cell outside of the head and the elements, or one of the head, leaves a chain alone.\<close>

lemma chain_store_other:
  assumes "q_sep f hs xs" "p \<in> set hs" "al8 a" "a \<notin> set (q_cells f xs)" "a \<noteq> p"
  shows "chain f (store64 m a v) p xs = chain f m p xs"
  using assms q_sep_cells [OF assms(1)] by (intro chain_store) auto

text \<open>The cell at the end of a chain can be written.\<close>

lemma chain_store_end:
  assumes "q_sep f hs xs" "p \<in> set hs"
  shows "chain f (store64 m (q_end f p xs) v) p xs = chain f m p xs"
proof (cases xs rule: rev_cases)
  case (snoc ys y)
  have ys: "q_sep f hs ys" using assms(1) q_sep_append snoc by blast
  have "y + f \<notin> set (q_cells f ys)" "y + f \<noteq> p"
    using assms snoc by (auto simp: q_cells_def)
  then have "chain f (store64 m (y + f) v) p ys = chain f m p ys"
    using assms snoc by (intro chain_store_other [OF ys]) auto
  moreover have "q_end f p ys \<noteq> y + f" "al8 (q_end f p ys)"
    using q_end_cells [of f p ys] assms(2) \<open>y + f \<notin> _\<close> \<open>y + f \<noteq> p\<close> q_sep_cells [OF ys] by auto
  moreover have "al8 (y + f)" "al8 (y + f + 8)" using assms(1) snoc by auto
  ultimately show ?thesis using snoc by (auto simp: al8_load_store)
qed simp

section \<open>Tail queues and lists\<close>

definition tailq :: "addr \<Rightarrow> memory \<Rightarrow> addr \<Rightarrow> addr list \<Rightarrow> bool" where
  "tailq f m h xs \<longleftrightarrow> q_sep f [h, h + 8, h + 16] xs \<and> chain f m h xs \<and>
     load64 m (q_end f h xs) = NULL \<and> tqh_last m h = q_end f h xs \<and>
     TAILQ_NELEM m h = of_nat (length xs)"

definition list_queue :: "addr \<Rightarrow> memory \<Rightarrow> addr \<Rightarrow> addr list \<Rightarrow> bool" where
  "list_queue f m h xs \<longleftrightarrow> q_sep f [h] xs \<and> chain f m h xs \<and> load64 m (q_end f h xs) = NULL"

lemma q_walk_chain:
  assumes "chain f m p xs" "load64 m (q_end f p xs) = NULL"
  shows "q_walk f m (load64 m p) = Some xs"
  using assms
proof (induction xs arbitrary: p)
  case Nil
  then show ?case by (subst q_walk.simps) simp
next
  case (Cons x xs)
  then show ?case by (subst q_walk.simps) (auto simp: q_next_def)
qed

lemma tailq_foreach: "tailq f m h xs \<Longrightarrow> TAILQ_FOREACH f m h = Some xs"
  by (simp add: tailq_def TAILQ_FOREACH_def TAILQ_FIRST_def q_walk_chain)

lemma tailq_init:
  assumes "al8 h"
  shows "tailq f (TAILQ_INIT m h) h []"
proof -
  have "al8 (h + 8)" "al8 (h + 16)" using assms al8_add [of h 8] al8_add [of h 16] by (auto simp: al8_def)
  then show ?thesis
    using assms by (simp add: tailq_def TAILQ_INIT_def Let_def tq_head_defs q_sep_def al8_load_store)
qed

lemma tailq_heads:
  "tailq f m h xs \<Longrightarrow> al8 h \<and> al8 (h + 8) \<and> al8 (h + 16)"
  by (auto simp: tailq_def q_sep_def)

lemma tailq_insert_tail:
  assumes "tailq f m h xs" "q_sep f [h, h + 8, h + 16] (e # xs)" "e \<noteq> NULL"
  shows "tailq f (TAILQ_INSERT_TAIL f m h e) h (xs @ [e])"
proof -
  let ?l = "q_end f h xs"
  have sep: "q_sep f [h, h + 8, h + 16] xs" using assms(1) by (simp add: tailq_def)
  have h: "al8 h" "al8 (h + 8)" "al8 (h + 16)" using tailq_heads [OF assms(1)] by auto
  have e: "al8 (e + f)" "al8 (e + f + 8)" "e + f \<notin> {h, h + 8, h + 16}" "e + f + 8 \<notin> {h, h + 8, h + 16}"
    "e + f \<notin> set (q_cells f xs)" "e + f + 8 \<notin> set (q_cells f xs)"
    using assms(2) by (auto simp: q_cells_def)
  have hc: "h + 8 \<notin> set (q_cells f xs)" "h + 16 \<notin> set (q_cells f xs)"
    using q_sep_cells(3) [OF sep] by auto
  have l: "al8 ?l" "?l \<noteq> h + 8" "?l \<noteq> h + 16" "?l \<noteq> e + f" "?l \<noteq> e + f + 8"
    using q_end_cells [of f h xs] h e q_sep_cells [OF sep] by auto
  have "chain f (TAILQ_INSERT_TAIL f m h e) h xs"
    using assms(1) sep h e l hc
    by (simp add: tailq_def TAILQ_INSERT_TAIL_def Let_def tq_head_defs q_field_defs al8_load_store
        chain_store_other [OF sep] chain_store_end [OF sep])
  then show ?thesis
    using assms h e l
    by (auto simp: tailq_def TAILQ_INSERT_TAIL_def Let_def tq_head_defs q_field_defs al8_load_store)
qed


lemma q_sep_disjoint:
  assumes "q_sep f hs (xs @ ys)"
  shows "set (q_cells f xs) \<inter> set (q_cells f ys) = {}"
  using assms
proof (induction xs)
  case (Cons x xs)
  then have "x + f \<notin> set (q_cells f ys)" "x + f + 8 \<notin> set (q_cells f ys)"
    by (auto simp: q_cells_def)
  then show ?case using Cons by simp
qed simp

text \<open>The facts about the cells around an element in the middle.\<close>

lemma q_middle:
  assumes "q_sep f hs (xs @ e # ys)" "p \<in> set hs"
  shows "q_sep f hs xs" "q_sep f hs ys" "al8 (q_end f p xs)"
    "q_end f p xs \<noteq> e + f" "q_end f p xs \<noteq> e + f + 8"
    "q_end f p xs \<notin> set (q_cells f ys)"
    "e + f \<notin> set (q_cells f xs)" "e + f + 8 \<notin> set (q_cells f xs)"
    "e + f \<notin> set (q_cells f ys)" "e + f + 8 \<notin> set (q_cells f ys)"
    "c \<in> set hs \<Longrightarrow> q_end f p xs = c \<Longrightarrow> p = c"
proof -
  show xs: "q_sep f hs xs" and ys: "q_sep f hs ys" using assms(1) q_sep_append [of f hs xs ys] by auto
  show cells: "e + f \<notin> set (q_cells f xs)" "e + f + 8 \<notin> set (q_cells f xs)"
    "e + f \<notin> set (q_cells f ys)" "e + f + 8 \<notin> set (q_cells f ys)"
    using assms(1) by (auto simp: q_cells_def)
  have *: "P (q_end f p xs)" if "P p" "\<And>c. c \<in> set (q_cells f xs) \<Longrightarrow> P c" for P
    by (rule disjE [OF q_end_cells [of f p xs]]) (use that in simp_all)
  show "al8 (q_end f p xs)" by (rule *) (use q_sep_cells [OF xs] assms(2) in blast)+
  have "p \<noteq> e + f" "p \<noteq> e + f + 8" using assms by auto
  with cells show "q_end f p xs \<noteq> e + f" "q_end f p xs \<noteq> e + f + 8"
    by (intro * [of "\<lambda>l. l \<noteq> e + f"] * [of "\<lambda>l. l \<noteq> e + f + 8"]; metis)+
  show "c \<in> set hs \<Longrightarrow> q_end f p xs = c \<Longrightarrow> p = c"
    by (rule * [of "\<lambda>l. l = c \<longrightarrow> p = c", THEN mp]) (use q_sep_cells(3) [OF xs] in blast)+
  have "set (q_cells f xs) \<inter> set (q_cells f ys) = {}"
    using assms(1) q_sep_disjoint [of f hs xs ys] by simp
  moreover have "p \<notin> set (q_cells f ys)" using q_sep_cells(3) [OF ys] assms(2) by blast
  ultimately show "q_end f p xs \<notin> set (q_cells f ys)"
    by (intro * [of "\<lambda>l. l \<notin> set (q_cells f ys)"]; blast)
qed

text \<open>
  What unlinking an element does to the cells around it, with the addresses abstracted. The
  cell \<open>n\<close> is the one that points back to the element: \<^verbatim>\<open>tqe_prev\<close> of the next element, or
  \<^verbatim>\<open>tqh_last\<close> of the head.
\<close>

lemma unlink_chain:
  assumes sep: "q_sep f hs (xs @ e # ys)" and p: "p \<in> set hs" and ch: "chain f m p (xs @ e # ys)"
    and n: "if ys = [] then n \<in> set hs - {p} else n = hd ys + f + 8"
    and m': "m' = store64 (store64 m n (q_end f p xs)) (q_end f p xs) (load64 m (e + f))"
  shows "chain f m' p (xs @ ys)"
    "load64 m (q_end f p (xs @ e # ys)) = NULL \<Longrightarrow> load64 m' (q_end f p (xs @ ys)) = NULL"
    "ys = [] \<Longrightarrow> load64 m' n = q_end f p (xs @ ys)"
    "c \<in> set hs \<Longrightarrow> c \<noteq> p \<Longrightarrow> c \<noteq> n \<Longrightarrow> load64 m' c = load64 m c"
proof -
  let ?l = "q_end f p xs"
  note mid = q_middle [OF sep p]
  have disj: "set (q_cells f xs) \<inter> set (q_cells f ys) = {}"
    using sep q_sep_disjoint [of f hs xs ys] by simp
  have "al8 n \<and> n \<noteq> ?l \<and> n \<notin> set (q_cells f xs) \<and> n \<noteq> p"
  proof (cases ys)
    case Nil
    then have nh: "n \<in> set hs" "n \<noteq> p" using n by auto
    then have "n \<noteq> ?l" using mid(11) [OF nh(1)] by metis
    then show ?thesis using nh q_sep_cells(1,3) [OF mid(1) nh(1)] by simp
  next
    case (Cons y zs)
    then have y: "n \<in> set (q_cells f ys)" using n by simp
    moreover have "p \<notin> set (q_cells f ys)" using q_sep_cells(3) [OF mid(2)] p by blast
    ultimately show ?thesis using q_sep_cells(2) [OF mid(2) y] disj mid(6) by blast
  qed
  then have al: "al8 n" "n \<noteq> ?l" "n \<notin> set (q_cells f xs)" "n \<noteq> p" by auto
  have "chain f (store64 m n ?l) p xs"
    using ch al mid by (simp add: chain_store_other [OF mid(1) p])
  then have 1: "chain f m' p xs" by (simp add: m' chain_store_end [OF mid(1) p])
  have 2: "load64 m' ?l = load64 m (e + f)" by (simp add: m')
  show "c \<in> set hs \<Longrightarrow> c \<noteq> p \<Longrightarrow> c \<noteq> n \<Longrightarrow> load64 m' c = load64 m c"
    using mid(3) mid(11) [of c] al q_sep_cells(1) [OF mid(1)] by (auto simp: m' al8_load_store)
  have "chain f m' p (xs @ ys) \<and> (load64 m (q_end f p (xs @ e # ys)) = NULL \<longrightarrow> load64 m' (q_end f p (xs @ ys)) = NULL) \<and>
     (ys = [] \<longrightarrow> load64 m' n = q_end f p (xs @ ys))"
  proof (cases ys)
    case Nil
    then show ?thesis using 1 2 al mid(3) by (auto simp: m' al8_load_store)
  next
    case (Cons y zs)
    have n: "n = y + f + 8" using n Cons by simp
    have ly: "?l \<noteq> y + f" "?l \<notin> set (q_cells f zs)" using mid(6) Cons by auto
    have zs: "al8 (y + f)" "\<forall>c \<in> set (q_cells f zs). al8 c" "n \<notin> set (q_cells f zs)" "y + f \<noteq> n"
      using q_sep_cells(2) [OF mid(2)] mid(2) Cons n by (auto simp: q_cells_def)
    have "chain f (store64 m n ?l) (y + f) zs = chain f m (y + f) zs"
      using al zs by (intro chain_store) auto
    moreover have "chain f m' (y + f) zs = chain f (store64 m n ?l) (y + f) zs"
      unfolding m' using mid(3) zs ly by (intro chain_store) auto
    ultimately have "chain f m' (y + f) zs" using ch Cons by simp
    moreover have "load64 m' n = ?l" using al mid(3) by (simp add: m' al8_load_store)
    moreover have "load64 m' (q_end f (y + f) zs) = load64 m (q_end f (y + f) zs)"
    proof -
      have "al8 (q_end f (y + f) zs)" "q_end f (y + f) zs \<noteq> n" "q_end f (y + f) zs \<noteq> ?l"
        using q_end_cells [of f "y + f" zs] zs ly by metis+
      then show ?thesis using al mid(3) by (simp add: m' al8_load_store)
    qed
    ultimately show ?thesis using 1 2 ch Cons n by auto
  qed
  then show "chain f m' p (xs @ ys)"
    "load64 m (q_end f p (xs @ e # ys)) = NULL \<Longrightarrow> load64 m' (q_end f p (xs @ ys)) = NULL"
    "ys = [] \<Longrightarrow> load64 m' n = q_end f p (xs @ ys)" by auto
qed


lemma load64_store64_other: "load64 (store64 m n v) c = load64 m c"
  if "al8 n" "al8 c" "n \<noteq> c"
  using that by (simp add: al8_load_store)

lemma tailq_remove:
  assumes "tailq f m h (xs @ e # ys)"
  shows "tailq f (TAILQ_REMOVE f m h e) h (xs @ ys)"
proof -
  let ?hs = "[h, h + 8, h + 16]" and ?l = "q_end f h xs"
  let ?n = "if ys = [] then h + 8 else hd ys + f + 8"
  let ?m = "store64 (store64 m ?n ?l) ?l (load64 m (e + f))"
  have sep: "q_sep f ?hs (xs @ e # ys)" and ch: "chain f m h (xs @ e # ys)"
    and null: "load64 m (q_end f h (xs @ e # ys)) = NULL"
    and last: "load64 m (h + 8) = q_end f h (xs @ e # ys)"
    and nelem: "load64 m (h + 16) = 1 + of_nat (length (xs @ ys))"
    using assms by (auto simp: tailq_def tq_head_defs)
  note mid = q_middle [OF sep, of h, simplified]
  have sep': "q_sep f ?hs (xs @ ys)" using sep by simp
  have h: "al8 h" "al8 (h + 8)" "al8 (h + 16)" using tailq_heads [OF assms] by auto
  have nx: "load64 m (e + f) = (if ys = [] then NULL else hd ys)" "load64 m (e + f + 8) = ?l"
    "ys \<noteq> [] \<longrightarrow> hd ys \<noteq> NULL" using ch null by (cases ys; auto)+
  have n: "al8 ?n" "?n \<noteq> e + f" "?n \<noteq> e + f + 8" "?n \<noteq> h + 16"
    using sep h by (cases ys; auto)+
  have e: "al8 (e + f)" "al8 (e + f + 8)" using sep by auto
  have hin: "h \<in> set ?hs" by simp
  have nc: "if ys = [] then ?n \<in> set ?hs - {h} else ?n = hd ys + f + 8" by simp
  note un = unlink_chain [OF sep hin ch nc refl]
  have l16: "?l \<noteq> h + 16" "?l \<noteq> h + 8"
    using q_middle(11) [OF sep hin, of "h + 16"] q_middle(11) [OF sep hin, of "h + 8"] by auto
  have rem: "TAILQ_REMOVE f m h e = store64 ?m (h + 16) (load64 ?m (h + 16) - 1)"
    using nx n e
    by (auto simp: TAILQ_REMOVE_def Let_def q_field_defs tq_head_defs load64_store64_other)
  have u8: "load64 ?m (h + 8) = q_end f h (xs @ ys)"
  proof (cases ys)
    case Nil
    then show ?thesis using un(3) by simp
  next
    case (Cons y zs)
    then have "?n \<noteq> h + 8" using sep by auto
    then show ?thesis using un(4) [of "h + 8"] last Cons by simp
  qed
  have u16: "load64 ?m (h + 16) = load64 m (h + 16)" using n by (intro un(4)) auto
  have "h + 16 \<notin> set (q_cells f (xs @ ys))" by (rule q_sep_cells(3) [OF sep']) simp
  then have end16: "q_end f h (xs @ ys) \<noteq> h + 16" "al8 (q_end f h (xs @ ys))"
    using q_end_cells [of f h "xs @ ys"] q_sep_cells(2) [OF sep', of "q_end f h (xs @ ys)"] h
    by (auto simp del: q_cells_simps)
  show ?thesis
    unfolding rem tailq_def tq_head_defs
    using sep' un(1) un(2) [OF null] u8 u16 nelem end16 h q_sep_cells(3) [OF sep', of "h + 16"]
    by (simp add: chain_store_other [OF sep'] load64_store64_other del: chain_append)
qed


lemma chain_cong:
  assumes "chain f m p xs" "xs \<noteq> [] \<longrightarrow> load64 m' p = load64 m p"
    "\<forall>c \<in> set (q_cells f xs). c \<noteq> q_end f p xs \<longrightarrow> load64 m' c = load64 m c"
    "q_sep f hs xs"
  shows "chain f m' p xs"
  using assms
proof (induction xs arbitrary: p)
  case (Cons x xs)
  have ends: "q_end f (x + f) xs \<noteq> x + f + 8" "xs \<noteq> [] \<longrightarrow> q_end f (x + f) xs \<noteq> x + f"
    using Cons.prems(4) by (auto simp: q_end_def)
  show ?case using Cons.prems ends
    by (cases "xs = []") (auto intro!: Cons.IH)
qed simp

text \<open>
  What linking an element after the cell \<open>q_end f p xs\<close> does, whatever the order of the
  stores: that cell points to the element, the element points on to what the cell pointed to
  and back to the cell, and the cell \<open>n\<close> that pointed back to it points to the element.
\<close>

lemma link_chain:
  assumes sep: "q_sep f hs (xs @ e # ys)" and p: "p \<in> set hs" and ch: "chain f m p (xs @ ys)"
    and e: "e \<noteq> NULL" "load64 m' (q_end f p xs) = e" "load64 m' (e + f + 8) = q_end f p xs"
      "load64 m' (e + f) = load64 m (q_end f p xs)"
    and n: "ys \<noteq> [] \<Longrightarrow> load64 m' (hd ys + f + 8) = e + f"
    and other: "\<And>c. c \<in> set (q_cells f (xs @ ys)) \<Longrightarrow> c \<noteq> q_end f p xs \<Longrightarrow>
      (ys \<noteq> [] \<longrightarrow> c \<noteq> hd ys + f + 8) \<Longrightarrow> load64 m' c = load64 m c"
      "xs \<noteq> [] \<Longrightarrow> load64 m' p = load64 m p"
  shows "chain f m' p (xs @ e # ys)"
    "load64 m (q_end f p (xs @ ys)) = NULL \<Longrightarrow> load64 m' (q_end f p (xs @ e # ys)) = NULL"
proof -
  note mid = q_middle [OF sep p]
  have disj: "set (q_cells f xs) \<inter> set (q_cells f ys) = {}"
    using sep q_sep_disjoint [of f hs xs ys] by simp
  have xs: "chain f m' p xs"
  proof (rule chain_cong [OF _ _ _ mid(1)])
    show "\<forall>c \<in> set (q_cells f xs). c \<noteq> q_end f p xs \<longrightarrow> load64 m' c = load64 m c"
      using other(1) disj by (cases ys) auto
  qed (use ch other(2) in auto)
  have "chain f m' p (xs @ e # ys) \<and>
    (load64 m (q_end f p (xs @ ys)) = NULL \<longrightarrow> load64 m' (q_end f p (xs @ e # ys)) = NULL)"
  proof (cases ys)
    case Nil
    then show ?thesis using xs e by simp
  next
    case (Cons y zs)
    have zs: "load64 m' c = load64 m c" if "c = y + f \<or> c \<in> set (q_cells f zs)" for c
    proof (rule other(1))
      show "c \<in> set (q_cells f (xs @ ys))" using that Cons by auto
      have "y + f \<noteq> q_end f p xs" "\<forall>d \<in> set (q_cells f zs). d \<noteq> q_end f p xs"
        using mid(6) unfolding Cons by auto
      then show "c \<noteq> q_end f p xs" using that by metis
      show "ys \<noteq> [] \<longrightarrow> c \<noteq> hd ys + f + 8" using that Cons mid(2) by (auto simp: q_cells_def)
    qed
    have "chain f m' (y + f) zs"
    proof (rule chain_cong)
      show "chain f m (y + f) zs" "q_sep f hs zs" using ch Cons mid(2) by auto
      show "zs \<noteq> [] \<longrightarrow> load64 m' (y + f) = load64 m (y + f)" by (simp add: zs)
      show "\<forall>c \<in> set (q_cells f zs). c \<noteq> q_end f (y + f) zs \<longrightarrow> load64 m' c = load64 m c"
        by (simp add: zs)
    qed
    moreover have "load64 m' (q_end f (y + f) zs) = load64 m (q_end f (y + f) zs)"
      by (rule zs) (rule q_end_cells)
    ultimately show ?thesis using xs e n ch Cons by auto
  qed
  then show "chain f m' p (xs @ e # ys)"
    "load64 m (q_end f p (xs @ ys)) = NULL \<Longrightarrow> load64 m' (q_end f p (xs @ e # ys)) = NULL" by auto
qed


lemma tailq_insert_head:
  assumes "tailq f m h xs" "q_sep f [h, h + 8, h + 16] (e # xs)" "e \<noteq> NULL"
  shows "tailq f (TAILQ_INSERT_HEAD f m h e) h (e # xs)"
proof -
  let ?hs = "[h, h + 8, h + 16]"
  have sep: "q_sep f ?hs ([] @ e # xs)" and hin: "h \<in> set ?hs" using assms(2) by auto
  have tq: "chain f m h xs" "load64 m (q_end f h xs) = NULL" "load64 m (h + 8) = q_end f h xs"
    "load64 m (h + 16) = of_nat (length xs)" using assms(1) by (auto simp: tailq_def tq_head_defs)
  have h: "al8 h" "al8 (h + 8)" "al8 (h + 16)" using tailq_heads [OF assms(1)] by auto
  have e: "al8 (e + f)" "al8 (e + f + 8)" "h \<noteq> e + f" "h + 8 \<noteq> e + f" "h + 16 \<noteq> e + f"
    "h \<noteq> e + f + 8" "h + 8 \<noteq> e + f + 8" "h + 16 \<noteq> e + f + 8"
    using assms(2) by auto
  have fst: "load64 m h = (if xs = [] then NULL else hd xs)" "xs \<noteq> [] \<Longrightarrow> hd xs \<noteq> NULL"
    using tq by (cases xs; auto)+
  define n where "n = (if xs = [] then h + 8 else hd xs + f + 8)"
  have n: "al8 n" "n \<noteq> h" "n \<noteq> h + 16" "n \<noteq> e + f" "n \<noteq> e + f + 8" "xs \<noteq> [] \<longrightarrow> n \<noteq> h + 8"
    unfolding n_def using assms(2) h by (cases xs; auto)+
  let ?m = "TAILQ_INSERT_HEAD f m h e"
  have m': "?m = store64 (store64 (store64 (store64 (store64 m (e + f) (load64 m h)) n (e + f)) h e) (e + f + 8) h)
      (h + 16) (of_nat (length xs) + 1)"
    using fst n e h tq(4)
    by (auto simp: n_def TAILQ_INSERT_HEAD_def Let_def q_field_defs tq_head_defs load64_store64_other)
  have ld: "load64 ?m c = load64 m c" if "al8 c" "c \<notin> {e + f, n, h, e + f + 8, h + 16}" for c
    unfolding m' using that n(1) e(1,2) h by (auto simp: load64_store64_other)
  have at: "load64 ?m h = e" "load64 ?m (e + f + 8) = h" "load64 ?m (e + f) = load64 m h"
    "load64 ?m n = e + f" "load64 ?m (h + 16) = of_nat (length xs) + 1"
    unfolding m' using n e h by (simp_all add: load64_store64_other)
  have sepx: "q_sep f ?hs xs" using assms(2) by simp
  have cells: "load64 ?m c = load64 m c"
    if "c \<in> set (q_cells f xs)" "xs \<noteq> [] \<longrightarrow> c \<noteq> hd xs + f + 8" for c
    using ld [of c] q_sep_cells(2) [OF sepx that(1)] that q_sep_cells(3) [OF sepx, of h]
      q_sep_cells(3) [OF sepx, of "h + 8"] q_sep_cells(3) [OF sepx, of "h + 16"]
      q_middle(9,10) [OF sep hin] by (cases xs) (auto simp: n_def)
  have "load64 ?m (hd xs + f + 8) = e + f" if "xs \<noteq> []" using at(4) that by (simp add: n_def)
  from link_chain [OF sep hin, where m = m and m' = ?m, simplified, OF tq(1) assms(3) at(1-3) this cells]
  have "chain f ?m (e + f) xs" "load64 ?m (q_end f (e + f) xs) = NULL" using tq(2) by auto
  moreover have "load64 ?m (h + 8) = q_end f (e + f) xs"
  proof (cases "xs = []")
    case False
    then show ?thesis using ld [of "h + 8"] n(6) h e tq(3) by (cases xs) (auto simp: n_def)
  qed (use at(4) in \<open>simp add: n_def\<close>)
  ultimately show ?thesis using assms at by (simp add: tailq_def tq_head_defs)
qed


lemma list_init: "al8 h \<Longrightarrow> list_queue f (LIST_INIT m h) h []"
  by (simp add: list_queue_def LIST_INIT_def q_sep_def)

lemma list_foreach: "list_queue f m h xs \<Longrightarrow> q_walk f m (LIST_FIRST m h) = Some xs"
  by (simp add: list_queue_def LIST_FIRST_def q_walk_chain)

lemma list_remove:
  assumes "list_queue f m h (xs @ e # ys)"
  shows "list_queue f (LIST_REMOVE f m e) h (xs @ ys)"
proof -
  have sep: "q_sep f [h] (xs @ e # ys)" and ch: "chain f m h (xs @ e # ys)"
    and null: "load64 m (q_end f h (xs @ e # ys)) = NULL"
    using assms by (auto simp: list_queue_def)
  have hin: "h \<in> set [h]" by simp
  note mid = q_middle [OF sep hin]
  have sep': "q_sep f [h] (xs @ ys)" using sep by simp
  show ?thesis
  proof (cases ys)
    case Nil
    have "LIST_REMOVE f m e = store64 m (q_end f h xs) NULL"
      using ch null Nil by (simp add: LIST_REMOVE_def Let_def q_field_defs)
    moreover have "chain f (store64 m (q_end f h xs) NULL) h xs"
      using ch chain_store_end [OF mid(1) hin] by simp
    ultimately show ?thesis using sep' Nil by (simp add: list_queue_def)
  next
    case (Cons y zs)
    let ?n = "y + f + 8"
    have n: "al8 ?n" "?n \<noteq> e + f" "?n \<noteq> e + f + 8" "al8 (e + f)" "al8 (e + f + 8)"
      using sep unfolding Cons by auto
    have nx: "load64 m (e + f) = y" "load64 m (e + f + 8) = q_end f h xs" "y \<noteq> NULL"
      using ch unfolding Cons by auto
    have "if ys = [] then ?n \<in> set [h] - {h} else ?n = hd ys + f + 8" using Cons by simp
    note un = unlink_chain [OF sep hin ch this refl]
    have "LIST_REMOVE f m e = store64 (store64 m ?n (q_end f h xs)) (q_end f h xs) (load64 m (e + f))"
      using nx n by (simp add: LIST_REMOVE_def Let_def q_field_defs load64_store64_other)
    then show ?thesis using un(1) un(2) [OF null] sep' by (simp add: list_queue_def)
  qed
qed

section \<open>The interface of a tail queue\<close>

text \<open>
  What a client of a tail queue relies on: \<open>repr m h xs\<close> says that the queue at \<open>h\<close> holds
  \<open>xs\<close>, and \<open>fresh h xs e\<close> that \<open>e\<close> is storage the queue does not use yet.
\<close>

locale tail_queue =
  fixes repr :: "memory \<Rightarrow> addr \<Rightarrow> addr list \<Rightarrow> bool"
    and fresh :: "addr \<Rightarrow> addr list \<Rightarrow> addr \<Rightarrow> bool"
    and init :: "memory \<Rightarrow> addr \<Rightarrow> memory"
    and insert_tail :: "memory \<Rightarrow> addr \<Rightarrow> addr \<Rightarrow> memory"
    and remove_elem :: "memory \<Rightarrow> addr \<Rightarrow> addr \<Rightarrow> memory"
    and elems :: "memory \<Rightarrow> addr \<Rightarrow> addr list option"
  assumes init_repr: "al8 h \<Longrightarrow> repr (init m h) h []"
    and insert_repr: "repr m h xs \<Longrightarrow> fresh h xs e \<Longrightarrow> repr (insert_tail m h e) h (xs @ [e])"
    and remove_repr: "repr m h (xs @ e # ys) \<Longrightarrow> repr (remove_elem m h e) h (xs @ ys)"
    and elems_repr: "repr m h xs \<Longrightarrow> elems m h = Some xs"
begin

text \<open>Inserting a list of elements, each of them fresh when its turn comes.\<close>

fun all_fresh :: "addr \<Rightarrow> addr list \<Rightarrow> addr list \<Rightarrow> bool" where
  "all_fresh h xs [] \<longleftrightarrow> True"
| "all_fresh h xs (e # es) \<longleftrightarrow> fresh h xs e \<and> all_fresh h (xs @ [e]) es"

lemma insert_all:
  "repr m h xs \<Longrightarrow> all_fresh h xs es \<Longrightarrow> repr (foldl (\<lambda>m e. insert_tail m h e) m es) h (xs @ es)"
proof (induction es arbitrary: m xs)
  case (Cons e es)
  then show ?case using insert_repr Cons.IH [of "insert_tail m h e" "xs @ [e]"] by simp
qed simp

lemma insert_remove:
  assumes "repr m h xs" "fresh h xs e"
  shows "repr (remove_elem (insert_tail m h e) h e) h xs"
  using remove_repr [of _ h xs e "[]"] insert_repr [OF assms] by simp

lemma fifo:
  assumes "al8 h" "all_fresh h [] (e # es)"
  shows "elems (remove_elem (foldl (\<lambda>m e. insert_tail m h e) (init m h) (e # es)) h e) h = Some es"
  using remove_repr [of _ h "[]" e es] insert_all [OF init_repr [OF assms(1)] assms(2)] elems_repr
  by simp

end

definition tq_fresh :: "addr \<Rightarrow> addr \<Rightarrow> addr list \<Rightarrow> addr \<Rightarrow> bool" where
  "tq_fresh f h xs e \<longleftrightarrow> q_sep f [h, h + 8, h + 16] (e # xs) \<and> e \<noteq> NULL"

interpretation tq: tail_queue "tailq f" "tq_fresh f" TAILQ_INIT "TAILQ_INSERT_TAIL f"
  "TAILQ_REMOVE f" "TAILQ_FOREACH f" for f
  by unfold_locales
    (auto simp only: tailq_init tailq_remove tailq_foreach tq_fresh_def intro: tailq_insert_tail)

lemma tq_all_fresh:
  "q_sep f [h, h + 8, h + 16] (xs @ es) \<Longrightarrow> NULL \<notin> set es \<Longrightarrow> tq.all_fresh f h xs es"
proof (induction es arbitrary: xs)
  case (Cons e es)
  have "tq.all_fresh f h (xs @ [e]) es" using Cons.prems by (intro Cons.IH) auto
  moreover have "q_sep f [h, h + 8, h + 16] (e # xs)"
    using Cons.prems(1) q_sep_append [of f _ "e # xs" es] by simp
  then have "tq_fresh f h xs e" using Cons.prems(2) by (simp add: tq_fresh_def)
  ultimately show ?case by simp
qed simp

text \<open>
  C23: A tail queue is a first-in first-out sequence: after \<^verbatim>\<open>TAILQ_INIT\<close>, inserting
  aligned and disjoint elements at the tail and removing one of them, wherever it is,
  \<^verbatim>\<open>TAILQ_FOREACH\<close> visits exactly the others, once each and in the order of their insertion,
  and \<^verbatim>\<open>TAILQ_NELEM\<close> is their number.
\<close>

theorem tailq_fifo:
  assumes "al8 h" "q_sep f [h, h + 8, h + 16] (xs @ e # ys)" "NULL \<notin> set (xs @ e # ys)"
  shows "let m' = TAILQ_REMOVE f
      (foldl (\<lambda>m e. TAILQ_INSERT_TAIL f m h e) (TAILQ_INIT m h) (xs @ e # ys)) h e
    in TAILQ_FOREACH f m' h = Some (xs @ ys) \<and> TAILQ_NELEM m' h = of_nat (length (xs @ ys))"
proof -
  have "tq.all_fresh f h [] (xs @ e # ys)"
    using assms(2,3) by (intro tq_all_fresh) auto
  then have "tailq f (foldl (\<lambda>m e. TAILQ_INSERT_TAIL f m h e) (TAILQ_INIT m h) (xs @ e # ys)) h (xs @ e # ys)"
    using tq.insert_all [OF tailq_init [OF assms(1)], of f "xs @ e # ys" m] by simp
  then have "tailq f (TAILQ_REMOVE f
      (foldl (\<lambda>m e. TAILQ_INSERT_TAIL f m h e) (TAILQ_INIT m h) (xs @ e # ys)) h e) h (xs @ ys)"
    by (rule tq.remove_repr)
  then show ?thesis
    using tq.elems_repr by (simp only: Let_def) (simp add: tailq_def)
qed

lemma tailq_fifo_witness:
  "let m' = TAILQ_REMOVE 56 (foldl (\<lambda>m e. TAILQ_INSERT_TAIL 56 m 16 e)
      (TAILQ_INIT (\<lambda>_. 1) 16) ([256] @ 512 # [1024])) 16 512
   in TAILQ_FOREACH 56 m' 16 = Some ([256] @ [1024]) \<and>
      TAILQ_NELEM m' 16 = of_nat (length ([256, 1024] :: addr list))"
  using tailq_fifo [of 16 56 "[256]" 512 "[1024]" "\<lambda>_. 1"] by (simp add: al8_def q_sep_def Let_def)

end
