(* ===== verification/Hive_Ob.thy ===== *)
theory Hive_Ob
  imports Hive_Pool Hive_Queue
begin

text \<open>
  The object store: kernel nodes (\<^verbatim>\<open>ob/knode.c\<close>), directories of them (\<^verbatim>\<open>ob/dir.c\<close>) and the root
  directory (\<^verbatim>\<open>ob/store.c\<close>). Nodes and directories are objects in the memory of the machine, at
  the offsets the compiler gives the members of \<^verbatim>\<open>struct knode\<close> and \<^verbatim>\<open>struct knode_dir\<close>;
  the list of a directory is a tail queue linked at \<^verbatim>\<open>dir_link\<close>. String literals are arguments:
  \<open>lit s\<close> is the address where the compiler put the literal \<open>s\<close>.
\<close>

section \<open>The objects\<close>

definition KNODE_NAME_LEN :: u64 where "KNODE_NAME_LEN = 32"

datatype ktype_t = K_NONE | K_DIR | K_CLKDEV

fun ktype_num :: "ktype_t \<Rightarrow> u32" where
  "ktype_num K_NONE = 0"
| "ktype_num K_DIR = 1"
| "ktype_num K_CLKDEV = 2"

text \<open>The members of a node: the name is the first, and a name of 32 bytes ends where the type starts.\<close>

definition kn_type :: "memory \<Rightarrow> addr \<Rightarrow> u32" where "kn_type M k = load32 M (k + 32)"
definition set_kn_type :: "addr \<Rightarrow> u32 \<Rightarrow> memory \<Rightarrow> memory" where "set_kn_type k v M = store32 M (k + 32) v"
definition kn_data :: "memory \<Rightarrow> addr \<Rightarrow> addr" where "kn_data M k = load64 M (k + 40)"
definition set_kn_data :: "addr \<Rightarrow> addr \<Rightarrow> memory \<Rightarrow> memory" where "set_kn_data k v M = store64 M (k + 40) v"
definition set_kn_ref :: "addr \<Rightarrow> u32 \<Rightarrow> memory \<Rightarrow> memory" where "set_kn_ref k v M = store32 M (k + 48) v"
definition dir_link :: addr where "dir_link = 56"
definition sizeof_knode :: u64 where "sizeof_knode = 72"

text \<open>A directory: the head of its list, then the number of entries.\<close>

definition dir_entry_count :: "memory \<Rightarrow> addr \<Rightarrow> u64" where "dir_entry_count M d = load64 M (d + 24)"
definition set_dir_entry_count :: "addr \<Rightarrow> u64 \<Rightarrow> memory \<Rightarrow> memory" where
  "set_dir_entry_count d n M = store64 M (d + 24) n"
definition sizeof_knode_dir :: u64 where "sizeof_knode_dir = 32"

definition KNODE_DIR :: "memory \<Rightarrow> addr \<Rightarrow> addr" where "KNODE_DIR M k = kn_data M k"

record ob = pool +
  ob_is_init :: bool
  root_dir :: addr

section \<open>store.c\<close>

text \<open>
  The loop over a directory that looks for a name, from the node \<open>knp\<close> on, which \<^verbatim>\<open>store.c\<close> and
  \<^verbatim>\<open>knode.c\<close> both write: the first node with the name, or a null pointer.
\<close>

partial_function (option) find_loop :: "memory \<Rightarrow> addr \<Rightarrow> addr \<Rightarrow> addr option" where
  "find_loop M name knp =
     (if knp = NULL then Some NULL
      else if M knp \<noteq> M name then find_loop M name (q_next dir_link M knp)
      else do {
        c \<leftarrow> strcmp M knp name;
        (if c = 0 then Some knp else find_loop M name (q_next dir_link M knp)) })"

definition ob_root_get :: "(string \<Rightarrow> addr) \<Rightarrow> addr \<Rightarrow> bool \<Rightarrow> 'a ob_scheme \<Rightarrow> addr result option" where
  "ob_root_get lit name res m =
     (if name = NULL \<or> \<not> res then Some (Inl (- EINVAL))
      else do {
        let dir = KNODE_DIR (mem m) (root_dir m);
        c \<leftarrow> strcmp (mem m) name (lit ''/'');
        (if c = 0 then Some (Inr (root_dir m))
         else do {
           knp_res \<leftarrow> find_loop (mem m) name (TAILQ_FIRST (mem m) dir);
           Some (if knp_res = NULL then Inl (- ENOENT) else Inr knp_res) }) })"

text \<open>The callback gets the state and returns it with its result.\<close>

partial_function (option) root_foreach_loop ::
    "u32 \<Rightarrow> (addr \<Rightarrow> 'a ob_scheme \<Rightarrow> (int \<times> 'a ob_scheme) option) \<Rightarrow> addr \<Rightarrow> int \<Rightarrow> 'a ob_scheme
      \<Rightarrow> (int \<times> 'a ob_scheme) option" where
  "root_foreach_loop type cb knp retval m =
     (if knp = NULL then Some (retval, m)
      else if kn_type (mem m) knp \<noteq> type then root_foreach_loop type cb (q_next dir_link (mem m) knp) retval m
      else do {
        (retval, m) \<leftarrow> cb knp m;
        (if retval \<ge> 0 then Some (retval, m)
         else root_foreach_loop type cb (q_next dir_link (mem m) knp) retval m) })"

definition ob_root_foreach ::
    "ktype_t \<Rightarrow> (addr \<Rightarrow> 'a ob_scheme \<Rightarrow> (int \<times> 'a ob_scheme) option) option \<Rightarrow> 'a ob_scheme
      \<Rightarrow> (int \<times> 'a ob_scheme) option" where
  "ob_root_foreach type cb m =
     (case cb of None \<Rightarrow> Some (- 1, m)
      | Some f \<Rightarrow>
          if root_dir m = NULL then Some (- 1, m)
          else let dir = KNODE_DIR (mem m) (root_dir m)
               in root_foreach_loop (ktype_num type) f (TAILQ_FIRST (mem m) dir) 0 m)"

section \<open>knode.c\<close>

definition knode_subdir_find :: "addr \<Rightarrow> addr \<Rightarrow> bool \<Rightarrow> 'a ob_scheme \<Rightarrow> addr result option" where
  "knode_subdir_find parent name res m =
     (if parent = NULL \<or> name = NULL then Some (Inl (- EINVAL))
      else if \<not> res then Some (Inl (- EINVAL))
      else if kn_type (mem m) parent \<noteq> ktype_num K_DIR then Some (Inl (- ENOTDIR))
      else do {
        let pardir = KNODE_DIR (mem m) parent;
        knp \<leftarrow> find_loop (mem m) name (TAILQ_FIRST (mem m) pardir);
        Some (if knp = NULL then Inl (- ENOENT) else Inr knp) })"

definition ob_knode_new :: "addr \<Rightarrow> ktype_t \<Rightarrow> bool \<Rightarrow> 'a ob_scheme \<Rightarrow> (addr result \<times> 'a ob_scheme) option" where
  "ob_knode_new name type res m =
     (if name = NULL \<or> \<not> res then Some (Inl (- EINVAL), m)
      else do {
        name_len \<leftarrow> strlen (mem m) name;
        (if name_len \<ge> KNODE_NAME_LEN - 1 then Some (Inl (- ENAMETOOLONG), m)
         else do {
           (knp, m) \<leftarrow> os_pool_allocate sizeof_knode m;
           (if knp = NULL then Some (Inl (- ENOMEM), m)
            else do {
              let M = snd (memcpy (mem m) knp name name_len);
              let M = M(knp + name_len := 0);
              let M = set_kn_type knp (ktype_num type) M;
              let M = set_kn_ref knp 1 M;
              Some (Inr knp, m\<lparr>mem := M\<rparr>) }) }) })"

text \<open>The two inner loops of \<^verbatim>\<open>ob_knode_resolve\<close>; \<open>buf\<close> is the address of its local \<^verbatim>\<open>pathbuf\<close>.\<close>

partial_function (option) skip_slashes :: "memory \<Rightarrow> addr \<Rightarrow> addr option" where
  "skip_slashes M p = (if M p = 47 \<and> M p \<noteq> 0 then skip_slashes M (p + 1) else Some p)"

partial_function (option) fill_component :: "addr \<Rightarrow> addr \<Rightarrow> u64 \<Rightarrow> memory \<Rightarrow> ((addr \<times> u64) result \<times> memory) option" where
  "fill_component buf p idx M =
     (if M p \<noteq> 47 \<and> M p \<noteq> 0 then
        if idx \<ge> 128 - 1 then Some (Inl (- ENAMETOOLONG), M)
        else fill_component buf (p + 1) (idx + 1) (M(buf + idx := M p))
      else Some (Inr (p, idx), M))"

partial_function (option) resolve_loop ::
    "(string \<Rightarrow> addr) \<Rightarrow> addr \<Rightarrow> addr \<Rightarrow> addr \<Rightarrow> 'a ob_scheme \<Rightarrow> (addr result \<times> 'a ob_scheme) option" where
  "resolve_loop lit buf p knp m =
     (if mem m p \<noteq> 0 then do {
        p \<leftarrow> skip_slashes (mem m) p;
        (r, M) \<leftarrow> fill_component buf p 0 (mem m);
        let m = m\<lparr>mem := M\<rparr>;
        (case r of Inl e \<Rightarrow> Some (Inl e, m)
         | Inr pi \<Rightarrow> do {
             let m = m\<lparr>mem := (mem m)(buf + snd pi := 0)\<rparr>;
             r \<leftarrow> (if knp = NULL then ob_root_get lit buf True m else knode_subdir_find knp buf True m);
             (case r of Inl e \<Rightarrow> Some (Inl e, m)
              | Inr knp \<Rightarrow> resolve_loop lit buf (fst pi) knp m) }) }
      else Some (Inr knp, m))"

definition ob_knode_resolve ::
    "(string \<Rightarrow> addr) \<Rightarrow> addr \<Rightarrow> addr \<Rightarrow> int \<Rightarrow> bool \<Rightarrow> 'a ob_scheme \<Rightarrow> (addr result \<times> 'a ob_scheme) option" where
  "ob_knode_resolve lit buf path flags res m =
     (if path = NULL \<or> \<not> res then Some (Inl (- EINVAL), m)
      else resolve_loop lit buf path NULL m)"

section \<open>dir.c\<close>

definition ob_dir_new :: "addr \<Rightarrow> bool \<Rightarrow> 'a ob_scheme \<Rightarrow> (addr result \<times> 'a ob_scheme) option" where
  "ob_dir_new name res m =
     (if name = NULL \<or> \<not> res then Some (Inl (- EINVAL), m)
      else do {
        (r, m) \<leftarrow> ob_knode_new name K_DIR True m;
        (case r of Inl e \<Rightarrow> Some (Inl e, m)
         | Inr knp \<Rightarrow> do {
             (dirp, m) \<leftarrow> os_pool_allocate sizeof_knode_dir m;
             let m = m\<lparr>mem := set_kn_data knp dirp (mem m)\<rparr>;
             (if kn_data (mem m) knp = NULL then do {
                m \<leftarrow> os_pool_free knp m;
                Some (Inl (- ENOMEM), m) }
              else do {
                let dirp = kn_data (mem m) knp;
                let M = TAILQ_INIT (mem m) dirp;
                let M = set_dir_entry_count dirp 0 M;
                Some (Inr knp, m\<lparr>mem := M\<rparr>) }) }) })"

definition ob_dir_append :: "(string \<Rightarrow> addr) \<Rightarrow> addr \<Rightarrow> addr \<Rightarrow> 'a ob_scheme \<Rightarrow> (int \<times> 'a ob_scheme) option" where
  "ob_dir_append lit knp dir_kn m =
     (if knp = NULL then Some (- EINVAL, m)
      else do {
        r \<leftarrow> (if dir_kn = NULL then ob_root_get lit (lit ''/'') True m else Some (Inr dir_kn));
        (case r of Inl e \<Rightarrow> Some (e, m)
         | Inr dir_kn \<Rightarrow>
             if dir_kn = NULL then Some (- ENOENT, m)
             else if kn_type (mem m) dir_kn \<noteq> ktype_num K_DIR then Some (- ENOTSUP, m)
             else let dir = kn_data (mem m) dir_kn in
               if dir = NULL then Some (- EIO, m)
               else let M = TAILQ_INSERT_TAIL dir_link (mem m) dir knp;
                        M = set_dir_entry_count dir (dir_entry_count M dir + 1) M
                    in Some (0, m\<lparr>mem := M\<rparr>)) })"

definition ob_store_init :: "(string \<Rightarrow> addr) \<Rightarrow> 'a ob_scheme \<Rightarrow> 'a ob_scheme option" where
  "ob_store_init lit m =
     (if ob_is_init m then Some m
      else do {
        let m = m\<lparr>ob_is_init := True\<rparr>;
        (r, m) \<leftarrow> ob_dir_new (lit ''/'') True m;
        (case r of Inl e \<Rightarrow> None | Inr knp \<Rightarrow> Some (m\<lparr>root_dir := knp\<rparr>)) })"

end
