(* ===== verification/Hive_Initrd.thy ===== *)
theory Hive_Initrd
  imports Hive_Ob
begin

text \<open>
  The initial ram disk: the look-up of a file in the archive the boot loader passed as a module
  (\<^verbatim>\<open>core/initrd.c\<close>). The archive is read in place, so the packed header of a file is a group of
  loads at the offsets of its members.
\<close>

section \<open>initrd.c\<close>

definition MEMAR_MAGIC_LEN :: u64 where "MEMAR_MAGIC_LEN = 4"
definition FILE_NAME_MAX :: u64 where "FILE_NAME_MAX = 99"

record initrd_state = ob +
  initrd :: bpt_module

text \<open>\<^verbatim>\<open>struct file_hdr\<close> of the kernel: magic, header size, file size, name length, name.\<close>

definition hdr_hdr_size :: "memory \<Rightarrow> addr \<Rightarrow> u64" where "hdr_hdr_size M h = load64 M (h + 4)"
definition hdr_file_size :: "memory \<Rightarrow> addr \<Rightarrow> u64" where "hdr_file_size M h = load64 M (h + 12)"
definition hdr_fname_size :: "memory \<Rightarrow> addr \<Rightarrow> u8" where "hdr_fname_size M h = M (h + 20)"
definition hdr_name :: "addr \<Rightarrow> addr" where "hdr_name h = h + 21"

text \<open>The loop over the archive; \<open>magic\<close> is the address of the literal \<^verbatim>\<open>MEMAR_MAGIC\<close>.\<close>

partial_function (option) lookup_loop :: "memory \<Rightarrow> addr \<Rightarrow> addr \<Rightarrow> addr \<Rightarrow> addr \<Rightarrow> addr option" where
  "lookup_loop M magic path p_end p =
     (if p < p_end then
        let hdr = p in
        if memcmp M hdr magic MEMAR_MAGIC_LEN \<noteq> 0 then Some NULL
        else if memcmp M (hdr_name hdr) path (ucast (hdr_fname_size M hdr)) = 0
        then Some (PTR_OFFSET hdr (hdr_hdr_size M hdr))
        else lookup_loop M magic path p_end (PTR_OFFSET hdr (hdr_file_size M hdr + hdr_hdr_size M hdr))
      else Some NULL)"

definition initrd_lookup :: "(string \<Rightarrow> addr) \<Rightarrow> addr \<Rightarrow> 'a initrd_state_scheme \<Rightarrow> addr option" where
  "initrd_lookup lit path m =
     (if path = NULL then Some NULL
      else let path = (if mem m path = 47 then path + 1 else path);
               p = module_address (initrd m)
           in if p = NULL then Some NULL
              else let p_end = PTR_OFFSET p (module_length (initrd m))
                   in lookup_loop (mem m) (lit ''LORD'') path p_end p)"

definition initrd_init :: "(string \<Rightarrow> addr) \<Rightarrow> 'a initrd_state_scheme \<Rightarrow> 'a initrd_state_scheme option" where
  "initrd_init lit m = do {
     r \<leftarrow> bpt_get_module (lit ''/boot/initrd.mr'') True m;
     (case r of Inl e \<Rightarrow> None | Inr f \<Rightarrow> Some (m\<lparr>initrd := f\<rparr>)) }"

section \<open>Archives\<close>

text \<open>The bytes of a word in memory, and of a file in the format the kernel reads.\<close>

definition le_bytes :: "u64 \<Rightarrow> u8 list" where
  "le_bytes v = map (\<lambda>i. ucast (drop_bit (8 * i) v)) [0..<8]"

definition LORD :: "u8 list" where "LORD = map of_char ''LORD''"

definition mr_hdr :: "u8 list \<Rightarrow> nat \<Rightarrow> u8 list" where
  "mr_hdr n sz = LORD @ le_bytes (of_nat (21 + length n)) @ le_bytes (of_nat sz) @ of_nat (length n) # n"

definition mr_entry :: "u8 list \<times> u8 list \<Rightarrow> u8 list" where
  "mr_entry f = mr_hdr (fst f) (length (snd f)) @ snd f"

definition archive :: "memory \<Rightarrow> addr \<Rightarrow> bpt_module \<Rightarrow> (u8 list \<times> u8 list) list \<Rightarrow> bool" where
  "archive M magic f es \<longleftrightarrow> bytes_at M magic LORD \<and> bytes_at M (module_address f) (concat (map mr_entry es)) \<and>
     module_address f \<noteq> NULL \<and> unat (module_length f) = length (concat (map mr_entry es)) \<and>
     unat (module_address f) + unat (module_length f) < 18446744073709551616 \<and>
     (\<forall>e \<in> set es. length (fst e) < 256)"

lemma length_le_bytes [simp]: "length (le_bytes v) = 8"
  by (simp add: le_bytes_def)

lemma length_LORD [simp]: "length LORD = 4"
  by (simp add: LORD_def)

lemma load64_le_bytes: "bytes_at M a (le_bytes v) \<Longrightarrow> load64 M a = v"
  unfolding load64_def
  by (subst load_n_bytes [where v = v]) (auto simp: bytes_at_nth le_bytes_def take_bit_word_eq_self)

lemma length_mr_entry: "length (mr_entry (n, c)) = 21 + length n + length c"
  by (simp add: mr_entry_def mr_hdr_def)

text \<open>The four header fields of an entry in memory.\<close>

lemma memcmp_LORD: "bytes_at M magic LORD \<Longrightarrow> memcmp M a magic MEMAR_MAGIC_LEN = 0 \<longleftrightarrow> bytes_at M a LORD"
proof -
  assume m: "bytes_at M magic LORD"
  have "memcmp M a magic MEMAR_MAGIC_LEN = 0 \<longleftrightarrow> (\<forall>i < 4. M (a + of_nat i) = M (magic + of_nat i))"
    by (simp add: memcmp_zero MEMAR_MAGIC_LEN_def)
  then show ?thesis using m by (simp add: bytes_at_nth)
qed

lemma memcmp_name:
  assumes "bytes_at M a n" "length n < 256"
  shows "memcmp M a path (ucast (of_nat (length n) :: u8)) = 0 \<longleftrightarrow> bytes_at M path n"
proof -
  have "unat (of_nat (length n) :: u8) = length n" using assms(2) by (simp add: unat_of_nat take_bit_nat_eq_self)
  then have u: "unat (ucast (of_nat (length n) :: u8) :: u64) = length n"
    using assms(2) by (simp add: unsigned_ucast_eq take_bit_nat_eq_self)
  show ?thesis using assms(1) unfolding memcmp_zero u by (auto simp: bytes_at_nth)
qed

lemma entry_fields:
  assumes "bytes_at M p (mr_entry (n, c))" "length n < 256"
  shows "bytes_at M p LORD" "hdr_hdr_size M p = of_nat (21 + length n)" "hdr_file_size M p = of_nat (length c)"
    "hdr_fname_size M p = of_nat (length n)" "bytes_at M (hdr_name p) n" "bytes_at M (p + of_nat (21 + length n)) c"
proof -
  have b: "bytes_at M p LORD" "bytes_at M (p + 4) (le_bytes (of_nat (21 + length n)))"
    "bytes_at M (p + 12) (le_bytes (of_nat (length c)))" "M (p + 20) = of_nat (length n)"
    "bytes_at M (p + 21) n" "bytes_at M (p + (21 + of_nat (length n))) c"
    using assms(1) by (simp_all add: mr_entry_def mr_hdr_def bytes_at_append algebra_simps)
  show "bytes_at M p LORD" "bytes_at M (hdr_name p) n" "hdr_fname_size M p = of_nat (length n)"
    using b by (simp_all add: hdr_name_def hdr_fname_size_def)
  show "hdr_hdr_size M p = of_nat (21 + length n)" "hdr_file_size M p = of_nat (length c)"
    using b(2,3) by (simp_all only: hdr_hdr_size_def hdr_file_size_def load64_le_bytes)
  show "bytes_at M (p + of_nat (21 + length n)) c" using b(6) by simp
qed

text \<open>The address of the contents of the first file whose name has a property.\<close>

fun entry_addr :: "(u8 list \<Rightarrow> bool) \<Rightarrow> addr \<Rightarrow> (u8 list \<times> u8 list) list \<Rightarrow> addr" where
  "entry_addr P p [] = NULL"
| "entry_addr P p (e # es) =
     (if P (fst e) then p + of_nat (21 + length (fst e)) else entry_addr P (p + of_nat (length (mr_entry e))) es)"

lemma entry_addr_contents:
  assumes "bytes_at M p (concat (map mr_entry es))" "\<forall>e \<in> set es. length (fst e) < 256"
  shows "case find (\<lambda>e. P (fst e)) es of None \<Rightarrow> entry_addr P p es = NULL | Some e \<Rightarrow> bytes_at M (entry_addr P p es) (snd e)"
  using assms
proof (induction es arbitrary: p)
  case (Cons e es)
  obtain n c where e: "e = (n, c)" by (cases e)
  have "bytes_at M p (mr_entry (n, c))" "bytes_at M (p + of_nat (length (mr_entry e))) (concat (map mr_entry es))"
    using Cons.prems(1) by (simp_all add: e bytes_at_append)
  then show ?case using Cons entry_fields(6) [of M p n c] by (cases "P n") (auto simp: e split: option.splits)
qed simp

lemma entry_addr_cong: "(\<And>e. e \<in> set es \<Longrightarrow> P (fst e) = Q (fst e)) \<Longrightarrow> entry_addr P p es = entry_addr Q p es"
  by (induction es arbitrary: p) auto

lemma lookup_loop_entries:
  assumes "bytes_at M magic LORD" "bytes_at M p (concat (map mr_entry es))"
    "unat p + length (concat (map mr_entry es)) < 18446744073709551616" "\<forall>e \<in> set es. length (fst e) < 256"
  shows "lookup_loop M magic path (p + of_nat (length (concat (map mr_entry es)))) p = Some (entry_addr (bytes_at M path) p es)"
  using assms(2-4)
proof (induction es arbitrary: p)
  case Nil
  then show ?case by (subst lookup_loop.simps) simp
next
  case (Cons e es)
  obtain n c where e: "e = (n, c)" by (cases e)
  let ?len = "length (concat (map mr_entry es))" and ?l = "length (mr_entry e)"
  let ?q = "p + of_nat ?l"
  have b: "bytes_at M p (mr_entry (n, c))" "bytes_at M ?q (concat (map mr_entry es))"
    using Cons.prems(1) by (simp_all add: e bytes_at_append)
  have n: "length n < 256" using Cons.prems(3) by (simp add: e)
  note f = entry_fields [OF b(1) n]
  have l: "?l = 21 + length n + length c" by (simp add: e length_mr_entry)
  have tot: "length (concat (map mr_entry (e # es))) = ?l + ?len" by simp
  have small: "unat p + (?l + ?len) < 18446744073709551616" using Cons.prems(2) tot by simp
  have up: "unat (p + of_nat k) = unat p + k" if "k \<le> ?l + ?len" for k
    using small that by (subst unat_add64) (simp_all add: unat_of_nat64)
  have lt: "p < p + of_nat (?l + ?len)"
    using up [of "?l + ?len"] l by (simp only: word_less_nat_alt)
  have m: "memcmp M p magic MEMAR_MAGIC_LEN = 0" using memcmp_LORD [OF assms(1)] f(1) by simp
  have nm: "memcmp M (hdr_name p) path (ucast (hdr_fname_size M p)) = 0 \<longleftrightarrow> bytes_at M path n"
    using memcmp_name [OF f(5) n] f(4) by simp
  show ?case
  proof (cases "bytes_at M path n")
    case True
    then have "lookup_loop M magic path (p + of_nat (?l + ?len)) p = Some (p + of_nat (21 + length n))"
      using lt m nm f(2) by (subst lookup_loop.simps) (simp add: PTR_OFFSET_def Let_def)
    then show ?thesis using True f(6) by (simp only: tot) (simp add: e)
  next
    case False
    have step: "PTR_OFFSET p (hdr_file_size M p + hdr_hdr_size M p) = ?q"
      using f(2,3) l by (simp add: PTR_OFFSET_def algebra_simps)
    have fin: "p + of_nat (?l + ?len) = ?q + of_nat ?len" by (simp add: algebra_simps)
    have "lookup_loop M magic path (p + of_nat (?l + ?len)) p = lookup_loop M magic path (?q + of_nat ?len) ?q"
      using lt m nm False by (subst lookup_loop.simps) (simp add: step fin Let_def del: of_nat_add)
    moreover have "unat ?q + ?len < 18446744073709551616" using up [of ?l] small by simp
    ultimately show ?thesis
      using Cons.IH [OF b(2)] Cons.prems(3) False by (simp only: tot) (simp add: e)
  qed
qed

lemma initrd_lookup_entries:
  assumes "archive (mem m) (lit ''LORD'') (initrd m) es" "path \<noteq> NULL"
    and "path' = (if mem m path = 47 then path + 1 else path)"
  shows "initrd_lookup lit path m = Some (entry_addr (bytes_at (mem m) path') (module_address (initrd m)) es)"
proof -
  let ?p = "module_address (initrd m)" and ?len = "length (concat (map mr_entry es))"
  have a: "bytes_at (mem m) (lit ''LORD'') LORD" "bytes_at (mem m) ?p (concat (map mr_entry es))" "?p \<noteq> NULL"
    "unat ?p + ?len < 18446744073709551616" "\<forall>e \<in> set es. length (fst e) < 256"
    "unat (module_length (initrd m)) = ?len"
    using assms(1) by (auto simp: archive_def)
  have "module_length (initrd m) = of_nat ?len" using a(6) by (metis word_of_nat_eq_iff of_nat_unat ucast_id)
  then have "initrd_lookup lit path m = lookup_loop (mem m) (lit ''LORD'') path' (?p + of_nat ?len) ?p"
    using assms(2,3) a(3) by (simp add: initrd_lookup_def PTR_OFFSET_def Let_def)
  then show ?thesis using lookup_loop_entries [OF a(1,2,4,5), of path'] by simp
qed

text \<open>
  C33: On an archive in the kernel's format, \<^verbatim>\<open>initrd_lookup\<close> of a path, with its leading slash
  skipped, returns the address of the contents of the first file whose name the path starts with,
  and a null pointer when there is none. A file whose name is a proper prefix of the path is
  returned as well.
\<close>

theorem initrd_lookup_first:
  assumes "archive (mem m) (lit ''LORD'') (initrd m) es" "path \<noteq> NULL"
    and "path' = (if mem m path = 47 then path + 1 else path)"
  shows "\<exists>a. initrd_lookup lit path m = Some a \<and>
    (case find (\<lambda>e. bytes_at (mem m) path' (fst e)) es of
       None \<Rightarrow> a = NULL | Some e \<Rightarrow> bytes_at (mem m) a (snd e))"
  using initrd_lookup_entries [where lit = lit and m = m, OF assms] assms(1)
    entry_addr_contents [of "mem m" "module_address (initrd m)" es "bytes_at (mem m) path'"]
  by (simp add: archive_def)

text \<open>A machine with nothing in it.\<close>

definition initrd0 :: initrd_state where
  "initrd0 = \<lparr>mem = (\<lambda>_. 0), cr3 = 0, cr4 = 0, irq_on = True, uart = [],
     hooks = \<lparr>hook_get_vars = None, hook_get_mementry = None, hook_get_module = None\<rparr>,
     resp = \<lparr>r_memmap = None, r_hhdm_offset = None, r_rsdp_address = None, r_module = None\<rparr>,
     req = \<lparr>r_memmap = None, r_hhdm_offset = None, r_rsdp_address = None, r_module = None\<rparr>,
     usable_top = 0, mem_usable = 0, bitmap_size = 0, bitmap = NULL, last_bit = 0, bitmap_lock = 0,
     control = \<lparr>fl_bitmap = 0, sl_bitmap = (\<lambda>i. 0), blocks = (\<lambda>i j. NULL)\<rparr>,
     pool_is_init = False, pool_virt_base = NULL, pool_pma = 0, pool_lock = 0, tlsf_ctx = NULL,
     ob_is_init = False, root_dir = NULL,
     initrd = \<lparr>module_address = NULL, module_length = 0\<rparr>\<rparr>"

text \<open>An archive with the file \<^verbatim>\<open>sb\<close>, which the path \<^verbatim>\<open>/sbin\<close> finds.\<close>

definition initrd_witness :: initrd_state where
  "initrd_witness = initrd0\<lparr>mem := (\<lambda>_. 0)(4096 := 76, 4097 := 79, 4098 := 82, 4099 := 68, 4100 := 23,
       4108 := 1, 4116 := 2, 4117 := 115, 4118 := 98, 4119 := 7, 8192 := 76, 8193 := 79, 8194 := 82, 8195 := 68,
       12288 := 47, 12289 := 115, 12290 := 98, 12291 := 105, 12292 := 110),
     initrd := \<lparr>module_address = 4096, module_length = 24\<rparr>\<rparr>"

lemma initrd_lookup_first_witness:
  "\<exists>a. initrd_lookup (\<lambda>_. 8192) 12288 initrd_witness = Some a \<and> bytes_at (mem initrd_witness) a [7]"
proof -
  have le: "le_bytes 23 = [23, 0, 0, 0, 0, 0, 0, 0]" "le_bytes 1 = [1, 0, 0, 0, 0, 0, 0, 0]" by code_simp+
  have l: "LORD = [76, 79, 82, 68]" by (simp add: LORD_def)
  have "archive (mem initrd_witness) 8192 (initrd initrd_witness) [([115, 98], [7])]"
    by (simp add: archive_def mr_entry_def mr_hdr_def le l initrd_witness_def)
  moreover have "bytes_at (mem initrd_witness) 12289 [115, 98]" by (simp add: initrd_witness_def)
  moreover have "mem initrd_witness 12288 = 47" by (simp add: initrd_witness_def)
  ultimately show ?thesis
    using initrd_lookup_first [of initrd_witness "\<lambda>_. 8192" "[([115, 98], [7])]" 12288 12289] by simp
qed

end
