(* ===== verification/Hive_Acpi.thy ===== *)
theory Hive_Acpi
  imports Hive_Initrd
begin

text \<open>
  ACPI tables: \<^verbatim>\<open>acpi/acpi.c\<close> on the packed structures of \<^verbatim>\<open>acpi/tables.h\<close>, which are read in
  place, each member a load at its offset.
\<close>

section \<open>tables.h\<close>

definition OEMID_SIZE :: u64 where "OEMID_SIZE = 6"

text \<open>\<^verbatim>\<open>struct acpi_header\<close>, 36 bytes: the signature is at its start.\<close>

record acpi_header =
  ah_length :: u32
  ah_revision :: u8
  ah_checksum :: u8
  ah_oem_revision :: u32
  ah_creator_id :: u32
  ah_creator_revision :: u32

definition acpi_header_at :: "memory \<Rightarrow> addr \<Rightarrow> acpi_header" where
  "acpi_header_at M a = \<lparr>ah_length = load32 M (a + 4), ah_revision = M (a + 8), ah_checksum = M (a + 9),
     ah_oem_revision = load32 M (a + 24), ah_creator_id = load32 M (a + 28), ah_creator_revision = load32 M (a + 32)\<rparr>"

definition sizeof_acpi_header :: u64 where "sizeof_acpi_header = 36"

text \<open>\<^verbatim>\<open>struct acpi_rsdp\<close>; the OEM identification is at offset 9.\<close>

record acpi_rsdp =
  rp_signature :: u64
  rp_checksum :: u8
  rp_revision :: u8
  rp_rsdt_addr :: u32
  rp_length :: u32
  rp_xsdt_addr :: u64
  rp_ext_checksum :: u8

definition acpi_rsdp_at :: "memory \<Rightarrow> addr \<Rightarrow> acpi_rsdp" where
  "acpi_rsdp_at M a = \<lparr>rp_signature = load64 M a, rp_checksum = M (a + 8), rp_revision = M (a + 15),
     rp_rsdt_addr = load32 M (a + 16), rp_length = load32 M (a + 20), rp_xsdt_addr = load64 M (a + 24),
     rp_ext_checksum = M (a + 32)\<rparr>"

definition rsdp_oemid :: "addr \<Rightarrow> addr" where "rsdp_oemid a = a + 9"

text \<open>The entries of a root table are read as 32-bit words, for both kinds of table.\<close>

definition root_sdt_table :: "memory \<Rightarrow> addr \<Rightarrow> nat \<Rightarrow> u32" where
  "root_sdt_table M sdt i = load32 M (sdt + sizeof_acpi_header + of_nat (4 * i))"

definition sizeof_acpi_madt :: u64 where "sizeof_acpi_madt = sizeof_acpi_header + 4 + 4"

record apic_header =
  ap_type :: u8
  ap_length :: u8

definition apic_header_at :: "memory \<Rightarrow> addr \<Rightarrow> apic_header" where
  "apic_header_at M a = \<lparr>ap_type = M a, ap_length = M (a + 1)\<rparr>"

section \<open>acpi.c\<close>

record acpi_state = initrd_state +
  rsdp :: addr
  sdt :: addr
  sdt_entries :: u64
  madt :: addr

definition dtrace :: "u8 list \<Rightarrow> string \<Rightarrow> va_val list \<Rightarrow> 'a machine_scheme \<Rightarrow> 'a machine_scheme option" where
  "dtrace stk s ap m = printf stk (cstring (''acpi: '' @ s)) ap m"

definition dtrace_line :: "u8 list \<Rightarrow> string \<Rightarrow> va_val list \<Rightarrow> 'a machine_scheme \<Rightarrow> 'a machine_scheme option" where
  "dtrace_line stk s ap m = printf stk (cline (''acpi: '' @ s)) ap m"

text \<open>The bytes of the OEM identification with a terminator, in a local array.\<close>

definition oemid_bytes :: "memory \<Rightarrow> addr \<Rightarrow> u8 list" where
  "oemid_bytes M a = map (\<lambda>i. M (rsdp_oemid a + of_nat i)) [0..<unat OEMID_SIZE] @ [0]"

definition acpi_print_oemid :: "u8 list \<Rightarrow> u8 list \<Rightarrow> addr \<Rightarrow> 'a machine_scheme \<Rightarrow> 'a machine_scheme option" where
  "acpi_print_oemid stk1 stk2 rp m = do {
     let oemid = oemid_bytes (mem m) rp;
     let rev = rp_revision (acpi_rsdp_at (mem m) rp);
     let rev = (if rev = 0 then rev + 1 else rev);
     m \<leftarrow> dtrace stk1 ''DETECTED ACPI %d.0'' [VInt (ucast rev)] m;
     dtrace stk2 ''VENDOR: %s'' [VStr oemid] m }"

text \<open>The sum of the bytes of a table, modulo 256.\<close>

fun csum_loop :: "memory \<Rightarrow> addr \<Rightarrow> nat \<Rightarrow> nat \<Rightarrow> u8 \<Rightarrow> u8" where
  "csum_loop M hdr i 0 csum = csum"
| "csum_loop M hdr i (Suc k) csum = csum_loop M hdr (Suc i) k (csum + M (hdr + of_nat i))"

definition acpi_checksum :: "memory \<Rightarrow> addr \<Rightarrow> int" where
  "acpi_checksum M hdr = (
     let csum = csum_loop M hdr 0 (unat (ah_length (acpi_header_at M hdr))) 0
     in if csum = 0 then 0 else - 1)"

fun query_loop :: "addr \<Rightarrow> nat \<Rightarrow> nat \<Rightarrow> 'a acpi_state_scheme \<Rightarrow> addr option" where
  "query_loop s i 0 m = Some NULL"
| "query_loop s i (Suc k) m = do {
     hdr \<leftarrow> PHYS_TO_VIRT (ucast (root_sdt_table (mem m) (sdt m) i)) m;
     (if memcmp (mem m) hdr s 4 = 0 then Some (if acpi_checksum (mem m) hdr = 0 then hdr else NULL)
      else query_loop s (Suc i) k m) }"

definition acpi_query :: "addr \<Rightarrow> 'a acpi_state_scheme \<Rightarrow> addr option" where
  "acpi_query s m = query_loop s 0 (unat (sdt_entries m)) m"

text \<open>
  The callback gets the address of an entry, the argument and the state. The variable \<^verbatim>\<open>retval\<close> is
  not initialised: its first value is an argument.
\<close>

partial_function (option) madt_loop ::
    "u32 \<Rightarrow> (addr \<Rightarrow> u64 \<Rightarrow> 'a acpi_state_scheme \<Rightarrow> (int \<times> 'a acpi_state_scheme) option) \<Rightarrow> u64
      \<Rightarrow> addr \<Rightarrow> addr \<Rightarrow> int \<Rightarrow> 'a acpi_state_scheme \<Rightarrow> (int \<times> 'a acpi_state_scheme) option" where
  "madt_loop type cb arg tend cur retval m =
     (if cur < tend then do {
        let hdr = apic_header_at (mem m) cur;
        (retval, m) \<leftarrow> (if ucast (ap_type hdr) = type then cb cur arg m else Some (retval, m));
        (if retval \<ge> 0 then Some (retval, m)
         else madt_loop type cb arg tend (cur + ucast (ap_length (apic_header_at (mem m) cur))) retval m) }
      else Some (- 1, m))"

definition acpi_read_madt ::
    "(string \<Rightarrow> addr) \<Rightarrow> int \<Rightarrow> u32
      \<Rightarrow> (addr \<Rightarrow> u64 \<Rightarrow> 'a acpi_state_scheme \<Rightarrow> (int \<times> 'a acpi_state_scheme) option) option \<Rightarrow> u64
      \<Rightarrow> 'a acpi_state_scheme \<Rightarrow> (int \<times> 'a acpi_state_scheme) option" where
  "acpi_read_madt lit retval0 type cb arg m =
     (case cb of None \<Rightarrow> Some (- EINVAL, m)
      | Some f \<Rightarrow> do {
          m \<leftarrow> (if madt m = NULL then do { t \<leftarrow> acpi_query (lit ''APIC'') m; Some (m\<lparr>madt := t\<rparr>) } else Some m);
          (if madt m = NULL then None
           else madt_loop type f arg (madt m + ucast (ah_length (acpi_header_at (mem m) (madt m))))
             (madt m + sizeof_acpi_madt) retval0 m) })"

definition acpi_print_rsdp :: "u8 list \<Rightarrow> 'a acpi_state_scheme \<Rightarrow> 'a acpi_state_scheme option" where
  "acpi_print_rsdp stk m = (
     let m = (if rp_revision (acpi_rsdp_at (mem m) (rsdp m)) = 0 then m\<lparr>mem := (mem m)(rsdp m + 15 := 1)\<rparr> else m);
         oemid = oemid_bytes (mem m) (rsdp m)
     in dtrace_line stk ''acpi %d.0 by %s''
          [VInt (ucast (rp_revision (acpi_rsdp_at (mem m) (rsdp m)))), VStr oemid] m)"

definition acpi_init :: "(nat \<Rightarrow> u8 list) \<Rightarrow> 'a acpi_state_scheme \<Rightarrow> 'a acpi_state_scheme option" where
  "acpi_init stk m = do {
     r \<leftarrow> bpt_get_vars True m;
     (case r of Inl e \<Rightarrow> None
      | Inr vars \<Rightarrow> do {
          let m = m\<lparr>rsdp := rsdp_base vars\<rparr>;
          (if rsdp m = NULL then None
           else do {
             m \<leftarrow> acpi_print_rsdp (stk 0) m;
             (if rp_revision (acpi_rsdp_at (mem m) (rsdp m)) \<ge> 2 then do {
                t \<leftarrow> PHYS_TO_VIRT (rp_xsdt_addr (acpi_rsdp_at (mem m) (rsdp m))) m;
                let m = m\<lparr>sdt := t\<rparr>;
                let m = m\<lparr>sdt_entries := (ucast (ah_length (acpi_header_at (mem m) (sdt m))) - sizeof_acpi_header) div 8\<rparr>;
                dtrace_line (stk 1) ''using xsdt as root sdt'' [] m }
              else do {
                t \<leftarrow> PHYS_TO_VIRT (ucast (rp_rsdt_addr (acpi_rsdp_at (mem m) (rsdp m)))) m;
                let m = m\<lparr>sdt := t\<rparr>;
                let m = m\<lparr>sdt_entries := (ucast (ah_length (acpi_header_at (mem m) (sdt m))) - sizeof_acpi_header) div 4\<rparr>;
                dtrace_line (stk 1) ''using rsdt as root sdt'' [] m }) }) }) }"

section \<open>Checksums and queries\<close>

lemma csum_loop_sum:
  "csum_loop M hdr i k c = c + of_nat (\<Sum>j = i..<i + k. unat (M (hdr + of_nat j)))"
proof (induction k arbitrary: i c)
  case (Suc k)
  have "{i..<i + Suc k} = insert i {Suc i..<Suc i + k}" by auto
  then show ?case using Suc by (simp add: algebra_simps)
qed simp

lemma of_nat_u8_zero: "(of_nat n :: u8) = 0 \<longleftrightarrow> n mod 256 = 0"
proof -
  have "(of_nat n :: u8) = 0 \<longleftrightarrow> unat (of_nat n :: u8) = 0" by (simp only: unat_eq_0)
  also have "unat (of_nat n :: u8) = n mod 256" by (simp only: unat_of_nat take_bit_nat_def) simp
  finally show ?thesis .
qed

lemma query_loop_find:
  assumes "bpt_kernel_base m = Some off" "bytes_at (mem m) s sig" "length sig = 4"
  shows "query_loop s i k m = Some
    (case find (\<lambda>j. bytes_at (mem m) (ucast (root_sdt_table (mem m) (sdt m) j) + off) sig) [i..<i + k] of
       None \<Rightarrow> NULL
     | Some j \<Rightarrow> let t = ucast (root_sdt_table (mem m) (sdt m) j) + off
         in if acpi_checksum (mem m) t = 0 then t else NULL)"
proof (induction k arbitrary: i)
  case (Suc k)
  let ?t = "ucast (root_sdt_table (mem m) (sdt m) i) + off"
  have p: "PHYS_TO_VIRT (ucast (root_sdt_table (mem m) (sdt m) i)) m = Some ?t"
    using assms(1) by (simp add: PHYS_TO_VIRT_def PTR_OFFSET_def)
  have c: "memcmp (mem m) ?t s 4 = 0 \<longleftrightarrow> bytes_at (mem m) ?t sig"
    using assms(2,3) by (auto simp: memcmp_zero bytes_at_nth)
  have u: "[i..<Suc (i + k)] = i # [Suc i..<Suc (i + k)]" by (simp add: upt_conv_Cons)
  show ?case using Suc c by (simp add: p u Let_def del: upt_Suc)
qed simp

text \<open>
  C34: \<^verbatim>\<open>acpi_query\<close> returns the first table of the root table with the signature if the bytes
  of that table sum to zero modulo 256, and a null pointer when they do not, even if a later
  table has the signature too, or when no table has it.
\<close>

theorem acpi_query_first:
  assumes "bpt_kernel_base m = Some off" "bytes_at (mem m) s sig" "length sig = 4"
  shows "acpi_query s m = Some
    (case find (\<lambda>j. bytes_at (mem m) (ucast (root_sdt_table (mem m) (sdt m) j) + off) sig) [0..<unat (sdt_entries m)] of
       None \<Rightarrow> NULL
     | Some j \<Rightarrow> let t = ucast (root_sdt_table (mem m) (sdt m) j) + off
         in if (\<Sum>i < unat (ah_length (acpi_header_at (mem m) t)). unat (mem m (t + of_nat i))) mod 256 = 0 then t else NULL)"
proof -
  have "acpi_checksum (mem m) t = 0 \<longleftrightarrow>
    (\<Sum>i < unat (ah_length (acpi_header_at (mem m) t)). unat (mem m (t + of_nat i))) mod 256 = 0" for t
    by (simp add: acpi_checksum_def csum_loop_sum of_nat_u8_zero atLeast0LessThan del: of_nat_sum)
  then show ?thesis using query_loop_find [OF assms, of 0 "unat (sdt_entries m)"]
    by (simp add: acpi_query_def cong: option.case_cong)
qed

lemma load32_bytes:
  "load32 M a = ucast (ucast (M a) OR push_bit 8 (ucast (M (a + 1)) OR push_bit 8 (ucast (M (a + 2)) OR
     push_bit 8 (ucast (M (a + 3)) :: u64))))"
proof -
  have "(4 :: nat) = Suc (Suc (Suc (Suc 0)))" by simp
  then show ?thesis by (simp only: load32_def load_n.simps) (simp add: add.assoc)
qed

text \<open>A machine with nothing in it.\<close>

definition acpi0 :: acpi_state where
  "acpi0 = initrd_state.extend initrd0 (acpi_state.fields NULL NULL 0 NULL)"

lemmas acpi0_simps = acpi0_def initrd_state.defs acpi_state.defs initrd0_def

text \<open>A root table at 4096 with one entry, the table \<^verbatim>\<open>APIC\<close> of nine bytes at 8192.\<close>

definition acpi_witness :: acpi_state where
  "acpi_witness = acpi0\<lparr>mem := (\<lambda>_. 0)(4133 := 0x20, 8192 := 65, 8193 := 80, 8194 := 73, 8195 := 67, 8196 := 9,
       8200 := 218, 12288 := 65, 12289 := 80, 12290 := 73, 12291 := 67),
     hooks := \<lparr>hook_get_vars = Some limine_get_vars, hook_get_mementry = None, hook_get_module = None\<rparr>,
     resp := \<lparr>r_memmap = None, r_hhdm_offset = Some 0, r_rsdp_address = Some 16, r_module = None\<rparr>,
     sdt := 4096, sdt_entries := 1\<rparr>"

lemma acpi_query_first_witness: "acpi_query 12288 acpi_witness = Some 8192"
proof -
  have b: "bpt_kernel_base acpi_witness = Some 0"
    by (rule bpt_kernel_base_limine) (simp_all add: acpi_witness_def acpi0_simps)
  have s: "bytes_at (mem acpi_witness) 12288 [65, 80, 73, 67]" by (simp add: acpi_witness_def acpi0_simps)
  have t: "root_sdt_table (mem acpi_witness) (sdt acpi_witness) 0 = 0x2000"
    by (simp add: acpi_witness_def acpi0_simps root_sdt_table_def load32_bytes sizeof_acpi_header_def push_bit_eq_mult)
  have l: "ah_length (acpi_header_at (mem acpi_witness) 8192) = 9"
    by (simp add: acpi_witness_def acpi0_simps acpi_header_at_def load32_bytes push_bit_eq_mult)
  have m: "bytes_at (mem acpi_witness) 8192 [65, 80, 73, 67]" by (simp add: acpi_witness_def acpi0_simps)
  have c: "(\<Sum>i < 9. unat (mem acpi_witness (8192 + of_nat i))) mod 256 = 0"
    by (simp add: lessThan_nat_numeral) (simp add: acpi_witness_def acpi0_simps)
  have n: "unat (sdt_entries acpi_witness) = 1" by (simp add: acpi_witness_def)
  show ?thesis using acpi_query_first [OF b s] m c by (simp add: n t l)
qed

section \<open>The extended root table\<close>

lemma load_n_add: "load_n (a + b) M p = load_n a M p OR push_bit (8 * a) (load_n b M (p + of_nat a))"
proof (induction a arbitrary: p)
  case (Suc a)
  have "load_n (a + b) M (p + 1) = load_n a M (p + 1) OR push_bit (8 * a) (load_n b M (p + 1 + of_nat a))" by (rule Suc)
  then show ?case by (simp add: push_bit_or add.assoc) (simp add: or.assoc algebra_simps)
qed simp

lemma load_n_bit: "bit (load_n n M p) i \<Longrightarrow> i < 8 * n"
proof (induction n arbitrary: p i)
  case (Suc n)
  then consider "bit (ucast (M p) :: u64) i" | "8 \<le> i" "bit (load_n n M (p + 1)) (i - 8)"
    by (auto simp: bit_or_iff bit_push_bit_iff)
  then show ?case
  proof cases
    case 1
    then have "bit (M p) i" by (simp add: bit_unsigned_iff)
    then show ?thesis using bit_imp_le_length [of "M p" i] by simp
  next
    case 2
    then show ?thesis using Suc.IH [OF 2(2)] by simp
  qed
qed simp

lemma halves:
  fixes lo hi :: u64
  assumes "\<And>i. bit lo i \<Longrightarrow> i < 32" "\<And>i. bit hi i \<Longrightarrow> i < 32"
  shows "ucast (lo OR push_bit 32 hi) = (ucast lo :: u32)" "ucast (drop_bit 32 (lo OR push_bit 32 hi)) = (ucast hi :: u32)"
proof -
  show "ucast (lo OR push_bit 32 hi) = (ucast lo :: u32)"
    by (rule bit_word_eqI) (auto simp: bit_simps)
  have "\<not> bit lo (32 + i)" for i using assms(1) [of "32 + i"] by auto
  then show "ucast (drop_bit 32 (lo OR push_bit 32 hi)) = (ucast hi :: u32)"
    by (intro bit_word_eqI) (auto simp: bit_simps)
qed

text \<open>
  The entries of an extended root table are 64-bit addresses, but \<^verbatim>\<open>acpi_query\<close> reads them as
  32-bit words: entry \<open>2j\<close> is the low and entry \<open>2j+1\<close> the high half of address \<open>j\<close>, so
  with as many entries as the table has addresses only the first half of the tables is looked at.
\<close>

theorem acpi_xsdt_halves:
  "root_sdt_table M x (2 * j) = ucast (load64 M (x + sizeof_acpi_header + of_nat (8 * j))) \<and>
   root_sdt_table M x (2 * j + 1) = ucast (drop_bit 32 (load64 M (x + sizeof_acpi_header + of_nat (8 * j))))"
proof -
  let ?a = "x + sizeof_acpi_header + of_nat (8 * j)"
  have l: "load64 M ?a = load_n 4 M ?a OR push_bit 32 (load_n 4 M (?a + 4))"
    using load_n_add [of 4 4 M ?a] by (simp add: load64_def)
  have b: "bit (load_n 4 M p) i \<Longrightarrow> i < 32" for p i using load_n_bit [of 4 M p i] by simp
  have e: "x + sizeof_acpi_header + of_nat (4 * (2 * j)) = ?a" "x + sizeof_acpi_header + of_nat (4 * (2 * j + 1)) = ?a + 4"
    by simp_all
  have "root_sdt_table M x (2 * j) = ucast (load_n 4 M ?a)" "root_sdt_table M x (2 * j + 1) = ucast (load_n 4 M (?a + 4))"
    unfolding root_sdt_table_def load32_def e by simp_all
  moreover have "ucast (load64 M ?a) = (ucast (load_n 4 M ?a) :: u32)"
    "ucast (drop_bit 32 (load64 M ?a)) = (ucast (load_n 4 M (?a + 4)) :: u32)"
    unfolding l by (rule halves [OF b b], assumption+)+
  ultimately show ?thesis by simp
qed

section \<open>The multiple APIC description table\<close>

text \<open>The entries from \<open>cur\<close> to \<open>tend\<close>: each has a positive length and ends where the next starts.\<close>

fun madt_entries :: "memory \<Rightarrow> addr \<Rightarrow> addr list \<Rightarrow> addr \<Rightarrow> bool" where
  "madt_entries M cur [] tend \<longleftrightarrow> cur = tend"
| "madt_entries M cur (x # xs) tend \<longleftrightarrow>
     x = cur \<and> cur < tend \<and> madt_entries M (cur + ucast (ap_length (apic_header_at M cur))) xs tend"

text \<open>Calling back for the entries of a type, in order, until a call answers with a non-negative number.\<close>

fun visit_entries ::
    "u32 \<Rightarrow> (addr \<Rightarrow> u64 \<Rightarrow> 'a acpi_state_scheme \<Rightarrow> (int \<times> 'a acpi_state_scheme) option) \<Rightarrow> u64
      \<Rightarrow> addr list \<Rightarrow> 'a acpi_state_scheme \<Rightarrow> (int \<times> 'a acpi_state_scheme) option" where
  "visit_entries type cb arg [] m = Some (- 1, m)"
| "visit_entries type cb arg (x # xs) m =
     (if ucast (ap_type (apic_header_at (mem m) x)) = type then do {
        (r, m) \<leftarrow> cb x arg m;
        (if r \<ge> 0 then Some (r, m) else visit_entries type cb arg xs m) }
      else visit_entries type cb arg xs m)"

text \<open>A callback that does not change the memory of the table.\<close>

definition keeps_mem :: "(addr \<Rightarrow> u64 \<Rightarrow> 'a acpi_state_scheme \<Rightarrow> (int \<times> 'a acpi_state_scheme) option) \<Rightarrow> bool" where
  "keeps_mem cb \<longleftrightarrow> (\<forall>x arg m r m'. cb x arg m = Some (r, m') \<longrightarrow> mem m' = mem m)"

lemma madt_loop_visits:
  assumes "madt_entries (mem m) cur xs tend" "keeps_mem cb" "r0 < 0"
  shows "madt_loop type cb arg tend cur r0 m = visit_entries type cb arg xs m"
  using assms(1,3)
proof (induction xs arbitrary: cur r0 m)
  case Nil
  then show ?case by (subst madt_loop.simps) simp
next
  case (Cons x xs)
  let ?n = "cur + ucast (ap_length (apic_header_at (mem m) cur))"
  have c: "cur < tend" "x = cur" "madt_entries (mem m) ?n xs tend" using Cons.prems by auto
  show ?case
  proof (cases "ucast (ap_type (apic_header_at (mem m) cur)) = type")
    case False
    then show ?thesis
      using c Cons.IH [OF c(3) Cons.prems(2)] Cons.prems(2) by (subst madt_loop.simps) simp
  next
    case True
    show ?thesis
    proof (cases "cb cur arg m")
      case None
      then show ?thesis using True c by (subst madt_loop.simps) simp
    next
      case (Some rm)
      obtain r m' where rm: "rm = (r, m')" by (cases rm)
      have mm: "mem m' = mem m" using assms(2) Some rm by (simp add: keeps_mem_def)
      show ?thesis
        using True c Some rm mm Cons.IH [of m' ?n r] by (subst madt_loop.simps) (simp add: not_le)
    qed
  qed
qed

text \<open>An entry of length 0 that is not of the type keeps the loop where it is.\<close>

lemma madt_loop_stuck:
  assumes "cur < tend" "ap_length (apic_header_at (mem m) cur) = 0"
    "ucast (ap_type (apic_header_at (mem m) cur)) \<noteq> type" "r0 < 0"
  shows "madt_loop type cb arg tend cur r0 m = None"
proof -
  have "\<not> (cur < tend \<and> ap_length (apic_header_at (mem m) cur) = 0 \<and>
      ucast (ap_type (apic_header_at (mem m) cur)) \<noteq> type \<and> r0 < 0)"
    if "madt_loop type cb arg tend cur r0 m = Some y" for type cb arg tend cur r0 and m :: "'a acpi_state_scheme" and y
    using that
    by (rule madt_loop.raw_induct [where P = "\<lambda>type cb arg tend cur r0 m y. \<not> (cur < tend \<and>
        ap_length (apic_header_at (mem m) cur) = 0 \<and> ucast (ap_type (apic_header_at (mem m) cur)) \<noteq> type \<and> r0 < 0)", rotated])
      (fastforce split: if_splits)
  then show ?thesis using assms by (cases "madt_loop type cb arg tend cur r0 m") blast+
qed

text \<open>
  C35: With a cached table whose entries have positive lengths and fill it, and a callback that leaves the
  memory alone, \<^verbatim>\<open>acpi_read_madt\<close> calls back exactly for the entries of the type, in order, until a
  call answers with a non-negative number, which it returns, or else returns -1, provided its
  uninitialised result happens to be negative. When that is non-negative and the first entry has another type, it returns
  it at once; and when an entry of another type has length 0, it never returns.
\<close>

theorem acpi_read_madt_visits:
  assumes "madt m \<noteq> NULL" "tend = madt m + ucast (ah_length (acpi_header_at (mem m) (madt m)))"
    and "cur = madt m + sizeof_acpi_madt"
  shows "(madt_entries (mem m) cur xs tend \<and> keeps_mem cb \<and> r0 < 0 \<longrightarrow>
      acpi_read_madt lit r0 type (Some cb) arg m = visit_entries type cb arg xs m) \<and>
    (cur < tend \<and> ucast (ap_type (apic_header_at (mem m) cur)) \<noteq> type \<longrightarrow>
      (0 \<le> r0 \<longrightarrow> acpi_read_madt lit r0 type (Some cb) arg m = Some (r0, m)) \<and>
      (r0 < 0 \<and> ap_length (apic_header_at (mem m) cur) = 0 \<longrightarrow> acpi_read_madt lit r0 type (Some cb) arg m = None))"
proof (intro conjI impI)
  have r: "acpi_read_madt lit r0 type (Some cb) arg m = madt_loop type cb arg tend cur r0 m"
    using assms by (simp add: acpi_read_madt_def)
  show "acpi_read_madt lit r0 type (Some cb) arg m = visit_entries type cb arg xs m"
    if "madt_entries (mem m) cur xs tend \<and> keeps_mem cb \<and> r0 < 0"
    unfolding r using that by (intro madt_loop_visits) auto
  show "acpi_read_madt lit r0 type (Some cb) arg m = Some (r0, m)"
    if "cur < tend \<and> ucast (ap_type (apic_header_at (mem m) cur)) \<noteq> type" "0 \<le> r0"
    unfolding r using that by (subst madt_loop.simps) simp
  show "acpi_read_madt lit r0 type (Some cb) arg m = None"
    if "cur < tend \<and> ucast (ap_type (apic_header_at (mem m) cur)) \<noteq> type"
      "r0 < 0 \<and> ap_length (apic_header_at (mem m) cur) = 0"
    unfolding r using that by (intro madt_loop_stuck) auto
qed

text \<open>A table of 52 bytes at 4096 with one entry of 8 bytes.\<close>

lemma acpi_read_madt_visits_witness:
  "acpi_read_madt (\<lambda>_. 0) (- 1) 5 (Some (\<lambda>x arg m. Some (int (unat x), m))) 0
     (acpi0\<lparr>mem := (\<lambda>_. 0)(4100 := 52, 4140 := 5, 4141 := 8), madt := 4096\<rparr>) =
   Some (4140, acpi0\<lparr>mem := (\<lambda>_. 0)(4100 := 52, 4140 := 5, 4141 := 8), madt := 4096\<rparr>)"
proof -
  let ?m = "acpi0\<lparr>mem := (\<lambda>_. 0)(4100 := 52, 4140 := 5, 4141 := 8), madt := 4096\<rparr>"
  let ?cb = "\<lambda>x (arg :: u64) m :: acpi_state. Some (int (unat x), m)"
  have l: "ah_length (acpi_header_at (mem ?m) 4096) = 52"
    by (simp add: acpi_header_at_def load32_bytes push_bit_eq_mult)
  have e: "madt_entries (mem ?m) 4140 [4140] 4148" by (simp add: apic_header_at_def)
  have k: "keeps_mem ?cb" by (simp add: keeps_mem_def)
  have "acpi_read_madt (\<lambda>_. 0) (- 1) 5 (Some ?cb) 0 ?m = visit_entries 5 ?cb 0 [4140] ?m"
    using acpi_read_madt_visits [where m = ?m and tend = 4148 and cur = 4140 and xs = "[4140]" and cb = ?cb and ?r0.0 = "- 1"] l e k
    by (simp add: sizeof_acpi_madt_def sizeof_acpi_header_def)
  then show ?thesis by (simp add: apic_header_at_def)
qed

end
