(* ===== verification/Hive_Cpu.thy ===== *)
theory Hive_Cpu
  imports Hive_Acpi
begin

text \<open>
  The processor of the amd64 port: interrupt gates (\<^verbatim>\<open>cpu/idt.c\<close>), the task state segment
  (\<^verbatim>\<open>cpu/tss.c\<close>), model specific registers (\<^verbatim>\<open>md/msr.h\<close>), traps (\<^verbatim>\<open>cpu/trap.c\<close>), the control
  region (\<^verbatim>\<open>cpu/cpu.c\<close>), and the clock devices: the time stamp counter (\<^verbatim>\<open>tsc.c\<close>) registered as a
  kernel node by \<^verbatim>\<open>io/timer.c\<close> and \<^verbatim>\<open>core/timer.c\<close>. A descriptor is a record of its bit fields, each as
  wide as the field; instructions act on fields of the machine's state.
\<close>

section \<open>gdt.h, idt.h, tss.h, msr.h and frame.h\<close>

definition GDT_KCODE :: u16 where "GDT_KCODE = 0x08"
definition GDT_KDATA :: u16 where "GDT_KDATA = 0x10"
definition GDT_UCODE :: u16 where "GDT_UCODE = 0x18"
definition GDT_UDATA :: u16 where "GDT_UDATA = 0x20"
definition GDT_TSS :: u16 where "GDT_TSS = 0x28"

definition IDT_INT_GATE :: u8 where "IDT_INT_GATE = 0x8E"
definition IDT_TRAP_GATE :: u8 where "IDT_TRAP_GATE = 0x8F"
definition IDT_USER_GATE :: u8 where "IDT_USER_GATE = 0xEE"

record idt_gate =
  offset_low :: u16
  target_cs :: u16
  g_ist :: "3 word"
  g_zero :: "5 word"
  g_type :: "4 word"
  g_zero1 :: "1 word"
  g_dpl :: "2 word"
  g_p :: "1 word"
  offset_mid :: u16
  offset_high :: u32
  g_reserved :: u32

record idtr =
  idtr_limit :: u16
  idtr_offset :: addr

record tss_desc =
  seglim_low :: u16
  base_low :: u16
  base_mid :: u8
  t_type :: "4 word"
  t_zero :: "1 word"
  t_dpl :: "2 word"
  t_p :: "1 word"
  seglim_high :: "4 word"
  t_avl :: "1 word"
  t_zero1 :: "2 word"
  t_gran :: "1 word"
  base_mid1 :: u8
  base_high :: u32
  t_reserved :: u8
  t_zero2 :: "5 word"
  t_reserved1 :: "19 word"

definition sizeof_tss_entry :: u64 where "sizeof_tss_entry = 25 * 4 + 2 * 2"

definition IA32_GS_BASE :: u32 where "IA32_GS_BASE = 0xC0000101"

text \<open>What a trap handler finds on its stack.\<close>

record trapframe =
  tf_vector :: u64
  tf_r15 :: u64
  tf_r14 :: u64
  tf_r13 :: u64
  tf_r12 :: u64
  tf_r11 :: u64
  tf_r10 :: u64
  tf_r9 :: u64
  tf_r8 :: u64
  tf_rbp :: u64
  tf_rdi :: u64
  tf_rsi :: u64
  tf_rbx :: u64
  tf_rdx :: u64
  tf_rcx :: u64
  tf_rax :: u64
  tf_error_code :: u64
  tf_rip :: u64
  tf_cs :: u64
  tf_rflags :: u64
  tf_rsp :: u64
  tf_ss :: u64

text \<open>
  The state: the interrupt descriptor table and its register, the task register, the model
  specific registers, the time stamp counter, and the static node of the clock device.
\<close>

record cpu = acpi_state +
  idt :: "u8 \<Rightarrow> idt_gate"
  idt_register :: "idtr option"
  task_register :: u16
  msrs :: "u32 \<Rightarrow> u64"
  tsc_value :: u64
  tsc_knp :: addr

text \<open>The two halves of a register that \<^verbatim>\<open>wrmsr\<close> and \<^verbatim>\<open>rdmsr\<close> move.\<close>

definition md_wrmsr :: "u32 \<Rightarrow> u64 \<Rightarrow> 'a cpu_scheme \<Rightarrow> 'a cpu_scheme" where
  "md_wrmsr msr v m = (
     let lo = (ucast (v AND 0xFFFFFFFF) :: u32);
         hi = (ucast (drop_bit 32 v AND 0xFFFFFFFF) :: u32)
     in m\<lparr>msrs := (msrs m)(msr := push_bit 32 (ucast hi) OR ucast lo)\<rparr>)"

definition md_rdmsr :: "u32 \<Rightarrow> 'a cpu_scheme \<Rightarrow> u64" where
  "md_rdmsr msr m = (
     let lo = (ucast (msrs m msr) :: u32); hi = (ucast (drop_bit 32 (msrs m msr)) :: u32)
     in push_bit 32 (ucast hi) OR ucast lo)"

section \<open>idt.c\<close>

text \<open>An assignment to a bit field keeps the low bits of the value.\<close>

definition md_idt_set :: "u8 \<Rightarrow> u8 \<Rightarrow> addr \<Rightarrow> u8 \<Rightarrow> 'a cpu_scheme \<Rightarrow> 'a cpu_scheme" where
  "md_idt_set vector type isr ist m = (
     let gate = (idt m vector)
       \<lparr>offset_low := ucast (isr AND 0xFFFF),
        offset_mid := ucast (drop_bit 16 isr AND 0xFFFF),
        offset_high := ucast (drop_bit 32 isr AND 0xFFFFFFFF),
        target_cs := GDT_KCODE,
        g_ist := ucast ist,
        g_zero := 0, g_zero1 := 0, g_reserved := 0, g_p := 1,
        g_dpl := (if type = IDT_USER_GATE then 3 else 0),
        g_type := ucast type\<rparr>
     in m\<lparr>idt := (idt m)(vector := gate)\<rparr>)"

text \<open>The limit is that of 256 gates of 16 bytes; the address of the table is an argument.\<close>

definition md_idt_load :: "addr \<Rightarrow> 'a cpu_scheme \<Rightarrow> 'a cpu_scheme" where
  "md_idt_load base m = m\<lparr>idt_register := Some \<lparr>idtr_limit = 256 * 16 - 1, idtr_offset = base\<rparr>\<rparr>"

section \<open>tss.c\<close>

text \<open>The descriptor is written through the pointer: it is passed in and returned, None for a null pointer.\<close>

definition md_tss_init ::
    "addr \<Rightarrow> tss_desc option \<Rightarrow> 'a cpu_scheme \<Rightarrow> (int \<times> tss_desc option \<times> 'a cpu_scheme) option" where
  "md_tss_init tss desc m =
     (case desc of None \<Rightarrow> Some (- EINVAL, None, m)
      | Some d \<Rightarrow> do {
          (tss, m) \<leftarrow> (if tss = NULL then os_pool_allocate sizeof_tss_entry m else Some (tss, m));
          (if tss = NULL then Some (- 1, Some d, m)
           else do {
             let m = m\<lparr>mem := memset (mem m) tss 0 sizeof_tss_entry\<rparr>;
             let d = d\<lparr>base_low := ucast (tss AND 0xFFFF),
               base_mid := ucast (drop_bit 16 tss AND 0xFF),
               base_mid1 := ucast (drop_bit 24 tss AND 0xFF),
               base_high := ucast (drop_bit 32 tss AND 0xFFFFFFFF),
               t_avl := 0, t_dpl := 0, t_p := 1, t_type := 0x9\<rparr>;
             Some (0, Some d, m\<lparr>task_register := GDT_TSS OR 3\<rparr>) }) })"

section \<open>trap.c and cpu.c\<close>

text \<open>\<^verbatim>\<open>trap_dispatch\<close> panics: the result is the one of \<^verbatim>\<open>panic\<close>.\<close>

definition trap_dispatch ::
    "u64 \<Rightarrow> u8 list \<Rightarrow> u8 list \<Rightarrow> trapframe \<Rightarrow> 'a machine_scheme \<Rightarrow> (u64 \<times> 'a machine_scheme) option" where
  "trap_dispatch panic_sync stk1 stk2 tf m =
     panic panic_sync stk1 stk2 (cline ''fatal vector %x'') [VInt (tf_vector tf)] m"

text \<open>The control region holds a 16-bit identification at its start.\<close>

definition mu_cpu_conf :: "u8 list \<Rightarrow> addr \<Rightarrow> 'a cpu_scheme \<Rightarrow> 'a cpu_scheme option" where
  "mu_cpu_conf stk pcr m =
     (if pcr = NULL then Some m
      else do {
        let m = md_wrmsr IA32_GS_BASE pcr m;
        printf stk (cline ''cpu: processing element %d active'') [VInt (ucast (load16 (mem m) pcr))] m })"

section \<open>Clock devices\<close>

definition TIMER_NAMELEN :: u64 where "TIMER_NAMELEN = 32"

datatype timer_type_t = TIMER_LOCAL | TIMER_GENERIC | TIMER_SCHED

text \<open>\<^verbatim>\<open>rdtsc\<close> returns the two halves of the counter.\<close>

definition tsc_get_count :: "addr \<Rightarrow> 'a cpu_scheme \<Rightarrow> u64" where
  "tsc_get_count timer m =
     (if timer = NULL then 0
      else let hi = (ucast (drop_bit 32 (tsc_value m)) :: u32); lo = (ucast (tsc_value m) :: u32)
           in push_bit 32 (ucast hi) OR ucast lo)"

text \<open>The address of the static hooks of the time stamp counter is an argument.\<close>

definition tsc_init :: "(string \<Rightarrow> addr) \<Rightarrow> addr \<Rightarrow> addr \<Rightarrow> 'a cpu_scheme \<Rightarrow> 'a cpu_scheme option" where
  "tsc_init lit tsc_hooks clkdev_root m =
     (if clkdev_root = NULL then None
      else do {
        (r, m) \<leftarrow> ob_knode_new (lit ''tsc'') K_CLKDEV True m;
        (case r of Inl e \<Rightarrow> None
         | Inr knp \<Rightarrow> do {
             let m = m\<lparr>tsc_knp := knp\<rparr>;
             let m = m\<lparr>mem := set_kn_data (tsc_knp m) tsc_hooks (mem m)\<rparr>;
             (error, m) \<leftarrow> ob_dir_append lit (tsc_knp m) clkdev_root m;
             (if error \<noteq> 0 then None else Some m) }) })"

text \<open>\<open>buf\<close> is the address of the local buffer of \<^verbatim>\<open>ob_knode_resolve\<close>.\<close>

definition mu_timer_init :: "(string \<Rightarrow> addr) \<Rightarrow> addr \<Rightarrow> addr \<Rightarrow> 'a cpu_scheme \<Rightarrow> 'a cpu_scheme option" where
  "mu_timer_init lit buf tsc_hooks m = do {
     (r, m) \<leftarrow> ob_knode_resolve lit buf (lit ''/clkdev'') 0 True m;
     (case r of Inl e \<Rightarrow> None | Inr tmr_dir \<Rightarrow> tsc_init lit tsc_hooks tmr_dir m) }"

definition timer_init :: "(string \<Rightarrow> addr) \<Rightarrow> addr \<Rightarrow> addr \<Rightarrow> 'a cpu_scheme \<Rightarrow> 'a cpu_scheme option" where
  "timer_init lit buf tsc_hooks m = do {
     (r, m) \<leftarrow> ob_dir_new (lit ''clkdev'') True m;
     (case r of Inl e \<Rightarrow> None
      | Inr tmr_dir \<Rightarrow> do {
          (error, m) \<leftarrow> ob_dir_append lit tmr_dir NULL m;
          (if error \<noteq> 0 then None else mu_timer_init lit buf tsc_hooks m) }) }"

section \<open>Descriptors\<close>

text \<open>The service routine the processor jumps to through a gate, and the base of a task state segment.\<close>

definition gate_isr :: "idt_gate \<Rightarrow> addr" where
  "gate_isr g = ucast (offset_low g) OR push_bit 16 (ucast (offset_mid g)) OR push_bit 32 (ucast (offset_high g))"

definition desc_base :: "tss_desc \<Rightarrow> addr" where
  "desc_base d = ucast (base_low d) OR push_bit 16 (ucast (base_mid d)) OR push_bit 24 (ucast (base_mid1 d)) OR
     push_bit 32 (ucast (base_high d))"

lemma and_masks:
  "(v :: u64) AND 0xFFFF = take_bit 16 v" "v AND 0xFF = take_bit 8 v" "v AND 0xFFFFFFFF = take_bit 32 v"
  by (simp_all add: take_bit_eq_mask mask_eq_exp_minus_1)

lemma word_halves: "push_bit 32 (ucast (ucast (drop_bit 32 v) :: u32)) OR ucast (ucast v :: u32) = (v :: u64)"
  by (rule bit_word_eqI) (auto simp: bit_simps)

text \<open>
  C36: The gate \<^verbatim>\<open>md_idt_set\<close> writes holds the whole 64-bit address of the service routine in the
  kernel's code segment, is present, carries the low half of the type and the low bits of the stack
  index, and is open to user mode exactly for a user gate; no other vector changes.
\<close>

theorem md_idt_set_gate:
  "let g = idt (md_idt_set vector type isr ist m) vector in
   gate_isr g = isr \<and> target_cs g = GDT_KCODE \<and> g_p g = 1 \<and> (g_dpl g = 3 \<longleftrightarrow> type = IDT_USER_GATE) \<and>
   g_type g = ucast type \<and> g_ist g = ucast ist \<and> g_zero g = 0 \<and> g_reserved g = 0 \<and>
   (v = vector \<or> idt (md_idt_set vector type isr ist m) v = idt m v)"
proof -
  have "ucast (ucast (take_bit 16 isr) :: u16) OR push_bit 16 (ucast (ucast (take_bit 16 (drop_bit 16 isr)) :: u16)) OR
    push_bit 32 (ucast (ucast (take_bit 32 (drop_bit 32 isr)) :: u32)) = isr"
  proof (rule bit_word_eqI)
    fix n assume n: "n < LENGTH(64)"
    consider "n < 16" | "16 \<le> n" "n < 32" | "32 \<le> n" by linarith
    then show "bit (ucast (ucast (take_bit 16 isr) :: u16) OR push_bit 16 (ucast (ucast (take_bit 16 (drop_bit 16 isr)) :: u16)) OR
      push_bit 32 (ucast (ucast (take_bit 32 (drop_bit 32 isr)) :: u32)) :: u64) n = bit isr n"
      using n by cases (auto simp: bit_simps)
  qed
  then show ?thesis by (simp add: md_idt_set_def Let_def gate_isr_def and_masks)
qed

text \<open>
  With a descriptor and enough memory, \<^verbatim>\<open>md_tss_init\<close> returns 0, clears exactly the
  104 bytes of the segment, and leaves a present kernel descriptor of type 9 whose base is the
  segment; its limit stays what it was.
\<close>

theorem md_tss_init_descriptor:
  assumes "tss \<noteq> NULL"
  shows "\<exists>d' m'. md_tss_init tss (Some d) m = Some (0, Some d', m') \<and> desc_base d' = tss \<and> t_p d' = 1 \<and> t_dpl d' = 0 \<and>
    t_type d' = 9 \<and> seglim_low d' = seglim_low d \<and> seglim_high d' = seglim_high d \<and> task_register m' = 0x2B \<and>
    mem m' = (\<lambda>x. if unat (x - tss) < 104 then 0 else mem m x)"
proof -
  have "ucast (ucast (take_bit 16 tss) :: u16) OR push_bit 16 (ucast (ucast (take_bit 8 (drop_bit 16 tss)) :: u8)) OR
    push_bit 24 (ucast (ucast (take_bit 8 (drop_bit 24 tss)) :: u8)) OR
    push_bit 32 (ucast (ucast (take_bit 32 (drop_bit 32 tss)) :: u32)) = tss"
  proof (rule bit_word_eqI)
    fix n assume n: "n < LENGTH(64)"
    consider "n < 16" | "16 \<le> n" "n < 24" | "24 \<le> n" "n < 32" | "32 \<le> n" by linarith
    then show "bit (ucast (ucast (take_bit 16 tss) :: u16) OR push_bit 16 (ucast (ucast (take_bit 8 (drop_bit 16 tss)) :: u8)) OR
      push_bit 24 (ucast (ucast (take_bit 8 (drop_bit 24 tss)) :: u8)) OR
      push_bit 32 (ucast (ucast (take_bit 32 (drop_bit 32 tss)) :: u32)) :: u64) n = bit tss n"
      using n by cases (auto simp: bit_simps)
  qed
  moreover have "memset (mem m) tss 0 104 = (\<lambda>x. if unat (x - tss) < 104 then 0 else mem m x)"
    by (rule ext) (simp add: memset_apply)
  moreover have "GDT_TSS OR 3 = 0x2B" by (simp add: GDT_TSS_def)
  ultimately show ?thesis
    using assms by (simp add: md_tss_init_def desc_base_def and_masks sizeof_tss_entry_def Let_def)
qed

text \<open>A machine with nothing in it.\<close>

definition cpu0 :: cpu where
  "cpu0 = acpi_state.extend acpi0 (cpu.fields
     (\<lambda>_. \<lparr>offset_low = 0, target_cs = 0, g_ist = 0, g_zero = 0, g_type = 0, g_zero1 = 0, g_dpl = 0, g_p = 0,
       offset_mid = 0, offset_high = 0, g_reserved = 0\<rparr>) None 0 (\<lambda>_. 0) 0 NULL)"

lemma md_tss_init_descriptor_witness:
  "\<exists>d' m'. md_tss_init 0x7654321000 (Some \<lparr>seglim_low = 103, base_low = 0, base_mid = 0, t_type = 0, t_zero = 0, t_dpl = 0,
     t_p = 0, seglim_high = 0, t_avl = 0, t_zero1 = 0, t_gran = 0, base_mid1 = 0, base_high = 0, t_reserved = 0,
     t_zero2 = 0, t_reserved1 = 0\<rparr>) cpu0 = Some (0, Some d', m') \<and> desc_base d' = 0x7654321000 \<and> seglim_low d' = 103"
  using md_tss_init_descriptor [where tss = "0x7654321000" and m = cpu0] by fastforce

text \<open>
  A model specific register reads back as the 64-bit value written to it in two halves, and
  the time stamp counter is assembled from its two halves; \<^verbatim>\<open>mu_cpu_conf\<close> makes the
  control region of the processor its GS base.
\<close>

theorem msr_roundtrip:
  "md_rdmsr msr (md_wrmsr msr v m) = v \<and> (msr' = msr \<or> md_rdmsr msr' (md_wrmsr msr v m) = md_rdmsr msr' m) \<and>
   tsc_get_count t m = (if t = NULL then 0 else tsc_value m) \<and>
   (case mu_cpu_conf stk pcr m of None \<Rightarrow> True | Some m' \<Rightarrow> pcr = NULL \<or> md_rdmsr IA32_GS_BASE m' = pcr)"
proof (intro conjI)
  have take32: "ucast (v AND 0xFFFFFFFF) = (ucast v :: u32)" "ucast (drop_bit 32 v AND 0xFFFFFFFF) = (ucast (drop_bit 32 v) :: u32)" for v :: u64
    unfolding and_masks by (rule bit_word_eqI, auto simp: bit_simps)+
  show rt: "md_rdmsr msr (md_wrmsr msr v m) = v" for msr v and m :: "'a cpu_scheme"
    by (simp add: md_rdmsr_def md_wrmsr_def Let_def take32 word_halves)
  show "msr' = msr \<or> md_rdmsr msr' (md_wrmsr msr v m) = md_rdmsr msr' m"
    by (simp add: md_rdmsr_def md_wrmsr_def Let_def)
  show "tsc_get_count t m = (if t = NULL then 0 else tsc_value m)"
    by (simp add: tsc_get_count_def Let_def word_halves)
  have "msrs m' = msrs m" if "printf stk fmt as m = Some m'" for stk fmt as and m m' :: "'a cpu_scheme"
    using that by (auto simp: printf_def trace_write_def mu_uart_write_def split: bind_splits prod.splits if_splits option.splits)
  then show "case mu_cpu_conf stk pcr m of None \<Rightarrow> True | Some m' \<Rightarrow> pcr = NULL \<or> md_rdmsr IA32_GS_BASE m' = pcr"
    using rt [of IA32_GS_BASE pcr m]
    by (auto simp: mu_cpu_conf_def md_rdmsr_def Let_def split: option.splits)
qed

end
