(* ===== verification/Hive_Pmap.thy ===== *)
theory Hive_Pmap
  imports Hive_Pmem
begin

text \<open>
  Paging: \<^verbatim>\<open>arch/amd64/cpu/pmap.c\<close>, \<^verbatim>\<open>mm/vmem.c\<close> and \<^verbatim>\<open>sys/mman.h\<close>. Page tables are
  words in the memory of the machine, reached through the direct map of physical memory.
  Loading or flushing the translation cache of the processor changes nothing in the model,
  which translates addresses from the tables. A pointer to an address space or a region is an
  option, None for a null pointer.
\<close>

section \<open>pmap.c\<close>

definition PTE_ADDR_MASK :: u64 where "PTE_ADDR_MASK = 0x000FFFFFFFFFF000"
definition PTE_P :: u64 where "PTE_P = BIT 0"
definition PTE_RW :: u64 where "PTE_RW = BIT 1"
definition PTE_US :: u64 where "PTE_US = BIT 2"
definition PTE_NX :: u64 where "PTE_NX = BIT 63"
definition CR4_LA57 :: u64 where "CR4_LA57 = BIT 12"

definition PROT_WRITE :: u64 where "PROT_WRITE = BIT 0"
definition PROT_EXEC :: u64 where "PROT_EXEC = BIT 1"
definition PROT_USER :: u64 where "PROT_USER = BIT 2"

datatype pmap_level_t = PMAP_PML1 | PMAP_PML2 | PMAP_PML3 | PMAP_PML4 | PMAP_PML5

datatype pagesize_t = PAGESIZE_4K | PAGESIZE_2M | PAGESIZE_1G

text \<open>The enumeration is ordered by its values.\<close>

fun lvl_num :: "pmap_level_t \<Rightarrow> nat" where
  "lvl_num PMAP_PML1 = 0"
| "lvl_num PMAP_PML2 = 1"
| "lvl_num PMAP_PML3 = 2"
| "lvl_num PMAP_PML4 = 3"
| "lvl_num PMAP_PML5 = 4"

lemma lvl_num_inj: "lvl_num a = lvl_num b \<Longrightarrow> a = b"
  by (cases a; cases b) auto

instantiation pmap_level_t :: linorder
begin

definition less_eq_pmap_level_t :: "pmap_level_t \<Rightarrow> pmap_level_t \<Rightarrow> bool" where
  "less_eq_pmap_level_t a b \<longleftrightarrow> lvl_num a \<le> lvl_num b"
definition less_pmap_level_t :: "pmap_level_t \<Rightarrow> pmap_level_t \<Rightarrow> bool" where
  "less_pmap_level_t a b \<longleftrightarrow> lvl_num a < lvl_num b"

instance
  by standard (auto simp: less_eq_pmap_level_t_def less_pmap_level_t_def dest: lvl_num_inj)

end

text \<open>The decrement of a level.\<close>

fun lvl_pred :: "pmap_level_t \<Rightarrow> pmap_level_t" where
  "lvl_pred PMAP_PML5 = PMAP_PML4"
| "lvl_pred PMAP_PML4 = PMAP_PML3"
| "lvl_pred PMAP_PML3 = PMAP_PML2"
| "lvl_pred PMAP_PML2 = PMAP_PML1"
| "lvl_pred PMAP_PML1 = PMAP_PML1"

lemma lvl_pred_less: "l < c \<Longrightarrow> lvl_num (lvl_pred c) < lvl_num c"
  by (cases c; cases l) (auto simp: less_pmap_level_t_def)

record mu_vas =
  vas_cr3 :: u64

fun mem_pstab :: "pagesize_t \<Rightarrow> u64" where
  "mem_pstab PAGESIZE_4K = 4096"
| "mem_pstab PAGESIZE_2M = UNIT_MIB * 2"
| "mem_pstab PAGESIZE_1G = UNIT_GIB"

fun is_ps_valid :: "pagesize_t \<Rightarrow> bool" where
  "is_ps_valid PAGESIZE_4K = True"
| "is_ps_valid _ = False"

definition pmap_toplevel :: "'a machine_scheme \<Rightarrow> pmap_level_t" where
  "pmap_toplevel m = (if ISSET (cr4 m) CR4_LA57 then PMAP_PML5 else PMAP_PML4)"

definition mu_pmap_readvas :: "bool \<Rightarrow> 'a machine_scheme \<Rightarrow> mu_vas result" where
  "mu_pmap_readvas res m = (if \<not> res then Inl (- 1) else Inr \<lparr>vas_cr3 = cr3 m\<rparr>)"

definition mu_pmap_writevas :: "mu_vas option \<Rightarrow> 'a machine_scheme \<Rightarrow> int \<times> 'a machine_scheme" where
  "mu_pmap_writevas vas m =
     (case vas of None \<Rightarrow> (- 1, m) | Some v \<Rightarrow> (0, m\<lparr>cr3 := vas_cr3 v\<rparr>))"

definition prot_to_pte :: "u16 \<Rightarrow> u64" where
  "prot_to_pte prot = (
     let pte_flags = PTE_P OR PTE_NX;
         pte_flags = (if ISSET (ucast prot) PROT_WRITE then pte_flags OR PTE_RW else pte_flags);
         pte_flags = (if ISSET (ucast prot) PROT_EXEC then pte_flags AND NOT PTE_NX else pte_flags)
     in if ISSET (ucast prot) PROT_USER then pte_flags OR PTE_US else pte_flags)"

fun vma_level_index :: "u64 \<Rightarrow> pmap_level_t \<Rightarrow> u64" where
  "vma_level_index vma PMAP_PML5 = drop_bit 47 vma AND 0x3FF"
| "vma_level_index vma PMAP_PML4 = drop_bit 39 vma AND 0x1FF"
| "vma_level_index vma PMAP_PML3 = drop_bit 30 vma AND 0x1FF"
| "vma_level_index vma PMAP_PML2 = drop_bit 21 vma AND 0x1FF"
| "vma_level_index vma PMAP_PML1 = drop_bit 12 vma AND 0x1FF"

text \<open>The entry of an array of 64-bit words.\<close>

definition pte_at :: "addr \<Rightarrow> u64 \<Rightarrow> addr" where
  "pte_at base index = base + index * 8"

text \<open>The descent of \<^verbatim>\<open>vma_level_base\<close> from the structure at \<open>cur_base\<close> on.\<close>

function vma_walk ::
    "u64 \<Rightarrow> pmap_level_t \<Rightarrow> bool \<Rightarrow> pmap_level_t \<Rightarrow> addr \<Rightarrow> 'a pmem_scheme \<Rightarrow> (addr \<times> 'a pmem_scheme) option" where
  "vma_walk vma lvl alloc cur_lvl cur_base m =
     (if cur_lvl > lvl then
        let e = pte_at cur_base (vma_level_index vma cur_lvl); pte = load64 (mem m) e in
        if ISSET pte PTE_P then do {
          base \<leftarrow> PHYS_TO_VIRT (pte AND PTE_ADDR_MASK) m;
          vma_walk vma lvl alloc (lvl_pred cur_lvl) base m }
        else if \<not> alloc then Some (NULL, m)
        else do {
          pm \<leftarrow> mm_pmem_alloc 1 m;
          let phys = fst pm; m = snd pm in
          if phys = 0 then Some (NULL, m)
          else do {
            base \<leftarrow> PHYS_TO_VIRT phys m;
            let m = m\<lparr>mem := memset (mem m) base 0 PAGESIZE\<rparr>;
                m = m\<lparr>mem := store64 (mem m) e (phys OR (PTE_P OR PTE_RW OR PTE_US))\<rparr> in
            vma_walk vma lvl alloc (lvl_pred cur_lvl) base m } }
      else Some (cur_base, m))"
  by pat_completeness auto
termination
  by (relation "measure (\<lambda>(vma, lvl, alloc, cur_lvl, cur_base, m). lvl_num cur_lvl)")
    (auto intro: lvl_pred_less)

declare vma_walk.simps [simp del]

definition vma_level_base ::
    "mu_vas option \<Rightarrow> u64 \<Rightarrow> pmap_level_t \<Rightarrow> bool \<Rightarrow> 'a pmem_scheme \<Rightarrow> (addr \<times> 'a pmem_scheme) option" where
  "vma_level_base vas vma lvl alloc m =
     (case vas of None \<Rightarrow> Some (NULL, m)
      | Some v \<Rightarrow> do {
          base \<leftarrow> PHYS_TO_VIRT (vas_cr3 v AND PTE_ADDR_MASK) m;
          vma_walk vma lvl alloc (pmap_toplevel m) base m })"

definition mu_pmap_map ::
    "mu_vas option \<Rightarrow> u64 \<Rightarrow> u64 \<Rightarrow> u32 \<Rightarrow> pagesize_t \<Rightarrow> 'a pmem_scheme \<Rightarrow> (int \<times> 'a pmem_scheme) option" where
  "mu_pmap_map vas vma pma prot ps m =
     (if vas = None \<or> \<not> is_ps_valid ps then Some (- 1, m)
      else do {
        let vma = ALIGN_DOWN vma (mem_pstab ps);
        (pgtbl, m) \<leftarrow> vma_level_base vas vma PMAP_PML1 True m;
        (if pgtbl = NULL then Some (- 1, m)
         else let e = pte_at pgtbl (vma_level_index vma PMAP_PML1)
              in Some (0, m\<lparr>mem := store64 (mem m) e (pma OR prot_to_pte (ucast prot))\<rparr>)) })"

fun clear_entries :: "nat \<Rightarrow> nat \<Rightarrow> addr \<Rightarrow> memory \<Rightarrow> memory" where
  "clear_entries i 0 base m = m"
| "clear_entries i (Suc k) base m = clear_entries (Suc i) k base (store64 m (pte_at base (of_nat i)) 0)"

definition mu_pmap_init :: "'a pmem_scheme \<Rightarrow> 'a pmem_scheme option" where
  "mu_pmap_init m = do {
     let vas = \<lparr>vas_cr3 = cr3 m\<rparr>;
     toplevel \<leftarrow> PHYS_TO_VIRT (vas_cr3 vas AND PTE_ADDR_MASK) m;
     let m = m\<lparr>mem := clear_entries 0 256 toplevel (mem m)\<rparr>;
     Some (snd (mu_pmap_writevas (Some vas) m)) }"

section \<open>vmem.c\<close>

record vmem_region =
  vma :: u64
  pma :: u64
  rlength :: u64

partial_function (option) map_region_loop ::
    "mu_vas option \<Rightarrow> u64 \<Rightarrow> u64 \<Rightarrow> u64 \<Rightarrow> u32 \<Rightarrow> u64 \<Rightarrow> 'a pmem_scheme \<Rightarrow> (int \<times> 'a pmem_scheme) option" where
  "map_region_loop vas vbase pbase len prot i m =
     (if i < len then do {
        em \<leftarrow> mu_pmap_map vas (vbase + i) (pbase + i) prot PAGESIZE_4K m;
        (if fst em \<noteq> 0 then Some em
         else map_region_loop vas vbase pbase len prot (i + PAGESIZE) (snd em)) }
      else Some (0, m))"

definition vmem_map_region ::
    "mu_vas option \<Rightarrow> vmem_region option \<Rightarrow> u32 \<Rightarrow> 'a pmem_scheme \<Rightarrow> (int \<times> 'a pmem_scheme) option" where
  "vmem_map_region vas region prot m =
     (case (vas, region) of
        (Some v, Some r) \<Rightarrow>
          map_region_loop vas (ALIGN_DOWN (vma r) PAGESIZE) (ALIGN_DOWN (pma r) PAGESIZE)
            (ALIGN_UP (rlength r) PAGESIZE) prot 0 m
      | _ \<Rightarrow> Some (- EINVAL, m))"

section \<open>The flags\<close>

text \<open>
  The page table flags of a protection: a mapping is always present, writable exactly with
  \<^verbatim>\<open>PROT_WRITE\<close>, open to user mode exactly with \<^verbatim>\<open>PROT_USER\<close>, execute-disabled exactly
  without \<^verbatim>\<open>PROT_EXEC\<close>, and sets no other bit.
\<close>

theorem prot_to_pte_bits:
  "bit (prot_to_pte prot) i \<longleftrightarrow>
     i = 0 \<or> (i = 1 \<and> bit prot 0) \<or> (i = 2 \<and> bit prot 2) \<or> (i = 63 \<and> \<not> bit prot 1)"
proof -
  have isset: "ISSET (ucast prot) (BIT n) \<longleftrightarrow> bit prot n" if "n < 16" for n
    using that by (simp add: ISSET_BIT bit_simps)
  show ?thesis
    unfolding prot_to_pte_def PROT_WRITE_def PROT_EXEC_def PROT_USER_def PTE_P_def PTE_NX_def PTE_RW_def PTE_US_def Let_def
    using isset [of 0] isset [of 1] isset [of 2]
    by (simp del: BIT_def add: bit_or_iff bit_and_iff bit_not_iff bit_BIT) auto
qed


section \<open>Translation\<close>

text \<open>
  What the processor does with four-level tables, read from the memory: the entry of table
  \<open>k\<close> (a frame number) at index \<open>i\<close>, the table it points to, and the translation of a
  virtual address from a table of level \<open>l\<close> down to the entry that maps its page.
\<close>

definition kva :: "addr \<Rightarrow> nat \<Rightarrow> addr" where
  "kva off k = page k + off"

definition pte :: "memory \<Rightarrow> addr \<Rightarrow> nat \<Rightarrow> nat \<Rightarrow> u64" where
  "pte M off k i = load64 M (pte_at (kva off k) (of_nat i))"

definition present :: "u64 \<Rightarrow> bool" where
  "present e \<longleftrightarrow> bit e 0"

definition frame_of :: "u64 \<Rightarrow> nat" where
  "frame_of e = unat (e AND PTE_ADDR_MASK) div 4096"

definition lev :: "nat \<Rightarrow> pmap_level_t" where
  "lev l = [PMAP_PML1, PMAP_PML2, PMAP_PML3, PMAP_PML4] ! l"

definition idx :: "u64 \<Rightarrow> nat \<Rightarrow> nat" where
  "idx va l = unat (vma_level_index va (lev l))"

definition next_table :: "memory \<Rightarrow> addr \<Rightarrow> nat \<Rightarrow> nat \<Rightarrow> nat option" where
  "next_table M off k i = (if present (pte M off k i) then Some (frame_of (pte M off k i)) else None)"

fun leaf_table :: "memory \<Rightarrow> addr \<Rightarrow> u64 \<Rightarrow> nat \<Rightarrow> nat \<Rightarrow> nat option" where
  "leaf_table M off va 0 k = Some k"
| "leaf_table M off va (Suc l) k = do { c \<leftarrow> next_table M off k (idx va (Suc l)); leaf_table M off va l c }"

definition translate_from :: "memory \<Rightarrow> addr \<Rightarrow> u64 \<Rightarrow> nat \<Rightarrow> nat \<Rightarrow> u64 option" where
  "translate_from M off va l k = do {
     t \<leftarrow> leaf_table M off va l k;
     (if present (pte M off t (idx va 0)) then Some (pte M off t (idx va 0)) else None) }"

definition translate :: "memory \<Rightarrow> addr \<Rightarrow> u64 \<Rightarrow> u64 \<Rightarrow> u64 option" where
  "translate M off root va = translate_from M off va 3 (frame_of root)"

section \<open>Entries in memory\<close>

lemma PTE_ADDR_MASK_bits: "bit PTE_ADDR_MASK n \<longleftrightarrow> 12 \<le> n \<and> n < 52"
proof -
  have e: "PTE_ADDR_MASK = push_bit 12 (mask 40)" by (simp add: PTE_ADDR_MASK_def mask_eq_exp_minus_1)
  show ?thesis by (subst e) (auto simp: bit_push_bit_iff bit_mask_iff)
qed

lemma unat_masked: "unat (e AND PTE_ADDR_MASK) = unat (take_bit 40 (drop_bit 12 e)) * 4096"
proof -
  let ?f = "take_bit 40 (drop_bit 12 e)"
  have "e AND PTE_ADDR_MASK = push_bit 12 ?f"
    by (rule bit_word_eqI) (auto simp: bit_simps PTE_ADDR_MASK_bits)
  then have 1: "e AND PTE_ADDR_MASK = ?f * 4096" by (simp add: push_bit_eq_mult)
  have "unat ?f < 2 ^ 40" by (simp only: unsigned_take_bit_eq take_bit_nat_less_exp)
  then have "unat ?f * unat (4096 :: u64) < 2 ^ LENGTH(64)" by simp
  then have "unat (?f * 4096) = unat ?f * unat (4096 :: u64)" by (simp only: unat_mult_lem)
  then show ?thesis using 1 by simp
qed

lemma frame_of_less: "frame_of e < 1099511627776"
proof -
  have "unat (take_bit 40 (drop_bit 12 e)) < 2 ^ 40"
    by (simp only: unsigned_take_bit_eq take_bit_nat_less_exp)
  then show ?thesis by (simp add: frame_of_def unat_masked)
qed

lemma masked_page: "e AND PTE_ADDR_MASK = page (frame_of e)"
  using frame_of_less [of e]
  by (simp add: word_unat_eq_iff unat_page) (simp add: frame_of_def unat_masked)

lemma table_entry:
  assumes "s < 1099511627776"
  shows "frame_of (page s OR (PTE_P OR PTE_RW OR PTE_US)) = s"
    "present (page s OR (PTE_P OR PTE_RW OR PTE_US))"
proof -
  have "(page s OR (PTE_P OR PTE_RW OR PTE_US)) AND PTE_ADDR_MASK = page s AND PTE_ADDR_MASK"
    unfolding PTE_P_def PTE_RW_def PTE_US_def
    by (rule bit_word_eqI) (auto simp: bit_or_iff bit_and_iff bit_BIT PTE_ADDR_MASK_bits)
  moreover have "page s AND PTE_ADDR_MASK = page s"
  proof (rule bit_word_eqI)
    fix n assume "n < LENGTH(64)"
    have "page s = push_bit 12 (of_nat s)" by (simp add: page_def push_bit_eq_mult mult.commute)
    moreover have "take_bit 40 (of_nat s :: u64) = of_nat s"
      using assms by (simp add: word_unat_eq_iff unsigned_take_bit_eq unat_of_nat64 take_bit_nat_eq_self)
    then have "bit (of_nat s :: u64) k \<Longrightarrow> k < 40" for k by (metis bit_take_bit_iff)
    from this [of "n - 12"] have "12 \<le> n \<Longrightarrow> bit (of_nat s :: u64) (n - 12) \<Longrightarrow> n < 52" by arith
    ultimately show "bit (page s AND PTE_ADDR_MASK) n = bit (page s) n"
      by (auto simp: bit_and_iff bit_push_bit_iff PTE_ADDR_MASK_bits)
  qed
  ultimately show "frame_of (page s OR (PTE_P OR PTE_RW OR PTE_US)) = s"
    using assms by (simp add: frame_of_def unat_page)
  show "present (page s OR (PTE_P OR PTE_RW OR PTE_US))"
    unfolding present_def PTE_P_def by (simp add: bit_or_iff bit_BIT del: BIT_def)
qed

text \<open>The frame a kernel address is in.\<close>

definition kframe :: "addr \<Rightarrow> addr \<Rightarrow> nat" where
  "kframe off a = unat (a - off) div 4096"

lemma unat_page_off:
  assumes "k < 1099511627776" "d < 4096"
  shows "unat (page k + of_nat d) = k * 4096 + d"
proof -
  have "unat (of_nat d :: u64) = d" using assms by (intro unat_of_nat64) simp
  then show ?thesis using assms by (subst unat_add64) (simp_all add: unat_page)
qed

lemma kframe_byte:
  assumes "k < 1099511627776" "d < 4096"
  shows "kframe off (kva off k + of_nat d) = k"
proof -
  have e: "kva off k + of_nat d - off = page k + of_nat d" by (simp add: kva_def)
  show ?thesis unfolding kframe_def e using assms by (simp add: unat_page_off)
qed

lemma kframe_inside:
  assumes "k < 1099511627776" "unat (a - kva off k) < 4096"
  shows "kframe off a = k"
proof -
  have "a = kva off k + of_nat (unat (a - kva off k))" by simp
  then show ?thesis using kframe_byte [OF assms, of off] by simp
qed

lemma pte_cong:
  assumes "\<And>a. kframe off a = k \<Longrightarrow> M' a = M a" "k < 1099511627776" "i < 512"
  shows "pte M' off k i = pte M off k i"
  unfolding pte_def load64_def
proof (rule load_n_cong)
  fix j :: nat assume "j < 8"
  then have "kframe off (kva off k + of_nat (i * 8 + j)) = k" using assms(2,3) by (intro kframe_byte) auto
  then show "M' (pte_at (kva off k) (of_nat i) + of_nat j) = M (pte_at (kva off k) (of_nat i) + of_nat j)"
    using assms(1) by (simp add: pte_at_def algebra_simps)
qed

lemma pte_zeroed:
  assumes "k < 1099511627776" "i < 512"
  shows "pte (memset M (kva off k) 0 PAGESIZE) off k i = 0"
proof -
  have "load_n 8 (memset M (kva off k) 0 PAGESIZE) (pte_at (kva off k) (of_nat i)) = take_bit (8 * 8) 0"
  proof (rule load_n_bytes)
    fix j :: nat assume "j < 8"
    then have "unat (of_nat (i * 8 + j) :: u64) < 4096" using assms(2) by (subst unat_of_nat64) auto
    moreover have e: "pte_at (kva off k) (of_nat i) + of_nat j - kva off k = of_nat (i * 8 + j)"
      by (simp add: pte_at_def)
    ultimately show "memset M (kva off k) 0 PAGESIZE (pte_at (kva off k) (of_nat i) + of_nat j) = ucast (drop_bit (8 * j) (0 :: u64))"
      unfolding memset_apply e by (simp add: PAGESIZE_def)
  qed simp
  then show ?thesis by (simp add: pte_def load64_def)
qed

lemma pte_store:
  assumes "k < 1099511627776" "i < 512" "k' < 1099511627776" "i' < 512"
  shows "pte (store64 M (pte_at (kva off k) (of_nat i)) v) off k' i' =
    (if k' = k \<and> i' = i then v else pte M off k' i')"
proof (cases "k' = k \<and> i' = i")
  case False
  let ?x = "page k + of_nat (i * 8)" and ?y = "page k' + of_nat (i' * 8)"
  have u: "unat ?x = k * 4096 + i * 8" "unat ?y = k' * 4096 + i' * 8"
    using unat_page_off [of k "i * 8"] unat_page_off [of k' "i' * 8"] assms by simp_all
  have "k * 4096 + i * 8 \<noteq> k' * 4096 + i' * 8"
  proof
    assume e: "k * 4096 + i * 8 = k' * 4096 + i' * 8"
    then have "(k * 4096 + i * 8) div 4096 = (k' * 4096 + i' * 8) div 4096" by simp
    then have "k = k'" using assms(2,4) by simp
    with e False show False by simp
  qed
  then have ne: "?x \<noteq> ?y" using u by metis
  have "(a * 4096 + b * 8) mod 8 = 0" for a b :: nat
    using mod_mult_self1_is_0 [of "a * 512 + b" 8] by (simp add: algebra_simps)
  then have al: "al8 ?x" "al8 ?y" unfolding al8_def u by blast+
  have e: "pte_at (kva off k) (of_nat i) = off + ?x" "pte_at (kva off k') (of_nat i') = off + ?y"
    by (simp_all add: pte_at_def kva_def)
  have "apart (pte_at (kva off k) (of_nat i)) 8 (pte_at (kva off k') (of_nat i')) 8"
    unfolding e apart_offset by (rule al8_apart [OF al ne])
  then show ?thesis using False by (auto simp: pte_def load64_store64_apart)
qed (simp add: pte_def)

lemma idx_less: "l \<le> 3 \<Longrightarrow> idx va l < 512"
proof -
  assume "l \<le> 3"
  then have "l = 0 \<or> l = 1 \<or> l = 2 \<or> l = 3" by auto
  moreover have "unat (x AND 0x1FF :: u64) < 512" for x
  proof -
    have "(0x1FF :: u64) = mask 9" by (simp add: mask_eq_exp_minus_1)
    then have "unat (x AND 0x1FF) = take_bit 9 (unat x)"
      by (simp only: take_bit_eq_mask [symmetric] unsigned_take_bit_eq)
    then show ?thesis by (simp add: take_bit_eq_mod)
  qed
  ultimately show ?thesis by (auto simp: idx_def lev_def)
qed

lemma idx_index: "of_nat (idx va l) = vma_level_index va (lev l)"
  by (simp add: idx_def)


section \<open>The tables as a forest\<close>

text \<open>
  \<open>tables off root T M\<close>: the page tables below the frame \<open>root\<close> are the frames of \<open>T l\<close>
  for the levels \<open>l\<close> from 3 (the top) down to 0; no frame is a table twice, present entries
  above the last level point to tables of the next one, and no two of them to the same table.
\<close>

definition tables :: "addr \<Rightarrow> nat \<Rightarrow> (nat \<Rightarrow> nat set) \<Rightarrow> memory \<Rightarrow> bool" where
  "tables off root T M \<longleftrightarrow> root \<in> T 3 \<and>
     (\<forall>l \<le> 3. \<forall>k \<in> T l. k < 1099511627776) \<and>
     (\<forall>l \<le> 3. \<forall>l' \<le> 3. l \<noteq> l' \<longrightarrow> T l \<inter> T l' = {}) \<and>
     (\<forall>l < 3. \<forall>k \<in> T (Suc l). \<forall>i < 512. present (pte M off k i) \<longrightarrow> frame_of (pte M off k i) \<in> T l) \<and>
     (\<forall>l < 3. \<forall>k \<in> T (Suc l). \<forall>k' \<in> T (Suc l). \<forall>i < 512. \<forall>i' < 512.
        present (pte M off k i) \<longrightarrow> present (pte M off k' i') \<longrightarrow>
        frame_of (pte M off k i) = frame_of (pte M off k' i') \<longrightarrow> k = k' \<and> i = i')"

lemma tablesD:
  assumes "tables off root T M"
  shows "root \<in> T 3" "l \<le> 3 \<Longrightarrow> k \<in> T l \<Longrightarrow> k < 1099511627776"
    "l \<le> 3 \<Longrightarrow> l' \<le> 3 \<Longrightarrow> k \<in> T l \<Longrightarrow> k \<in> T l' \<Longrightarrow> l = l'"
    "l < 3 \<Longrightarrow> k \<in> T (Suc l) \<Longrightarrow> i < 512 \<Longrightarrow> present (pte M off k i) \<Longrightarrow> frame_of (pte M off k i) \<in> T l"
    "l < 3 \<Longrightarrow> k \<in> T (Suc l) \<Longrightarrow> k' \<in> T (Suc l) \<Longrightarrow> i < 512 \<Longrightarrow> i' < 512 \<Longrightarrow>
      present (pte M off k i) \<Longrightarrow> present (pte M off k' i') \<Longrightarrow>
      frame_of (pte M off k i) = frame_of (pte M off k' i') \<Longrightarrow> k = k' \<and> i = i'"
  using assms unfolding tables_def by blast+

lemma leaf_table_in:
  assumes "tables off root T M" "l \<le> 3" "k \<in> T l" "leaf_table M off va l k = Some t"
  shows "t \<in> T 0"
  using assms(2-)
proof (induction l arbitrary: k)
  case (Suc l)
  then show ?case
    using tablesD(4) [OF assms(1), of l k "idx va (Suc l)"] idx_less [of "Suc l" va]
    by (auto simp: next_table_def bind_eq_Some_conv split: if_splits)
qed simp

text \<open>Two addresses with the same last table have the same indices down to it.\<close>

lemma leaf_table_inj:
  assumes "tables off root T M" "l \<le> 3" "k \<in> T l" "k' \<in> T l"
    "leaf_table M off va l k = Some t" "leaf_table M off va' l k' = Some t"
  shows "k = k' \<and> (\<forall>j. 0 < j \<and> j \<le> l \<longrightarrow> idx va j = idx va' j)"
  using assms(2-)
proof (induction l arbitrary: k k')
  case (Suc l)
  let ?i = "idx va (Suc l)" and ?i' = "idx va' (Suc l)"
  have i: "?i < 512" "?i' < 512" using Suc.prems(1) idx_less by auto
  have c: "present (pte M off k ?i)" "leaf_table M off va l (frame_of (pte M off k ?i)) = Some t"
    "present (pte M off k' ?i')" "leaf_table M off va' l (frame_of (pte M off k' ?i')) = Some t"
    using Suc.prems(4,5) by (auto simp: next_table_def bind_eq_Some_conv split: if_splits)
  have l: "l < 3" using Suc.prems(1) by simp
  have "frame_of (pte M off k ?i) \<in> T l" "frame_of (pte M off k' ?i') \<in> T l"
    using tablesD(4) [OF assms(1) l] Suc.prems(2,3) i c by auto
  from Suc.IH [OF _ this c(2,4)] l
  have ih: "frame_of (pte M off k ?i) = frame_of (pte M off k' ?i')"
    "\<forall>j. 0 < j \<and> j \<le> l \<longrightarrow> idx va j = idx va' j" by auto
  from tablesD(5) [OF assms(1) l Suc.prems(2,3) i c(1,3) ih(1)]
  show ?case using ih(2) by (auto simp: le_Suc_eq)
qed simp

lemma leaf_table_cong:
  assumes "tables off root T M" "l \<le> 3" "k \<in> T l"
    "\<And>j k i. 0 < j \<Longrightarrow> j \<le> 3 \<Longrightarrow> k \<in> T j \<Longrightarrow> i < 512 \<Longrightarrow> pte M' off k i = pte M off k i"
  shows "leaf_table M' off va l k = leaf_table M off va l k"
  using assms(2,3)
proof (induction l arbitrary: k)
  case (Suc l)
  have i: "idx va (Suc l) < 512" using Suc.prems(1) idx_less by simp
  have e: "pte M' off k (idx va (Suc l)) = pte M off k (idx va (Suc l))"
    using assms(4) [of "Suc l" k] Suc.prems i by simp
  have "present (pte M off k (idx va (Suc l))) \<Longrightarrow> frame_of (pte M off k (idx va (Suc l))) \<in> T l"
    using tablesD(4) [OF assms(1)] Suc.prems i by simp
  then show ?case using Suc.IH Suc.prems(1) by (auto simp: next_table_def e)
qed simp

lemma tables_cong:
  assumes "tables off root T M"
    "\<And>l k i. 0 < l \<Longrightarrow> l \<le> 3 \<Longrightarrow> k \<in> T l \<Longrightarrow> i < 512 \<Longrightarrow> pte M' off k i = pte M off k i"
  shows "tables off root T M'"
proof -
  have "pte M' off k i = pte M off k i" if "l < 3" "k \<in> T (Suc l)" "i < 512" for l k i
    using assms(2) [of "Suc l"] that by simp
  then show ?thesis using assms(1) by (simp add: tables_def)
qed

text \<open>Writing an entry of the last level.\<close>

lemma leaf_update:
  assumes "tables off root T M" "t \<in> T 0" "i < 512" "leaf_table M off va 3 root = Some t" "i = idx va 0"
  shows "tables off root T (store64 M (pte_at (kva off t) (of_nat i)) v)"
    "translate_from (store64 M (pte_at (kva off t) (of_nat i)) v) off va' 3 root =
      (if \<forall>j \<le> 3. idx va j = idx va' j then (if present v then Some v else None)
       else translate_from M off va' 3 root)"
proof -
  let ?M = "store64 M (pte_at (kva off t) (of_nat i)) v"
  have t: "t < 1099511627776" using tablesD(2) [OF assms(1), of 0] assms(2) by simp
  have st: "pte ?M off k j = (if k = t \<and> j = i then v else pte M off k j)"
    if "k < 1099511627776" "j < 512" for k j
    using pte_store [OF t assms(3) that] .
  have other: "pte ?M off k j = pte M off k j" if "0 < l" "l \<le> 3" "k \<in> T l" "j < 512" for l k j
    using st [of k j] tablesD(2) [OF assms(1), of l k] tablesD(3) [OF assms(1), of l 0 k] that assms(2) by auto
  then show "tables off root T ?M" by (rule tables_cong [OF assms(1)])
  have leaf: "leaf_table ?M off va' 3 root = leaf_table M off va' 3 root"
    using other tablesD(1) [OF assms(1)] by (intro leaf_table_cong [OF assms(1)]) auto
  show "translate_from ?M off va' 3 root =
      (if \<forall>j \<le> 3. idx va j = idx va' j then (if present v then Some v else None)
       else translate_from M off va' 3 root)"
  proof (cases "leaf_table M off va' 3 root")
    case None
    have "\<not> (\<forall>j \<le> 3. idx va j = idx va' j)"
    proof
      assume a: "\<forall>j \<le> 3. idx va j = idx va' j"
      have "leaf_table M off va' l k = leaf_table M off va l k" if "l \<le> 3" for l k
        using that a by (induction l arbitrary: k) (auto simp: next_table_def)
      then show False using None assms(4) by simp
    qed
    then show ?thesis using None leaf by (simp add: translate_from_def)
  next
    case (Some t')
    have t': "t' < 1099511627776"
      using leaf_table_in [OF assms(1) _ tablesD(1) [OF assms(1)] Some] tablesD(2) [OF assms(1), of 0] by simp
    have i': "idx va' 0 < 512" by (simp add: idx_less)
    have "t' = t \<and> idx va' 0 = i \<longleftrightarrow> (\<forall>j \<le> 3. idx va j = idx va' j)"
    proof
      assume h: "t' = t \<and> idx va' 0 = i"
      have r: "root \<in> T 3" using tablesD(1) [OF assms(1)] .
      have "\<forall>j. 0 < j \<and> j \<le> 3 \<longrightarrow> idx va j = idx va' j"
        using leaf_table_inj [OF assms(1) _ r r assms(4)] Some h by blast
      then show "\<forall>j \<le> 3. idx va j = idx va' j" using h assms(5) by (metis neq0_conv)
    next
      assume a: "\<forall>j \<le> 3. idx va j = idx va' j"
      have "leaf_table M off va' l k = leaf_table M off va l k" if "l \<le> 3" for l k
        using that a by (induction l arbitrary: k) (auto simp: next_table_def)
      then show "t' = t \<and> idx va' 0 = i" using Some assms(4,5) a by simp
    qed
    then show ?thesis using Some leaf st [OF t' i'] by (auto simp: translate_from_def)
  qed
qed


lemma translate_from_Suc:
  "translate_from M off va (Suc l) k = do { c \<leftarrow> next_table M off k (idx va (Suc l)); translate_from M off va l c }"
  by (cases "next_table M off k (idx va (Suc l))") (simp_all add: translate_from_def)

text \<open>Hanging an empty table into an absent entry translates no new address.\<close>

lemma extend_tables:
  assumes tb: "tables off root T M" and k: "l < 3" "k \<in> T (Suc l)" "i < 512" "\<not> present (pte M off k i)"
    and s: "s < 1099511627776" "\<And>j. j \<le> 3 \<Longrightarrow> s \<notin> T j"
    and M': "\<And>j k' i'. j \<le> 3 \<Longrightarrow> k' \<in> T j \<Longrightarrow> i' < 512 \<Longrightarrow>
        pte M' off k' i' = (if k' = k \<and> i' = i then e else pte M off k' i')"
      "\<And>i'. i' < 512 \<Longrightarrow> pte M' off s i' = 0"
    and e: "present e" "frame_of e = s"
  shows "tables off root (T(l := insert s (T l))) M'"
    "\<And>j k'. j \<le> 3 \<Longrightarrow> k' \<in> T j \<Longrightarrow> translate_from M' off va j k' = translate_from M off va j k'"
proof -
  let ?T = "T(l := insert s (T l))"
  have np: "\<not> present 0" by (simp add: present_def)
  have lvl: "j = l" if "j < 3" "k \<in> T (Suc j)" for j
    using tablesD(3) [OF tb, of "Suc j" "Suc l" k] that k by simp
  have up: "pte M' off k' i' = (if k' = s then 0 else if k' = k \<and> i' = i then e else pte M off k' i')"
    if "j \<le> 3" "k' \<in> ?T j" "i' < 512" for j k' i'
    using that M'(1) [of j k' i'] M'(2) [of i'] s(2) by (auto split: if_splits)
  show "tables off root ?T M'"
    unfolding tables_def
  proof (intro conjI allI ballI impI)
    show "root \<in> ?T 3" using tablesD(1) [OF tb] k(1) by auto
    show "k' < 1099511627776" if "j \<le> 3" "k' \<in> ?T j" for j k'
      using that s(1) tablesD(2) [OF tb] by (auto split: if_splits)
    show "?T j \<inter> ?T j' = {}" if "j \<le> 3" "j' \<le> 3" "j \<noteq> j'" for j j'
      using that s(2) tablesD(3) [OF tb] by (auto split: if_splits)
    show "frame_of (pte M' off k' i') \<in> ?T j"
      if "j < 3" "k' \<in> ?T (Suc j)" "i' < 512" "present (pte M' off k' i')" for j k' i'
    proof -
      have j: "Suc j \<le> 3" using that by simp
      show ?thesis
        using up [OF j that(2,3)] that np e lvl [of j] tablesD(4) [OF tb, of j k' i']
        by (auto split: if_splits)
    qed
    show "k1 = k2" "i1 = i2"
      if h: "j < 3" "k1 \<in> ?T (Suc j)" "k2 \<in> ?T (Suc j)" "i1 < 512" "i2 < 512"
        "present (pte M' off k1 i1)" "present (pte M' off k2 i2)"
        "frame_of (pte M' off k1 i1) = frame_of (pte M' off k2 i2)" for j k1 k2 i1 i2
    proof -
      have j: "Suc j \<le> 3" using h by simp
      note u1 = up [OF j h(2,4)] and u2 = up [OF j h(3,5)]
      have in1: "k1 \<noteq> s" "k2 \<noteq> s" "k1 \<in> T (Suc j)" "k2 \<in> T (Suc j)"
        using h(2,3,6,7) u1 u2 np by (auto split: if_splits)
      have fr: "frame_of (pte M off k' i') \<noteq> s"
        if "k' \<in> T (Suc j)" "i' < 512" "present (pte M off k' i')" for k' i'
        using tablesD(4) [OF tb h(1) that] s(2) [of j] h(1) by auto
      let ?p1 = "k1 = k \<and> i1 = i" and ?p2 = "k2 = k \<and> i2 = i"
      have o1: "pte M' off k1 i1 = (if ?p1 then e else pte M off k1 i1)"
        and o2: "pte M' off k2 i2 = (if ?p2 then e else pte M off k2 i2)"
        using u1 u2 in1(1,2) by simp_all
      have n1: "\<not> ?p1 \<Longrightarrow> present (pte M off k1 i1) \<and> frame_of (pte M' off k1 i1) \<noteq> s"
        using o1 h(6) fr [OF in1(3) h(4)] by metis
      have n2: "\<not> ?p2 \<Longrightarrow> present (pte M off k2 i2) \<and> frame_of (pte M' off k2 i2) \<noteq> s"
        using o2 h(7) fr [OF in1(4) h(5)] by metis
      have "?p1 = ?p2"
      proof
        assume ?p1
        then have "frame_of (pte M' off k1 i1) = s" using o1 e(2) by metis
        then show ?p2 using n2 h(8) by metis
      next
        assume ?p2
        then have "frame_of (pte M' off k2 i2) = s" using o2 e(2) by metis
        then show ?p1 using n1 h(8) by metis
      qed
      then have "k1 = k2 \<and> i1 = i2"
        using n1 n2 o1 o2 h(8) tablesD(5) [OF tb h(1) in1(3,4) h(4,5)] by metis
      then show "k1 = k2" "i1 = i2" by auto
    qed
  qed
  show "translate_from M' off va j k' = translate_from M off va j k'" if "j \<le> 3" "k' \<in> T j" for j k'
    using that
  proof (induction j arbitrary: k')
    case 0
    have "pte M' off k' (idx va 0) = pte M off k' (idx va 0)"
      using M'(1) [of 0 k' "idx va 0"] 0 tablesD(3) [OF tb, of 0 "Suc l" k] k idx_less [of 0 va] by auto
    then show ?case by (simp add: translate_from_def)
  next
    case (Suc j)
    have ix: "idx va (Suc j) < 512" using Suc.prems by (intro idx_less)
    note pt = M'(1) [OF Suc.prems ix]
    show ?case
    proof (cases "k' = k \<and> idx va (Suc j) = i")
      case True
      have "l = j" using lvl [of j] Suc.prems True by simp
      have z: "pte M' off s (idx va j') = 0" if "j' \<le> 3" for j' using M'(2) idx_less [OF that] by blast
      have "translate_from M' off va j s = None"
        using z [of 0] z [of j] Suc.prems(1) np
        by (cases j) (simp_all add: translate_from_def next_table_def)
      then show ?thesis using True pt e k(4) by (simp add: translate_from_Suc next_table_def)
    next
      case False
      then have same: "pte M' off k' (idx va (Suc j)) = pte M off k' (idx va (Suc j))" using pt by metis
      have "present (pte M off k' (idx va (Suc j))) \<Longrightarrow> frame_of (pte M off k' (idx va (Suc j))) \<in> T j"
        using tablesD(4) [OF tb, of j k'] Suc.prems ix by simp
      then show ?thesis using Suc.IH Suc.prems(1) by (simp add: translate_from_Suc next_table_def same)
    qed
  qed
qed

section \<open>The state of the mapper\<close>

text \<open>
  The direct map is at \<open>off\<close>, the tables are frames in use (or outside of the allocator's range),
  and the bitmap of the allocator is in frames that are in use and no tables.
\<close>

definition bitmap_frame :: "addr \<Rightarrow> 'a pmem_scheme \<Rightarrow> nat \<Rightarrow> nat" where
  "bitmap_frame off m j = kframe off (bit_byte (bitmap m) (of_nat j))"

definition pmap_inv :: "addr \<Rightarrow> nat \<Rightarrow> (nat \<Rightarrow> nat set) \<Rightarrow> 'a pmem_scheme \<Rightarrow> bool" where
  "pmap_inv off root T m \<longleftrightarrow> bpt_kernel_base m = Some off \<and> \<not> ISSET (cr4 m) CR4_LA57 \<and>
     pmem_ready m \<and> last_bit m = 0 \<and> frame_used m 0 \<and> 0 < max_frame m \<and> max_frame m \<le> 1099511627776 \<and>
     (\<forall>k. k < max_frame m \<or> k \<in> T 0 \<longrightarrow> kva off k \<noteq> NULL) \<and> tables off root T (mem m) \<and>
     (\<forall>l \<le> 3. \<forall>k \<in> T l. k < max_frame m \<longrightarrow> frame_used m k) \<and>
     (\<forall>j < max_frame m. \<forall>l \<le> 3. bitmap_frame off m j \<notin> T l) \<and>
     (\<forall>j < max_frame m. bitmap_frame off m j < max_frame m \<longrightarrow> frame_used m (bitmap_frame off m j))"

text \<open>
  Frames that the mapper leaves alone: in use or outside of the allocator's range, no tables and
  without a part of the bitmap. And the first run of free frames: every frame below \<open>s\<close> is in use, and
  those from \<open>s\<close> up to \<open>e\<close> are free; nothing is said about the frames from \<open>e\<close> on.
\<close>

definition sparing :: "addr \<Rightarrow> (nat \<Rightarrow> nat set) \<Rightarrow> 'a pmem_scheme \<Rightarrow> nat set \<Rightarrow> bool" where
  "sparing off T m A \<longleftrightarrow> (\<forall>k \<in> A. (k < max_frame m \<longrightarrow> frame_used m k) \<and> (\<forall>l \<le> 3. k \<notin> T l) \<and>
     (\<forall>j < max_frame m. bitmap_frame off m j \<noteq> k))"

definition first_free :: "'a pmem_scheme \<Rightarrow> nat \<Rightarrow> nat \<Rightarrow> bool" where
  "first_free m s e \<longleftrightarrow> s \<le> e \<and> e \<le> max_frame m \<and> (\<forall>k < s. frame_used m k) \<and>
     (\<forall>k. s \<le> k \<and> k < e \<longrightarrow> \<not> frame_used m k)"

definition kept :: "addr \<Rightarrow> nat set \<Rightarrow> memory \<Rightarrow> memory \<Rightarrow> bool" where
  "kept off A M M' \<longleftrightarrow> (\<forall>a. kframe off a \<in> A \<longrightarrow> M' a = M a)"

lemma kept_refl [simp]: "kept off A M M"
  by (simp add: kept_def)

lemma kept_trans: "kept off A M M' \<Longrightarrow> kept off A M' M'' \<Longrightarrow> kept off A M M''"
  by (simp add: kept_def)

lemma store_pte_other:
  assumes "k < 1099511627776" "i < 512" "kframe off a \<noteq> k"
  shows "store64 M (pte_at (kva off k) (of_nat i)) v a = M a"
proof -
  let ?e = "pte_at (kva off k) (of_nat i)"
  have "\<not> unat (a - ?e) < 8"
  proof
    assume lt: "unat (a - ?e) < 8"
    let ?d = "i * 8 + unat (a - ?e)"
    have a: "a = kva off k + of_nat ?d" by (simp add: pte_at_def)
    have "kframe off (kva off k + of_nat ?d) = k" using lt assms(2) by (intro kframe_byte [OF assms(1)]) simp
    then show False unfolding a [symmetric] using assms(3) by simp
  qed
  then show ?thesis by (simp add: store64_def store_n_def)
qed

lemma frame_used_cong:
  "bitmap m' = bitmap m \<Longrightarrow> mem m' (bit_byte (bitmap m) (of_nat k)) = mem m (bit_byte (bitmap m) (of_nat k)) \<Longrightarrow>
   frame_used m' k = frame_used m k"
  by (simp add: frame_used_def TESTBIT_bit bit_byte_def)


lemma pmap_invD:
  assumes "pmap_inv off root T m"
  shows "bpt_kernel_base m = Some off" "pmem_ready m" "last_bit m = 0" "frame_used m 0"
    "max_frame m \<le> 1099511627776" "tables off root T (mem m)" "pmap_toplevel m = PMAP_PML4"
    "k < max_frame m \<or> k \<in> T 0 \<Longrightarrow> kva off k \<noteq> NULL"
    "l \<le> 3 \<Longrightarrow> k \<in> T l \<Longrightarrow> k < max_frame m \<Longrightarrow> frame_used m k"
    "j < max_frame m \<Longrightarrow> l \<le> 3 \<Longrightarrow> bitmap_frame off m j \<notin> T l"
    "j < max_frame m \<Longrightarrow> bitmap_frame off m j < max_frame m \<Longrightarrow> frame_used m (bitmap_frame off m j)"
    "0 < max_frame m"
  using assms by (auto simp: pmap_inv_def pmap_toplevel_def)

lemma pmap_inv_mem:
  assumes "pmap_inv off root T m" "tables off root T M"
    "\<And>x. x < max_frame m \<Longrightarrow> frame_used (m\<lparr>mem := M\<rparr>) x = frame_used m x"
  shows "pmap_inv off root T (m\<lparr>mem := M\<rparr>)"
proof -
  have e: "max_frame (m\<lparr>mem := M\<rparr>) = max_frame m" "bitmap_frame off (m\<lparr>mem := M\<rparr>) j = bitmap_frame off m j"
    "pmem_ready (m\<lparr>mem := M\<rparr>) = pmem_ready m" for j
    by (simp_all add: max_frame_def bitmap_frame_def pmem_ready_def)
  have b: "bpt_kernel_base (m\<lparr>mem := M\<rparr>) = bpt_kernel_base m"
    by (rule bpt_kernel_base_cong) simp_all
  show ?thesis using assms unfolding pmap_inv_def e b by auto
qed

lemma same_but_bits_mem:
  assumes "same_but_bits s (Suc s) True m m'" "s < 18446744073709551616" "a \<noteq> bit_byte (bitmap m) (of_nat s)"
  shows "mem m' a = mem m a"
proof -
  have "j = of_nat s" if "s \<le> unat j \<and> unat j < Suc s" for j :: u64
  proof -
    have "unat j = s" using that by simp
    then have "of_nat s = (of_nat (unat j) :: u64)" by simp
    then show ?thesis by simp
  qed
  then show ?thesis using assms(1,3) unfolding same_but_bits_def marked_def by auto
qed

text \<open>One table allocated, cleared and entered into its parent.\<close>

lemma alloc_table:
  assumes inv: "pmap_inv off root T m" and k: "l < 3" "k \<in> T (Suc l)" "i < 512"
    and np: "\<not> present (pte (mem m) off k i)"
    and s: "s < max_frame m" "\<not> frame_used m s" "same_but_bits s (Suc s) True m m1"
    and m2: "m2 = m1\<lparr>mem := memset (mem m1) (kva off s) 0 PAGESIZE\<rparr>"
    and m3: "m3 = m2\<lparr>mem := store64 (mem m2) (pte_at (kva off k) (of_nat i)) (page s OR (PTE_P OR PTE_RW OR PTE_US))\<rparr>"
  shows "pmap_inv off root (T(l := insert s (T l))) m3" "max_frame m3 = max_frame m"
    "\<And>j k' i'. j \<le> 3 \<Longrightarrow> k' \<in> T j \<Longrightarrow> i' < 512 \<Longrightarrow> pte (mem m3) off k' i' =
      (if k' = k \<and> i' = i then page s OR (PTE_P OR PTE_RW OR PTE_US) else pte (mem m) off k' i')"
    "\<And>j k'. j \<le> 3 \<Longrightarrow> k' \<in> T j \<Longrightarrow> translate_from (mem m3) off va j k' = translate_from (mem m) off va j k'"
    "\<And>x. x < max_frame m \<Longrightarrow> frame_used m3 x = (x = s \<or> frame_used m x)"
    "sparing off T m A \<Longrightarrow> sparing off (T(l := insert s (T l))) m3 A \<and> kept off A (mem m) (mem m3)"
proof -
  let ?e = "page s OR (PTE_P OR PTE_RW OR PTE_US)" and ?T = "T(l := insert s (T l))"
  note I = pmap_invD [OF inv] and tb = pmap_invD(6) [OF inv]
  have s40: "s < 1099511627776" using s(1) I(5) by simp
  have k40: "k < 1099511627776" using tablesD(2) [OF tb, of "Suc l"] k by simp
  have sT: "s \<notin> T j" if "j \<le> 3" for j using I(9) [OF that _ s(1)] s(2) by blast
  obtain mm where mm: "m1 = m\<lparr>mem := mm\<rparr>" using s(3) by (auto simp: same_but_bits_def)
  have m3m: "m3 = m\<lparr>mem := mem m3\<rparr>" by (simp add: m3 m2 mm)
  have bf: "bitmap_frame off m x \<noteq> s" if "x < max_frame m" for x
    using I(11) [OF that] s(1,2) by metis
  have bk: "bitmap_frame off m x \<noteq> k" if "x < max_frame m" for x
    using I(10) [OF that, of "Suc l"] k by auto
  have mem1: "mem m1 a = mem m a" if "kframe off a \<noteq> bitmap_frame off m s" for a
    using same_but_bits_mem [OF s(3) _, of a] that s40 by (auto simp: bitmap_frame_def)
  have mem2: "mem m2 a = mem m1 a" if "kframe off a \<noteq> s" for a
  proof -
    have "\<not> unat (a - kva off s) < 4096" using kframe_inside [OF s40, of a off] that by blast
    then show ?thesis by (simp add: m2 memset_apply PAGESIZE_def)
  qed
  have mem3: "mem m3 a = mem m2 a" if "kframe off a \<noteq> k" for a
    using store_pte_other [OF k40 k(3) that] by (simp add: m3)
  have pte2: "pte (mem m2) off k' i' = pte (mem m) off k' i'" if "j \<le> 3" "k' \<in> T j" "i' < 512" for j k' i'
  proof (rule pte_cong [OF _ tablesD(2) [OF tb that(1,2)] that(3)])
    fix a assume a: "kframe off a = k'"
    have "k' \<noteq> bitmap_frame off m s" "k' \<noteq> s" using I(10) [OF s(1) that(1)] sT [OF that(1)] that(2) by auto
    then show "mem m2 a = mem m a" using mem1 mem2 a by auto
  qed
  have z2: "pte (mem m2) off s i' = 0" if "i' < 512" for i'
    using pte_zeroed [OF s40 that] by (simp add: m2)
  have ks: "k \<noteq> s" using sT [of "Suc l"] k by auto
  show P: "pte (mem m3) off k' i' = (if k' = k \<and> i' = i then ?e else pte (mem m) off k' i')"
    if "j \<le> 3" "k' \<in> T j" "i' < 512" for j k' i'
    using pte_store [OF k40 k(3) tablesD(2) [OF tb that(1,2)] that(3)] pte2 [OF that] by (simp add: m3)
  have z3: "pte (mem m3) off s i' = 0" if "i' < 512" for i'
    using pte_store [OF k40 k(3) s40 that] z2 [OF that] ks by (simp add: m3)
  have ext1: "tables off root ?T (mem m3)"
    by (rule extend_tables(1) [OF tb k np s40]) (fact sT P z3 table_entry [OF s40])+
  show "translate_from (mem m3) off va j k' = translate_from (mem m) off va j k'" if "j \<le> 3" "k' \<in> T j" for j k'
    by (rule extend_tables(2) [OF tb k np s40 _ _ _ _ _ that]) (fact sT P z3 table_entry [OF s40])+
  show mf: "max_frame m3 = max_frame m" by (subst m3m) (simp add: max_frame_def)
  have bm: "bitmap m3 = bitmap m" by (subst m3m) simp
  have bfr: "bitmap_frame off m3 x = bitmap_frame off m x" for x by (simp add: bitmap_frame_def bm)
  show used: "frame_used m3 x = (x = s \<or> frame_used m x)" if "x < max_frame m" for x
  proof -
    have kf: "kframe off (bit_byte (bitmap m) (of_nat x)) \<noteq> s" "kframe off (bit_byte (bitmap m) (of_nat x)) \<noteq> k"
      using bf [OF that] bk [OF that] by (auto simp: bitmap_frame_def)
    have "frame_used m3 x = frame_used m1 x"
      using mem2 [OF kf(1)] mem3 [OF kf(2)] bm by (intro frame_used_cong) (simp_all add: mm)
    then show ?thesis using same_but_bits_used [OF s(3), of x] that I(5) by auto
  qed
  show "sparing off ?T m3 A \<and> kept off A (mem m) (mem m3)" if A: "sparing off T m A"
  proof
    have sA: "s \<notin> A" using A s(1,2) unfolding sparing_def by blast
    show "sparing off ?T m3 A" using A sA used bfr mf unfolding sparing_def by (auto split: if_splits)
    have "mem m3 a = mem m a" if a: "kframe off a \<in> A" for a
    proof -
      have "kframe off a \<noteq> k" using A k a unfolding sparing_def by (metis Suc_leI less_eq_Suc_le numeral_3_eq_3)
      moreover have "kframe off a \<noteq> bitmap_frame off m s" using A s(1) a unfolding sparing_def by metis
      moreover have "kframe off a \<noteq> s" using sA a by metis
      ultimately show ?thesis using mem1 mem2 mem3 by metis
    qed
    then show "kept off A (mem m) (mem m3)" by (simp add: kept_def)
  qed
  have "pmem_ready m3" using I(2) mf by (subst (asm) pmem_ready_def) (subst m3m, simp add: pmem_ready_def max_frame_def)
  moreover have "bpt_kernel_base m3 = Some off"
  proof -
    have "hooks m3 = hooks m" "resp m3 = resp m" by (subst m3m, simp)+
    then show ?thesis using I(1) bpt_kernel_base_cong by metis
  qed
  moreover have "cr4 m3 = cr4 m" "last_bit m3 = last_bit m" by (subst m3m, simp)+
  moreover have "0 < max_frame m" using s(1) by simp
  moreover have "\<forall>j \<le> 3. \<forall>k' \<in> ?T j. k' < max_frame m3 \<longrightarrow> frame_used m3 k'"
    using used I(9) mf by (auto split: if_splits)
  moreover have "\<forall>x < max_frame m3. \<forall>j \<le> 3. bitmap_frame off m3 x \<notin> ?T j"
    using bfr bf I(10) mf by (auto split: if_splits)
  moreover have "\<forall>x < max_frame m3. bitmap_frame off m3 x < max_frame m3 \<longrightarrow> frame_used m3 (bitmap_frame off m3 x)"
    using bfr used I(11) mf by auto
  moreover have "\<forall>x. x < max_frame m3 \<or> x \<in> ?T 0 \<longrightarrow> kva off x \<noteq> NULL"
    using I(8) s(1) mf by (auto split: if_splits)
  ultimately show "pmap_inv off root ?T m3"
    using inv ext1 used [of 0] mf by (simp add: pmap_inv_def)
qed


lemma lev_step: "l < 3 \<Longrightarrow> lvl_pred (lev (Suc l)) = lev l" "l < 3 \<Longrightarrow> PMAP_PML1 < lev (Suc l)" "lev 0 = PMAP_PML1"
  by (auto simp: lev_def less_Suc_eq numeral_3_eq_3 less_pmap_level_t_def)

text \<open>
  The descent with allocation reaches the last table of the address, or stops where no frame is
  free. It changes no translation, keeps every present entry, and only adds tables.
\<close>

lemma vma_walk_reaches:
  assumes "pmap_inv off root T m" "l \<le> 3" "k \<in> T l"
  shows "\<exists>r m' T'. vma_walk va PMAP_PML1 True (lev l) (kva off k) m = Some (r, m') \<and> pmap_inv off root T' m' \<and>
    max_frame m' = max_frame m \<and> (\<forall>j. T j \<subseteq> T' j) \<and>
    (\<forall>va' j k'. j \<le> 3 \<longrightarrow> k' \<in> T j \<longrightarrow> translate_from (mem m') off va' j k' = translate_from (mem m) off va' j k') \<and>
    (\<forall>j k' i. j \<le> 3 \<longrightarrow> k' \<in> T j \<longrightarrow> i < 512 \<longrightarrow> present (pte (mem m) off k' i) \<longrightarrow>
      pte (mem m') off k' i = pte (mem m) off k' i) \<and>
    (\<forall>A. sparing off T m A \<longrightarrow> sparing off T' m' A \<and> kept off A (mem m) (mem m')) \<and>
    (\<forall>s e. first_free m s e \<longrightarrow> s + l \<le> e \<longrightarrow> (\<exists>s' \<ge> s. s' \<le> s + l \<and> first_free m' s' e)) \<and>
    ((r = NULL \<and> (\<forall>x < max_frame m. frame_used m' x)) \<or>
     (\<exists>t. r = kva off t \<and> t \<in> T' 0 \<and> leaf_table (mem m') off va l k = Some t))"
  using assms
proof (induction l arbitrary: k m T)
  case 0
  then show ?case
    by (intro exI [of _ "kva off k"] exI [of _ m] exI [of _ T]) (subst vma_walk.simps, auto simp: lev_step)
next
  case (Suc l)
  note inv = Suc.prems(1) and I = pmap_invD [OF Suc.prems(1)]
  have l: "l < 3" "l \<le> 3" using Suc.prems(2) by auto
  let ?i = "idx va (Suc l)" and ?e = "pte_at (kva off k) (vma_level_index va (lev (Suc l)))"
  have i: "?i < 512" using Suc.prems(2) by (rule idx_less)
  have pe: "load64 (mem m) ?e = pte (mem m) off k ?i" by (simp add: pte_def idx_index)
  have P: "ISSET v PTE_P = present v" for v by (simp add: PTE_P_def ISSET_BIT present_def del: BIT_def)
  have ptv: "PHYS_TO_VIRT (page c) m = Some (kva off c)" for c
    using I(1) by (simp add: PHYS_TO_VIRT_def PTR_OFFSET_def kva_def)
  show ?case
  proof (cases "present (pte (mem m) off k ?i)")
    case True
    let ?c = "frame_of (pte (mem m) off k ?i)"
    have c: "?c \<in> T l" using tablesD(4) [OF I(6) l(1) Suc.prems(3) i True] .
    have w: "vma_walk va PMAP_PML1 True (lev (Suc l)) (kva off k) m = vma_walk va PMAP_PML1 True (lev l) (kva off ?c) m"
      using True l lev_step
      by (subst vma_walk.simps) (simp add: pe P ptv masked_page Let_def)
    obtain r m' T' where ih: "vma_walk va PMAP_PML1 True (lev l) (kva off ?c) m = Some (r, m')"
      "pmap_inv off root T' m'" "max_frame m' = max_frame m" "\<forall>j. T j \<subseteq> T' j"
      "\<forall>va' j k'. j \<le> 3 \<longrightarrow> k' \<in> T j \<longrightarrow> translate_from (mem m') off va' j k' = translate_from (mem m) off va' j k'"
      "\<forall>j k' i. j \<le> 3 \<longrightarrow> k' \<in> T j \<longrightarrow> i < 512 \<longrightarrow> present (pte (mem m) off k' i) \<longrightarrow>
        pte (mem m') off k' i = pte (mem m) off k' i"
      "(r = NULL \<and> (\<forall>x < max_frame m. frame_used m' x)) \<or>
       (\<exists>t. r = kva off t \<and> t \<in> T' 0 \<and> leaf_table (mem m') off va l ?c = Some t)"
      "\<forall>A. sparing off T m A \<longrightarrow> sparing off T' m' A \<and> kept off A (mem m) (mem m')"
      "\<forall>s e. first_free m s e \<longrightarrow> s + l \<le> e \<longrightarrow> (\<exists>s' \<ge> s. s' \<le> s + l \<and> first_free m' s' e)"
      using Suc.IH [OF inv l(2) c] by blast
    have "pte (mem m') off k ?i = pte (mem m) off k ?i" using ih(6) Suc.prems(2,3) i True by blast
    then have "leaf_table (mem m') off va (Suc l) k = leaf_table (mem m') off va l ?c"
      using True by (simp add: next_table_def)
    moreover have "\<forall>s e. first_free m s e \<longrightarrow> s + Suc l \<le> e \<longrightarrow> (\<exists>s' \<ge> s. s' \<le> s + Suc l \<and> first_free m' s' e)" using ih(9) by fastforce
    ultimately show ?thesis using w ih(1-8) by (intro exI [of _ r] exI [of _ m'] exI [of _ T']) simp
  next
    case False
    consider s m1 where "mm_pmem_alloc 1 m = Some (page s, m1)" "0 < s" "s < max_frame m"
        "\<not> frame_used m s" "same_but_bits s (Suc s) True m m1" "\<forall>k < s. frame_used m k"
      | "\<forall>x < max_frame m. frame_used m x" "mm_pmem_alloc 1 m = Some (0, m)"
      using mm_pmem_alloc_one [OF I(2-4)] by blast
    then show ?thesis
    proof cases
      case 2
      then have "vma_walk va PMAP_PML1 True (lev (Suc l)) (kva off k) m = Some (NULL, m)"
        using False l lev_step by (subst vma_walk.simps) (simp add: pe P Let_def)
      then show ?thesis using 2 inv by (intro exI [of _ NULL] exI [of _ m] exI [of _ T]) auto
    next
      case (1 s m1)
      define m2 where "m2 = m1\<lparr>mem := memset (mem m1) (kva off s) 0 PAGESIZE\<rparr>"
      define m3 where "m3 = m2\<lparr>mem := store64 (mem m2) (pte_at (kva off k) (of_nat ?i)) (page s OR (PTE_P OR PTE_RW OR PTE_US))\<rparr>"
      let ?T = "T(l := insert s (T l))" and ?v = "page s OR (PTE_P OR PTE_RW OR PTE_US)"
      note al = alloc_table [OF inv l(1) Suc.prems(3) i False 1(3-5) m2_def m3_def]
      have s40: "s < 1099511627776" using 1(3) I(5) by simp
      have nz: "page s \<noteq> 0" using unat_page [of s] s40 1(2) by auto
      obtain mm where mm: "m1 = m\<lparr>mem := mm\<rparr>" using 1(5) by (auto simp: same_but_bits_def)
      have "bpt_kernel_base m1 = Some off"
        using I(1) bpt_kernel_base_cong [of m1 m] by (simp add: mm)
      then have pv: "PHYS_TO_VIRT (page s) m1 = Some (kva off s)"
        by (simp add: PHYS_TO_VIRT_def PTR_OFFSET_def kva_def)
      have w: "vma_walk va PMAP_PML1 True (lev (Suc l)) (kva off k) m = vma_walk va PMAP_PML1 True (lev l) (kva off s) m3"
        using False l lev_step nz 1(1) pv
        by (subst vma_walk.simps) (simp add: pe P Let_def m2_def m3_def idx_index)
      have sT: "s \<in> ?T l" by simp
      obtain r m' T' where ih: "vma_walk va PMAP_PML1 True (lev l) (kva off s) m3 = Some (r, m')"
        "pmap_inv off root T' m'" "max_frame m' = max_frame m3" "\<forall>j. ?T j \<subseteq> T' j"
        "\<forall>va' j k'. j \<le> 3 \<longrightarrow> k' \<in> ?T j \<longrightarrow> translate_from (mem m') off va' j k' = translate_from (mem m3) off va' j k'"
        "\<forall>j k' i. j \<le> 3 \<longrightarrow> k' \<in> ?T j \<longrightarrow> i < 512 \<longrightarrow> present (pte (mem m3) off k' i) \<longrightarrow>
          pte (mem m') off k' i = pte (mem m3) off k' i"
        "(r = NULL \<and> (\<forall>x < max_frame m3. frame_used m' x)) \<or>
         (\<exists>t. r = kva off t \<and> t \<in> T' 0 \<and> leaf_table (mem m') off va l s = Some t)"
        "\<forall>A. sparing off ?T m3 A \<longrightarrow> sparing off T' m' A \<and> kept off A (mem m3) (mem m')"
        "\<forall>s e. first_free m3 s e \<longrightarrow> s + l \<le> e \<longrightarrow> (\<exists>s' \<ge> s. s' \<le> s + l \<and> first_free m' s' e)"
        using Suc.IH [OF al(1) l(2) sT] by blast
      have sub: "k' \<in> ?T j" if "k' \<in> T j" for k' j using that by auto
      have p3: "pte (mem m3) off k ?i = ?v" using al(3) [OF Suc.prems(2,3) i] by simp
      have "pte (mem m') off k ?i = ?v"
        using ih(6) Suc.prems(2) sub [OF Suc.prems(3)] i p3 table_entry(2) [OF s40] by metis
      then have leaf: "leaf_table (mem m') off va (Suc l) k = leaf_table (mem m') off va l s"
        using table_entry [OF s40] by (simp add: next_table_def)
      have tr: "translate_from (mem m') off va' j k' = translate_from (mem m) off va' j k'"
        if "j \<le> 3" "k' \<in> T j" for va' j k'
        using ih(5) that(1) sub [OF that(2)] al(4) [OF that] by metis
      have keep: "pte (mem m') off k' i' = pte (mem m) off k' i'"
        if "j \<le> 3" "k' \<in> T j" "i' < 512" "present (pte (mem m) off k' i')" for j k' i'
      proof -
        have "\<not> (k' = k \<and> i' = ?i)" using that(4) False by blast
        then have "pte (mem m3) off k' i' = pte (mem m) off k' i'" using al(3) [OF that(1-3)] by metis
        then show ?thesis using ih(6) that(1,3,4) sub [OF that(2)] by metis
      qed
      have sp: "sparing off T' m' A \<and> kept off A (mem m) (mem m')" if "sparing off T m A" for A
        using al(6) [OF that] ih(8) kept_trans by metis
      have ff: "\<exists>s'' \<ge> s'. s'' \<le> s' + Suc l \<and> first_free m' s'' e" if f: "first_free m s' e" "s' + Suc l \<le> e" for s' e
      proof -
        have "\<not> s < s'" using f(1) 1(4) unfolding first_free_def by blast
        moreover have "\<not> s' < s" using f 1(6) unfolding first_free_def by auto
        ultimately have "s = s'" by simp
        then have "first_free m3 (Suc s') e" using f al(2,5) unfolding first_free_def by (auto simp: less_Suc_eq)
        then obtain s'' where "Suc s' \<le> s''" "s'' \<le> Suc s' + l" "first_free m' s'' e"
          using ih(9) f(2) by (metis add_Suc add_Suc_right)
        then show ?thesis by (intro exI [of _ s'']) auto
      qed
      have "T j \<subseteq> T' j" for j using ih(4) sub by blast
      then show ?thesis
        using w ih(1-3,7) al(2) leaf tr keep sp ff by (intro exI [of _ r] exI [of _ m'] exI [of _ T']) simp
    qed
  qed
qed


section \<open>Mapping a page\<close>

text \<open>Rounding an address down to its page keeps its indices.\<close>

lemma idx_align: "l \<le> 3 \<Longrightarrow> idx (ALIGN_DOWN va 4096) l = idx va l"
proof -
  assume "l \<le> 3"
  then have l: "l = 0 \<or> l = 1 \<or> l = 2 \<or> l = 3" by auto
  have m: "(4096 - 1 :: u64) = mask 12" by (simp add: mask_eq_exp_minus_1)
  have "drop_bit n (ALIGN_DOWN va 4096) = drop_bit n va" if "12 \<le> n" for n
    unfolding ALIGN_DOWN_def m using that by (intro bit_word_eqI) (auto simp: bit_simps dest: bit_imp_le_length)
  then show ?thesis using l by (auto simp: idx_def lev_def)
qed

lemma lev_top: "lev 3 = PMAP_PML4" "lev 0 = PMAP_PML1"
  by (simp_all add: lev_def)

text \<open>
  What a page mapper promises to its callers: a call on a state that satisfies the invariant
  either succeeds, and then the page of the address translates to the new entry and every other
  page as before, or fails with \<open>-1\<close> when memory has run out, and then no page has changed.
\<close>

definition same_page :: "u64 \<Rightarrow> u64 \<Rightarrow> bool" where
  "same_page va va' \<longleftrightarrow> (\<forall>j \<le> 3. idx va j = idx va' j)"

locale page_mapper =
  fixes map_page :: "u64 \<Rightarrow> u64 \<Rightarrow> u32 \<Rightarrow> 's \<Rightarrow> (int \<times> 's) option"
    and inv :: "'s \<Rightarrow> bool"
    and view :: "'s \<Rightarrow> u64 \<Rightarrow> u64 option"
    and full :: "'s \<Rightarrow> bool"
  assumes map_page: "inv m \<Longrightarrow> \<exists>r m'. map_page va pa prot m = Some (r, m') \<and> inv m' \<and>
      ((r = 0 \<and> (\<forall>va'. view m' va' = (if same_page va va' then Some (pa OR prot_to_pte (ucast prot)) else view m va')))
       \<or> (r = - 1 \<and> full m' \<and> view m' = view m))"
begin

text \<open>Mapping the pages of a list one after the other, until one of them fails.\<close>

fun map_pages :: "(u64 \<times> u64) list \<Rightarrow> u32 \<Rightarrow> 's \<Rightarrow> (int \<times> 's) option" where
  "map_pages [] prot m = Some (0, m)"
| "map_pages (p # ps) prot m = do {
     rm \<leftarrow> map_page (fst p) (snd p) prot m;
     (if fst rm \<noteq> 0 then Some rm else map_pages ps prot (snd rm)) }"

text \<open>The entry of the last pair of the list with the given page.\<close>

fun mapped :: "(u64 \<times> u64) list \<Rightarrow> u64 \<Rightarrow> u64 option" where
  "mapped [] va = None"
| "mapped (p # ps) va = (case mapped ps va of None \<Rightarrow> if same_page (fst p) va then Some (snd p) else None | Some x \<Rightarrow> Some x)"

lemma map_pages_view:
  "inv m \<Longrightarrow> \<exists>r m'. map_pages ps prot m = Some (r, m') \<and> inv m' \<and>
     ((r = 0 \<and> (\<forall>va. view m' va = (case mapped ps va of None \<Rightarrow> view m va | Some pa \<Rightarrow> Some (pa OR prot_to_pte (ucast prot)))))
      \<or> (r = - 1 \<and> full m' \<and>
         (\<forall>va. (\<forall>p \<in> set ps. \<not> same_page (fst p) va) \<longrightarrow> view m' va = view m va)))"
proof (induction ps arbitrary: m)
  case (Cons p ps)
  obtain r1 m1 where 1: "map_page (fst p) (snd p) prot m = Some (r1, m1)" "inv m1"
    "(r1 = 0 \<and> (\<forall>va'. view m1 va' = (if same_page (fst p) va' then Some (snd p OR prot_to_pte (ucast prot)) else view m va')))
     \<or> (r1 = - 1 \<and> full m1 \<and> view m1 = view m)"
    using map_page [OF Cons.prems, of "fst p" "snd p" prot] by blast
  show ?case
  proof (cases "r1 = 0")
    case False
    then show ?thesis using 1 by auto
  next
    case True
    then obtain r m' where 2: "map_pages ps prot m1 = Some (r, m')" "inv m'"
      "(r = 0 \<and> (\<forall>va. view m' va = (case mapped ps va of None \<Rightarrow> view m1 va | Some pa \<Rightarrow> Some (pa OR prot_to_pte (ucast prot)))))
       \<or> (r = - 1 \<and> full m' \<and> (\<forall>va. (\<forall>p \<in> set ps. \<not> same_page (fst p) va) \<longrightarrow> view m' va = view m1 va))"
      using Cons.IH [OF 1(2)] by blast
    have v: "view m' va = (case mapped (p # ps) va of None \<Rightarrow> view m va | Some pa \<Rightarrow> Some (pa OR prot_to_pte (ucast prot)))"
      if "r = 0" for va
      using 1(3) 2(3) True that by (cases "mapped ps va") auto
    have "map_pages (p # ps) prot m = Some (r, m')" using 1(1) 2(1) True by simp
    moreover have "r = 0 \<or> r = - 1" "r \<noteq> 0 \<longrightarrow> full m' \<and> (\<forall>va. (\<forall>p \<in> set ps. \<not> same_page (fst p) va) \<longrightarrow> view m' va = view m1 va)"
      using 2(3) by auto
    ultimately show ?thesis using 1(3) 2(2) True v by fastforce
  qed
qed simp

lemma mapped_in: "mapped ps va = Some x \<Longrightarrow> \<exists>q \<in> set ps. same_page (fst q) va \<and> x = snd q"
  by (induction ps arbitrary: x) (auto split: option.splits if_splits)

lemma mapped_other: "(\<And>q. q \<in> set ps \<Longrightarrow> \<not> same_page (fst q) va) \<Longrightarrow> mapped ps va = None"
  by (induction ps) auto

lemma mapped_some: "q \<in> set ps \<Longrightarrow> same_page (fst q) va \<Longrightarrow> \<exists>x. mapped ps va = Some x"
  by (induction ps) (auto split: option.splits)

lemma mapped_same:
  assumes "p \<in> set ps" "same_page (fst p) va" "\<And>q. q \<in> set ps \<Longrightarrow> same_page (fst q) va \<Longrightarrow> snd q = snd p"
  shows "mapped ps va = Some (snd p)"
proof -
  obtain x where x: "mapped ps va = Some x" using mapped_some assms(1,2) by blast
  then obtain q where "q \<in> set ps" "same_page (fst q) va" "x = snd q" using mapped_in by blast
  then show ?thesis using x assms(3) by simp
qed

end

text \<open>The mapper of the kernel, at the address space \<open>v\<close>.\<close>

definition pmap_ok :: "addr \<Rightarrow> mu_vas \<Rightarrow> 'a pmem_scheme \<Rightarrow> bool" where
  "pmap_ok off v m \<longleftrightarrow> (\<exists>T. pmap_inv off (frame_of (vas_cr3 v)) T m)"

definition out_of_frames :: "'a pmem_scheme \<Rightarrow> bool" where
  "out_of_frames m \<longleftrightarrow> (\<forall>k < max_frame m. frame_used m k)"

lemma mu_pmap_map_effect:
  assumes inv: "pmap_inv off (frame_of (vas_cr3 v)) T m"
  shows "\<exists>r m' T'. mu_pmap_map (Some v) va pa prot PAGESIZE_4K m = Some (r, m') \<and> pmap_inv off (frame_of (vas_cr3 v)) T' m' \<and>
    max_frame m' = max_frame m \<and>
    (\<forall>A. sparing off T m A \<longrightarrow> sparing off T' m' A \<and> kept off A (mem m) (mem m')) \<and>
    (\<forall>s e. first_free m s e \<longrightarrow> s + 3 \<le> e \<longrightarrow> (\<exists>s' \<ge> s. s' \<le> s + 3 \<and> first_free m' s' e)) \<and>
    ((r = 0 \<and> (\<forall>va'. translate (mem m') off (vas_cr3 v) va' =
        (if same_page va va' then Some (pa OR prot_to_pte (ucast prot)) else translate (mem m) off (vas_cr3 v) va')))
     \<or> (r = - 1 \<and> out_of_frames m' \<and> translate (mem m') off (vas_cr3 v) = translate (mem m) off (vas_cr3 v)))"
proof -
  let ?root = "frame_of (vas_cr3 v)" and ?va = "ALIGN_DOWN va 4096" and ?v = "pa OR prot_to_pte (ucast prot)"
  note I = pmap_invD [OF inv]
  have root: "?root \<in> T 3" using tablesD(1) [OF I(6)] .
  obtain r m' T' where w: "vma_walk ?va PMAP_PML1 True (lev 3) (kva off ?root) m = Some (r, m')"
    "pmap_inv off ?root T' m'" "max_frame m' = max_frame m"
    "\<forall>va' j k'. j \<le> 3 \<longrightarrow> k' \<in> T j \<longrightarrow> translate_from (mem m') off va' j k' = translate_from (mem m) off va' j k'"
    "(r = NULL \<and> (\<forall>x < max_frame m. frame_used m' x)) \<or>
     (\<exists>t. r = kva off t \<and> t \<in> T' 0 \<and> leaf_table (mem m') off ?va 3 ?root = Some t)"
    "\<forall>A. sparing off T m A \<longrightarrow> sparing off T' m' A \<and> kept off A (mem m) (mem m')"
    "\<forall>s e. first_free m s e \<longrightarrow> s + 3 \<le> e \<longrightarrow> (\<exists>s' \<ge> s. s' \<le> s + 3 \<and> first_free m' s' e)"
    using vma_walk_reaches [OF inv order_refl root, of ?va] by blast
  have base: "vma_level_base (Some v) ?va PMAP_PML1 True m = Some (r, m')"
    using w(1) I(1,7) by (simp add: vma_level_base_def PHYS_TO_VIRT_def PTR_OFFSET_def masked_page kva_def lev_top)
  have tr: "translate (mem m') off (vas_cr3 v) va' = translate (mem m) off (vas_cr3 v) va'" for va'
    using w(4) root by (simp add: translate_def)
  note I' = pmap_invD [OF w(2)]
  show ?thesis
  proof (cases "r = NULL")
    case True
    then have "\<forall>x < max_frame m. frame_used m' x"
      using w(5) I'(8) by metis
    then have "mu_pmap_map (Some v) va pa prot PAGESIZE_4K m = Some (- 1, m')" "out_of_frames m'"
      using base True w(3) by (simp_all add: mu_pmap_map_def out_of_frames_def)
    then show ?thesis using w(2,3,6,7) tr by (intro exI [of _ "- 1"] exI [of _ m'] exI [of _ T']) auto
  next
    case False
    then obtain t where t: "r = kva off t" "t \<in> T' 0" "leaf_table (mem m') off ?va 3 ?root = Some t"
      using w(5) by blast
    let ?i = "idx ?va 0"
    define M where "M = store64 (mem m') (pte_at (kva off t) (of_nat ?i)) ?v"
    have i: "?i < 512" by (simp add: idx_less)
    have t40: "t < 1099511627776" using tablesD(2) [OF I'(6), of 0] t(2) by simp
    have map: "mu_pmap_map (Some v) va pa prot PAGESIZE_4K m = Some (0, m'\<lparr>mem := M\<rparr>)"
      using base False t(1) by (simp add: mu_pmap_map_def Let_def M_def idx_index lev_top)
    note leaf = leaf_update [OF I'(6) t(2) i t(3) refl, of ?v, folded M_def]
    have pr: "present ?v"
      by (simp add: present_def bit_or_iff prot_to_pte_bits)
    have "translate M off (vas_cr3 v) va' = (if same_page va va' then Some ?v else translate (mem m) off (vas_cr3 v) va')" for va'
    proof -
      have "(\<forall>j \<le> 3. idx ?va j = idx va' j) = same_page va va'"
        by (auto simp: same_page_def idx_align)
      then show ?thesis using leaf(2) [of va'] tr [of va'] pr by (simp add: translate_def)
    qed
    moreover have used: "frame_used (m'\<lparr>mem := M\<rparr>) x = frame_used m' x" if "x < max_frame m'" for x
    proof (rule frame_used_cong)
        have "kframe off (bit_byte (bitmap m') (of_nat x)) \<noteq> t"
          using I'(10) [OF that, of 0] t(2) by (auto simp: bitmap_frame_def)
        from store_pte_other [OF t40 i this, of "mem m'" ?v]
        show "mem (m'\<lparr>mem := M\<rparr>) (bit_byte (bitmap m') (of_nat x)) = mem m' (bit_byte (bitmap m') (of_nat x))"
          by (simp add: M_def)
    qed simp
    moreover have "pmap_inv off ?root T' (m'\<lparr>mem := M\<rparr>)"
    proof -
      have "tables off ?root T' M" using leaf(1) .
      then show ?thesis using w(2) used I'(4,11,12) by (intro pmap_inv_mem)
    qed
    moreover have mf: "max_frame (m'\<lparr>mem := M\<rparr>) = max_frame m'" "bitmap_frame off (m'\<lparr>mem := M\<rparr>) = bitmap_frame off m'"
      by (simp_all add: max_frame_def bitmap_frame_def fun_eq_iff)
    moreover have "sparing off T' (m'\<lparr>mem := M\<rparr>) A \<and> kept off A (mem m) M" if A: "sparing off T m A" for A
    proof
      have s: "sparing off T' m' A" "kept off A (mem m) (mem m')" using w(6) A by blast+
      show "sparing off T' (m'\<lparr>mem := M\<rparr>) A" using s(1) used unfolding sparing_def mf by auto
      have "t \<notin> A" using s(1) t(2) unfolding sparing_def by blast
      then have "kept off A (mem m') M" using store_pte_other [OF t40 i] unfolding kept_def M_def by metis
      then show "kept off A (mem m) M" using s(2) kept_trans by blast
    qed
    moreover have "\<exists>s' \<ge> s. s' \<le> s + 3 \<and> first_free (m'\<lparr>mem := M\<rparr>) s' e" if ff: "first_free m s e" "s + 3 \<le> e" for s e
    proof -
      obtain s' where "s \<le> s'" "s' \<le> s + 3" "first_free m' s' e" using w(7) ff by blast
      then show ?thesis using used unfolding first_free_def mf by (intro exI [of _ s']) auto
    qed
    ultimately show ?thesis using map w(3)
      by (intro exI [of _ 0] exI [of _ "m'\<lparr>mem := M\<rparr>"] exI [of _ T']) simp
  qed
qed


lemma mu_pmap_map_view:
  assumes "pmap_ok off v m"
  shows "\<exists>r m'. mu_pmap_map (Some v) va pa prot PAGESIZE_4K m = Some (r, m') \<and> pmap_ok off v m' \<and>
    ((r = 0 \<and> (\<forall>va'. translate (mem m') off (vas_cr3 v) va' =
        (if same_page va va' then Some (pa OR prot_to_pte (ucast prot)) else translate (mem m) off (vas_cr3 v) va')))
     \<or> (r = - 1 \<and> out_of_frames m' \<and> translate (mem m') off (vas_cr3 v) = translate (mem m) off (vas_cr3 v)))"
proof -
  obtain T where "pmap_inv off (frame_of (vas_cr3 v)) T m" using assms by (auto simp: pmap_ok_def)
  from mu_pmap_map_effect [OF this, of va pa prot] show ?thesis unfolding pmap_ok_def by metis
qed


interpretation kmap: page_mapper "\<lambda>va pa prot. mu_pmap_map (Some v) va pa prot PAGESIZE_4K" "pmap_ok off v"
  "\<lambda>m. translate (mem m) off (vas_cr3 v)" out_of_frames for off v
  by unfold_locales (rule mu_pmap_map_view)

text \<open>
  C11: On sound page tables, with the bitmap of the frame allocator in frames in use,
  \<^verbatim>\<open>mu_pmap_map\<close> of a 4 KiB page always returns and keeps the tables sound. When it returns 0,
  the page of the address translates to exactly the given entry with the flags of the
  protection, and every other page as before, whether or not tables had to be allocated on the
  way; when it returns -1, no frame is free any more and no translation has changed.
\<close>

theorem mu_pmap_map_translates:
  assumes "pmap_ok off v m"
  shows "\<exists>r m'. mu_pmap_map (Some v) va pa prot PAGESIZE_4K m = Some (r, m') \<and> pmap_ok off v m' \<and>
    ((r = 0 \<and> (\<forall>va'. translate (mem m') off (vas_cr3 v) va' =
        (if same_page va va' then Some (pa OR prot_to_pte (ucast prot)) else translate (mem m) off (vas_cr3 v) va')))
     \<or> (r = - 1 \<and> out_of_frames m' \<and> translate (mem m') off (vas_cr3 v) = translate (mem m) off (vas_cr3 v)))"
  using assms by (rule mu_pmap_map_view)

text \<open>An empty top-level table in frame 1, and the bitmap of eight frames in frame 3.\<close>

definition pmap_witness :: pmem where
  "pmap_witness = (pmem_witness 0)\<lparr>mem := (\<lambda>_. 0)(0xFFFF800000003000 := 11), bitmap := 0xFFFF800000003000,
     usable_top := 0x8000,
     hooks := \<lparr>hook_get_vars = Some limine_get_vars, hook_get_mementry = None, hook_get_module = None\<rparr>,
     resp := \<lparr>r_memmap = None, r_hhdm_offset = Some 0xFFFF800000000000, r_rsdp_address = Some 0, r_module = None\<rparr>\<rparr>"

lemma pmap_witness_pte0: "i < 512 \<Longrightarrow> pte (mem pmap_witness) 0xFFFF800000000000 1 i = 0"
proof -
  let ?off = "0xFFFF800000000000 :: u64"
  assume i: "i < 512"
  have "pte (mem pmap_witness) ?off 1 i = pte (\<lambda>_. 0) ?off 1 i"
  proof (rule pte_cong)
    fix a assume "kframe ?off a = 1"
    then have "a \<noteq> 0xFFFF800000003000" by (auto simp: kframe_def)
    then show "mem pmap_witness a = 0" by (simp add: pmap_witness_def)
  qed (use i in auto)
  also have "\<dots> = 0"
  proof -
    have "load_n n (\<lambda>_. 0) a = 0" for n a by (induction n arbitrary: a) simp_all
    then show ?thesis by (simp add: pte_def load64_def)
  qed
  finally show ?thesis .
qed

lemma pmap_witness_ok: "pmap_ok 0xFFFF800000000000 \<lparr>vas_cr3 = 0x1000\<rparr> pmap_witness"
proof -
  let ?off = "0xFFFF800000000000 :: u64" and ?T = "\<lambda>l :: nat. if l = 3 then {1 :: nat} else {}"
  have mf: "max_frame pmap_witness = 8" by (simp add: max_frame_def pmap_witness_def)
  have byte: "bit_byte (bitmap pmap_witness) (of_nat j) = 0xFFFF800000003000" if "j < 8" for j
  proof -
    have "unat (drop_bit 3 (of_nat j :: u64)) = 0"
      using that by (simp add: drop_bit_eq_div unat_div unat_of_nat64)
    then have "drop_bit 3 (of_nat j :: u64) = 0" by (simp only: unat_eq_0)
    then show ?thesis by (simp add: bit_byte_def pmap_witness_def)
  qed
  have bf: "bitmap_frame ?off pmap_witness j = 3" if "j < 8" for j
    using byte [OF that] by (simp add: bitmap_frame_def kframe_def)
  have used: "frame_used pmap_witness j \<longleftrightarrow> bit (11 :: u8) j" if "j < 8" for j
    using byte [OF that] that
    by (simp add: frame_used_def TESTBIT_bit bit_byte_def unat_mod unat_of_nat64) (simp add: pmap_witness_def)
  have root: "frame_of 0x1000 = 1" by (simp add: frame_of_def PTE_ADDR_MASK_def)
  have kv: "kva ?off k \<noteq> NULL" if "k < 8" for k
  proof
    assume "kva ?off k = NULL"
    then have "page k = - ?off" by (simp add: kva_def eq_neg_iff_add_eq_0 add.commute)
    then have "unat (page k) = unat (- ?off)" by simp
    then show False using that by (simp add: unat_page)
  qed
  have "pmap_inv ?off (frame_of 0x1000) ?T pmap_witness"
    unfolding pmap_inv_def mf root
  proof (intro conjI)
    show "tables ?off 1 ?T (mem pmap_witness)"
      using pmap_witness_pte0 by (auto simp: tables_def present_def)
    show "\<forall>l \<le> 3. \<forall>k \<in> ?T l. k < 8 \<longrightarrow> frame_used pmap_witness k" using used [of 1] by (auto simp: bit_simps)
    show "frame_used pmap_witness 0" using used [of 0] by simp
    show "\<forall>j < 8. \<forall>l \<le> 3. bitmap_frame ?off pmap_witness j \<notin> ?T l" using bf by auto
    show "\<forall>j < 8. bitmap_frame ?off pmap_witness j < 8 \<longrightarrow> frame_used pmap_witness (bitmap_frame ?off pmap_witness j)"
      using bf used [of 3] by simp
    show "pmem_ready pmap_witness" using mf by (simp add: pmem_ready_def) (simp add: pmap_witness_def pmem_witness_def)
    show "bpt_kernel_base pmap_witness = Some ?off"
      by (rule bpt_kernel_base_limine) (simp_all add: pmap_witness_def)
    show "\<forall>k. k < 8 \<or> k \<in> ?T 0 \<longrightarrow> kva ?off k \<noteq> NULL" using kv by auto
  qed (simp_all add: pmap_witness_def pmem_witness_def ISSET_def)
  then show ?thesis by (auto simp: pmap_ok_def)
qed

lemma mu_pmap_map_translates_witness:
  "\<exists>r m'. mu_pmap_map (Some \<lparr>vas_cr3 = 0x1000\<rparr>) 0x400123 0x5000 1 PAGESIZE_4K pmap_witness = Some (r, m') \<and>
    pmap_ok 0xFFFF800000000000 \<lparr>vas_cr3 = 0x1000\<rparr> m' \<and>
    ((r = 0 \<and> (\<forall>va'. translate (mem m') 0xFFFF800000000000 (vas_cr3 \<lparr>vas_cr3 = 0x1000\<rparr>) va' =
        (if same_page 0x400123 va' then Some (0x5000 OR prot_to_pte (ucast (1 :: u32)))
         else translate (mem pmap_witness) 0xFFFF800000000000 (vas_cr3 \<lparr>vas_cr3 = 0x1000\<rparr>) va')))
     \<or> (r = - 1 \<and> out_of_frames m' \<and> translate (mem m') 0xFFFF800000000000 (vas_cr3 \<lparr>vas_cr3 = 0x1000\<rparr>) =
         translate (mem pmap_witness) 0xFFFF800000000000 (vas_cr3 \<lparr>vas_cr3 = 0x1000\<rparr>)))"
  by (rule mu_pmap_map_translates [OF pmap_witness_ok])


section \<open>Mapping a region\<close>

text \<open>Two addresses are on the same page of the tables when bits 12 to 47 agree.\<close>

lemma idx_bits: "j \<le> 3 \<Longrightarrow> idx va j = unat (take_bit 9 (drop_bit (12 + 9 * j) va))"
proof -
  assume "j \<le> 3"
  then have "j = 0 \<or> j = 1 \<or> j = 2 \<or> j = 3" by auto
  moreover have "(0x1FF :: u64) = mask 9" by (simp add: mask_eq_exp_minus_1)
  then have "x AND 0x1FF = take_bit 9 x" for x :: u64 by (simp add: take_bit_eq_mask)
  ultimately show ?thesis by (auto simp: idx_def lev_def)
qed

lemma same_page_refl [simp]: "same_page va va"
  by (simp add: same_page_def)

lemma same_page_number:
  assumes "same_page a b"
  shows "unat a div 4096 mod 68719476736 = unat b div 4096 mod 68719476736"
proof -
  have "take_bit 36 (drop_bit 12 a) = take_bit 36 (drop_bit 12 b)"
  proof (rule bit_word_eqI)
    fix n assume "n < LENGTH(64)"
    have "bit (take_bit 36 (drop_bit 12 x)) n = (n < 36 \<and> bit (take_bit 9 (drop_bit (12 + 9 * (n div 9)) x)) (n mod 9))" for x :: u64
    proof -
      have "12 + 9 * (n div 9) + n mod 9 = 12 + n" by simp
      moreover have "n mod 9 < 9" by simp
      ultimately show ?thesis by (simp only: bit_take_bit_iff bit_drop_bit_eq o_def simp_thms)
    qed
    moreover have "take_bit 9 (drop_bit (12 + 9 * (n div 9)) a) = take_bit 9 (drop_bit (12 + 9 * (n div 9)) b)" if "n < 36"
    proof -
      have "n div 9 \<le> 3" using that by simp
      then show ?thesis using assms idx_bits unfolding same_page_def by (metis word_unat_eq_iff)
    qed
    ultimately show "bit (take_bit 36 (drop_bit 12 a)) n = bit (take_bit 36 (drop_bit 12 b)) n" by metis
  qed
  then have "unat (take_bit 36 (drop_bit 12 a)) = unat (take_bit 36 (drop_bit 12 b))" by simp
  then show ?thesis by (simp add: unsigned_take_bit_eq drop_bit_eq_div unat_div take_bit_nat_def)
qed

lemma page_add_number:
  assumes "unat b mod 4096 = 0"
  shows "unat (b + page j) div 4096 mod 68719476736 = (unat b div 4096 + j) mod 68719476736"
proof -
  obtain c where c: "unat b = 4096 * c" using assms by (metis mod_eq_0_iff_dvd dvd_def)
  moreover have "of_nat (unat b) = b" by simp
  ultimately have "b = of_nat (4096 * c)" by metis
  then have "b + page j = of_nat (4096 * (c + j))" by (simp add: page_def algebra_simps)
  then have "unat (b + page j) = (4096 * (c + j)) mod 18446744073709551616"
    by (simp only: unat_of_nat take_bit_nat_def) simp
  also have "\<dots> = 4096 * ((c + j) mod 4503599627370496)"
    using mult_mod_right [of 4096 "c + j" 4503599627370496] by simp
  finally show ?thesis using c mod_mod_cancel [of 68719476736 4503599627370496 "c + j"] by simp
qed

lemma mod_add_inj:
  assumes "(a + i) mod M = (a + j) mod (M :: nat)" "i < M" "j < M"
  shows "i = j"
proof -
  have le: "j \<le> i" if "(a + i) mod M = (a + j) mod M" "i < M" "j < M" for i j
  proof (rule ccontr)
    assume "\<not> j \<le> i"
    then have "M dvd (a + j) - (a + i)" using that(1) by (subst mod_eq_dvd_iff_nat [symmetric]) simp_all
    then have "M dvd j - i" by simp
    then show False using that(3) \<open>\<not> j \<le> i\<close> by (auto dest: dvd_imp_le)
  qed
  show ?thesis using le [OF assms] le [OF assms(1) [symmetric] assms(3,2)] by simp
qed

lemma same_page_pages:
  assumes "unat b mod 4096 = 0" "i < 68719476736" "j < 68719476736" "same_page (b + page i) (b + page j)"
  shows "i = j"
proof -
  have "(unat b div 4096 + i) mod 68719476736 = (unat b div 4096 + j) mod 68719476736"
    using same_page_number [OF assms(4)] page_add_number [OF assms(1)] by simp
  then show ?thesis using assms(2,3) by (rule mod_add_inj)
qed

text \<open>
  A region that ends below 2^64 and is no longer than the 256 TiB that four levels can translate: its mapping maps
  every page of the region to the corresponding page, and changes no other page, also where it stops early.
\<close>

lemma map_region_loop_pages:
  fixes m :: "'a pmem_scheme"
  assumes "unat len = 4096 * n" "n < 4503599627370496" "i \<le> n"
  shows "map_region_loop (Some v) vb pb len prot (page i) m =
    kmap.map_pages v
      (map (\<lambda>j. (vb + page j, pb + page j)) [i..<n]) prot m"
  using assms(3)
proof (induction "n - i" arbitrary: i m)
  case 0
  then show ?case using assms
    by (subst map_region_loop.simps) (simp add: word_less_nat_alt unat_page kmap.map_pages.simps)
next
  case (Suc k)
  then have i: "i < n" by simp
  have lt: "page i < len" using i assms by (simp add: word_less_nat_alt unat_page)
  have nx: "page i + PAGESIZE = page (Suc i)" by (simp add: page_def PAGESIZE_def)
  have u: "[i..<n] = i # [Suc i..<n]" using i by (rule upt_conv_Cons)
  have "map_region_loop (Some v) vb pb len prot (page (Suc i)) m' =
    kmap.map_pages v
      (map (\<lambda>j. (vb + page j, pb + page j)) [Suc i..<n]) prot m'" for m' :: "'a pmem_scheme"
  proof (rule Suc.hyps(1))
    show "k = n - Suc i" "Suc i \<le> n" using Suc.hyps(2) i by auto
  qed
  then show ?case unfolding u
    by (subst map_region_loop.simps) (simp add: lt nx kmap.map_pages.simps cong: if_cong)
qed

lemma vmem_map_region_pages:
  assumes "unat (rlength r) + 4096 \<le> 18446744073709551616" "n = (unat (rlength r) + 4095) div 4096" "n \<le> 68719476736"
  shows "vmem_map_region (Some v) (Some r) prot m =
    kmap.map_pages v (map (\<lambda>j. (ALIGN_DOWN (vma r) 4096 + page j, ALIGN_DOWN (pma r) 4096 + page j)) [0..<n]) prot m"
proof -
  have len: "unat (ALIGN_UP (rlength r) 4096) = 4096 * n" using unat_ALIGN_UP_page assms(1,2) by simp
  show ?thesis
    using map_region_loop_pages [OF len, of 0] assms(3) by (simp add: vmem_map_region_def PAGESIZE_def page_def)
qed

lemma vmem_map_region_view:
  assumes "pmap_ok off v m" "unat (rlength r) + 4096 \<le> 18446744073709551616"
    and n: "n = (unat (rlength r) + 4095) div 4096" "n \<le> 68719476736"
  shows "\<exists>e m'. vmem_map_region (Some v) (Some r) prot m = Some (e, m') \<and> pmap_ok off v m' \<and>
    (\<forall>va. (\<forall>j < n. \<not> same_page (ALIGN_DOWN (vma r) 4096 + page j) va) \<longrightarrow>
       translate (mem m') off (vas_cr3 v) va = translate (mem m) off (vas_cr3 v) va) \<and>
    (e = 0 \<and> (\<forall>j < n. translate (mem m') off (vas_cr3 v) (ALIGN_DOWN (vma r) 4096 + page j) =
         Some (ALIGN_DOWN (pma r) 4096 + page j OR prot_to_pte (ucast prot)))
     \<or> e = - 1 \<and> out_of_frames m')"
proof -
  let ?b = "ALIGN_DOWN (vma r) 4096" and ?p = "ALIGN_DOWN (pma r) 4096"
  let ?ps = "map (\<lambda>j. (?b + page j, ?p + page j)) [0..<n]"
  have b: "unat ?b mod 4096 = 0" by (simp add: unat_ALIGN_DOWN_page minus_mod_eq_mult_div)
  have "vmem_map_region (Some v) (Some r) prot m = kmap.map_pages v ?ps prot m"
    using vmem_map_region_pages [OF assms(2) n] .
  moreover obtain e m' where e: "kmap.map_pages v ?ps prot m = Some (e, m')"
    "pmap_ok off v m'"
    "(e = 0 \<and> (\<forall>va. translate (mem m') off (vas_cr3 v) va = (case kmap.mapped ?ps va of None \<Rightarrow> translate (mem m) off (vas_cr3 v) va
       | Some pa \<Rightarrow> Some (pa OR prot_to_pte (ucast prot)))))
      \<or> (e = - 1 \<and> out_of_frames m' \<and>
         (\<forall>va. (\<forall>p \<in> set ?ps. \<not> same_page (fst p) va) \<longrightarrow> translate (mem m') off (vas_cr3 v) va = translate (mem m) off (vas_cr3 v) va))"
    using kmap.map_pages_view [OF assms(1), of ?ps prot] by blast
  moreover have "kmap.mapped ?ps va = None" if "\<forall>j < n. \<not> same_page (?b + page j) va" for va
    using that by (intro kmap.mapped_other) auto
  moreover have "kmap.mapped ?ps (?b + page j) = Some (?p + page j)" if "j < n" for j
  proof -
    have "i = j" if "i < n" "same_page (?b + page i) (?b + page j)" for i
      using same_page_pages [OF b _ _ that(2)] that(1) \<open>j < n\<close> n(2) by simp
    then have "snd q = ?p + page j" if q: "q \<in> set ?ps" "same_page (fst q) (?b + page j)" for q
    proof -
      obtain x where x: "x < n" "q = (?b + page x, ?p + page x)" using q(1) by auto
      then have "x = j" using q(2) \<open>\<And>i. i < n \<Longrightarrow> same_page (?b + page i) (?b + page j) \<Longrightarrow> i = j\<close> by simp
      then show ?thesis using x by simp
    qed
    then show ?thesis using kmap.mapped_same [of "(?b + page j, ?p + page j)" ?ps "?b + page j"] \<open>j < n\<close> by simp
  qed
  ultimately show ?thesis by (intro exI [of _ e] exI [of _ m']) auto
qed

text \<open>
  C12: On sound page tables, \<^verbatim>\<open>vmem_map_region\<close> of a region that does not wrap around and is at
  most 256 TiB long (what four levels of tables can tell apart) always returns and keeps the
  tables sound. It changes the translation of no page outside the region, even when it stops
  early; when it returns 0, every page of the region translates to the corresponding physical
  page with the flags of the protection, and otherwise it returns -1 and no frame is free.
\<close>

theorem vmem_map_region_maps:
  assumes "pmap_ok off v m" "unat (rlength r) + 4096 \<le> 18446744073709551616"
    and "n = (unat (rlength r) + 4095) div 4096" "n \<le> 68719476736"
  shows "\<exists>e m'. vmem_map_region (Some v) (Some r) prot m = Some (e, m') \<and> pmap_ok off v m' \<and>
    (\<forall>va. (\<forall>j < n. \<not> same_page (ALIGN_DOWN (vma r) 4096 + page j) va) \<longrightarrow>
       translate (mem m') off (vas_cr3 v) va = translate (mem m) off (vas_cr3 v) va) \<and>
    (e = 0 \<and> (\<forall>j < n. translate (mem m') off (vas_cr3 v) (ALIGN_DOWN (vma r) 4096 + page j) =
         Some (ALIGN_DOWN (pma r) 4096 + page j OR prot_to_pte (ucast prot)))
     \<or> e = - 1 \<and> out_of_frames m')"
  using assms by (rule vmem_map_region_view)

lemma vmem_map_region_maps_witness:
  "\<exists>e m'. vmem_map_region (Some \<lparr>vas_cr3 = 0x1000\<rparr>) (Some \<lparr>vma = 0x400123, pma = 0x5000, rlength = 0x1001\<rparr>) 1 pmap_witness = Some (e, m') \<and>
    pmap_ok 0xFFFF800000000000 \<lparr>vas_cr3 = 0x1000\<rparr> m' \<and>
    (e = 0 \<and> (\<forall>j < 2. translate (mem m') 0xFFFF800000000000 (vas_cr3 \<lparr>vas_cr3 = 0x1000\<rparr>) (ALIGN_DOWN 0x400123 4096 + page j) =
         Some (ALIGN_DOWN 0x5000 4096 + page j OR prot_to_pte (ucast (1 :: u32))))
     \<or> e = - 1 \<and> out_of_frames m')"
  using vmem_map_region_maps [OF pmap_witness_ok, of "\<lparr>vma = 0x400123, pma = 0x5000, rlength = 0x1001\<rparr>" 2 1]
  by fastforce

text \<open>
  C16: The index \<^verbatim>\<open>vma_level_index\<close> computes for the four lower levels is inside the 512 entries of
  a table, for every address; the index of the fifth level is not: on an address with bit 56 set
  it is at least 512, so the descent with \<^verbatim>\<open>CR4.LA57\<close> set reads behind the end of the table.
\<close>

theorem vma_level_index_bounds:
  "(l \<noteq> PMAP_PML5 \<longrightarrow> unat (vma_level_index va l) < 512) \<and>
   (512 \<le> unat (vma_level_index va PMAP_PML5) \<longleftrightarrow> bit va 56)"
proof
  have m: "x AND 0x1FF = take_bit 9 x" for x :: u64
    by (simp add: take_bit_eq_mask mask_eq_exp_minus_1)
  have "unat (take_bit 9 x) < 2 ^ 9" for x :: u64 by (simp only: unsigned_take_bit_eq take_bit_nat_less_exp)
  then show "l \<noteq> PMAP_PML5 \<longrightarrow> unat (vma_level_index va l) < 512" by (cases l) (auto simp: m)
  let ?x = "take_bit 10 (drop_bit 47 va)"
  have x: "vma_level_index va PMAP_PML5 = ?x"
    by (simp add: take_bit_eq_mask mask_eq_exp_minus_1)
  have "unat ?x < 2 ^ 10" by (simp only: unsigned_take_bit_eq take_bit_nat_less_exp)
  moreover have "512 \<le> y \<longleftrightarrow> odd (y div 2 ^ 9)" if "y < 2 ^ 10" for y :: nat
  proof (cases "512 \<le> y")
    case True
    then have "y div 512 = 1" using that by (intro div_nat_eqI) simp_all
    then show ?thesis using True by simp
  qed simp
  ultimately have "512 \<le> unat ?x \<longleftrightarrow> odd (unat ?x div 2 ^ 9)" by blast
  also have "\<dots> \<longleftrightarrow> bit (unat ?x) 9" by (simp only: bit_iff_odd)
  also have "\<dots> \<longleftrightarrow> bit va 56" by (simp add: bit_unsigned_iff bit_simps)
  finally show "512 \<le> unat (vma_level_index va PMAP_PML5) \<longleftrightarrow> bit va 56" unfolding x .
qed

lemma vma_level_index_bounds_witness:
  "unat (vma_level_index 0x100000000000000 PMAP_PML5) \<ge> 512 \<and> unat (vma_level_index 0xFFFFFFFFFFFFFFFF PMAP_PML4) < 512"
  using vma_level_index_bounds [of PMAP_PML4 "0xFFFFFFFFFFFFFFFF"] vma_level_index_bounds [of PMAP_PML4 "0x100000000000000"]
  by (simp add: bit_simps)

section \<open>Initialisation\<close>

text \<open>The table that \<^verbatim>\<open>mu_pmap_init\<close> clears, entry by entry.\<close>

lemma pte_clear_entries:
  assumes "k < 1099511627776" "i + n \<le> 512" "j < 512"
  shows "pte (clear_entries i n (kva off k) M) off k j = (if i \<le> j \<and> j < i + n then 0 else pte M off k j)"
  using assms(2)
proof (induction n arbitrary: i M)
  case (Suc n)
  then show ?case using pte_store [OF assms(1) _ assms(1,3), of i M off 0] by auto
qed auto

lemma idx_top_half: "idx va 3 < 256 \<longleftrightarrow> \<not> bit va 47"
proof -
  have "unat (take_bit 9 (drop_bit 39 va)) < 2 ^ 9" by (simp only: unsigned_take_bit_eq take_bit_nat_less_exp)
  moreover have "y < 256 \<longleftrightarrow> even (y div 2 ^ 8)" if "y < 2 ^ 9" for y :: nat
  proof (cases "256 \<le> y")
    case True
    then have "y div 256 = 1" using that by (intro div_nat_eqI) simp_all
    then show ?thesis using True by simp
  qed simp
  ultimately have "idx va 3 < 256 \<longleftrightarrow> even (unat (take_bit 9 (drop_bit 39 va)) div 2 ^ 8)" by (simp add: idx_bits)
  also have "\<dots> \<longleftrightarrow> \<not> bit (unat (take_bit 9 (drop_bit 39 va))) 8" by (simp only: bit_iff_odd not_not)
  also have "\<dots> \<longleftrightarrow> \<not> bit va 47" by (simp add: bit_unsigned_iff bit_simps)
  finally show ?thesis .
qed

text \<open>
  C17: \<^verbatim>\<open>mu_pmap_init\<close> tears down the lower half of the current address space and nothing else: the
  upper 256 entries of the top-level table keep their values, and afterwards no address with
  bit 47 clear translates to anything.
\<close>

theorem mu_pmap_init_lower_half:
  assumes "bpt_kernel_base m = Some off"
  shows "\<exists>m'. mu_pmap_init m = Some m' \<and> cr3 m' = cr3 m \<and>
    (\<forall>j < 512. 256 \<le> j \<longrightarrow> pte (mem m') off (frame_of (cr3 m)) j = pte (mem m) off (frame_of (cr3 m)) j) \<and>
    (\<forall>va. \<not> bit va 47 \<longrightarrow> translate (mem m') off (cr3 m) va = None)"
proof -
  let ?k = "frame_of (cr3 m)"
  have b: "PHYS_TO_VIRT (cr3 m AND PTE_ADDR_MASK) m = Some (kva off ?k)"
    using assms by (simp add: PHYS_TO_VIRT_def PTR_OFFSET_def masked_page kva_def)
  have cl: "pte (clear_entries 0 256 (kva off ?k) (mem m)) off ?k j = (if j < 256 then 0 else pte (mem m) off ?k j)"
    if "j < 512" for j
    using pte_clear_entries [OF frame_of_less _ that, of 0 256] by simp
  have "translate_from (clear_entries 0 256 (kva off ?k) (mem m)) off va 3 ?k = None" if "\<not> bit va 47" for va
    using that cl [of "idx va 3"] idx_top_half [of va]
    by (simp add: numeral_3_eq_3 translate_from_def next_table_def present_def)
  then show ?thesis using b cl
    by (simp add: mu_pmap_init_def mu_pmap_writevas_def translate_def Let_def)
qed

lemma mu_pmap_init_lower_half_witness:
  "\<exists>m'. mu_pmap_init pmap_witness = Some m' \<and> cr3 m' = cr3 pmap_witness \<and>
    (\<forall>va. \<not> bit va 47 \<longrightarrow> translate (mem m') 0xFFFF800000000000 (cr3 pmap_witness) va = None)"
proof -
  have "bpt_kernel_base pmap_witness = Some 0xFFFF800000000000"
    by (rule bpt_kernel_base_limine) (simp_all add: pmap_witness_def)
  from mu_pmap_init_lower_half [OF this] show ?thesis by blast
qed
end
