(* ===== verification/Hive_Elf.thy ===== *)
theory Hive_Elf
  imports Hive_Pmap
begin

text \<open>
  The loader of ELF files: \<^verbatim>\<open>core/elfload.c\<close> with the 64-bit headers of \<^verbatim>\<open>sys/elf.h\<close>. A header is
  read from memory into a record, at the offsets of the members of the C structures. A pointer
  to an address space is an option, None for a null pointer, as in the theory of paging.
\<close>

section \<open>elf.h\<close>

definition EI_MAG0 :: u64 where "EI_MAG0 = 0"
definition SELFMAG :: u64 where "SELFMAG = 4"
definition ET_EXEC :: u16 where "ET_EXEC = 2"
definition EV_CURRENT :: u32 where "EV_CURRENT = 1"
definition PT_LOAD :: u32 where "PT_LOAD = 1"
definition PF_X :: u32 where "PF_X = push_bit 0 1"
definition PF_W :: u32 where "PF_W = push_bit 1 1"

record Elf64_Ehdr =
  e_type :: u16
  e_machine :: u16
  e_version :: u32
  e_entry :: u64
  e_phoff :: u64
  e_shoff :: u64
  e_flags :: u32
  e_ehsize :: u16
  e_phentsize :: u16
  e_phnum :: u16
  e_shentsize :: u16
  e_shnum :: u16
  e_shstrndx :: u16

text \<open>The identification bytes are the first 16 bytes of the header and are compared in place.\<close>

definition ehdr_at :: "memory \<Rightarrow> addr \<Rightarrow> Elf64_Ehdr" where
  "ehdr_at M a = \<lparr>e_type = load16 M (a + 16), e_machine = load16 M (a + 18), e_version = load32 M (a + 20),
     e_entry = load64 M (a + 24), e_phoff = load64 M (a + 32), e_shoff = load64 M (a + 40),
     e_flags = load32 M (a + 48), e_ehsize = load16 M (a + 52), e_phentsize = load16 M (a + 54),
     e_phnum = load16 M (a + 56), e_shentsize = load16 M (a + 58), e_shnum = load16 M (a + 60),
     e_shstrndx = load16 M (a + 62)\<rparr>"

record Elf64_Phdr =
  p_type :: u32
  p_flags :: u32
  p_offset :: u64
  p_vaddr :: u64
  p_paddr :: u64
  p_filesz :: u64
  p_memsz :: u64
  p_align :: u64

definition phdr_at :: "memory \<Rightarrow> addr \<Rightarrow> Elf64_Phdr" where
  "phdr_at M a = \<lparr>p_type = load32 M a, p_flags = load32 M (a + 4), p_offset = load64 M (a + 8),
     p_vaddr = load64 M (a + 16), p_paddr = load64 M (a + 24), p_filesz = load64 M (a + 32),
     p_memsz = load64 M (a + 40), p_align = load64 M (a + 48)\<rparr>"

section \<open>elfload.c\<close>

text \<open>\<open>ELFMAG\<close> is the address of the literal with the magic bytes.\<close>

definition elf_verify :: "addr \<Rightarrow> addr \<Rightarrow> memory \<Rightarrow> bool" where
  "elf_verify ELFMAG eh M =
     (if eh = NULL then False
      else if memcmp M (eh + EI_MAG0) ELFMAG SELFMAG \<noteq> 0 then False
      else if e_type (ehdr_at M eh) \<noteq> ET_EXEC then False
      else if e_version (ehdr_at M eh) \<noteq> EV_CURRENT then False
      else True)"

text \<open>The product is an \<^verbatim>\<open>int\<close> of 32 bits, with its sign extended when it is added to the address.\<close>

definition PHDR_INDEX :: "memory \<Rightarrow> addr \<Rightarrow> addr \<Rightarrow> nat \<Rightarrow> addr" where
  "PHDR_INDEX M eh phdr_base i = PTR_OFFSET phdr_base (scast (ucast (e_phentsize (ehdr_at M eh)) * of_nat i :: u32))"

text \<open>The protection and the region of a segment.\<close>

definition segment_prot :: "Elf64_Phdr \<Rightarrow> u32" where
  "segment_prot phdr = (
     let prot = ucast PROT_USER;
         prot = (if p_flags phdr AND PF_W \<noteq> 0 then prot OR ucast PROT_WRITE else prot)
     in if p_flags phdr AND PF_X \<noteq> 0 then prot OR ucast PROT_EXEC else prot)"

definition segment_length :: "Elf64_Phdr \<Rightarrow> u64" where
  "segment_length phdr = (
     let misalign = p_vaddr phdr AND (PAGESIZE - 1)
     in ALIGN_UP (p_memsz phdr + misalign) PAGESIZE)"

text \<open>
  One iteration of the loop over the program headers, for the header at \<open>ph\<close>: the result and
  whether to break. The header is read again for the copy.
\<close>

definition load_segment ::
    "mu_vas \<Rightarrow> addr \<Rightarrow> addr \<Rightarrow> 'a pmem_scheme \<Rightarrow> (int \<times> 'a pmem_scheme) option" where
  "load_segment vas eh ph m = (
     let phdr = phdr_at (mem m) ph in
     if p_type phdr \<noteq> PT_LOAD then Some (0, m)
     else if p_memsz phdr = 0 then Some (0, m)
     else do {
       let prot = segment_prot phdr;
       let len = segment_length phdr;
       let vaddr = p_vaddr phdr;
       (pma, m) \<leftarrow> mm_pmem_alloc (len div PAGESIZE) m;
       (if pma = 0 then Some (- ENOMEM, m)
        else do {
          let region = \<lparr>vma = vaddr, pma = pma, rlength = len\<rparr>;
          (error, m) \<leftarrow> vmem_map_region (Some vas) (Some region) prot m;
          (if error \<noteq> 0 then Some (error, m)
           else do {
             dest \<leftarrow> PHYS_TO_VIRT pma m;
             let phdr = phdr_at (mem m) ph;
             let src = PTR_OFFSET eh (p_offset phdr);
             Some (0, m\<lparr>mem := snd (memcpy (mem m) dest src (p_memsz phdr))\<rparr>) }) }) })"

text \<open>The file header is read again for each iteration; its count has 16 bits.\<close>

lemma e_phnum_less: "unat (e_phnum eh) < 65536"
  using unsigned_less [of "e_phnum eh", where 'a = nat] by simp

function load_loop :: "mu_vas \<Rightarrow> addr \<Rightarrow> addr \<Rightarrow> nat \<Rightarrow> 'a pmem_scheme \<Rightarrow> (int \<times> 'a pmem_scheme) option" where
  "load_loop vas eh phdr_base i m =
     (if i < unat (e_phnum (ehdr_at (mem m) eh)) then do {
        (retval, m) \<leftarrow> load_segment vas eh (PHDR_INDEX (mem m) eh phdr_base i) m;
        (if retval \<noteq> 0 then Some (retval, m) else load_loop vas eh phdr_base (Suc i) m) }
      else Some (0, m))"
  by pat_completeness auto
termination
proof (relation "measure (\<lambda>(vas, eh, phdr_base, i, m). 65536 - i)")
  fix vas eh phdr_base i and m :: "'a pmem_scheme" and rm :: "int \<times> 'a pmem_scheme" and r m'
  assume "i < unat (e_phnum (ehdr_at (mem m) eh))"
  then have "i < 65536" using e_phnum_less less_trans by blast
  then show "((vas, eh, phdr_base, Suc i, m'), (vas, eh, phdr_base, i, m))
      \<in> measure (\<lambda>(vas, eh, phdr_base, i, m :: 'a pmem_scheme). 65536 - i)"
    by simp
qed simp

declare load_loop.simps [simp del]

definition elf_load ::
    "mu_vas option \<Rightarrow> addr \<Rightarrow> bool \<Rightarrow> 'a pmem_scheme \<Rightarrow> (int \<times> 'a pmem_scheme) option" where
  "elf_load vas eh res m =
     (case vas of None \<Rightarrow> Some (- EINVAL, m)
      | Some v \<Rightarrow>
          if eh = NULL then Some (- EINVAL, m)
          else if \<not> res then Some (- EINVAL, m)
          else load_loop v eh (PTR_OFFSET eh (e_phoff (ehdr_at (mem m) eh))) 0 m)"

text \<open>
  \<^verbatim>\<open>elf_load_raw\<close> returns an error number and the entry point, None where it does not write it.
  For an invalid image it returns \<^verbatim>\<open>false\<close>, which is zero.
\<close>

definition elf_load_raw ::
    "addr \<Rightarrow> mu_vas option \<Rightarrow> addr \<Rightarrow> bool \<Rightarrow> 'a pmem_scheme \<Rightarrow> (int \<times> u64 option \<times> 'a pmem_scheme) option" where
  "elf_load_raw ELFMAG vas img res m =
     (if vas = None \<or> img = NULL then Some (- EINVAL, None, m)
      else if \<not> res then Some (- EINVAL, None, m)
      else if \<not> elf_verify ELFMAG img (mem m) then Some (0, None, m)
      else do {
        (error, m) \<leftarrow> elf_load vas img res m;
        (if error \<noteq> 0 then Some (error, None, m)
         else Some (0, Some (e_entry (ehdr_at (mem m) img)), m)) })"

end
