(* ===== verification/Hive_Kmain.thy ===== *)
theory Hive_Kmain
  imports Hive_Cpu Hive_Elf
begin

text \<open>
  The start of the kernel, \<^verbatim>\<open>core/epoch.c\<close>: every component is initialised in order, then the
  first user program is loaded and entered. A panic has no result; entering user mode is the
  result with the entry point and the stack.
\<close>

section \<open>epoch.c\<close>

text \<open>How \<^verbatim>\<open>kmain\<close> ends: it returns, or it enters user mode at an entry point with a stack.\<close>

datatype kend = Returned | User addr addr

text \<open>
  The addresses the compiler chose: of the string literals, of the local path buffer, of the
  hooks of the clock and of the static control region; the contents of the stack at each
  call of \<^verbatim>\<open>printf\<close>; and the uninitialised entry point of the local \<^verbatim>\<open>elf\<close>.
\<close>

record build =
  lit :: "string \<Rightarrow> addr"
  pathbuf :: addr
  tsc_hooks :: addr
  bsp :: addr
  stk :: "nat \<Rightarrow> u8 list"
  elf_entry0 :: addr

definition start_rts :: "build \<Rightarrow> 'a cpu_scheme \<Rightarrow> (kend \<times> 'a cpu_scheme) option" where
  "start_rts b m =
     (case mu_pmap_readvas True m of
        Inl e \<Rightarrow> None
      | Inr vas \<Rightarrow> do {
          (stack, m) \<leftarrow> mm_pmem_alloc 1 m;
          (if stack = 0 then None
           else do {
             (error, m) \<leftarrow> mu_pmap_map (Some vas) stack stack (ucast (PROT_WRITE OR PROT_USER)) PAGESIZE_4K m;
             (if error \<noteq> 0 then None
              else do {
                data \<leftarrow> initrd_lookup (lit b) (lit b ''/sbin/rts'') m;
                (if data = NULL then None
                 else do {
                   (error, entry, m) \<leftarrow> elf_load_raw (lit b (CHR 0x7F # ''ELF'')) (Some vas) data True m;
                   (if error \<noteq> 0 then None
                    else do {
                      let stack = stack + (PAGESIZE - 1);
                      Some (User (case entry of None \<Rightarrow> elf_entry0 b | Some e \<Rightarrow> e) stack, m) }) }) }) }) })"

definition kmain :: "build \<Rightarrow> 'a cpu_scheme \<Rightarrow> (kend \<times> 'a cpu_scheme) option" where
  "kmain b m = do {
     (r, m) \<leftarrow> bpt_init (lit b ''BOOT_PROTO'') (lit b ''limine'') m;
     (if r \<noteq> 0 then Some (Returned, m)
      else do {
        m \<leftarrow> printf (stk b 0) (cline ''hive: engaging pmem...'') [] m;
        m \<leftarrow> mm_pmem_init (\<lambda>i. stk b (1 + i)) m;
        m \<leftarrow> printf (stk b 10) (cline ''hive: engaging root pool...'') [] m;
        m \<leftarrow> os_pool_init (stk b 11) (stk b 12) m;
        m \<leftarrow> printf (stk b 13) (cline ''hive: engaging pmap layer...'') [] m;
        m \<leftarrow> mu_pmap_init m;
        m \<leftarrow> printf (stk b 14) (cline ''hive: configuring bsp...'') [] m;
        m \<leftarrow> mu_cpu_conf (stk b 15) (bsp b) m;
        m \<leftarrow> printf (stk b 16) (cline ''hive: engaging object store...'') [] m;
        m \<leftarrow> ob_store_init (lit b) m;
        m \<leftarrow> printf (stk b 17) (cline ''hive: engaging timers...'') [] m;
        m \<leftarrow> timer_init (lit b) (pathbuf b) (tsc_hooks b) m;
        m \<leftarrow> printf (stk b 18) (cline ''hive: engaging acpi...'') [] m;
        m \<leftarrow> acpi_init (\<lambda>i. stk b (19 + i)) m;
        m \<leftarrow> printf (stk b 21) (cline ''hive: engaging initrd...'') [] m;
        m \<leftarrow> initrd_init (lit b) m;
        m \<leftarrow> printf (stk b 22) (cline ''hive: bringing up rts...'') [] m;
        start_rts b m }) }"

end
