(* ===== verification/Hive_Elf_Spec.thy ===== *)
theory Hive_Elf_Spec
  imports Hive_Elf
begin

text \<open>
  What the loader of \<^verbatim>\<open>core/elfload.c\<close> promises: when the first run of free frames is long
  enough for the image and its page tables, every loadable segment of an image ends up in frames of its
  own, mapped at its virtual address with the protection of its flags, and nothing else the
  kernel uses is overwritten.
\<close>

section \<open>Mapping a list of pages\<close>

lemma map_pages_effect:
  "pmap_inv off (frame_of (vas_cr3 v)) T m \<Longrightarrow>
   \<exists>r m' T'. kmap.map_pages v ps prot m = Some (r, m') \<and> pmap_inv off (frame_of (vas_cr3 v)) T' m' \<and>
    max_frame m' = max_frame m \<and>
    (\<forall>A. sparing off T m A \<longrightarrow> sparing off T' m' A \<and> kept off A (mem m) (mem m')) \<and>
    (\<forall>s e. first_free m s e \<longrightarrow> s + 3 * length ps \<le> e \<longrightarrow> (\<exists>s' \<ge> s. s' \<le> s + 3 * length ps \<and> first_free m' s' e))"
proof (induction ps arbitrary: m T)
  case Nil
  then show ?case by (intro exI [of _ 0] exI [of _ m] exI [of _ T]) auto
next
  case (Cons p ps)
  obtain r1 m1 T1 where 1: "mu_pmap_map (Some v) (fst p) (snd p) prot PAGESIZE_4K m = Some (r1, m1)"
    "pmap_inv off (frame_of (vas_cr3 v)) T1 m1" "max_frame m1 = max_frame m"
    "\<forall>A. sparing off T m A \<longrightarrow> sparing off T1 m1 A \<and> kept off A (mem m) (mem m1)"
    "\<forall>s e. first_free m s e \<longrightarrow> s + 3 \<le> e \<longrightarrow> (\<exists>s' \<ge> s. s' \<le> s + 3 \<and> first_free m1 s' e)"
    using mu_pmap_map_effect [OF Cons.prems, of "fst p" "snd p" prot] by blast
  show ?case
  proof (cases "r1 = 0")
    case False
    have "\<forall>s e. first_free m s e \<longrightarrow> s + 3 * length (p # ps) \<le> e \<longrightarrow>
        (\<exists>s' \<ge> s. s' \<le> s + 3 * length (p # ps) \<and> first_free m1 s' e)"
    proof (intro allI impI)
      fix s e assume "first_free m s e" "s + 3 * length (p # ps) \<le> e"
      moreover have "s + 3 \<le> s + 3 * length (p # ps)" by simp
      ultimately obtain s' where "s \<le> s'" "s' \<le> s + 3" "first_free m1 s' e" using 1(5) order_trans by blast
      then show "\<exists>s' \<ge> s. s' \<le> s + 3 * length (p # ps) \<and> first_free m1 s' e" by (intro exI [of _ s']) auto
    qed
    then show ?thesis using 1(1-4) False by (intro exI [of _ r1] exI [of _ m1] exI [of _ T1]) (simp add: kmap.map_pages.simps)
  next
    case True
    obtain r m' T' where 2: "kmap.map_pages v ps prot m1 = Some (r, m')" "pmap_inv off (frame_of (vas_cr3 v)) T' m'"
      "max_frame m' = max_frame m1"
      "\<forall>A. sparing off T1 m1 A \<longrightarrow> sparing off T' m' A \<and> kept off A (mem m1) (mem m')"
      "\<forall>s e. first_free m1 s e \<longrightarrow> s + 3 * length ps \<le> e \<longrightarrow> (\<exists>s' \<ge> s. s' \<le> s + 3 * length ps \<and> first_free m' s' e)"
      using Cons.IH [OF 1(2)] by blast
    have "\<forall>s e. first_free m s e \<longrightarrow> s + 3 * length (p # ps) \<le> e \<longrightarrow>
        (\<exists>s' \<ge> s. s' \<le> s + 3 * length (p # ps) \<and> first_free m' s' e)"
    proof (intro allI impI)
      fix s e assume f: "first_free m s e" "s + 3 * length (p # ps) \<le> e"
      then have "s + 3 \<le> e" by simp
      then obtain s1 where s1: "s \<le> s1" "s1 \<le> s + 3" "first_free m1 s1 e" using 1(5) f(1) by blast
      then have "s1 + 3 * length ps \<le> e" using f(2) by simp
      then obtain s' where "s1 \<le> s'" "s' \<le> s1 + 3 * length ps" "first_free m' s' e" using 2(5) s1(3) by blast
      then show "\<exists>s' \<ge> s. s' \<le> s + 3 * length (p # ps) \<and> first_free m' s' e" using s1 by (intro exI [of _ s']) auto
    qed
    moreover have "\<forall>A. sparing off T m A \<longrightarrow> sparing off T' m' A \<and> kept off A (mem m) (mem m')"
      using 1(4) 2(4) kept_trans by blast
    ultimately show ?thesis using 1(1,3) 2(1-3) True
      by (intro exI [of _ r] exI [of _ m'] exI [of _ T']) (simp add: kmap.map_pages.simps)
  qed
qed

section \<open>Pages\<close>

lemma leaf_table_same_page:
  assumes "same_page va va'"
  shows "l \<le> 3 \<Longrightarrow> leaf_table M off va l k = leaf_table M off va' l k"
proof (induction l arbitrary: k)
  case (Suc l)
  have "idx va (Suc l) = idx va' (Suc l)" using assms Suc.prems by (simp add: same_page_def)
  then show ?case using Suc by (cases "next_table M off k (idx va' (Suc l))") simp_all
qed simp

lemma translate_same_page:
  assumes "same_page va va'"
  shows "translate M off root va = translate M off root va'"
proof -
  have "idx va 0 = idx va' 0" using assms by (simp add: same_page_def)
  then show ?thesis using leaf_table_same_page [OF assms, of 3 M off "frame_of root"]
    by (simp add: translate_def translate_from_def cong: if_cong)
qed

lemma same_page_drop: "drop_bit 12 va = drop_bit 12 va' \<Longrightarrow> same_page va va'"
proof -
  assume e: "drop_bit 12 va = drop_bit 12 va'"
  have "idx va j = idx va' j" if "j \<le> 3" for j
  proof -
    have "drop_bit (12 + 9 * j) x = drop_bit (9 * j) (drop_bit 12 x)" for x :: u64 by (simp add: add.commute)
    then show ?thesis using idx_bits [OF that] e by metis
  qed
  then show ?thesis by (simp add: same_page_def)
qed

text \<open>A byte of a page: its page number and its offset.\<close>

lemma aligned_add:
  assumes "unat (x :: u64) mod 4096 = 0" "d < 4096"
  shows "unat (x + of_nat d) = unat x + d"
proof -
  have d: "unat (of_nat d :: u64) = d" using assms(2) by (intro unat_of_nat64) simp
  have "unat x < 18446744073709551616" by (rule unat64_lt)
  moreover obtain c where "unat x = 4096 * c" using assms(1) by (metis mod_eq_0_iff_dvd dvd_def)
  ultimately have "unat x + 4096 \<le> 18446744073709551616" by simp
  then show ?thesis using assms(2) d by (subst unat_add64) auto
qed

lemma aligned_page:
  assumes "unat b mod 4096 = 0"
  shows "unat (b + page j) mod 4096 = 0"
proof -
  obtain c where c: "unat b = 4096 * c" using assms by (metis mod_eq_0_iff_dvd dvd_def)
  moreover have "of_nat (unat b) = b" by simp
  ultimately have "b = of_nat (4096 * c)" by metis
  then have "b + page j = of_nat (4096 * (c + j))" by (simp add: page_def algebra_simps)
  then have "unat (b + page j) = (4096 * (c + j)) mod 18446744073709551616"
    by (simp only: unat_of_nat take_bit_nat_def) simp
  then show ?thesis using mod_mod_cancel [of 4096 18446744073709551616 "4096 * (c + j)"] by simp
qed

lemma same_page_offset:
  assumes "unat b mod 4096 = 0"
  shows "same_page (b + page (i div 4096)) (b + of_nat i)" "unat (b + of_nat i) mod 4096 = i mod 4096"
proof -
  let ?x = "b + page (i div 4096)"
  have x: "unat ?x mod 4096 = 0" using aligned_page [OF assms] .
  have e: "b + of_nat i = ?x + of_nat (i mod 4096)"
  proof -
    have "of_nat i = (of_nat (i div 4096 * 4096 + i mod 4096) :: u64)" by simp
    then show ?thesis by (simp only: page_def of_nat_add add.assoc)
  qed
  have u: "unat (b + of_nat i) = unat ?x + i mod 4096" unfolding e by (rule aligned_add [OF x]) simp
  then show "unat (b + of_nat i) mod 4096 = i mod 4096" using x by (simp add: mod_add_eq [symmetric])
  have "unat ?x div 4096 = unat (b + of_nat i) div 4096" using u x by auto
  then have "drop_bit 12 ?x = drop_bit 12 (b + of_nat i)"
    by (simp add: word_unat_eq_iff drop_bit_eq_div unat_div)
  then show "same_page ?x (b + of_nat i)" by (rule same_page_drop)
qed

section \<open>Writes outside of the tables\<close>

lemma tables_frame:
  assumes "tables off root T M" "\<forall>l \<le> 3. \<forall>a. kframe off a \<in> T l \<longrightarrow> M' a = M a"
  shows "tables off root T M'" "translate_from M' off va 3 root = translate_from M off va 3 root"
proof -
  have pt: "pte M' off k i = pte M off k i" if "l \<le> 3" "k \<in> T l" "i < 512" for l k i
    using that assms(2) tablesD(2) [OF assms(1)] by (intro pte_cong) auto
  show "tables off root T M'" using pt by (intro tables_cong [OF assms(1)]) auto
  have r: "root \<in> T 3" using tablesD(1) [OF assms(1)] .
  have leaf: "leaf_table M' off va 3 root = leaf_table M off va 3 root"
    using pt by (intro leaf_table_cong [OF assms(1)]) (auto simp: r)
  show "translate_from M' off va 3 root = translate_from M off va 3 root"
  proof (cases "leaf_table M off va 3 root")
    case (Some t)
    have "t \<in> T 0" using leaf_table_in [OF assms(1) _ r Some] by simp
    then have "pte M' off t (idx va 0) = pte M off t (idx va 0)" using pt [of 0] idx_less [of 0] by simp
    then show ?thesis using Some leaf by (simp add: translate_from_def)
  qed (use leaf in \<open>simp add: translate_from_def\<close>)
qed

text \<open>A write to frames that the mapper leaves alone.\<close>

lemma write_effect:
  assumes inv: "pmap_inv off root T m" and A: "sparing off T m A"
    and M: "\<forall>a. kframe off a \<notin> A \<longrightarrow> M a = mem m a"
  shows "pmap_inv off root T (m\<lparr>mem := M\<rparr>)" "sparing off T (m\<lparr>mem := M\<rparr>) A"
    "first_free m s e \<Longrightarrow> first_free (m\<lparr>mem := M\<rparr>) s e"
    "translate_from M off va 3 root = translate_from (mem m) off va 3 root"
proof -
  have tb: "\<forall>l \<le> 3. \<forall>a. kframe off a \<in> T l \<longrightarrow> M a = mem m a"
    using A M unfolding sparing_def by metis
  have used: "frame_used (m\<lparr>mem := M\<rparr>) x = frame_used m x" if "x < max_frame m" for x
  proof (rule frame_used_cong)
    have "bitmap_frame off m x \<notin> A" using A that unfolding sparing_def by blast
    then show "mem (m\<lparr>mem := M\<rparr>) (bit_byte (bitmap m) (of_nat x)) = mem m (bit_byte (bitmap m) (of_nat x))"
      using M by (simp add: bitmap_frame_def)
  qed simp
  have ef: "max_frame (m\<lparr>mem := M\<rparr>) = max_frame m" "bitmap_frame off (m\<lparr>mem := M\<rparr>) = bitmap_frame off m"
    by (simp_all add: max_frame_def bitmap_frame_def fun_eq_iff)
  note tf = tables_frame [OF pmap_invD(6) [OF inv] tb]
  show "pmap_inv off root T (m\<lparr>mem := M\<rparr>)" using inv tf(1) used by (intro pmap_inv_mem)
  show "sparing off T (m\<lparr>mem := M\<rparr>) A" using A used unfolding sparing_def ef by simp
  show "first_free (m\<lparr>mem := M\<rparr>) s e" if "first_free m s e" using that used unfolding first_free_def ef by simp
  show "translate_from M off va 3 root = translate_from (mem m) off va 3 root" using tf(2) .
qed

lemma first_free_pos: "pmap_inv off root T m \<Longrightarrow> first_free m s e \<Longrightarrow> s < e \<Longrightarrow> 0 < s"
  using pmap_invD(4) [of off root T m] unfolding first_free_def by (cases s) auto

lemma first_free_room: "first_free m s e \<Longrightarrow> s < e \<Longrightarrow> \<not> out_of_frames m"
  unfolding first_free_def out_of_frames_def by (meson less_le_trans order_refl)

text \<open>A run of new frames.\<close>

lemma alloc_run_effect:
  assumes inv: "pmap_inv off root T m" and A: "sparing off T m A" and f: "first_free m s e"
    and c: "0 < unat count" "s + unat count \<le> e"
  shows "\<exists>m'. mm_pmem_alloc count m = Some (page s, m') \<and> pmap_inv off root T m' \<and> max_frame m' = max_frame m \<and>
    sparing off T m' (A \<union> {s..<s + unat count}) \<and> kept off A (mem m) (mem m') \<and>
    (\<forall>va. translate_from (mem m') off va 3 root = translate_from (mem m) off va 3 root) \<and>
    first_free m' (s + unat count) e"
proof -
  let ?n = "unat count"
  note I = pmap_invD [OF inv]
  have em: "s + ?n \<le> max_frame m" using f c(2) unfolding first_free_def by simp
  have s0: "0 < s" using first_free_pos [OF inv f] c by simp
  have below: "frame_used m k" if "k < s" for k using f that unfolding first_free_def by blast
  have free: "\<not> frame_used m k" if "s \<le> k" "k < e" for k using f that unfolding first_free_def by blast
  obtain m' where m': "mm_pmem_alloc count m = Some (page s, m')" "same_but_bits s (s + ?n) True m m'"
    using mm_pmem_alloc_run [OF I(2,3) c(1) s0 em below free] c(2) by fastforce
  then obtain M where M: "m' = m\<lparr>mem := M\<rparr>" "marked (bitmap m) s (s + ?n) True (mem m) M" by (auto simp: same_but_bits_def)
  have same: "M a = mem m a" if "\<And>x. x < max_frame m \<Longrightarrow> kframe off a \<noteq> bitmap_frame off m x" for a
  proof -
    have "a \<noteq> bit_byte (bitmap m) j" if "s \<le> unat j \<and> unat j < s + ?n" for j
    proof
      assume "a = bit_byte (bitmap m) j"
      then have "kframe off a = bitmap_frame off m (unat j)" by (simp add: bitmap_frame_def)
      then show False using \<open>\<And>x. x < max_frame m \<Longrightarrow> kframe off a \<noteq> bitmap_frame off m x\<close> [of "unat j"] that em by simp
    qed
    then show ?thesis using M(2) unfolding marked_def by blast
  qed
  have ef: "max_frame m' = max_frame m" "bitmap_frame off m' = bitmap_frame off m" "pmem_ready m' = pmem_ready m"
    by (simp_all add: M(1) max_frame_def bitmap_frame_def fun_eq_iff pmem_ready_def)
  have b: "bpt_kernel_base m' = bpt_kernel_base m" by (rule bpt_kernel_base_cong) (simp_all add: M(1))
  have us: "frame_used m' k \<longleftrightarrow> s \<le> k \<and> k < s + ?n \<or> frame_used m k" if "k < max_frame m" for k
    using same_but_bits_used [OF m'(2), of k] that I(5) by auto
  have tb: "\<forall>l \<le> 3. \<forall>a. kframe off a \<in> T l \<longrightarrow> M a = mem m a"
    using same I(10) by metis
  note tf = tables_frame [OF I(6) tb]
  have "frame_used m' k" if "frame_used m k" "k < max_frame m" for k using us [OF that(2)] that(1) by simp
  moreover have "cr4 m' = cr4 m" "last_bit m' = last_bit m" "mem m' = M" by (simp_all add: M(1))
  ultimately have "pmap_inv off root T m'"
    using inv tf(1) unfolding pmap_inv_def ef b by auto
  moreover have "sparing off T m' (A \<union> {s..<s + ?n})"
    unfolding sparing_def ef
  proof (intro ballI conjI allI impI)
    fix k assume k: "k \<in> A \<union> {s..<s + ?n}"
    show "frame_used m' k" if "k < max_frame m"
      using k that A us [OF that] unfolding sparing_def by auto
    show "k \<notin> T l" if "l \<le> 3" for l
    proof
      assume "k \<in> T l"
      then have "k \<notin> A" using A that unfolding sparing_def by blast
      then have "k < max_frame m" "\<not> frame_used m k" using k c(2) em free [of k] by auto
      then show False using I(9) [OF that \<open>k \<in> T l\<close>] by blast
    qed
    show "bitmap_frame off m x \<noteq> k" if "x < max_frame m" for x
    proof
      assume b: "bitmap_frame off m x = k"
      then have "k \<notin> A" using A that unfolding sparing_def by blast
      then have "k < max_frame m" "\<not> frame_used m k" using k c(2) em free [of k] by auto
      then show False using I(11) [OF that] b by blast
    qed
  qed
  moreover have "kept off A (mem m) (mem m')"
    using same A unfolding kept_def sparing_def by (metis \<open>mem m' = M\<close>)
  moreover have "first_free m' (s + ?n) e"
  proof -
    have "frame_used m' k" if "k < s + ?n" for k using us [of k] below [of k] that em by (cases "k < s") auto
    moreover have "\<not> frame_used m' k" if "s + ?n \<le> k" "k < e" for k
      using us [of k] free [of k] that f unfolding first_free_def by simp
    ultimately show ?thesis using f c(2) unfolding first_free_def ef by simp
  qed
  ultimately show ?thesis using m'(1) tf(2) ef(1) \<open>mem m' = M\<close> by blast
qed


text \<open>A region of new frames: with enough free frames for its tables the mapping succeeds.\<close>

lemma map_region_effect:
  assumes inv: "pmap_inv off (frame_of (vas_cr3 v)) T m" and A: "sparing off T m A" and f: "first_free m s e"
    and n: "unat (rlength r) = 4096 * n" "n \<le> 68719476736" "s + 3 * n < e"
  shows "\<exists>m' T' s'. vmem_map_region (Some v) (Some r) prot m = Some (0, m') \<and>
    pmap_inv off (frame_of (vas_cr3 v)) T' m' \<and> max_frame m' = max_frame m \<and> sparing off T' m' A \<and>
    kept off A (mem m) (mem m') \<and> s \<le> s' \<and> s' \<le> s + 3 * n \<and> first_free m' s' e \<and>
    (\<forall>va. (\<forall>j < n. \<not> same_page (ALIGN_DOWN (vma r) 4096 + page j) va) \<longrightarrow>
       translate (mem m') off (vas_cr3 v) va = translate (mem m) off (vas_cr3 v) va) \<and>
    (\<forall>j < n. translate (mem m') off (vas_cr3 v) (ALIGN_DOWN (vma r) 4096 + page j) =
       Some (ALIGN_DOWN (pma r) 4096 + page j OR prot_to_pte (ucast prot)))"
proof -
  have r: "unat (rlength r) + 4096 \<le> 18446744073709551616" "n = (unat (rlength r) + 4095) div 4096" using n(1,2) by simp_all
  let ?ps = "map (\<lambda>j. (ALIGN_DOWN (vma r) 4096 + page j, ALIGN_DOWN (pma r) 4096 + page j)) [0..<n]"
  have l: "length ?ps = n" by simp
  obtain re m' T' where 1: "kmap.map_pages v ?ps prot m = Some (re, m')" "pmap_inv off (frame_of (vas_cr3 v)) T' m'"
    "max_frame m' = max_frame m" "\<forall>A. sparing off T m A \<longrightarrow> sparing off T' m' A \<and> kept off A (mem m) (mem m')"
    "\<forall>s e. first_free m s e \<longrightarrow> s + 3 * n \<le> e \<longrightarrow> (\<exists>s' \<ge> s. s' \<le> s + 3 * n \<and> first_free m' s' e)"
    using map_pages_effect [OF inv, of ?ps prot] unfolding l by blast
  have ok: "pmap_ok off v m" using inv by (auto simp: pmap_ok_def)
  have run: "vmem_map_region (Some v) (Some r) prot m = Some (re, m')"
    using vmem_map_region_pages [OF r(1,2) n(2), of v prot m] 1(1) by simp
  obtain s' where s': "s \<le> s'" "s' \<le> s + 3 * n" "first_free m' s' e" using 1(5) f less_imp_le [OF n(3)] by blast
  have "s' < e" using s'(2) n(3) by simp
  then have "\<not> out_of_frames m'" using s'(3) first_free_room by blast
  then have "re = 0" and
    "\<forall>va. (\<forall>j < n. \<not> same_page (ALIGN_DOWN (vma r) 4096 + page j) va) \<longrightarrow>
       translate (mem m') off (vas_cr3 v) va = translate (mem m) off (vas_cr3 v) va"
    "\<forall>j < n. translate (mem m') off (vas_cr3 v) (ALIGN_DOWN (vma r) 4096 + page j) =
       Some (ALIGN_DOWN (pma r) 4096 + page j OR prot_to_pte (ucast prot))"
    using vmem_map_region_view [OF ok r(1,2) n(2), of prot] run by auto
  then show ?thesis using run 1(2-4) A s' by blast
qed

section \<open>Segments\<close>

definition loadable :: "Elf64_Phdr \<Rightarrow> bool" where
  "loadable ph \<longleftrightarrow> p_type ph = PT_LOAD \<and> p_memsz ph \<noteq> 0"

definition seg_frames :: "Elf64_Phdr \<Rightarrow> nat" where
  "seg_frames ph = (unat (p_vaddr ph) mod 4096 + unat (p_memsz ph) + 4095) div 4096"

definition seg_page :: "Elf64_Phdr \<Rightarrow> nat \<Rightarrow> u64" where
  "seg_page ph j = ALIGN_DOWN (p_vaddr ph) 4096 + page j"

lemma segment_length_frames:
  assumes "unat (p_memsz ph) + 8192 \<le> 18446744073709551616"
  shows "unat (segment_length ph) = 4096 * seg_frames ph" "unat (p_memsz ph) \<le> 4096 * seg_frames ph"
    "p_memsz ph \<noteq> 0 \<Longrightarrow> 0 < seg_frames ph" "segment_length ph div PAGESIZE = of_nat (seg_frames ph)"
proof -
  let ?x = "p_memsz ph + (p_vaddr ph AND (4096 - 1))"
  have "(4096 - 1 :: u64) = mask 12" by (simp add: mask_eq_exp_minus_1)
  then have "p_vaddr ph AND (4096 - 1) = take_bit 12 (p_vaddr ph)" by (simp add: take_bit_eq_mask)
  then have mis: "unat (p_vaddr ph AND (4096 - 1)) = unat (p_vaddr ph) mod 4096"
    by (simp only: unsigned_take_bit_eq take_bit_nat_def) simp
  have lt: "unat (p_vaddr ph) mod 4096 < 4096" by simp
  have x: "unat ?x = unat (p_memsz ph) + unat (p_vaddr ph) mod 4096"
    using mis lt assms by (subst unat_add64) auto
  have "unat ?x + 4096 \<le> 18446744073709551616" using x lt assms by linarith
  then have up: "unat (ALIGN_UP ?x 4096) = (unat ?x + 4095) div 4096 * 4096" by (intro unat_ALIGN_UP_page) simp
  have e: "unat ?x + 4095 = unat (p_vaddr ph) mod 4096 + unat (p_memsz ph) + 4095" using x by linarith
  have "segment_length ph = ALIGN_UP ?x 4096" by (simp only: segment_length_def PAGESIZE_def Let_def)
  then have "unat (segment_length ph) = seg_frames ph * 4096" using up unfolding e seg_frames_def by (rule ssubst)
  then show len: "unat (segment_length ph) = 4096 * seg_frames ph" by (simp only: mult.commute)
  show "unat (p_memsz ph) \<le> 4096 * seg_frames ph" unfolding seg_frames_def by linarith
  show "0 < seg_frames ph" if "p_memsz ph \<noteq> 0"
  proof -
    have "0 < unat (p_memsz ph)" using that by (simp add: unat_gt_0)
    then show ?thesis unfolding seg_frames_def by simp
  qed
  have "seg_frames ph < 18446744073709551616" using len unat64_lt [of "segment_length ph"] by simp
  then show "segment_length ph div PAGESIZE = of_nat (seg_frames ph)"
    using len by (simp add: word_unat_eq_iff unat_div PAGESIZE_def unat_of_nat64)
qed

text \<open>A range of addresses in given frames.\<close>

definition in_frames :: "addr \<Rightarrow> nat set \<Rightarrow> addr \<Rightarrow> nat \<Rightarrow> bool" where
  "in_frames off A a n \<longleftrightarrow> (\<forall>i < n. kframe off (a + of_nat i) \<in> A)"

lemma load_n_kept:
  assumes "kept off A M M'" "in_frames off A a n" "i + k \<le> n"
  shows "load_n k M' (a + of_nat i) = load_n k M (a + of_nat i)"
proof (rule load_n_cong)
  fix j assume "j < k"
  then have "kframe off (a + of_nat (i + j)) \<in> A" using assms(2,3) unfolding in_frames_def
    by (metis add_less_cancel_left less_le_trans)
  then show "M' (a + of_nat i + of_nat j) = M (a + of_nat i + of_nat j)"
    using assms(1) unfolding kept_def by (simp add: add.assoc)
qed

lemma phdr_at_kept:
  assumes "kept off A M M'" "in_frames off A a 56"
  shows "phdr_at M' a = phdr_at M a"
  using load_n_kept [OF assms, of 0 4] load_n_kept [OF assms, of 4 4] load_n_kept [OF assms, of 8 8] load_n_kept [OF assms, of 16 8]
    load_n_kept [OF assms, of 24 8] load_n_kept [OF assms, of 32 8] load_n_kept [OF assms, of 40 8] load_n_kept [OF assms, of 48 8]
  by (simp add: phdr_at_def load32_def load64_def)

lemma ehdr_at_kept:
  assumes "kept off A M M'" "in_frames off A a 64"
  shows "ehdr_at M' a = ehdr_at M a"
  using load_n_kept [OF assms, of 16 2] load_n_kept [OF assms, of 18 2] load_n_kept [OF assms, of 20 4] load_n_kept [OF assms, of 24 8]
    load_n_kept [OF assms, of 32 8] load_n_kept [OF assms, of 40 8] load_n_kept [OF assms, of 48 4] load_n_kept [OF assms, of 52 2]
    load_n_kept [OF assms, of 54 2] load_n_kept [OF assms, of 56 2] load_n_kept [OF assms, of 58 2] load_n_kept [OF assms, of 60 2]
    load_n_kept [OF assms, of 62 2]
  by (simp add: ehdr_at_def load16_def load32_def load64_def)

lemma kva_run:
  "kva off s + of_nat d = kva off (s + d div 4096) + of_nat (d mod 4096)"
proof -
  have "of_nat d = (of_nat (d div 4096 * 4096 + d mod 4096) :: u64)" by simp
  then show ?thesis by (simp only: kva_def page_def of_nat_add add_mult_distrib) (simp add: algebra_simps)
qed

lemma kframe_run: "s + d div 4096 < 1099511627776 \<Longrightarrow> kframe off (kva off s + of_nat d) = s + d div 4096"
  by (subst kva_run, rule kframe_byte) simp_all


text \<open>
  A segment is in place when its pages are mapped, with the protection of its flags, to a run of
  frames that begins with the bytes of the image.
\<close>

definition placed :: "addr \<Rightarrow> u64 \<Rightarrow> nat set \<Rightarrow> memory \<Rightarrow> addr \<Rightarrow> Elf64_Phdr \<Rightarrow> memory \<Rightarrow> bool" where
  "placed off root A M0 eh ph M \<longleftrightarrow> (\<exists>s. {s..<s + seg_frames ph} \<subseteq> A \<and> s + seg_frames ph \<le> 1099511627776 \<and>
     (\<forall>j < seg_frames ph. translate M off root (seg_page ph j) = Some (page (s + j) OR prot_to_pte (ucast (segment_prot ph)))) \<and>
     (\<forall>i < unat (p_memsz ph). M (kva off s + of_nat i) = M0 (eh + p_offset ph + of_nat i)))"

lemma placed_kept:
  assumes "placed off root A M0 eh ph M" "kept off A M M'" "A \<subseteq> B"
    and "\<And>j. j < seg_frames ph \<Longrightarrow> translate M' off root (seg_page ph j) = translate M off root (seg_page ph j)"
    and sz: "unat (p_memsz ph) \<le> 4096 * seg_frames ph"
  shows "placed off root B M0 eh ph M'"
proof -
  obtain s where s: "{s..<s + seg_frames ph} \<subseteq> A" "s + seg_frames ph \<le> 1099511627776"
    "\<forall>j < seg_frames ph. translate M off root (seg_page ph j) = Some (page (s + j) OR prot_to_pte (ucast (segment_prot ph)))"
    "\<forall>i < unat (p_memsz ph). M (kva off s + of_nat i) = M0 (eh + p_offset ph + of_nat i)"
    using assms(1) unfolding placed_def by blast
  have "M' (kva off s + of_nat i) = M (kva off s + of_nat i)" if "i < unat (p_memsz ph)" for i
  proof -
    have i: "i div 4096 < seg_frames ph" using that sz by (intro less_mult_imp_div_less) simp
    then have "kframe off (kva off s + of_nat i) = s + i div 4096" using s(2) by (intro kframe_run) simp
    moreover have "s + i div 4096 \<in> A" using i s(1) by auto
    ultimately show ?thesis using assms(2) by (simp add: kept_def)
  qed
  then have b: "\<forall>i < unat (p_memsz ph). M' (kva off s + of_nat i) = M0 (eh + p_offset ph + of_nat i)" using s(4) by metis
  have t: "\<forall>j < seg_frames ph. translate M' off root (seg_page ph j) = Some (page (s + j) OR prot_to_pte (ucast (segment_prot ph)))"
    using s(3) assms(4) by metis
  show ?thesis unfolding placed_def
    by (rule exI [of _ s], intro conjI) (use s(1,2) assms(3) in blast, fact s(2), fact t, fact b)
qed

lemma apart_frames:
  assumes "{s..<s + n} \<inter> A = {}" "s + n \<le> 1099511627776" "in_frames off A src k" "0 < k" "k \<le> 4096 * n"
  shows "apart (kva off s) k src k"
proof (rule ccontr)
  assume "\<not> apart (kva off s) k src k"
  then consider "unat (src - kva off s) < k" | "unat (kva off s - src) < k" unfolding apart_def by linarith
  then show False
  proof cases
    case 1
    let ?d = "unat (src - kva off s)"
    have d: "?d div 4096 < n" using 1 assms(5) by (intro less_mult_imp_div_less) simp
    have "kframe off (kva off s + of_nat ?d) = s + ?d div 4096" using d assms(2) by (intro kframe_run) simp
    then have "kframe off src = s + ?d div 4096" by simp
    moreover have "kframe off (src + of_nat 0) \<in> A" using assms(3,4) unfolding in_frames_def by blast
    ultimately have "s + ?d div 4096 \<in> A" by simp
    moreover have "s + ?d div 4096 \<in> {s..<s + n}" using d by simp
    ultimately show False using assms(1) by blast
  next
    case 2
    have "0 < n" using assms(4,5) by auto
    have "kframe off (src + of_nat (unat (kva off s - src))) \<in> A" using 2 assms(3) unfolding in_frames_def by blast
    moreover have "kframe off (kva off s + of_nat 0) = s + 0 div 4096" using assms(2) \<open>0 < n\<close> by (intro kframe_run) simp
    ultimately have "s \<in> A" by simp
    moreover have "s \<in> {s..<s + n}" using \<open>0 < n\<close> by simp
    ultimately show False using assms(1) by blast
  qed
qed

text \<open>A copy from the frames \<open>A\<close> into a run of other frames.\<close>

lemma copy_run:
  fixes M :: memory
  assumes "{s..<s + n} \<inter> A = {}" "s + n \<le> 1099511627776" "kva off s \<noteq> NULL" "src \<noteq> NULL"
    and "in_frames off A src (unat k)" "k \<noteq> 0" "unat k \<le> 4096 * n"
  defines "M' \<equiv> snd (memcpy M (kva off s) src k)"
  shows "kframe off a \<notin> {s..<s + n} \<Longrightarrow> M' a = M a"
    "i < unat k \<Longrightarrow> M' (kva off s + of_nat i) = M (src + of_nat i)"
proof -
  have k: "0 < unat k" "unat k < 9223372036854775808" using assms(2,6,7) by (simp_all add: unat_gt_0)
  have ap: "apart (kva off s) (unat k) src (unat k)" by (rule apart_frames [OF assms(1,2,5) k(1) assms(7)])
  have M': "M' x = (if unat (x - kva off s) < unat k then M (src + (x - kva off s)) else M x)" for x
    unfolding M'_def by (rule memcpy_apply(2) [OF assms(3,4) ap k(2)])
  show "M' a = M a" if a: "kframe off a \<notin> {s..<s + n}"
  proof -
    have "\<not> unat (a - kva off s) < unat k"
    proof
      let ?d = "unat (a - kva off s)"
      assume "?d < unat k"
      then have d: "?d div 4096 < n" using assms(7) by (intro less_mult_imp_div_less) simp
      have "kframe off (kva off s + of_nat ?d) = s + ?d div 4096" using d assms(2) by (intro kframe_run) simp
      then show False using a d by simp
    qed
    then show ?thesis by (simp add: M')
  qed
  show "M' (kva off s + of_nat i) = M (src + of_nat i)" if "i < unat k"
  proof -
    have "unat (of_nat i :: u64) = i" using that k(2) by (intro unat_of_nat64) simp
    then show ?thesis using that by (simp add: M')
  qed
qed

lemma load_segment_skips: "\<not> loadable (phdr_at (mem m) ph) \<Longrightarrow> load_segment v eh ph m = Some (0, m)"
  by (auto simp: load_segment_def loadable_def Let_def)

lemma load_segment_effect:
  fixes m :: "'a pmem_scheme"
  assumes inv: "pmap_inv off (frame_of (vas_cr3 v)) T m" and A: "sparing off T m A" and f: "first_free m s e"
    and h: "in_frames off A ph 56" and p: "p = phdr_at (mem m) ph" "loadable p" "n = seg_frames p"
    and sz: "unat (p_memsz p) + 8192 \<le> 18446744073709551616" "n \<le> 68719476736" "s + 4 * n < e"
    and src: "in_frames off A (eh + p_offset p) (unat (p_memsz p))" "eh + p_offset p \<noteq> NULL"
  shows "\<exists>m' T' s'. load_segment v eh ph m = Some (0, m') \<and> pmap_inv off (frame_of (vas_cr3 v)) T' m' \<and>
    max_frame m' = max_frame m \<and> sparing off T' m' (A \<union> {s..<s + n}) \<and> kept off A (mem m) (mem m') \<and>
    s + n \<le> s' \<and> s' \<le> s + 4 * n \<and> first_free m' s' e \<and>
    (\<forall>va. (\<forall>j < n. \<not> same_page (seg_page p j) va) \<longrightarrow>
       translate (mem m') off (vas_cr3 v) va = translate (mem m) off (vas_cr3 v) va) \<and>
    placed off (vas_cr3 v) {s..<s + n} (mem m) eh p (mem m')"
proof -
  let ?root = "frame_of (vas_cr3 v)" and ?c = "segment_length p div PAGESIZE" and ?B = "A \<union> {s..<s + n}"
  note I = pmap_invD [OF inv]
  have nz: "p_memsz p \<noteq> 0" "p_type p = PT_LOAD" using p(2) by (auto simp: loadable_def)
  note len = segment_length_frames [OF sz(1), folded p(3)]
  have n0: "0 < n" using len(3) nz by simp
  have c: "unat ?c = n" using len(4) sz(2) by (simp add: unat_of_nat64)
  obtain m1 where m1: "mm_pmem_alloc ?c m = Some (page s, m1)" "pmap_inv off ?root T m1" "max_frame m1 = max_frame m"
    "sparing off T m1 ?B" "kept off A (mem m) (mem m1)"
    "\<forall>va. translate_from (mem m1) off va 3 ?root = translate_from (mem m) off va 3 ?root" "first_free m1 (s + n) e"
    using alloc_run_effect [OF inv A f, of ?c] c n0 sz(3) by auto
  let ?r = "\<lparr>vma = p_vaddr p, pma = page s, rlength = segment_length p\<rparr>"
  obtain m2 T' s' where m2: "vmem_map_region (Some v) (Some ?r) (segment_prot p) m1 = Some (0, m2)"
    "pmap_inv off ?root T' m2" "max_frame m2 = max_frame m1" "sparing off T' m2 ?B"
    "kept off ?B (mem m1) (mem m2)" "s + n \<le> s'" "s' \<le> s + n + 3 * n" "first_free m2 s' e"
    "\<forall>va. (\<forall>j < n. \<not> same_page (ALIGN_DOWN (vma ?r) 4096 + page j) va) \<longrightarrow>
       translate (mem m2) off (vas_cr3 v) va = translate (mem m1) off (vas_cr3 v) va"
    "\<forall>j < n. translate (mem m2) off (vas_cr3 v) (ALIGN_DOWN (vma ?r) 4096 + page j) =
       Some (ALIGN_DOWN (pma ?r) 4096 + page j OR prot_to_pte (ucast (segment_prot p)))"
    using map_region_effect [OF m1(2,4,7), of ?r n "segment_prot p"] len(1) sz(2,3) m1(3) by auto
  have em: "e \<le> max_frame m" using f unfolding first_free_def by simp
  have lim: "s + n \<le> 1099511627776" "s < max_frame m" using sz(3) I(5) n0 em by simp_all
  have sA: "{s..<s + n} \<inter> A = {}"
  proof -
    have "k \<notin> A" if "s \<le> k" "k < s + n" for k
    proof -
      have k: "k < e" "k < max_frame m" using that sz(3) em by simp_all
      have "\<not> frame_used m k" using f k that unfolding first_free_def by simp
      then show ?thesis using A k(2) unfolding sparing_def by blast
    qed
    then show ?thesis by auto
  qed
  have kA: "kept off A (mem m1) (mem m2)" using m2(5) by (simp add: kept_def)
  then have km: "kept off A (mem m) (mem m2)" using m1(5) kept_trans by blast
  have ph: "phdr_at (mem m2) ph = p" using phdr_at_kept [OF km h] p(1) by simp
  let ?src = "eh + p_offset p" and ?M = "snd (memcpy (mem m2) (kva off s) (eh + p_offset p) (p_memsz p))"
  have dnz: "kva off s \<noteq> NULL" using I(8) lim(2) by blast
  note cp = copy_run [OF sA lim(1) dnz src(2,1) nz(1) len(2)]
  have Mo: "?M a = mem m2 a" if "kframe off a \<notin> {s..<s + n}" for a using cp(1) [OF that] .
  have Mb: "?M (kva off s + of_nat i) = mem m (?src + of_nat i)" if "i < unat (p_memsz p)" for i
    using cp(2) [OF that] src(1) km that unfolding in_frames_def kept_def by metis
  let ?m = "m2\<lparr>mem := ?M\<rparr>"
  have MB: "\<forall>a. kframe off a \<notin> ?B \<longrightarrow> ?M a = mem m2 a" using Mo by blast
  note w = write_effect [OF m2(2,4) MB]
  have tr: "translate ?M off (vas_cr3 v) va = translate (mem m2) off (vas_cr3 v) va" for va
    using w(4) by (simp add: translate_def)
  have bk: "bpt_kernel_base m2 = Some off" using pmap_invD(1) [OF m2(2)] .
  have pz: "page s \<noteq> 0"
  proof -
    have "0 < s" using first_free_pos [OF inv f] sz(3) by simp
    then show ?thesis using unat_page [of s] lim(2) I(5) by auto
  qed
  have ptv: "PHYS_TO_VIRT (page s) m2 = Some (kva off s)"
    using pmap_invD(1) [OF m2(2)] by (simp add: PHYS_TO_VIRT_def PTR_OFFSET_def kva_def)
  have run: "load_segment v eh ph m = Some (0, ?m)"
    using m1(1) m2(1) nz ph pz ptv unfolding load_segment_def p(1) [symmetric]
    by (simp add: Let_def PTR_OFFSET_def add.commute)
  have al: "unat (page s) mod 4096 = 0" using unat_page [of s] lim(2) I(5) by simp
  have "ALIGN_DOWN (page s) 4096 = page s"
    using al by (simp add: word_unat_eq_iff unat_ALIGN_DOWN_page)
  then have pg: "ALIGN_DOWN (page s) 4096 + page j = page (s + j)" for j
    by (simp add: page_def algebra_simps)
  have "placed off (vas_cr3 v) {s..<s + n} (mem m) eh p ?M"
    unfolding placed_def p(3) [symmetric]
    by (rule exI [of _ s], intro conjI) (use lim(1) m2(10) Mb tr pg in \<open>auto simp: seg_page_def\<close>)
  moreover have "kept off A (mem m) ?M" using Mo km sA unfolding kept_def by (metis disjoint_iff)
  moreover have "\<forall>va. (\<forall>j < n. \<not> same_page (seg_page p j) va) \<longrightarrow>
       translate ?M off (vas_cr3 v) va = translate (mem m) off (vas_cr3 v) va"
    using m2(9) m1(6) tr by (simp add: seg_page_def translate_def)
  moreover have "max_frame ?m = max_frame m" using m2(3) m1(3) by (simp add: max_frame_def)
  moreover have "s + n \<le> s'" "s' \<le> s + 4 * n" using m2(6,7) by simp_all
  ultimately show ?thesis using run w(1,2) w(3) [OF m2(8)]
    by (intro exI [of _ ?m] exI [of _ T'] exI [of _ s']) simp
qed

section \<open>Images\<close>

text \<open>The address and the contents of a program header, and how many there are.\<close>

definition phdr_addr :: "memory \<Rightarrow> addr \<Rightarrow> nat \<Rightarrow> addr" where
  "phdr_addr M eh i = PHDR_INDEX M eh (PTR_OFFSET eh (e_phoff (ehdr_at M eh))) i"

definition phdr :: "memory \<Rightarrow> addr \<Rightarrow> nat \<Rightarrow> Elf64_Phdr" where
  "phdr M eh i = phdr_at M (phdr_addr M eh i)"

definition phdr_count :: "memory \<Rightarrow> addr \<Rightarrow> nat" where
  "phdr_count M eh = unat (e_phnum (ehdr_at M eh))"

text \<open>
  The headers and the segments of an image are in the frames \<open>A\<close>; the segments are on different
  pages and none wraps around. The number of frames the segments from \<open>i\<close> on need.
\<close>

definition segment_in :: "addr \<Rightarrow> nat set \<Rightarrow> addr \<Rightarrow> Elf64_Phdr \<Rightarrow> bool" where
  "segment_in off A eh p \<longleftrightarrow> unat (p_memsz p) + 8192 \<le> 18446744073709551616 \<and> seg_frames p \<le> 68719476736 \<and>
     in_frames off A (eh + p_offset p) (unat (p_memsz p)) \<and> eh + p_offset p \<noteq> NULL"

definition elf_image :: "addr \<Rightarrow> nat set \<Rightarrow> memory \<Rightarrow> addr \<Rightarrow> bool" where
  "elf_image off A M eh \<longleftrightarrow> eh \<noteq> NULL \<and> in_frames off A eh 64 \<and>
     (\<forall>i < phdr_count M eh. in_frames off A (phdr_addr M eh i) 56 \<and>
        (loadable (phdr M eh i) \<longrightarrow> segment_in off A eh (phdr M eh i))) \<and>
     (\<forall>i < phdr_count M eh. \<forall>j < phdr_count M eh. i \<noteq> j \<longrightarrow> loadable (phdr M eh i) \<longrightarrow> loadable (phdr M eh j) \<longrightarrow>
        (\<forall>a < seg_frames (phdr M eh i). \<forall>b < seg_frames (phdr M eh j).
           \<not> same_page (seg_page (phdr M eh i) a) (seg_page (phdr M eh j) b)))"

definition frames_from :: "memory \<Rightarrow> addr \<Rightarrow> nat \<Rightarrow> nat" where
  "frames_from M eh i = (\<Sum>j = i..<phdr_count M eh. if loadable (phdr M eh j) then seg_frames (phdr M eh j) else 0)"

lemma frames_from_step:
  "i < phdr_count M eh \<Longrightarrow>
   frames_from M eh i = (if loadable (phdr M eh i) then seg_frames (phdr M eh i) else 0) + frames_from M eh (Suc i)"
  by (simp add: frames_from_def sum.atLeast_Suc_lessThan)

lemma elf_imageD:
  assumes "elf_image off A M eh"
  shows "eh \<noteq> NULL" "in_frames off A eh 64" "i < phdr_count M eh \<Longrightarrow> in_frames off A (phdr_addr M eh i) 56"
    "i < phdr_count M eh \<Longrightarrow> loadable (phdr M eh i) \<Longrightarrow> segment_in off A eh (phdr M eh i)"
    "i < phdr_count M eh \<Longrightarrow> j < phdr_count M eh \<Longrightarrow> i \<noteq> j \<Longrightarrow> loadable (phdr M eh i) \<Longrightarrow> loadable (phdr M eh j) \<Longrightarrow>
      a < seg_frames (phdr M eh i) \<Longrightarrow> b < seg_frames (phdr M eh j) \<Longrightarrow>
      \<not> same_page (seg_page (phdr M eh i) a) (seg_page (phdr M eh j) b)"
  using assms unfolding elf_image_def by blast+

text \<open>The headers read the same while the frames of the image are kept.\<close>

lemma image_kept:
  assumes "elf_image off A M eh" "kept off A M M'"
  shows "phdr_count M' eh = phdr_count M eh" "phdr_addr M' eh i = phdr_addr M eh i"
    "PHDR_INDEX M' eh (PTR_OFFSET eh (e_phoff (ehdr_at M eh))) i = phdr_addr M eh i"
    "i < phdr_count M eh \<Longrightarrow> phdr_at M' (phdr_addr M eh i) = phdr M eh i"
proof -
  have e: "ehdr_at M' eh = ehdr_at M eh" by (rule ehdr_at_kept [OF assms(2) elf_imageD(2) [OF assms(1)]])
  then show "phdr_count M' eh = phdr_count M eh" "phdr_addr M' eh i = phdr_addr M eh i"
    "PHDR_INDEX M' eh (PTR_OFFSET eh (e_phoff (ehdr_at M eh))) i = phdr_addr M eh i"
    by (simp_all add: phdr_count_def phdr_addr_def PHDR_INDEX_def)
  show "phdr_at M' (phdr_addr M eh i) = phdr M eh i" if "i < phdr_count M eh"
    unfolding phdr_def by (rule phdr_at_kept [OF assms(2) elf_imageD(3) [OF assms(1) that]])
qed

lemma in_frames_mono: "in_frames off A a n \<Longrightarrow> A \<subseteq> B \<Longrightarrow> in_frames off B a n"
  by (auto simp: in_frames_def)

lemma placed_source:
  assumes "placed off root A M eh p M'" "kept off C M0 M" "in_frames off C (eh + p_offset p) (unat (p_memsz p))"
  shows "placed off root A M0 eh p M'"
proof -
  have "M (eh + p_offset p + of_nat i) = M0 (eh + p_offset p + of_nat i)" if "i < unat (p_memsz p)" for i
    using assms(2,3) that unfolding kept_def in_frames_def by blast
  then show ?thesis using assms(1) unfolding placed_def by metis
qed

text \<open>
  All segments from \<open>i\<close> on, when those before are in place. The frames are of the run that was free at
  \<open>s0\<close>, and are in use afterwards.
\<close>

lemma load_loop_places:
  fixes m :: "'a pmem_scheme"
  assumes img: "elf_image off A M0 eh" and pb: "pb = PTR_OFFSET eh (e_phoff (ehdr_at M0 eh))"
  shows "pmap_inv off (frame_of (vas_cr3 v)) T m \<Longrightarrow> sparing off T m B \<Longrightarrow> A \<subseteq> B \<Longrightarrow> kept off A M0 (mem m) \<Longrightarrow>
    first_free m s e \<Longrightarrow> s + 4 * frames_from M0 eh i < e \<Longrightarrow> i \<le> phdr_count M0 eh \<Longrightarrow> s0 \<le> s \<Longrightarrow>
    (\<forall>j < i. loadable (phdr M0 eh j) \<longrightarrow> placed off (vas_cr3 v) (B \<inter> {s0..<e}) M0 eh (phdr M0 eh j) (mem m)) \<Longrightarrow>
    \<exists>m' T' B'. load_loop v eh pb i m = Some (0, m') \<and> pmap_inv off (frame_of (vas_cr3 v)) T' m' \<and>
      kept off A M0 (mem m') \<and> sparing off T' m' B' \<and> max_frame m' = max_frame m \<and>
      (\<forall>va. (\<forall>j < phdr_count M0 eh. loadable (phdr M0 eh j) \<longrightarrow> (\<forall>a < seg_frames (phdr M0 eh j). \<not> same_page (seg_page (phdr M0 eh j) a) va)) \<longrightarrow>
         translate (mem m') off (vas_cr3 v) va = translate (mem m) off (vas_cr3 v) va) \<and>
      (\<forall>j < phdr_count M0 eh. loadable (phdr M0 eh j) \<longrightarrow> placed off (vas_cr3 v) (B' \<inter> {s0..<e}) M0 eh (phdr M0 eh j) (mem m'))"
proof (induction "phdr_count M0 eh - i" arbitrary: i m T B s)
  case 0
  then have "load_loop v eh pb i m = Some (0, m)"
    using image_kept(1) [OF img 0(5)] by (subst load_loop.simps) (simp add: phdr_count_def)
  moreover have "i = phdr_count M0 eh" using 0(1,8) by simp
  ultimately show ?case using 0(2,3,5,10) by blast
next
  case (Suc d)
  let ?p = "phdr M0 eh i" and ?r = "vas_cr3 v" and ?n = "seg_frames (phdr M0 eh i)"
  have i: "i < phdr_count M0 eh" using Suc.hyps(2) by simp
  have d: "d = phdr_count M0 eh - Suc i" "Suc i \<le> phdr_count M0 eh" using Suc.hyps(2) i by simp_all
  note k = image_kept [OF img Suc.prems(4)]
  have adr: "PHDR_INDEX (mem m) eh pb i = phdr_addr M0 eh i" using k(3) pb by simp
  have ph: "phdr_at (mem m) (phdr_addr M0 eh i) = ?p" by (rule k(4) [OF i])
  have step: "load_loop v eh pb i m = do {
      (retval, m) \<leftarrow> load_segment v eh (phdr_addr M0 eh i) m;
      (if retval \<noteq> 0 then Some (retval, m) else load_loop v eh pb (Suc i) m) }"
    using i k(1) adr by (subst load_loop.simps) (simp add: phdr_count_def)
  show ?case
  proof (cases "loadable ?p")
    case False
    then have skip: "load_segment v eh (phdr_addr M0 eh i) m = Some (0, m)" using ph by (intro load_segment_skips) simp
    have "frames_from M0 eh i = frames_from M0 eh (Suc i)" using frames_from_step [OF i] False by simp
    then have "s + 4 * frames_from M0 eh (Suc i) < e" using Suc.prems(6) by simp
    moreover have "\<forall>j < Suc i. loadable (phdr M0 eh j) \<longrightarrow> placed off ?r (B \<inter> {s0..<e}) M0 eh (phdr M0 eh j) (mem m)"
      using Suc.prems(9) False by (auto simp: less_Suc_eq)
    ultimately show ?thesis
      unfolding step skip using Suc.hyps(1) [OF d(1) Suc.prems(1-5) _ d(2) Suc.prems(8)] by simp
  next
    case True
    have fr: "frames_from M0 eh i = ?n + frames_from M0 eh (Suc i)" using frames_from_step [OF i] True by simp
    have sg: "segment_in off A eh ?p" by (rule elf_imageD(4) [OF img i True])
    have src: "in_frames off B (eh + p_offset ?p) (unat (p_memsz ?p))" "in_frames off B (phdr_addr M0 eh i) 56"
      using sg elf_imageD(3) [OF img i] in_frames_mono [OF _ Suc.prems(3)] unfolding segment_in_def by blast+
    have sz: "unat (p_memsz ?p) + 8192 \<le> 18446744073709551616" "?n \<le> 68719476736" "eh + p_offset ?p \<noteq> NULL"
      using sg unfolding segment_in_def by blast+
    have "s + 4 * ?n < e" using Suc.prems(6) fr by simp
    then obtain m1 T1 s1 where m1: "load_segment v eh (phdr_addr M0 eh i) m = Some (0, m1)"
      "pmap_inv off (frame_of ?r) T1 m1" "max_frame m1 = max_frame m" "sparing off T1 m1 (B \<union> {s..<s + ?n})"
      "kept off B (mem m) (mem m1)" "s + ?n \<le> s1" "s1 \<le> s + 4 * ?n" "first_free m1 s1 e"
      "\<forall>va. (\<forall>j < ?n. \<not> same_page (seg_page ?p j) va) \<longrightarrow> translate (mem m1) off ?r va = translate (mem m) off ?r va"
      "placed off ?r {s..<s + ?n} (mem m) eh ?p (mem m1)"
      using load_segment_effect [OF Suc.prems(1,2,5) src(2) ph [symmetric] True refl sz(1,2) _ src(1) sz(3)] by blast
    let ?B = "B \<union> {s..<s + ?n}" and ?N = "{s0..<e}"
    have sN: "{s..<s + ?n} \<subseteq> ?B \<inter> ?N" using Suc.prems(6,8) fr by auto
    have kN: "kept off (B \<inter> ?N) (mem m) (mem m1)" using m1(5) by (simp add: kept_def)
    have kA: "kept off A M0 (mem m1)" using Suc.prems(3,4) m1(5) unfolding kept_def by auto
    have pl: "placed off ?r (?B \<inter> ?N) M0 eh (phdr M0 eh j) (mem m1)" if j: "j < Suc i" "loadable (phdr M0 eh j)" for j
    proof (cases "j = i")
      case True
      have "in_frames off A (eh + p_offset ?p) (unat (p_memsz ?p))" using sg unfolding segment_in_def by blast
      then have "placed off ?r {s..<s + ?n} M0 eh ?p (mem m1)" using placed_source [OF m1(10) Suc.prems(4)] by simp
      then show ?thesis using True sN unfolding placed_def by blast
    next
      case False
      then have ji: "j < i" "j < phdr_count M0 eh" using j(1) i by auto
      have "translate (mem m1) off ?r (seg_page (phdr M0 eh j) a) = translate (mem m) off ?r (seg_page (phdr M0 eh j) a)"
        if "a < seg_frames (phdr M0 eh j)" for a
        using m1(9) elf_imageD(5) [OF img i ji(2) False [symmetric] True j(2) _ that] by blast
      moreover have "unat (p_memsz (phdr M0 eh j)) \<le> 4096 * seg_frames (phdr M0 eh j)"
        using elf_imageD(4) [OF img ji(2) j(2)] segment_length_frames(2) unfolding segment_in_def by blast
      ultimately show ?thesis using placed_kept [where B = "?B \<inter> ?N", OF _ kN] Suc.prems(9) ji(1) j(2) by blast
    qed
    have s1: "s1 + 4 * frames_from M0 eh (Suc i) < e" "s0 \<le> s1" using Suc.prems(6,8) fr m1(6,7) by simp_all
    obtain m' T' B' where r: "load_loop v eh pb (Suc i) m1 = Some (0, m')" "pmap_inv off (frame_of ?r) T' m'"
      "kept off A M0 (mem m')" "sparing off T' m' B'" "max_frame m' = max_frame m1"
      "\<forall>va. (\<forall>j < phdr_count M0 eh. loadable (phdr M0 eh j) \<longrightarrow> (\<forall>a < seg_frames (phdr M0 eh j). \<not> same_page (seg_page (phdr M0 eh j) a) va)) \<longrightarrow>
         translate (mem m') off ?r va = translate (mem m1) off ?r va"
      "\<forall>j < phdr_count M0 eh. loadable (phdr M0 eh j) \<longrightarrow> placed off ?r (B' \<inter> ?N) M0 eh (phdr M0 eh j) (mem m')"
      using Suc.hyps(1) [OF d(1) m1(2,4) _ kA m1(8) s1(1) d(2) s1(2)] pl Suc.prems(3) by blast
    have "load_loop v eh pb i m = Some (0, m')" using step m1(1) r(1) by simp
    moreover have "\<forall>va. (\<forall>j < phdr_count M0 eh. loadable (phdr M0 eh j) \<longrightarrow> (\<forall>a < seg_frames (phdr M0 eh j). \<not> same_page (seg_page (phdr M0 eh j) a) va)) \<longrightarrow>
         translate (mem m') off ?r va = translate (mem m) off ?r va"
      using r(6) m1(9) i True by metis
    moreover have "max_frame m' = max_frame m" using r(5) m1(3) by simp
    ultimately show ?thesis using r(2,3,4,7) by blast
  qed
qed


text \<open>
  The byte at a virtual address: the frame its page is mapped to, which is one of \<open>N\<close>, with which
  flags, and the byte there. The frames that were free and have been put to use.
\<close>

definition byte_mapped :: "nat set \<Rightarrow> addr \<Rightarrow> u64 \<Rightarrow> memory \<Rightarrow> u32 \<Rightarrow> u64 \<Rightarrow> u8 \<Rightarrow> bool" where
  "byte_mapped N off root M prot va x \<longleftrightarrow>
     (\<exists>f \<in> N. translate M off root va = Some (page f OR prot_to_pte (ucast prot)) \<and> M (kva off f + of_nat (unat va mod 4096)) = x)"

definition new_frames :: "'a pmem_scheme \<Rightarrow> 'a pmem_scheme \<Rightarrow> nat set" where
  "new_frames m m' = {f. f < max_frame m \<and> \<not> frame_used m f \<and> frame_used m' f}"

lemma byte_mapped_mono: "byte_mapped N off root M prot va x \<Longrightarrow> N \<subseteq> N' \<Longrightarrow> byte_mapped N' off root M prot va x"
  unfolding byte_mapped_def by blast

lemma new_frames_run: "first_free m s e \<Longrightarrow> {k \<in> {s..<e}. frame_used m' k} \<subseteq> new_frames m m'"
  unfolding first_free_def new_frames_def by auto

lemma placed_bytes:
  assumes "placed off root A M0 eh p M" "i < unat (p_memsz p)" "unat (p_memsz p) \<le> 4096 * seg_frames p"
  shows "byte_mapped A off root M (segment_prot p) (ALIGN_DOWN (p_vaddr p) 4096 + of_nat i) (M0 (eh + p_offset p + of_nat i))"
proof -
  obtain s where s: "{s..<s + seg_frames p} \<subseteq> A"
    "\<forall>j < seg_frames p. translate M off root (seg_page p j) = Some (page (s + j) OR prot_to_pte (ucast (segment_prot p)))"
    "\<forall>i < unat (p_memsz p). M (kva off s + of_nat i) = M0 (eh + p_offset p + of_nat i)"
    using assms(1) unfolding placed_def by blast
  have j: "i div 4096 < seg_frames p" using assms(2,3) by (intro less_mult_imp_div_less) simp
  have al: "unat (ALIGN_DOWN (p_vaddr p) 4096) mod 4096 = 0" by (simp add: unat_ALIGN_DOWN_page minus_mod_eq_mult_div)
  note so = same_page_offset [OF al, of i]
  have "translate M off root (ALIGN_DOWN (p_vaddr p) 4096 + of_nat i) = Some (page (s + i div 4096) OR prot_to_pte (ucast (segment_prot p)))"
    using translate_same_page [OF so(1), of M off root] s(2) j by (simp add: seg_page_def)
  moreover have "M (kva off (s + i div 4096) + of_nat (unat (ALIGN_DOWN (p_vaddr p) 4096 + of_nat i) mod 4096)) = M0 (eh + p_offset p + of_nat i)"
    using s(3) assms(2) unfolding so(2) kva_run [of off s i, symmetric] by simp
  moreover have "s + i div 4096 \<in> A" using s(1) j by auto
  ultimately show ?thesis unfolding byte_mapped_def by blast
qed

lemma elf_load_raw_effect:
  fixes m :: "'a pmem_scheme"
  assumes "pmap_inv off (frame_of (vas_cr3 v)) T m" "sparing off T m A" "first_free m s e"
    and "elf_image off A (mem m) img" "elf_verify ELFMAG img (mem m)" "s + 4 * frames_from (mem m) img 0 < e"
  shows "\<exists>m'. elf_load_raw ELFMAG (Some v) img True m = Some (0, Some (e_entry (ehdr_at (mem m) img)), m') \<and>
    pmap_ok off v m' \<and> kept off A (mem m) (mem m') \<and>
    (\<forall>va. (\<forall>j < phdr_count (mem m) img. loadable (phdr (mem m) img j) \<longrightarrow>
         (\<forall>a < seg_frames (phdr (mem m) img j). \<not> same_page (seg_page (phdr (mem m) img j) a) va)) \<longrightarrow>
       translate (mem m') off (vas_cr3 v) va = translate (mem m) off (vas_cr3 v) va) \<and>
    (\<forall>j < phdr_count (mem m) img. let p = phdr (mem m) img j in loadable p \<longrightarrow>
       (\<forall>i < unat (p_memsz p). byte_mapped {k \<in> {s..<e}. frame_used m' k} off (vas_cr3 v) (mem m') (segment_prot p)
          (ALIGN_DOWN (p_vaddr p) 4096 + of_nat i) (mem m (img + p_offset p + of_nat i))))"
proof -
  let ?pb = "PTR_OFFSET img (e_phoff (ehdr_at (mem m) img))"
  note img = elf_imageD [OF assms(4)]
  obtain m' T' B' where r: "load_loop v img ?pb 0 m = Some (0, m')" "pmap_inv off (frame_of (vas_cr3 v)) T' m'"
    "kept off A (mem m) (mem m')" "sparing off T' m' B'" "max_frame m' = max_frame m"
    "\<forall>va. (\<forall>j < phdr_count (mem m) img. loadable (phdr (mem m) img j) \<longrightarrow>
         (\<forall>a < seg_frames (phdr (mem m) img j). \<not> same_page (seg_page (phdr (mem m) img j) a) va)) \<longrightarrow>
       translate (mem m') off (vas_cr3 v) va = translate (mem m) off (vas_cr3 v) va"
    "\<forall>j < phdr_count (mem m) img. loadable (phdr (mem m) img j) \<longrightarrow>
       placed off (vas_cr3 v) (B' \<inter> {s..<e}) (mem m) img (phdr (mem m) img j) (mem m')"
    using load_loop_places [OF assms(4) refl assms(1,2) subset_refl kept_refl assms(3,6) le0 order_refl] by auto
  have N: "B' \<inter> {s..<e} \<subseteq> {k \<in> {s..<e}. frame_used m' k}"
    using r(4,5) assms(3) unfolding sparing_def first_free_def by auto
  have e: "ehdr_at (mem m') img = ehdr_at (mem m) img" by (rule ehdr_at_kept [OF r(3) img(2)])
  have "elf_load_raw ELFMAG (Some v) img True m = Some (0, Some (e_entry (ehdr_at (mem m) img)), m')"
    using r(1) img(1) assms(5) e by (simp add: elf_load_raw_def elf_load_def)
  moreover have "byte_mapped {k \<in> {s..<e}. frame_used m' k} off (vas_cr3 v) (mem m') (segment_prot p)
      (ALIGN_DOWN (p_vaddr p) 4096 + of_nat i) (mem m (img + p_offset p + of_nat i))"
    if j: "j < phdr_count (mem m) img" "p = phdr (mem m) img j" "loadable p" "i < unat (p_memsz p)" for j p i
  proof (rule byte_mapped_mono [OF placed_bytes N])
    show "placed off (vas_cr3 v) (B' \<inter> {s..<e}) (mem m) img p (mem m')" using r(7) j(1-3) by blast
    show "unat (p_memsz p) \<le> 4096 * seg_frames p"
      using img(4) [OF j(1)] j(2,3) segment_length_frames(2) unfolding segment_in_def by blast
  qed fact
  ultimately show ?thesis using r(2,3,6) unfolding pmap_ok_def Let_def by blast
qed

lemma elf_verify_kept:
  assumes "kept off A M M'" "in_frames off A eh 64" "in_frames off A ELFMAG 4"
  shows "elf_verify ELFMAG eh M' = elf_verify ELFMAG eh M"
proof -
  have "M' (eh + of_nat i) = M (eh + of_nat i)" "M' (ELFMAG + of_nat i) = M (ELFMAG + of_nat i)" if "i < 4" for i
    using that assms unfolding in_frames_def kept_def by auto
  then have "memcmp M' (eh + EI_MAG0) ELFMAG SELFMAG = 0 \<longleftrightarrow> memcmp M (eh + EI_MAG0) ELFMAG SELFMAG = 0"
    unfolding memcmp_zero by (simp add: EI_MAG0_def SELFMAG_def)
  then show ?thesis by (simp add: elf_verify_def ehdr_at_kept [OF assms(1,2)])
qed

text \<open>An image whose frames are kept is the same image.\<close>

lemma image_kept_same:
  assumes "elf_image off A M eh" "kept off A M M'"
  shows "ehdr_at M' eh = ehdr_at M eh" "i < phdr_count M eh \<Longrightarrow> phdr M' eh i = phdr M eh i" "elf_image off A M' eh"
    "frames_from M' eh j = frames_from M eh j"
    "in_frames off A ELFMAG 4 \<Longrightarrow> elf_verify ELFMAG eh M' = elf_verify ELFMAG eh M"
proof -
  note img = elf_imageD [OF assms(1)] and k = image_kept [OF assms]
  show e: "ehdr_at M' eh = ehdr_at M eh" by (rule ehdr_at_kept [OF assms(2) img(2)])
  have p: "phdr M' eh i = phdr M eh i" if "i < phdr_count M eh" for i
    using k(4) [OF that] by (simp add: phdr_def k(2))
  then show "i < phdr_count M eh \<Longrightarrow> phdr M' eh i = phdr M eh i" .
  show "elf_image off A M' eh" using assms(1) p unfolding elf_image_def k(1,2) by simp
  show "frames_from M' eh j = frames_from M eh j" unfolding frames_from_def k(1) by (rule sum.cong) (simp_all add: p)
  show "in_frames off A ELFMAG 4 \<Longrightarrow> elf_verify ELFMAG eh M' = elf_verify ELFMAG eh M"
    by (rule elf_verify_kept [OF assms(2) img(2)])
qed

text \<open>
  C15: \<^verbatim>\<open>elf_load_raw\<close> of a valid image whose headers and segments lie in frames \<open>A\<close> that are in use and
  hold neither tables nor the bitmap, with the segments on different pages and none of more than 2^36 pages, when the first run of free
  frames, from \<open>s\<close> to \<open>e\<close>, has more than four frames for each page of a segment. (A segment gets one
  run of frames, and C20 shows what the allocator does when the first run is too short.)
  It returns 0 and the entry point of the header. Then every byte of every loadable segment is in a
  new frame, one that was free before and is in use now, mapped with the
  protection of the flags of the segment, counting from the first byte of the page of its address;
  the page tables are sound; no other page is mapped differently; and the bytes in the frames \<open>A\<close>, those
  of the image among them, are unchanged.
\<close>

theorem elf_load_raw_loads:
  fixes m :: "'a pmem_scheme"
  assumes "pmap_inv off (frame_of (vas_cr3 v)) T m" "sparing off T m A" "first_free m s e"
    and "elf_image off A (mem m) img" "elf_verify ELFMAG img (mem m)" "s + 4 * frames_from (mem m) img 0 < e"
  shows "\<exists>m'. elf_load_raw ELFMAG (Some v) img True m = Some (0, Some (e_entry (ehdr_at (mem m) img)), m') \<and>
    pmap_ok off v m' \<and> kept off A (mem m) (mem m') \<and>
    (\<forall>va. (\<forall>j < phdr_count (mem m) img. loadable (phdr (mem m) img j) \<longrightarrow>
         (\<forall>a < seg_frames (phdr (mem m) img j). \<not> same_page (seg_page (phdr (mem m) img j) a) va)) \<longrightarrow>
       translate (mem m') off (vas_cr3 v) va = translate (mem m) off (vas_cr3 v) va) \<and>
    (\<forall>j < phdr_count (mem m) img. let p = phdr (mem m) img j in loadable p \<longrightarrow>
       (\<forall>i < unat (p_memsz p). byte_mapped (new_frames m m') off (vas_cr3 v) (mem m') (segment_prot p)
          (ALIGN_DOWN (p_vaddr p) 4096 + of_nat i) (mem m (img + p_offset p + of_nat i))))"
  using elf_load_raw_effect [OF assms] byte_mapped_mono [OF _ new_frames_run [OF assms(3)]] unfolding Let_def by blast

section \<open>Example\<close>

text \<open>
  A machine with sixteen frames, the first six in use: the top-level table in frame 1, the bitmap
  in frame 3 and an image in frame 4, with a program of four bytes at
  \<open>0x400000\<close> and, behind it, the literal with the magic bytes.
\<close>

definition elf_bytes :: "nat \<Rightarrow> u8" where
  "elf_bytes = (\<lambda>_. 0)(0 := 0x7F, 1 := 69, 2 := 76, 3 := 70, 16 := 2, 20 := 1, 26 := 0x40, 32 := 64, 54 := 56, 56 := 1,
     64 := 1, 68 := 5, 72 := 128, 82 := 0x40, 96 := 4, 104 := 4, 128 := 0xF3, 129 := 0x90, 130 := 0xEB, 131 := 0xFC,
     256 := 0x7F, 257 := 69, 258 := 76, 259 := 70)"

definition elf_witness :: pmem where
  "elf_witness = pmap_witness\<lparr>mem := (\<lambda>a. if a = 0xFFFF800000003000 then 0x3F else elf_bytes (unat (a - 0xFFFF800000004000))),
     usable_top := 0x10000\<rparr>"

text \<open>The bytes of the image at an address, and the fields of its headers.\<close>

definition elf_bytes_at :: "memory \<Rightarrow> addr \<Rightarrow> bool" where
  "elf_bytes_at M img \<longleftrightarrow> (\<forall>i < 260. M (img + of_nat i) = elf_bytes i)"

lemma load_field:
  assumes "elf_bytes_at M img" "i + n \<le> 260" "n \<le> 8"
    "\<forall>j < n. elf_bytes (i + j) = ucast (drop_bit (8 * j) (v :: u64))" "take_bit (8 * n) v = v"
  shows "load_n n M (img + of_nat i) = v"
proof -
  have "load_n n M (img + of_nat i) = take_bit (8 * n) v"
  proof (rule load_n_bytes)
    fix j assume j: "j < n"
    have "i + j < 260" using assms(2) j by simp
    then have "M (img + of_nat (i + j)) = elf_bytes (i + j)" using assms(1) unfolding elf_bytes_at_def by blast
    then show "M (img + of_nat i + of_nat j) = ucast (drop_bit (8 * j) v)"
      using assms(4) j by (simp only: of_nat_add add.assoc)
  qed fact
  then show ?thesis using assms(5) by simp
qed

lemma all_less8: "(\<forall>j < 8. P j) \<longleftrightarrow> P 0 \<and> P 1 \<and> P 2 \<and> P 3 \<and> P 4 \<and> P 5 \<and> P 6 \<and> P (7 :: nat)"
  "(\<forall>j < 4. P j) \<longleftrightarrow> P 0 \<and> P 1 \<and> P 2 \<and> P (3 :: nat)" "(\<forall>j < 2. P j) \<longleftrightarrow> P 0 \<and> P (1 :: nat)"
  by (auto simp: numeral_eq_Suc All_less_Suc)

lemma elf_bytes_header:
  assumes "elf_bytes_at M img"
  shows "e_phoff (ehdr_at M img) = 64" "e_phnum (ehdr_at M img) = 1" "e_phentsize (ehdr_at M img) = 56"
    "e_entry (ehdr_at M img) = 0x400000" "e_type (ehdr_at M img) = ET_EXEC" "e_version (ehdr_at M img) = EV_CURRENT"
  using load_field [OF assms, of 32 8 64] load_field [OF assms, of 56 2 1] load_field [OF assms, of 54 2 56]
    load_field [OF assms, of 24 8 "0x400000"] load_field [OF assms, of 16 2 2] load_field [OF assms, of 20 4 1]
  by (simp_all add: ehdr_at_def load16_def load32_def load64_def all_less8 elf_bytes_def ET_EXEC_def EV_CURRENT_def)

lemma elf_bytes_segment:
  assumes "elf_bytes_at M img"
  shows "phdr_at M (img + 64) = \<lparr>p_type = 1, p_flags = 5, p_offset = 128, p_vaddr = 0x400000, p_paddr = 0,
     p_filesz = 4, p_memsz = 4, p_align = 0\<rparr>"
  using load_field [OF assms, of 64 4 1] load_field [OF assms, of 68 4 5] load_field [OF assms, of 72 8 128]
    load_field [OF assms, of 80 8 "0x400000"] load_field [OF assms, of 88 8 0] load_field [OF assms, of 96 8 4]
    load_field [OF assms, of 104 8 4] load_field [OF assms, of 112 8 0]
  by (simp add: phdr_at_def load32_def load64_def all_less8 elf_bytes_def add.assoc)

lemma in_frames_part:
  assumes "in_frames off A a n" "i + k \<le> n"
  shows "in_frames off A (a + of_nat i) k"
proof -
  have "kframe off (a + of_nat i + of_nat j) \<in> A" if "j < k" for j
    using assms that unfolding in_frames_def by (simp add: add.assoc flip: of_nat_add)
  then show ?thesis by (simp add: in_frames_def)
qed

lemma elf_bytes_image:
  assumes b: "elf_bytes_at M img" and f: "in_frames off A img 132" and nz: "img \<noteq> NULL" "img + 128 \<noteq> NULL"
  shows "phdr_count M img = 1" "phdr M img 0 = \<lparr>p_type = 1, p_flags = 5, p_offset = 128, p_vaddr = 0x400000, p_paddr = 0,
      p_filesz = 4, p_memsz = 4, p_align = 0\<rparr>"
    "loadable (phdr M img 0)" "seg_frames (phdr M img 0) = 1" "segment_prot (phdr M img 0) = 6"
    "elf_image off A M img" "frames_from M img 0 = 1" "elf_verify (img + 256) img M"
proof -
  show c: "phdr_count M img = 1" by (simp add: phdr_count_def elf_bytes_header [OF b])
  have a: "phdr_addr M img 0 = img + 64"
    by (simp add: phdr_addr_def PHDR_INDEX_def PTR_OFFSET_def elf_bytes_header [OF b])
  show p: "phdr M img 0 = \<lparr>p_type = 1, p_flags = 5, p_offset = 128, p_vaddr = 0x400000, p_paddr = 0,
      p_filesz = 4, p_memsz = 4, p_align = 0\<rparr>"
    unfolding phdr_def a by (rule elf_bytes_segment [OF b])
  show fr: "seg_frames (phdr M img 0) = 1" by (simp add: p seg_frames_def)
  show ld: "loadable (phdr M img 0)" by (simp add: p loadable_def PT_LOAD_def)
  show "segment_prot (phdr M img 0) = 6"
    unfolding p by (simp add: segment_prot_def PF_W_def PF_X_def PROT_USER_def PROT_EXEC_def Let_def BIT_def)
  have "segment_in off A img (phdr M img 0)"
    using fr nz in_frames_part [OF f, of 128 4] by (simp add: segment_in_def p)
  then show "elf_image off A M img"
    using nz in_frames_part [OF f, of 0 64] in_frames_part [OF f, of 64 56] by (simp add: elf_image_def c a)
  show "frames_from M img 0 = 1" by (simp add: frames_from_def c fr ld)
  have "M (img + of_nat i) = M (img + 256 + of_nat i)" if "i < 4" for i
  proof -
    have "elf_bytes i = elf_bytes (256 + i)" using that by (auto simp: less_Suc_eq numeral_eq_Suc elf_bytes_def)
    moreover have "img + 256 + of_nat i = img + of_nat (256 + i)" by simp
    moreover have "M (img + of_nat j) = elf_bytes j" if "j < 260" for j
      using that b unfolding elf_bytes_at_def by blast
    ultimately show ?thesis using that by (simp only:)
  qed
  then have "memcmp M (img + EI_MAG0) (img + 256) SELFMAG = 0"
    by (simp add: memcmp_zero SELFMAG_def EI_MAG0_def)
  then show "elf_verify (img + 256) img M" using nz by (simp add: elf_verify_def elf_bytes_header [OF b])
qed

lemma elf_bytes_0: "260 \<le> i \<Longrightarrow> elf_bytes i = 0"
  by (simp add: elf_bytes_def)

text \<open>
  Any machine with sixteen frames, the first six in use, an empty top-level table in frame 1 and
  the bitmap at the start of frame 3.
\<close>

definition small_machine :: "'a pmem_scheme \<Rightarrow> bool" where
  "small_machine m \<longleftrightarrow> usable_top m = 0x10000 \<and> bitmap m = 0xFFFF800000003000 \<and> last_bit m = 0 \<and> bitmap_lock m = 0 \<and>
     cr4 m = 0 \<and> hook_get_vars (hooks m) = Some limine_get_vars \<and> r_hhdm_offset (resp m) = Some 0xFFFF800000000000 \<and>
     r_rsdp_address (resp m) = Some 0 \<and> mem m 0xFFFF800000003000 = 0x3F \<and> mem m 0xFFFF800000003001 = 0 \<and>
     (\<forall>a. kframe 0xFFFF800000000000 a = 1 \<longrightarrow> mem m a = 0)"

lemma small_machine_frames:
  assumes "small_machine m"
  shows "max_frame m = 16" "j < 16 \<Longrightarrow> bitmap_frame 0xFFFF800000000000 m j = 3" "j < 16 \<Longrightarrow> frame_used m j \<longleftrightarrow> j < 6"
proof -
  have bm: "bitmap m = 0xFFFF800000003000" and b: "mem m 0xFFFF800000003000 = 0x3F" "mem m 0xFFFF800000003001 = 0"
    using assms by (simp_all add: small_machine_def)
  show "max_frame m = 16" using assms by (simp add: max_frame_def small_machine_def)
  have d: "drop_bit 3 (of_nat j :: u64) = (if j < 8 then 0 else 1)" if "j < 16"
  proof -
    have "unat (drop_bit 3 (of_nat j :: u64)) = j div 8"
      using that by (simp add: drop_bit_eq_div unat_div unat_of_nat64)
    moreover have "j div 8 = (if j < 8 then 0 else 1)" using that by auto
    ultimately show ?thesis by (simp add: word_unat_eq_iff)
  qed
  show "bitmap_frame 0xFFFF800000000000 m j = 3" if "j < 16"
    using d [OF that] by (simp add: bitmap_frame_def bit_byte_def bm kframe_def)
  have m: "unat (of_nat j mod 8 :: u64) = j mod 8" if "j < 16"
    using that by (simp add: unat_mod unat_of_nat64)
  show "frame_used m j \<longleftrightarrow> j < 6" if "j < 16"
  proof (cases "j < 8")
    case True
    then have "j \<in> {0, 1, 2, 3, 4, 5, 6, 7}" by auto
    then show ?thesis using d [OF that] True m [OF that] b by (auto simp: frame_used_def TESTBIT_bit bm)
  next
    case False
    then show ?thesis using d [OF that] m [OF that] b by (simp add: frame_used_def TESTBIT_bit bm)
  qed
qed

lemma small_machine_inv:
  assumes "small_machine m"
  shows "pmap_inv 0xFFFF800000000000 (frame_of 0x1000) (\<lambda>l. if l = 3 then {1} else {}) m"
    "sparing 0xFFFF800000000000 (\<lambda>l. if l = 3 then {1} else {}) m {4, 5}" "first_free m 6 16"
proof -
  let ?off = "0xFFFF800000000000 :: u64" and ?T = "\<lambda>l :: nat. if l = 3 then {1 :: nat} else {}"
  note w = small_machine_frames [OF assms]
  have pte0: "pte (mem m) ?off 1 i = 0" if "i < 512" for i
  proof -
    have "pte (mem m) ?off 1 i = pte (mem pmap_witness) ?off 1 i"
    proof (rule pte_cong)
      fix a assume a: "kframe ?off a = 1"
      then have "a \<noteq> 0xFFFF800000003000" by (auto simp: kframe_def)
      then show "mem m a = mem pmap_witness a"
        using a assms by (simp add: small_machine_def pmap_witness_def)
    qed (use that in auto)
    also have "\<dots> = 0" using pmap_witness_pte0 [OF that] .
    finally show ?thesis .
  qed
  have root: "frame_of 0x1000 = 1" by (simp add: frame_of_def PTE_ADDR_MASK_def)
  have kv: "kva ?off k \<noteq> NULL" if "k < 16" for k
  proof
    assume "kva ?off k = NULL"
    then have "page k = - ?off" by (simp add: kva_def eq_neg_iff_add_eq_0 add.commute)
    then have "unat (page k) = unat (- ?off)" by simp
    then show False using that by (simp add: unat_page)
  qed
  show "pmap_inv ?off (frame_of 0x1000) ?T m"
    unfolding pmap_inv_def w(1) root
  proof (intro conjI)
    show "tables ?off 1 ?T (mem m)"
      using pte0 by (auto simp: tables_def present_def)
    show "\<forall>l \<le> 3. \<forall>k \<in> ?T l. k < 16 \<longrightarrow> frame_used m k" using w(3) [of 1] by auto
    show "frame_used m 0" using w(3) [of 0] by simp
    show "\<forall>j < 16. \<forall>l \<le> 3. bitmap_frame ?off m j \<notin> ?T l" using w(2) by auto
    show "\<forall>j < 16. bitmap_frame ?off m j < 16 \<longrightarrow> frame_used m (bitmap_frame ?off m j)"
      using w(2) w(3) [of 3] by simp
    show "pmem_ready m" using w(1) assms by (simp add: pmem_ready_def small_machine_def)
    show "bpt_kernel_base m = Some ?off"
      by (rule bpt_kernel_base_limine) (use assms in \<open>simp_all add: small_machine_def\<close>)
    show "\<forall>k. k < 16 \<or> k \<in> ?T 0 \<longrightarrow> kva ?off k \<noteq> NULL" using kv by auto
  qed (use assms in \<open>simp_all add: small_machine_def ISSET_def\<close>)
  show "sparing ?off ?T m {4, 5}" "first_free m 6 16" using w by (auto simp add: sparing_def first_free_def)
qed

text \<open>No byte of frames 4 and 5 is in another frame.\<close>

lemma beyond_frame_1:
  assumes "kframe 0xFFFF800000000000 a = 1"
  shows "8192 \<le> unat (a - 0xFFFF800000004000)" "a \<noteq> 0xFFFF800000003000"
proof -
  let ?off = "0xFFFF800000000000 :: u64"
  have l: "unat (a - ?off) < 8192" using assms by (auto simp: kframe_def)
  show "a \<noteq> 0xFFFF800000003000" using assms by (auto simp: kframe_def)
  show "8192 \<le> unat (a - 0xFFFF800000004000)"
  proof (rule ccontr)
    assume "\<not> ?thesis"
    then have lt: "unat (a - 0xFFFF800000004000) < 8192" by simp
    have "a - ?off = (a - 0xFFFF800000004000) + 0x4000" by simp
    then have "unat (a - ?off) = unat (a - 0xFFFF800000004000) + 0x4000" using lt by (simp only:) (subst unat_add64, simp_all)
    then show False using l by simp
  qed
qed

lemma elf_witness_small: "small_machine elf_witness"
proof -
  have "mem elf_witness a = 0" if "kframe 0xFFFF800000000000 a = 1" for a
    using beyond_frame_1 [OF that] by (simp add: elf_witness_def elf_bytes_0)
  moreover have "mem elf_witness 0xFFFF800000003000 = 0x3F" "mem elf_witness 0xFFFF800000003001 = 0"
    by (simp_all add: elf_witness_def elf_bytes_0)
  ultimately show ?thesis by (simp add: small_machine_def) (simp add: elf_witness_def pmap_witness_def pmem_witness_def)
qed

text \<open>The addresses of the two frames, by their offsets.\<close>

lemma in_frames_45:
  assumes "i + n \<le> 8192"
  shows "in_frames 0xFFFF800000000000 {4, 5} (0xFFFF800000004000 + of_nat i) n"
proof -
  have "kframe 0xFFFF800000000000 (0xFFFF800000004000 + of_nat i + of_nat j) \<in> {4, 5}" if "j < n" for j
  proof -
    have d: "(i + j) div 4096 < 2" using assms that by (intro less_mult_imp_div_less) simp
    have "kva 0xFFFF800000000000 4 + of_nat (i + j) = 0xFFFF800000004000 + of_nat i + of_nat j"
      by (simp add: kva_def page_def)
    moreover have "kframe 0xFFFF800000000000 (kva 0xFFFF800000000000 4 + of_nat (i + j)) = 4 + (i + j) div 4096"
      using d by (intro kframe_run) auto
    ultimately have "kframe 0xFFFF800000000000 (0xFFFF800000004000 + of_nat i + of_nat j) = 4 + (i + j) div 4096"
      by (simp only:)
    then show ?thesis using d by (auto simp: less_2_cases_iff)
  qed
  then show ?thesis by (simp add: in_frames_def)
qed

lemma offset_byte:
  assumes "i < 8192"
  shows "unat ((0xFFFF800000004000 + of_nat i :: u64) - 0xFFFF800000004000) = i" "0xFFFF800000004000 + of_nat i \<noteq> (0xFFFF800000003000 :: u64)"
proof -
  have u: "unat (of_nat i :: u64) = i" using assms by (intro unat_of_nat64) simp
  then show "unat ((0xFFFF800000004000 + of_nat i :: u64) - 0xFFFF800000004000) = i" by simp
  have "unat (0xFFFF800000004000 + of_nat i :: u64) = 0xFFFF800000004000 + i" using u assms by (subst unat_add64) simp_all
  then have "unat (0xFFFF800000004000 + of_nat i :: u64) \<noteq> unat (0xFFFF800000003000 :: u64)" by simp
  then show "0xFFFF800000004000 + of_nat i \<noteq> (0xFFFF800000003000 :: u64)" by metis
qed

lemma elf_witness_image:
  "elf_bytes_at (mem elf_witness) 0xFFFF800000004000" "in_frames 0xFFFF800000000000 {4, 5} 0xFFFF800000004000 132"
proof -
  have "mem elf_witness (0xFFFF800000004000 + of_nat i) = elf_bytes i" if "i < 260" for i
    using offset_byte [of i] that by (simp add: elf_witness_def)
  then show "elf_bytes_at (mem elf_witness) 0xFFFF800000004000" by (simp add: elf_bytes_at_def)
  show "in_frames 0xFFFF800000000000 {4, 5} 0xFFFF800000004000 132" using in_frames_45 [of 0 132] by simp
qed

lemma elf_load_raw_loads_witness:
  "\<exists>m'. elf_load_raw 0xFFFF800000004100 (Some \<lparr>vas_cr3 = 0x1000\<rparr>) 0xFFFF800000004000 True elf_witness = Some (0, Some 0x400000, m') \<and>
    byte_mapped (new_frames elf_witness m') 0xFFFF800000000000 0x1000 (mem m') 6 0x400000 0xF3"
proof -
  let ?M = "mem elf_witness" and ?img = "0xFFFF800000004000 :: u64"
  have w: "phdr_count ?M ?img = 1" "phdr ?M ?img 0 = \<lparr>p_type = 1, p_flags = 5, p_offset = 128, p_vaddr = 0x400000, p_paddr = 0,
      p_filesz = 4, p_memsz = 4, p_align = 0\<rparr>"
    "loadable (phdr ?M ?img 0)" "segment_prot (phdr ?M ?img 0) = 6"
    "elf_image 0xFFFF800000000000 {4, 5} ?M ?img" "frames_from ?M ?img 0 = 1" "elf_verify 0xFFFF800000004100 ?img ?M"
    using elf_bytes_image [OF elf_witness_image] by simp_all
  have b: "?M (?img + 128 + of_nat 0) = 0xF3"
    using elf_witness_image(1) unfolding elf_bytes_at_def by (auto simp: elf_bytes_def dest: spec [of _ 128])
  note sm = small_machine_inv [OF elf_witness_small]
  have inv: "pmap_inv 0xFFFF800000000000 (frame_of (vas_cr3 \<lparr>vas_cr3 = 0x1000\<rparr>)) (\<lambda>l. if l = 3 then {1} else {}) elf_witness"
    using sm(1) by simp
  have fr: "6 + 4 * frames_from ?M ?img 0 < 16"
    using w(6) by simp
  obtain m' where m': "elf_load_raw 0xFFFF800000004100 (Some \<lparr>vas_cr3 = 0x1000\<rparr>) ?img True elf_witness =
      Some (0, Some (e_entry (ehdr_at ?M ?img)), m')"
    "\<forall>j < phdr_count ?M ?img. let p = phdr ?M ?img j in loadable p \<longrightarrow>
       (\<forall>i < unat (p_memsz p). byte_mapped (new_frames elf_witness m') 0xFFFF800000000000 (vas_cr3 \<lparr>vas_cr3 = 0x1000\<rparr>) (mem m') (segment_prot p)
          (ALIGN_DOWN (p_vaddr p) 4096 + of_nat i) (?M (?img + p_offset p + of_nat i)))"
    using elf_load_raw_loads [OF inv sm(2,3) w(5,7) fr] by blast
  have "byte_mapped (new_frames elf_witness m') 0xFFFF800000000000 0x1000 (mem m') 6 (ALIGN_DOWN 0x400000 4096 + of_nat 0) (?M (?img + 128 + of_nat 0))"
    using m'(2) [unfolded Let_def, rule_format, of 0 0] w(1,3,4) by (simp add: w(2))
  then show ?thesis using m'(1) b by (simp add: elf_bytes_header [OF elf_witness_image(1)] ALIGN_DOWN_def)
qed

end
