(* ===== verification/Hive_Kmain_Spec.thy ===== *)
theory Hive_Kmain_Spec
  imports Hive_Kmain Hive_Elf_Spec
begin

text \<open>
  What \<^verbatim>\<open>start_rts\<close> of \<^verbatim>\<open>core/epoch.c\<close> promises, composed from the properties of the frame allocator,
  the page tables, the ram disk and the loader.
\<close>

section \<open>What the mapper does not touch\<close>

text \<open>The operations of paging change the memory and the bookkeeping of the frames, and nothing else.\<close>

definition same_rest :: "'a pmem_scheme \<Rightarrow> 'a pmem_scheme \<Rightarrow> bool" where
  "same_rest m m' \<longleftrightarrow> cr3 m' = cr3 m \<and> pmem.more m' = pmem.more m"

lemma same_rest_refl [simp]: "same_rest m m"
  by (simp add: same_rest_def)

lemma same_rest_trans: "same_rest m m' \<Longrightarrow> same_rest m' m'' \<Longrightarrow> same_rest m m''"
  by (simp add: same_rest_def)

lemma same_rest_upd [simp]:
  "same_rest m (m'\<lparr>mem := M\<rparr>) = same_rest m m'" "same_rest (m\<lparr>mem := M\<rparr>) m' = same_rest m m'"
  "same_rest m (m'\<lparr>last_bit := b\<rparr>) = same_rest m m'" "same_rest (m\<lparr>last_bit := b\<rparr>) m' = same_rest m m'"
  "same_rest m (m'\<lparr>bitmap_lock := l\<rparr>) = same_rest m m'" "same_rest (m\<lparr>bitmap_lock := l\<rparr>) m' = same_rest m m'"
  "same_rest m (m'\<lparr>irq_on := i\<rparr>) = same_rest m m'"
  by (simp_all add: same_rest_def)

lemma lock_bitmap_rest: "lock_bitmap m = Some m' \<Longrightarrow> same_rest m m'"
  by (auto simp: lock_bitmap_def spinlock_acquire_def mu_cpu_irqset_def Let_def split: bind_splits if_splits)

lemma pmem_alloc_rest: "pmem_alloc count m = Some (p, m') \<Longrightarrow> same_rest m m'"
  by (auto simp: pmem_alloc_def bitmap_set_range_def Let_def split: if_splits bind_splits)

lemma mm_pmem_alloc_rest:
  assumes "mm_pmem_alloc count m = Some (p, m')"
  shows "same_rest m m'"
proof -
  obtain m1 p1 m2 m3 where a: "lock_bitmap m = Some m1" "pmem_alloc count m1 = Some (p1, m2)"
    "(if p1 = 0 then pmem_alloc count (m2\<lparr>last_bit := 0\<rparr>) else Some (p1, m2)) = Some (p, m3)" "m' = unlock_bitmap m3"
    using assms by (auto simp: mm_pmem_alloc_def split: bind_splits prod.splits)
  have "same_rest m m1" "same_rest m1 m2" using lock_bitmap_rest a(1) pmem_alloc_rest a(2) by blast+
  moreover have "same_rest m2 m3" using a(3) pmem_alloc_rest [of count "m2\<lparr>last_bit := 0\<rparr>" p m3] by (auto split: if_splits)
  moreover have "same_rest m3 m'" using a(4) by (simp add: unlock_bitmap)
  ultimately show ?thesis using same_rest_trans by blast
qed

lemma vma_walk_rest: "vma_walk va lvl alloc l b m = Some (r, m') \<Longrightarrow> same_rest m m'"
proof (induction va lvl alloc l b m arbitrary: r m' rule: vma_walk.induct)
  case (1 va lvl alloc l b m)
  let ?e = "pte_at b (vma_level_index va l)"
  consider "\<not> l > lvl" | "l > lvl" "ISSET (load64 (mem m) ?e) PTE_P" | "l > lvl" "\<not> ISSET (load64 (mem m) ?e) PTE_P" "\<not> alloc"
    | "l > lvl" "\<not> ISSET (load64 (mem m) ?e) PTE_P" alloc by blast
  then show ?case
  proof cases
    case 2
    obtain base where base: "PHYS_TO_VIRT (load64 (mem m) ?e AND PTE_ADDR_MASK) m = Some base"
      "vma_walk va lvl alloc (lvl_pred l) base m = Some (r, m')"
      using 1(3) 2 by (subst (asm) vma_walk.simps) (auto simp: Let_def split: bind_splits)
    show ?thesis using 1(1) [OF 2(1) refl refl 2(2) base] .
  next
    case 4
    obtain p m1 where pm: "mm_pmem_alloc 1 m = Some (p, m1)"
      using 1(3) 4 by (subst (asm) vma_walk.simps) (auto simp: Let_def split: bind_splits)
    have r1: "same_rest m m1" using mm_pmem_alloc_rest [OF pm] .
    show ?thesis
    proof (cases "p = 0")
      case True
      then show ?thesis using 1(3) 4 pm r1 by (subst (asm) vma_walk.simps) (simp add: Let_def)
    next
      case False
      obtain base where "PHYS_TO_VIRT p m1 = Some base"
        "vma_walk va lvl alloc (lvl_pred l) base (m1\<lparr>mem := store64 (memset (mem m1) base 0 PAGESIZE) ?e (p OR (PTE_P OR PTE_RW OR PTE_US))\<rparr>) = Some (r, m')"
        using 1(3) 4 pm False by (subst (asm) vma_walk.simps) (auto simp: Let_def split: bind_splits)
      note w = this
      have "same_rest (m1\<lparr>mem := store64 (memset (mem m1) base 0 PAGESIZE) ?e (p OR (PTE_P OR PTE_RW OR PTE_US))\<rparr>) m'"
        using 1(2) [OF 4(1) refl refl 4(2) _ pm refl refl _ _ refl refl, of base r m'] 4(3) False w by simp
      then show ?thesis using r1 same_rest_trans by (simp add: same_rest_def)
    qed
  qed (use 1(3) in \<open>subst (asm) vma_walk.simps, simp add: Let_def\<close>)+
qed

lemma mu_pmap_map_rest: "mu_pmap_map v va pa prot ps m = Some (r, m') \<Longrightarrow> same_rest m m'"
  by (auto simp: mu_pmap_map_def vma_level_base_def Let_def dest!: vma_walk_rest split: if_splits bind_splits option.splits)

section \<open>Reading the archive\<close>

text \<open>
  The archive of the ram disk and the path of the first program are in the frames \<open>A\<close>; the
  comparison with a name reads up to 255 bytes of the path.
\<close>

definition rts_archive :: "addr \<Rightarrow> nat set \<Rightarrow> build \<Rightarrow> (u8 list \<times> u8 list) list \<Rightarrow> 'a initrd_state_scheme \<Rightarrow> bool" where
  "rts_archive off A b es m \<longleftrightarrow> archive (mem m) (lit b ''LORD'') (initrd m) es \<and>
     in_frames off A (lit b ''LORD'') 4 \<and> in_frames off A (module_address (initrd m)) (unat (module_length (initrd m))) \<and>
     lit b ''/sbin/rts'' \<noteq> NULL \<and> in_frames off A (lit b ''/sbin/rts'') 257"

lemma bytes_at_kept:
  "in_frames off A a n \<Longrightarrow> kept off A M M' \<Longrightarrow> length xs \<le> n \<Longrightarrow> bytes_at M' a xs = bytes_at M a xs"
  unfolding bytes_at_nth in_frames_def kept_def by (metis less_le_trans)

lemma lookup_kept:
  assumes "rts_archive off A b es m" "kept off A (mem m) (mem m')" "initrd m' = initrd m"
  shows "initrd_lookup (lit b) (lit b ''/sbin/rts'') m' = initrd_lookup (lit b) (lit b ''/sbin/rts'') m"
proof -
  let ?p = "lit b ''/sbin/rts''"
  have a: "archive (mem m) (lit b ''LORD'') (initrd m) es" "?p \<noteq> NULL" and
    f: "in_frames off A (lit b ''LORD'') 4" "in_frames off A (module_address (initrd m)) (unat (module_length (initrd m)))"
      "in_frames off A ?p 257"
    using assms(1) by (simp_all add: rts_archive_def)
  have len: "length (concat (map mr_entry es)) \<le> unat (module_length (initrd m))" using a(1) by (simp add: archive_def)
  have "archive (mem m') (lit b ''LORD'') (initrd m') es"
    using a(1) bytes_at_kept [OF f(1) assms(2), of LORD] bytes_at_kept [OF f(2) assms(2) len] assms(3)
    by (simp add: archive_def)
  note l' = initrd_lookup_entries [where lit = "lit b" and m = m', OF this a(2) refl]
  note l = initrd_lookup_entries [where lit = "lit b" and m = m, OF a refl]
  have "kframe off ?p \<in> A" using f(3) by (auto simp: in_frames_def dest: spec [of _ 0])
  then have p: "mem m' ?p = mem m ?p" using assms(2) by (simp add: kept_def)
  let ?q = "if mem m ?p = 47 then ?p + 1 else ?p"
  have q: "in_frames off A ?q 256" using in_frames_part [OF f(3), of 0 256] in_frames_part [OF f(3), of 1 256] by simp
  have "bytes_at (mem m') ?q (fst e) = bytes_at (mem m) ?q (fst e)" if "e \<in> set es" for e
    using bytes_at_kept [OF q assms(2), of "fst e"] a(1) that by (auto simp: archive_def less_imp_le)
  then show ?thesis unfolding l l' p assms(3) by (intro arg_cong [where f = Some] entry_addr_cong)
qed

section \<open>The first program\<close>

text \<open>The call of the loader at the end of \<^verbatim>\<open>start_rts\<close>, with the stack at the frame \<open>s\<close>.\<close>

definition load_and_enter :: "build \<Rightarrow> u64 \<Rightarrow> addr \<Rightarrow> nat \<Rightarrow> 'a cpu_scheme \<Rightarrow> (kend \<times> 'a cpu_scheme) option" where
  "load_and_enter b root img s m = do {
     (error, entry, m) \<leftarrow> elf_load_raw (lit b (CHR 0x7F # ''ELF'')) (Some \<lparr>vas_cr3 = root\<rparr>) img True m;
     (if error \<noteq> 0 then None
      else Some (User (case entry of None \<Rightarrow> elf_entry0 b | Some e \<Rightarrow> e) (page s + (PAGESIZE - 1)), m)) }"

abbreviation stack_entry :: "nat \<Rightarrow> u64" where
  "stack_entry s \<equiv> page s OR prot_to_pte (ucast (PROT_WRITE OR PROT_USER))"

lemma start_rts_stack:
  fixes m :: "'a cpu_scheme"
  assumes inv: "pmap_inv off (frame_of (cr3 m)) T m" and A: "sparing off T m A" and f: "first_free m s e" and sp: "s + 4 < e"
    and arch: "rts_archive off A b es m" and img: "initrd_lookup (lit b) (lit b ''/sbin/rts'') m = Some img" "img \<noteq> NULL"
  shows "\<exists>m' T' s'. start_rts b m = load_and_enter b (cr3 m) img s m' \<and> pmap_inv off (frame_of (cr3 m)) T' m' \<and>
    sparing off T' m' A \<and> kept off A (mem m) (mem m') \<and> first_free m' s' e \<and> s < s' \<and> s' \<le> s + 4 \<and>
    (\<forall>va. translate (mem m') off (cr3 m) va =
       (if same_page (page s) va then Some (stack_entry s) else translate (mem m) off (cr3 m) va))"
proof -
  let ?v = "\<lparr>vas_cr3 = cr3 m\<rparr>" and ?root = "frame_of (cr3 m)"
  obtain m1 where m1: "mm_pmem_alloc 1 m = Some (page s, m1)" "pmap_inv off ?root T m1" "max_frame m1 = max_frame m"
    "sparing off T m1 (A \<union> {s..<s + unat (1 :: u64)})" "kept off A (mem m) (mem m1)"
    "\<forall>va. translate_from (mem m1) off va 3 ?root = translate_from (mem m) off va 3 ?root" "first_free m1 (s + unat (1 :: u64)) e"
    using alloc_run_effect [OF inv A f, of 1] sp by auto
  have r1: "same_rest m m1" by (rule mm_pmem_alloc_rest [OF m1(1)])
  have A1: "sparing off T m1 A" using m1(4) unfolding sparing_def by blast
  have inv1: "pmap_inv off (frame_of (vas_cr3 ?v)) T m1" using m1(2) by simp
  obtain r m2 T2 where m2: "mu_pmap_map (Some ?v) (page s) (page s) (ucast (PROT_WRITE OR PROT_USER)) PAGESIZE_4K m1 = Some (r, m2)"
    "pmap_inv off (frame_of (vas_cr3 ?v)) T2 m2" "max_frame m2 = max_frame m1"
    "\<forall>A. sparing off T m1 A \<longrightarrow> sparing off T2 m2 A \<and> kept off A (mem m1) (mem m2)"
    "\<forall>s e. first_free m1 s e \<longrightarrow> s + 3 \<le> e \<longrightarrow> (\<exists>s' \<ge> s. s' \<le> s + 3 \<and> first_free m2 s' e)"
    "(r = 0 \<and> (\<forall>va'. translate (mem m2) off (vas_cr3 ?v) va' = (if same_page (page s) va'
         then Some (page s OR prot_to_pte (ucast (ucast (PROT_WRITE OR PROT_USER) :: u32))) else translate (mem m1) off (vas_cr3 ?v) va')))
      \<or> (r = - 1 \<and> out_of_frames m2 \<and> translate (mem m2) off (vas_cr3 ?v) = translate (mem m1) off (vas_cr3 ?v))"
    using mu_pmap_map_effect [OF inv1, of "page s" "page s" "ucast (PROT_WRITE OR PROT_USER)"] by blast
  have r2: "same_rest m m2" using r1 mu_pmap_map_rest [OF m2(1)] same_rest_trans by blast
  have "first_free m1 (s + 1) e" "s + 1 + 3 \<le> e" using m1(7) sp by simp_all
  then obtain s' where "s + 1 \<le> s'" "s' \<le> s + 1 + 3" "first_free m2 s' e" using m2(5) by blast
  then have s': "first_free m2 s' e" "s < s'" "s' \<le> s + 4" by simp_all
  have "s' < e" using s'(3) sp by simp
  then have "\<not> out_of_frames m2" by (rule first_free_room [OF s'(1)])
  then have r0: "r = 0" and tr: "\<forall>va'. translate (mem m2) off (cr3 m) va' = (if same_page (page s) va'
         then Some (page s OR prot_to_pte (ucast (ucast (PROT_WRITE OR PROT_USER) :: u32))) else translate (mem m1) off (cr3 m) va')"
    using m2(6) by auto
  have k: "kept off A (mem m) (mem m2)" using m1(5) m2(4) A1 kept_trans by blast
  have rest: "initrd m2 = initrd m" using r2 by (cases m; cases m2) (simp add: same_rest_def)
  have lk: "initrd_lookup (lit b) (lit b ''/sbin/rts'') m2 = Some img" using lookup_kept [OF arch k rest] img(1) by simp
  have pz: "page s \<noteq> 0"
  proof -
    have "0 < s" using first_free_pos [OF inv f] sp by simp
    moreover have "s < max_frame m" using f sp unfolding first_free_def by simp
    ultimately show ?thesis using unat_page [of s] pmap_invD(5) [OF inv] by auto
  qed
  have run: "start_rts b m = load_and_enter b (cr3 m) img s m2"
    using m1(1) m2(1) r0 lk img(2) pz
    by (simp add: start_rts_def load_and_enter_def mu_pmap_readvas_def Let_def cong: if_cong)
  have "translate (mem m1) off (cr3 m) va = translate (mem m) off (cr3 m) va" for va
    using m1(6) by (simp add: translate_def)
  moreover have "ucast (ucast (PROT_WRITE OR PROT_USER) :: u32) = (ucast (PROT_WRITE OR PROT_USER) :: u16)"
    by (simp add: PROT_WRITE_def PROT_USER_def BIT_def)
  ultimately show ?thesis using run m2(2,4) A1 k s' tr
    by (intro exI [of _ m2] exI [of _ T2] exI [of _ s']) simp
qed


text \<open>
  C13: With the ram disk in frames \<open>A\<close> that are in use and hold neither tables nor the bitmap, and \<^verbatim>\<open>/sbin/rts\<close> a
  valid image with its segments on different pages, when the first run of free frames, from \<open>s\<close> to \<open>e\<close>, has
  more than four frames for the stack and four for each page of a segment (the stack, the segments
  and their tables are taken from it; C20 shows what the allocator does otherwise), and no segment lies
  on the page whose virtual address is the physical address of the stack frame \<open>s\<close>,
  \<^verbatim>\<open>start_rts\<close> enters user mode at the entry point of the image, with the stack pointer at the last
  byte of the frame \<open>s\<close>, which was free and is mapped, writable and open to user mode, at its own
  physical address. Every byte of every loadable segment is in a frame that was free before, mapped with the
  protection of the segment's flags, the page tables are sound, and the bytes in the frames \<open>A\<close> are unchanged.
\<close>

theorem start_rts_enters:
  fixes m :: "'a cpu_scheme"
  assumes "pmap_inv off (frame_of (cr3 m)) T m" "sparing off T m A" "first_free m s e"
    and "s + 4 + 4 * frames_from (mem m) img 0 < e" "rts_archive off A b es m"
    and "initrd_lookup (lit b) (lit b ''/sbin/rts'') m = Some img" "elf_image off A (mem m) img"
    and "elf_verify (lit b (CHR 0x7F # ''ELF'')) img (mem m)" "in_frames off A (lit b (CHR 0x7F # ''ELF'')) 4"
    and "\<forall>j < phdr_count (mem m) img. loadable (phdr (mem m) img j) \<longrightarrow>
       (\<forall>a < seg_frames (phdr (mem m) img j). \<not> same_page (seg_page (phdr (mem m) img j) a) (page s))"
  shows "\<exists>m'. start_rts b m = Some (User (e_entry (ehdr_at (mem m) img)) (page s + (PAGESIZE - 1)), m') \<and>
    pmap_ok off \<lparr>vas_cr3 = cr3 m\<rparr> m' \<and> kept off A (mem m) (mem m') \<and>
    translate (mem m') off (cr3 m) (page s) = Some (stack_entry s) \<and>
    (\<forall>j < phdr_count (mem m) img. let p = phdr (mem m) img j in loadable p \<longrightarrow>
       (\<forall>i < unat (p_memsz p). byte_mapped (new_frames m m') off (cr3 m) (mem m') (segment_prot p)
          (ALIGN_DOWN (p_vaddr p) 4096 + of_nat i) (mem m (img + p_offset p + of_nat i))))"
proof -
  let ?v = "\<lparr>vas_cr3 = cr3 m\<rparr>" and ?magic = "lit b (CHR 0x7F # ''ELF'')"
  have nz: "img \<noteq> NULL" and s4: "s + 4 < e" using elf_imageD(1) [OF assms(7)] assms(4) by simp_all
  obtain m2 T2 s2 where m2: "start_rts b m = load_and_enter b (cr3 m) img s m2" "pmap_inv off (frame_of (cr3 m)) T2 m2"
    "sparing off T2 m2 A" "kept off A (mem m) (mem m2)" "first_free m2 s2 e" "s < s2" "s2 \<le> s + 4"
    "\<forall>va. translate (mem m2) off (cr3 m) va =
       (if same_page (page s) va then Some (stack_entry s) else translate (mem m) off (cr3 m) va)"
    using start_rts_stack [OF assms(1-3) s4 assms(5,6) nz] by blast
  note k = image_kept_same [OF assms(7) m2(4)]
  have c: "phdr_count (mem m2) img = phdr_count (mem m) img" by (rule image_kept(1) [OF assms(7) m2(4)])
  have pre: "pmap_inv off (frame_of (vas_cr3 ?v)) T2 m2" "elf_verify ?magic img (mem m2)"
    "s2 + 4 * frames_from (mem m2) img 0 < e"
    using m2(2,7) assms(4,8) k(4) k(5) [OF assms(9)] by simp_all
  obtain m3 where m3: "elf_load_raw ?magic (Some ?v) img True m2 = Some (0, Some (e_entry (ehdr_at (mem m2) img)), m3)"
    "pmap_ok off ?v m3" "kept off A (mem m2) (mem m3)"
    "\<forall>va. (\<forall>j < phdr_count (mem m2) img. loadable (phdr (mem m2) img j) \<longrightarrow>
         (\<forall>a < seg_frames (phdr (mem m2) img j). \<not> same_page (seg_page (phdr (mem m2) img j) a) va)) \<longrightarrow>
       translate (mem m3) off (vas_cr3 ?v) va = translate (mem m2) off (vas_cr3 ?v) va"
    "\<forall>j < phdr_count (mem m2) img. let p = phdr (mem m2) img j in loadable p \<longrightarrow>
       (\<forall>i < unat (p_memsz p). byte_mapped {k \<in> {s2..<e}. frame_used m3 k} off (vas_cr3 ?v) (mem m3) (segment_prot p)
          (ALIGN_DOWN (p_vaddr p) 4096 + of_nat i) (mem m2 (img + p_offset p + of_nat i)))"
    using elf_load_raw_effect [OF pre(1) m2(3,5) k(3) pre(2,3)] by blast
  have "start_rts b m = Some (User (e_entry (ehdr_at (mem m) img)) (page s + (PAGESIZE - 1)), m3)"
    using m2(1) m3(1) k(1) by (simp add: load_and_enter_def)
  moreover have "translate (mem m3) off (cr3 m) (page s) = Some (stack_entry s)"
    using m3(4) m2(8) assms(10) c k(2) by simp
  moreover have "byte_mapped (new_frames m m3) off (cr3 m) (mem m3) (segment_prot p)
      (ALIGN_DOWN (p_vaddr p) 4096 + of_nat i) (mem m (img + p_offset p + of_nat i))"
    if j: "j < phdr_count (mem m) img" "p = phdr (mem m) img j" "loadable p" "i < unat (p_memsz p)" for j p i
  proof (rule byte_mapped_mono)
    show "{k \<in> {s2..<e}. frame_used m3 k} \<subseteq> new_frames m m3" using new_frames_run [OF assms(3), of m3] m2(6) by auto
    have "mem m2 (img + p_offset p + of_nat i) = mem m (img + p_offset p + of_nat i)"
      using elf_imageD(4) [OF assms(7) j(1)] j(2-4) m2(4) unfolding segment_in_def in_frames_def kept_def by blast
    then show "byte_mapped {k \<in> {s2..<e}. frame_used m3 k} off (cr3 m) (mem m3) (segment_prot p)
        (ALIGN_DOWN (p_vaddr p) 4096 + of_nat i) (mem m (img + p_offset p + of_nat i))"
      using m3(5) [unfolded Let_def, rule_format, of j i] j c k(2) by simp
  qed
  ultimately show ?thesis using m3(2,3) kept_trans [OF m2(4)] unfolding Let_def by blast
qed

text \<open>
  C14: An invalid image is not noticed: \<^verbatim>\<open>elf_load_raw\<close> returns zero without writing the entry point,
  and \<^verbatim>\<open>start_rts\<close> enters user mode at whatever its local variable held, with the stack mapped and
  nothing loaded. The frames for the stack and its tables are there: the first run of free frames has
  more than four.
\<close>

theorem start_rts_invalid_image:
  fixes m :: "'a cpu_scheme"
  assumes "pmap_inv off (frame_of (cr3 m)) T m" "sparing off T m A" "first_free m s e" "s + 4 < e"
    and "rts_archive off A b es m" "initrd_lookup (lit b) (lit b ''/sbin/rts'') m = Some img" "img \<noteq> NULL"
    and "in_frames off A img 64" "in_frames off A (lit b (CHR 0x7F # ''ELF'')) 4"
    and "\<not> elf_verify (lit b (CHR 0x7F # ''ELF'')) img (mem m)"
  shows "\<exists>m'. start_rts b m = Some (User (elf_entry0 b) (page s + (PAGESIZE - 1)), m') \<and>
    (\<forall>va. translate (mem m') off (cr3 m) va =
       (if same_page (page s) va then Some (stack_entry s) else translate (mem m) off (cr3 m) va))"
proof -
  obtain m2 where m2: "start_rts b m = load_and_enter b (cr3 m) img s m2" "kept off A (mem m) (mem m2)"
    "\<forall>va. translate (mem m2) off (cr3 m) va =
       (if same_page (page s) va then Some (stack_entry s) else translate (mem m) off (cr3 m) va)"
    using start_rts_stack [OF assms(1-7)] by blast
  have "\<not> elf_verify (lit b (CHR 0x7F # ''ELF'')) img (mem m2)"
    using elf_verify_kept [OF m2(2) assms(8,9)] assms(10) by simp
  then have "start_rts b m = Some (User (elf_entry0 b) (page s + (PAGESIZE - 1)), m2)"
    using m2(1) assms(7) by (simp add: load_and_enter_def elf_load_raw_def)
  then show ?thesis using m2(3) by blast
qed


section \<open>Examples\<close>

text \<open>
  The small machine with an archive of one file, \<^verbatim>\<open>sbin/rts\<close>, with 260 bytes of contents, at the
  start of frame 4, and the literals in frame 5 and, for the magic bytes of an image, in the file.
\<close>

definition rts_name :: "u8 list" where "rts_name = map of_char ''sbin/rts''"

definition rts_file :: "u8 list \<Rightarrow> u8 list" where "rts_file c = mr_entry (rts_name, c)"

definition rts_bytes :: "u8 list \<Rightarrow> nat \<Rightarrow> u8" where
  "rts_bytes c i =
     (if i < 289 then rts_file c ! i
      else if 4096 \<le> i \<and> i < 4105 then (47 # rts_name) ! (i - 4096)
      else if 6144 \<le> i \<and> i < 6148 then LORD ! (i - 6144) else 0)"

definition rts_machine :: "u8 list \<Rightarrow> cpu" where
  "rts_machine c = cpu0\<lparr>mem := (\<lambda>a. if a = 0xFFFF800000003000 then 0x3F else rts_bytes c (unat (a - 0xFFFF800000004000))),
     cr3 := 0x1000, usable_top := 0x10000, bitmap := 0xFFFF800000003000,
     hooks := \<lparr>hook_get_vars = Some limine_get_vars, hook_get_mementry = None, hook_get_module = None\<rparr>,
     resp := \<lparr>r_memmap = None, r_hhdm_offset = Some 0xFFFF800000000000, r_rsdp_address = Some 0, r_module = None\<rparr>,
     initrd := \<lparr>module_address = 0xFFFF800000004000, module_length = 289\<rparr>\<rparr>"

definition rts_build :: build where
  "rts_build = \<lparr>lit = (\<lambda>s. if s = ''/sbin/rts'' then 0xFFFF800000005000 else if s = ''LORD'' then 0xFFFF800000005800
     else 0xFFFF80000000411D), pathbuf = 0, tsc_hooks = 0, bsp = 0, stk = (\<lambda>_. []), elf_entry0 = 0xDEAD0000\<rparr>"

lemmas rts_machine_simps = rts_machine_def cpu0_def acpi0_simps acpi_state.defs cpu.defs

lemma rts_mem: "i < 8192 \<Longrightarrow> mem (rts_machine c) (0xFFFF800000004000 + of_nat i) = rts_bytes c i"
  using offset_byte [of i] by (simp add: rts_machine_simps)

lemma rts_small: "small_machine (rts_machine c)"
proof -
  have z: "rts_bytes c i = 0" if "8192 \<le> i" for i using that by (simp add: rts_bytes_def)
  have "mem (rts_machine c) a = 0" if "kframe 0xFFFF800000000000 a = 1" for a
    using beyond_frame_1 [OF that] z by (simp add: rts_machine_simps)
  moreover have "mem (rts_machine c) 0xFFFF800000003000 = 0x3F" "mem (rts_machine c) 0xFFFF800000003001 = 0"
    by (simp_all add: rts_machine_simps z)
  ultimately show ?thesis by (simp add: small_machine_def) (simp add: rts_machine_simps)
qed

lemma rts_bytes_at:
  assumes "\<And>j. j < length xs \<Longrightarrow> rts_bytes c (i + j) = xs ! j" "i + length xs \<le> 8192"
  shows "bytes_at (mem (rts_machine c)) (0xFFFF800000004000 + of_nat i) xs"
  unfolding bytes_at_nth
proof (intro allI impI)
  fix j assume j: "j < length xs"
  have "mem (rts_machine c) (0xFFFF800000004000 + of_nat (i + j)) = xs ! j"
    using assms j by (subst rts_mem) auto
  then show "mem (rts_machine c) (0xFFFF800000004000 + of_nat i + of_nat j) = xs ! j"
    by (simp only: of_nat_add add.assoc)
qed

lemma rts_archive_ok:
  assumes c: "length c = 260"
  shows "rts_archive 0xFFFF800000000000 {4, 5} rts_build [(rts_name, c)] (rts_machine c)"
    "initrd_lookup (lit rts_build) (lit rts_build ''/sbin/rts'') (rts_machine c) = Some 0xFFFF80000000401D"
    "bytes_at (mem (rts_machine c)) 0xFFFF80000000401D c"
proof -
  let ?M = "mem (rts_machine c)"
  have n: "length rts_name = 8" by (simp add: rts_name_def)
  have len: "length (rts_file c) = 289" using c n by (simp add: rts_file_def length_mr_entry)
  have b: "bytes_at ?M 0xFFFF800000004000 (rts_file c)"
    using rts_bytes_at [of "rts_file c" c 0] len by (simp add: rts_bytes_def)
  have l: "bytes_at ?M 0xFFFF800000005800 LORD"
    using rts_bytes_at [of LORD c 6144] by (simp add: rts_bytes_def)
  have p: "bytes_at ?M 0xFFFF800000005000 (47 # rts_name)"
    using rts_bytes_at [of "47 # rts_name" c 4096] n by (simp add: rts_bytes_def)
  have init: "initrd (rts_machine c) = \<lparr>module_address = 0xFFFF800000004000, module_length = 289\<rparr>"
    by (simp add: rts_machine_simps)
  have lits: "lit rts_build ''LORD'' = 0xFFFF800000005800" "lit rts_build ''/sbin/rts'' = 0xFFFF800000005000"
    by (simp_all add: rts_build_def)
  have ar: "archive ?M (lit rts_build ''LORD'') (initrd (rts_machine c)) [(rts_name, c)]"
    using b l len n by (simp add: archive_def init lits rts_file_def)
  then show "rts_archive 0xFFFF800000000000 {4, 5} rts_build [(rts_name, c)] (rts_machine c)"
    using in_frames_45 [of 0 289] in_frames_45 [of 4096 257] in_frames_45 [of 6144 4]
    by (simp add: rts_archive_def init lits)
  have "?M 0xFFFF800000005000 = 47" "bytes_at ?M 0xFFFF800000005001 rts_name" using p by simp_all
  then show "initrd_lookup (lit rts_build) (lit rts_build ''/sbin/rts'') (rts_machine c) = Some 0xFFFF80000000401D"
    using initrd_lookup_entries [where lit = "lit rts_build" and m = "rts_machine c", OF ar, of "0xFFFF800000005000"] n
    by (simp add: lits init)
  show "bytes_at ?M 0xFFFF80000000401D c"
    using entry_fields(6) [of ?M "0xFFFF800000004000" rts_name c] b n by (simp add: rts_file_def)
qed


lemma start_rts_enters_witness:
  "\<exists>m'. start_rts rts_build (rts_machine (map elf_bytes [0..<260])) = Some (User 0x400000 (page 6 + (PAGESIZE - 1)), m') \<and>
    byte_mapped (new_frames (rts_machine (map elf_bytes [0..<260])) m') 0xFFFF800000000000 0x1000 (mem m') 6 0x400000 0xF3 \<and>
    translate (mem m') 0xFFFF800000000000 0x1000 (page 6) = Some (stack_entry 6)"
proof -
  let ?c = "map elf_bytes [0..<260]" and ?img = "0xFFFF80000000401D :: u64" and ?off = "0xFFFF800000000000 :: u64"
  let ?m = "rts_machine ?c" and ?M = "mem (rts_machine (map elf_bytes [0..<260]))" and ?T = "\<lambda>l :: nat. if l = 3 then {1 :: nat} else {}"
  have c: "length ?c = 260" by simp
  note ar = rts_archive_ok [OF c] and sm = small_machine_inv [OF rts_small, of ?c]
  have eb: "elf_bytes_at ?M ?img" using ar(3) unfolding bytes_at_nth elf_bytes_at_def by simp
  have fr: "in_frames ?off {4, 5} ?img 132" using in_frames_45 [of 29 132] by simp
  have nz: "?img \<noteq> NULL" "?img + 128 \<noteq> NULL" by simp_all
  note im = elf_bytes_image [OF eb fr nz]
  have magic: "lit rts_build (CHR 0x7F # ''ELF'') = ?img + 256" by (simp add: rts_build_def)
  have cr3: "cr3 ?m = 0x1000" by (simp add: rts_machine_simps)
  have inv: "pmap_inv ?off (frame_of (cr3 ?m)) ?T ?m" using sm(1) cr3 by simp
  have room: "6 + 4 + 4 * frames_from ?M ?img 0 < 16"
    using im(7) by simp
  have v: "elf_verify (lit rts_build (CHR 0x7F # ''ELF'')) ?img ?M" using im(8) magic by simp
  have mf: "in_frames ?off {4, 5} (lit rts_build (CHR 0x7F # ''ELF'')) 4" using in_frames_45 [of 285 4] magic by simp
  have "\<not> same_page (seg_page (phdr ?M ?img 0) 0) (page 6)"
    using same_page_number [of "0x400000" "page 6"] by (auto simp: im(2) seg_page_def page_def ALIGN_DOWN_def)
  then have ap: "\<forall>j < phdr_count ?M ?img. loadable (phdr ?M ?img j) \<longrightarrow>
       (\<forall>a < seg_frames (phdr ?M ?img j). \<not> same_page (seg_page (phdr ?M ?img j) a) (page 6))"
    using im(1,4) by simp
  obtain m' where m': "start_rts rts_build ?m = Some (User (e_entry (ehdr_at ?M ?img)) (page 6 + (PAGESIZE - 1)), m')"
    "translate (mem m') ?off (cr3 ?m) (page 6) = Some (stack_entry 6)"
    "\<forall>j < phdr_count ?M ?img. let p = phdr ?M ?img j in loadable p \<longrightarrow>
       (\<forall>i < unat (p_memsz p). byte_mapped (new_frames ?m m') ?off (cr3 ?m) (mem m') (segment_prot p)
          (ALIGN_DOWN (p_vaddr p) 4096 + of_nat i) (?M (?img + p_offset p + of_nat i)))"
    using start_rts_enters [OF inv sm(2,3) room ar(1,2) im(6) v mf ap] by blast
  have "byte_mapped (new_frames ?m m') ?off 0x1000 (mem m') 6 (ALIGN_DOWN 0x400000 4096 + of_nat 0) (?M (?img + 128 + of_nat 0))"
    using m'(3) [unfolded Let_def, rule_format, of 0 0] im(1,3,5) cr3 by (simp add: im(2))
  moreover have "?M (?img + 128 + of_nat 0) = 0xF3"
    using eb unfolding elf_bytes_at_def by (auto simp: elf_bytes_def dest: spec [of _ 128])
  ultimately show ?thesis using m'(1,2) cr3 by (simp add: elf_bytes_header [OF eb] ALIGN_DOWN_def)
qed

lemma start_rts_invalid_image_witness:
  "\<exists>m'. start_rts rts_build (rts_machine (replicate 260 0)) = Some (User 0xDEAD0000 (page 6 + (PAGESIZE - 1)), m') \<and>
    translate (mem m') 0xFFFF800000000000 0x1000 (page 6) = Some (stack_entry 6)"
proof -
  let ?c = "replicate 260 (0 :: u8)" and ?img = "0xFFFF80000000401D :: u64" and ?off = "0xFFFF800000000000 :: u64"
  let ?m = "rts_machine ?c" and ?T = "\<lambda>l :: nat. if l = 3 then {1 :: nat} else {}"
  have c: "length ?c = 260" by simp
  note ar = rts_archive_ok [OF c] and sm = small_machine_inv [OF rts_small, of ?c]
  have cr3: "cr3 ?m = 0x1000" by (simp add: rts_machine_simps)
  have inv: "pmap_inv ?off (frame_of (cr3 ?m)) ?T ?m" using sm(1) cr3 by simp
  have room: "6 + 4 < (16 :: nat)" by simp
  have magic: "lit rts_build (CHR 0x7F # ''ELF'') = ?img + 256" by (simp add: rts_build_def)
  have fr: "in_frames ?off {4, 5} ?img 64" "in_frames ?off {4, 5} (lit rts_build (CHR 0x7F # ''ELF'')) 4"
    using in_frames_45 [of 29 64] in_frames_45 [of 285 4] magic by simp_all
  have z: "mem ?m (?img + of_nat i) = 0" if "i < 260" for i
    using ar(3) that unfolding bytes_at_nth by simp
  have "e_type (ehdr_at (mem ?m) ?img) = 0"
  proof -
    have "load_n 2 (mem ?m) (?img + 16) = take_bit (8 * 2) 0"
      by (rule load_n_bytes) (use z [of 16] z [of 17] in \<open>auto simp: less_2_cases_iff\<close>)
    then show ?thesis by (simp add: ehdr_at_def load16_def)
  qed
  then have v: "\<not> elf_verify (lit rts_build (CHR 0x7F # ''ELF'')) ?img (mem ?m)"
    by (simp add: elf_verify_def ET_EXEC_def)
  obtain m' where "start_rts rts_build ?m = Some (User (elf_entry0 rts_build) (page 6 + (PAGESIZE - 1)), m')"
    "\<forall>va. translate (mem m') ?off (cr3 ?m) va =
       (if same_page (page 6) va then Some (stack_entry 6) else translate (mem ?m) ?off (cr3 ?m) va)"
    using start_rts_invalid_image [OF inv sm(2,3) room ar(1,2) _ fr v] by auto
  then show ?thesis using cr3 by (simp add: rts_build_def)
qed


end
