(* ===== verification/Hive_Memar.thy ===== *)
theory Hive_Memar
  imports Hive_Initrd
begin

text \<open>
  The host tool \<^verbatim>\<open>gen/memar/memar.c\<close> that builds the archive the kernel's \<^verbatim>\<open>initrd.c\<close> reads.
  The operating system of the host is a parameter: what a path opens as. Paths, names and
  contents are byte lists without a terminator. What the tool prints is not modelled.
\<close>

section \<open>The host\<close>

text \<open>
  An entry of a directory: its name and type. Opening a path gives a regular file with its
  contents and whether it can be mapped, a directory with its entries, or fails.
\<close>

datatype d_type = DT_DIR | DT_REG | DT_OTHER

record dirent =
  d_name :: "u8 list"
  d_kind :: d_type

datatype opened = Regular "u8 list" bool | Directory "dirent list"

type_synonym host = "u8 list \<Rightarrow> opened option"

text \<open>
  The output file: its bytes and the offset of the descriptor. Writing overwrites what is
  there, as the file is opened without truncating it.
\<close>

record out_file =
  contents :: "u8 list"
  offset :: nat

definition write_out :: "u8 list \<Rightarrow> out_file \<Rightarrow> out_file" where
  "write_out bs f = (
     let old = contents f @ replicate (offset f - length (contents f)) 0
     in f\<lparr>contents := take (offset f) old @ bs @ drop (offset f + length bs) old, offset := offset f + length bs\<rparr>)"

section \<open>memar.c\<close>

definition MAR_FILE_NAME_MAX :: nat where "MAR_FILE_NAME_MAX = 99"
definition FILE_ALIGN :: u64 where "FILE_ALIGN = 8"
definition MEMAR_MAGIC :: "u8 list" where "MEMAR_MAGIC = map of_char ''LORD''"

text \<open>The packed header of the tool has no length of the name.\<close>

record mar_hdr =
  m_magic :: "u8 list"
  m_hdr_size :: u64
  m_file_size :: u64
  m_name :: "u8 list"

definition sizeof_mar_hdr :: nat where "sizeof_mar_hdr = 4 + 8 + 8 + MAR_FILE_NAME_MAX"

definition hdr_bytes :: "mar_hdr \<Rightarrow> u8 list" where
  "hdr_bytes h = m_magic h @ le_bytes (m_hdr_size h) @ le_bytes (m_file_size h) @ m_name h"

text \<open>
  The name behind the first slash. A path without a slash makes the tool read behind its
  terminator. The header it fills is the old contents of a local variable.
\<close>

definition file_hdr_init :: "u8 list \<Rightarrow> u64 \<Rightarrow> mar_hdr \<Rightarrow> (u64 \<times> mar_hdr) option" where
  "file_hdr_init name file_sz hdr =
     (case dropWhile (\<lambda>c. c \<noteq> 47) name of
        [] \<Rightarrow> None
      | s # name \<Rightarrow>
          let name_len = (if length name \<ge> MAR_FILE_NAME_MAX - 1 then MAR_FILE_NAME_MAX - 1 else length name);
              hdr = hdr\<lparr>m_name := take name_len name @ drop name_len (m_name hdr), m_magic := MEMAR_MAGIC,
                m_hdr_size := of_nat name_len, m_file_size := file_sz\<rparr>;
              hdr = hdr\<lparr>m_hdr_size := m_hdr_size hdr + of_nat (sizeof_mar_hdr - MAR_FILE_NAME_MAX)\<rparr>
          in Some (m_hdr_size hdr, hdr))"

text \<open>
  A failing \<^verbatim>\<open>mmap\<close> does not return a null pointer, so its test never fires; the write of the
  contents then fails and writes nothing. A regular entry that is a directory when it is opened
  is outside the model.
\<close>

definition write_file :: "host \<Rightarrow> mar_hdr \<Rightarrow> u8 list \<Rightarrow> out_file \<Rightarrow> out_file option" where
  "write_file fs hdr0 path f =
     (case fs path of
        None \<Rightarrow> Some f
      | Some (Directory ds) \<Rightarrow> None
      | Some (Regular bs ok) \<Rightarrow> do {
          let real_size = (of_nat (length bs) :: u64);
          (hdr_size, hdr) \<leftarrow> file_hdr_init path real_size hdr0;
          let align_size = ALIGN_UP real_size FILE_ALIGN;
          let pad_len = (ucast (align_size - real_size) :: u8);
          let f = write_out (take (unat hdr_size) (hdr_bytes hdr)) f;
          let f = (if ok then write_out bs f else f);
          Some (if pad_len > 0 then write_out (replicate (unat pad_len) 0) f else f) })"

text \<open>The path of an entry, cut to the buffer of 4096 bytes.\<close>

definition join_path :: "u8 list \<Rightarrow> u8 list \<Rightarrow> u8 list" where
  "join_path path name = take 4095 (path @ 47 # name)"

text \<open>The loop over the entries of a directory; a subdirectory that cannot be opened ends it.\<close>

partial_function (option) concat_foreach ::
    "host \<Rightarrow> mar_hdr \<Rightarrow> dirent list \<Rightarrow> u8 list \<Rightarrow> out_file \<Rightarrow> out_file option" where
  "concat_foreach fs hdr0 ds path f =
     (case ds of
        [] \<Rightarrow> Some f
      | d # ds \<Rightarrow>
          if d_name d \<noteq> [] \<and> hd (d_name d) = 46 then concat_foreach fs hdr0 ds path f
          else
            let pathbuf = join_path path (d_name d) in
            (if d_kind d = DT_DIR then
               (case fs pathbuf of
                  None \<Rightarrow> Some f
                | Some (Regular bs ok) \<Rightarrow> concat_foreach fs hdr0 ds path f
                | Some (Directory sub) \<Rightarrow> do {
                    f \<leftarrow> concat_foreach fs hdr0 sub pathbuf f;
                    concat_foreach fs hdr0 ds path f })
             else if d_kind d = DT_REG then do {
               f \<leftarrow> write_file fs hdr0 pathbuf f;
               concat_foreach fs hdr0 ds path f }
             else concat_foreach fs hdr0 ds path f))"

text \<open>The old contents of the output file, empty when it did not exist, are an argument.\<close>

definition dir_concat :: "host \<Rightarrow> mar_hdr \<Rightarrow> u8 list \<Rightarrow> u8 list \<Rightarrow> (u8 list) option" where
  "dir_concat fs hdr0 input_dir old =
     (case fs input_dir of
        Some (Directory ds) \<Rightarrow> do {
          f \<leftarrow> concat_foreach fs hdr0 ds input_dir \<lparr>contents = old, offset = 0\<rparr>;
          Some (contents f) }
      | _ \<Rightarrow> Some old)"

text \<open>The options that matter: \<^verbatim>\<open>main\<close> without an input directory or with \<^verbatim>\<open>-h\<close> returns -1.\<close>

datatype opt = OptH | OptI "u8 list" | OptO "u8 list" | OptUnknown

fun parse_opts :: "opt list \<Rightarrow> u8 list option \<Rightarrow> u8 list \<Rightarrow> (u8 list option \<times> u8 list) option" where
  "parse_opts [] inp out = Some (inp, out)"
| "parse_opts (OptH # os) inp out = None"
| "parse_opts (OptI d # os) inp out = parse_opts os (Some d) out"
| "parse_opts (OptO f # os) inp out = parse_opts os inp f"
| "parse_opts (OptUnknown # os) inp out = parse_opts os inp out"

definition memar_main :: "host \<Rightarrow> mar_hdr \<Rightarrow> opt list \<Rightarrow> (u8 list \<Rightarrow> u8 list) \<Rightarrow> (int \<times> (u8 list \<times> u8 list) option) option" where
  "memar_main fs hdr0 opts old =
     (case parse_opts opts None (map of_char ''initrd.mr'') of
        None \<Rightarrow> Some (- 1, None)
      | Some (None, out) \<Rightarrow> Some (- 1, None)
      | Some (Some d, out) \<Rightarrow> do {
          bs \<leftarrow> dir_concat fs hdr0 d (old out);
          Some (0, Some (out, bs)) })"

section \<open>The archive in the kernel\<close>

text \<open>What the tool writes for one file, into an empty output.\<close>

definition padding :: "nat \<Rightarrow> nat" where
  "padding len = (len + 7) div 8 * 8 - len"

definition memar_entry :: "u8 list \<Rightarrow> u8 list \<Rightarrow> u8 list" where
  "memar_entry n bs = LORD @ le_bytes (of_nat (20 + length n)) @ le_bytes (of_nat (length bs)) @ n @ bs @
     replicate (padding (length bs)) 0"

lemma file_hdr_init_path:
  assumes "47 \<notin> set d" "length n < 98"
  shows "\<exists>hdr. file_hdr_init (d @ 47 # n) sz hdr0 = Some (of_nat (20 + length n), hdr) \<and>
    take (20 + length n) (hdr_bytes hdr) = LORD @ le_bytes (of_nat (20 + length n)) @ le_bytes sz @ n"
proof -
  have "dropWhile (\<lambda>c. c \<noteq> 47) (d @ 47 # n) = 47 # n" using assms(1) by (subst dropWhile_append2) auto
  then show ?thesis
    using assms(2)
    by (simp add: file_hdr_init_def MAR_FILE_NAME_MAX_def sizeof_mar_hdr_def Let_def hdr_bytes_def MEMAR_MAGIC_def
        LORD_def algebra_simps)
qed

lemma write_out_end: "offset f = length (contents f) \<Longrightarrow>
   write_out bs f = f\<lparr>contents := contents f @ bs, offset := length (contents f @ bs)\<rparr>"
  by (simp add: write_out_def Let_def)

lemma pad_len:
  assumes "len < 4611686018427387904"
  shows "unat (ucast (ALIGN_UP (of_nat len) FILE_ALIGN - of_nat len :: u64) :: u8) = padding len"
proof -
  have u: "unat (of_nat len :: u64) = len" using assms by (intro unat_of_nat64) simp
  have a: "unat (ALIGN_UP (of_nat len) 8) = (len + 7) div 8 * 8"
    using unat_ALIGN_UP_8 [of "of_nat len"] u assms by simp
  have "len \<le> (len + 7) div 8 * 8" "(len + 7) div 8 * 8 < len + 8" by linarith+
  then have "unat (ALIGN_UP (of_nat len) FILE_ALIGN - of_nat len :: u64) = padding len" "padding len < 8"
    using a u by (auto simp: unat_sub64 FILE_ALIGN_def padding_def)
  then show ?thesis by (simp add: unsigned_ucast_eq take_bit_nat_eq_self)
qed

lemma write_file_entry:
  assumes "47 \<notin> set d" "length n < 98" "fs (d @ 47 # n) = Some (Regular bs True)"
    "length bs < 4611686018427387904" "offset f = length (contents f)"
  shows "write_file fs hdr0 (d @ 47 # n) f =
    Some (f\<lparr>contents := contents f @ memar_entry n bs, offset := length (contents f @ memar_entry n bs)\<rparr>)"
proof -
  obtain hdr where h: "file_hdr_init (d @ 47 # n) (of_nat (length bs)) hdr0 = Some (of_nat (20 + length n), hdr)"
    "take (20 + length n) (hdr_bytes hdr) = LORD @ le_bytes (of_nat (20 + length n)) @ le_bytes (of_nat (length bs)) @ n"
    using file_hdr_init_path [OF assms(1,2)] by blast
  let ?pad = "ucast (ALIGN_UP (of_nat (length bs)) FILE_ALIGN - of_nat (length bs) :: u64) :: u8"
  have p: "unat ?pad = padding (length bs)" using pad_len [OF assms(4)] .
  have z: "\<not> 0 < ?pad \<Longrightarrow> padding (length bs) = 0" using p by (metis unat_eq_0 word_gt_0)
  have u: "unat (of_nat (20 + length n) :: u64) = 20 + length n" using assms(2) by (intro unat_of_nat64) simp
  let ?h = "LORD @ le_bytes (of_nat (20 + length n)) @ le_bytes (of_nat (length bs)) @ n"
  have "write_file fs hdr0 (d @ 47 # n) f = Some (
    let g = write_out bs (write_out ?h f) in if 0 < ?pad then write_out (replicate (padding (length bs)) 0) g else g)"
    using assms(3) h(1) unfolding write_file_def by (simp add: u h(2) p Let_def del: of_nat_add)
  also have "\<dots> = Some (f\<lparr>contents := contents f @ memar_entry n bs, offset := length (contents f @ memar_entry n bs)\<rparr>)"
  proof -
    have "write_out bs (write_out ?h f) = f\<lparr>contents := contents f @ ?h @ bs, offset := length (contents f @ ?h @ bs)\<rparr>"
      using assms(5) by (simp add: write_out_end)
    then show ?thesis using z by (simp add: write_out_end memar_entry_def Let_def)
  qed
  finally show ?thesis .
qed

text \<open>
  C32: An archive the tool builds is not readable by the kernel. The tool's header has no length of
  the name, so where the kernel expects the length it finds the first character of the name: for
  a file whose name starts with two different characters, the archive with exactly this file, put
  in memory by the boot loader, makes \<^verbatim>\<open>initrd_lookup\<close> of the file's own path return a null pointer.
\<close>

theorem memar_archive_unreadable:
  assumes "47 \<notin> set d" "n = c0 # c1 # n'" "c0 \<noteq> c1" "c0 \<noteq> 0" "c0 \<noteq> 47" "length n < 98"
    and "fs (d @ 47 # n) = Some (Regular bs True)" "length bs < 4611686018427387904"
    and "write_file fs hdr0 (d @ 47 # n) \<lparr>contents = [], offset = 0\<rparr> = Some f"
    and "bytes_at (mem m) (module_address (initrd m)) (contents f)"
    and "unat (module_length (initrd m)) = length (contents f)"
    and "unat (module_address (initrd m)) + length (contents f) < 18446744073709551616"
    and "bytes_at (mem m) (lit ''LORD'') LORD" "cstr (mem m) path n" "path \<noteq> NULL"
  shows "initrd_lookup lit path m = Some NULL"
proof (cases "module_address (initrd m) = NULL")
  case True
  then show ?thesis using assms(15) by (simp add: initrd_lookup_def)
next
  case nz: False
  let ?p = "module_address (initrd m)" and ?M = "mem m"
  have cf: "contents f = memar_entry n bs"
    using write_file_entry [where d = d and n = n and fs = fs and bs = bs and f = "\<lparr>contents = [], offset = 0\<rparr>" and ?hdr0.0 = hdr0]
      assms(1,6,7,8,9) by auto
  let ?len = "length (memar_entry n bs)"
  have len: "?len = 20 + length n + length bs + padding (length bs)" by (simp add: memar_entry_def)
  have ml: "module_length (initrd m) = of_nat ?len" using assms(11) cf by (metis of_nat_unat ucast_id)
  have b: "bytes_at ?M ?p LORD" "bytes_at ?M (?p + 4) (le_bytes (of_nat (20 + length n)))"
    "bytes_at ?M (?p + 12) (le_bytes (of_nat (length bs)))" "?M (?p + 20) = c0" "?M (?p + 21) = c1"
    "bytes_at ?M (?p + of_nat (20 + length n + length bs)) (replicate (padding (length bs)) 0)"
    using assms(10) unfolding cf memar_entry_def bytes_at_append by (simp_all add: assms(2) algebra_simps)
  have m0: "memcmp ?M ?p (lit ''LORD'') MEMAR_MAGIC_LEN = 0" using memcmp_LORD [OF assms(13)] b(1) by simp
  have path0: "?M path = c0" "(if ?M path = 47 then path + 1 else path) = path"
    using assms(14) by (simp_all add: assms(2,5))
  have nm: "memcmp ?M (hdr_name ?p) path (ucast (hdr_fname_size ?M ?p)) \<noteq> 0"
  proof
    assume z: "memcmp ?M (hdr_name ?p) path (ucast (hdr_fname_size ?M ?p)) = 0"
    have "unat c0 < 256" using unsigned_less [of c0, where 'a = nat] by simp
    then have "0 < unat (ucast c0 :: u64)"
      using assms(4) by (simp add: unsigned_ucast_eq unat_gt_0 take_bit_nat_eq_self)
    then have "?M (hdr_name ?p) = ?M path" using z b(4) by (auto simp: memcmp_zero hdr_fname_size_def)
    then show False using b(5) path0(1) assms(3) by (simp add: hdr_name_def)
  qed
  have up: "unat (?p + of_nat k) = unat ?p + k" if "k \<le> ?len" for k
    using assms(12) cf that by (subst unat_add64) (simp_all add: unat_of_nat64)
  have lt: "?p < ?p + of_nat ?len" using up [of ?len] len by (simp only: word_less_nat_alt)
  let ?q = "?p + of_nat (20 + length n + length bs)"
  have step: "PTR_OFFSET ?p (hdr_file_size ?M ?p + hdr_hdr_size ?M ?p) = ?q"
    using load64_le_bytes [OF b(2)] load64_le_bytes [OF b(3)]
    by (simp add: PTR_OFFSET_def hdr_file_size_def hdr_hdr_size_def algebra_simps)
  have "initrd_lookup lit path m = lookup_loop ?M (lit ''LORD'') path (?p + of_nat ?len) ?p"
    using assms(15) nz path0(2) ml by (simp add: initrd_lookup_def PTR_OFFSET_def Let_def)
  also have "\<dots> = lookup_loop ?M (lit ''LORD'') path (?p + of_nat ?len) ?q"
    using lt m0 nm by (subst lookup_loop.simps) (simp add: step Let_def del: of_nat_add)
  also have "\<dots> = Some NULL"
  proof (cases "padding (length bs) = 0")
    case True
    then have "?q = ?p + of_nat ?len" using len by simp
    then show ?thesis by (subst lookup_loop.simps) simp
  next
    case False
    then have "?M ?q = 0" using b(6) by (cases "padding (length bs)") auto
    then have "\<not> bytes_at ?M ?q LORD" by (simp add: LORD_def)
    then have "memcmp ?M ?q (lit ''LORD'') MEMAR_MAGIC_LEN \<noteq> 0" using memcmp_LORD [OF assms(13)] by simp
    then show ?thesis by (subst lookup_loop.simps) simp
  qed
  finally show ?thesis .
qed

text \<open>The file \<^verbatim>\<open>sb\<close> with one byte, built from a directory \<^verbatim>\<open>x\<close>.\<close>

definition memar_witness :: initrd_state where
  "memar_witness = initrd0\<lparr>mem := (\<lambda>_. 0)(4096 := 76, 4097 := 79, 4098 := 82, 4099 := 68, 4100 := 22,
       4108 := 1, 4116 := 115, 4117 := 98, 4118 := 7, 8192 := 76, 8193 := 79, 8194 := 82, 8195 := 68,
       12288 := 115, 12289 := 98),
     initrd := \<lparr>module_address = 4096, module_length = 30\<rparr>\<rparr>"

lemma memar_archive_unreadable_witness:
  "initrd_lookup (\<lambda>_. 8192) 12288 memar_witness = Some NULL \<and> cstr (mem memar_witness) 12288 [115, 98]"
proof -
  let ?fs = "(\<lambda>_. None)([120, 47, 115, 98] := Some (Regular [7] True)) :: host"
  let ?hdr = "\<lparr>m_magic = [], m_hdr_size = 0, m_file_size = 0, m_name = replicate 99 0\<rparr>"
  let ?f0 = "\<lparr>contents = [], offset = 0\<rparr> :: out_file"
  have le: "le_bytes 22 = [22, 0, 0, 0, 0, 0, 0, 0]" "le_bytes 1 = [1, 0, 0, 0, 0, 0, 0, 0]" by code_simp+
  have r: "replicate 7 (0 :: u8) = [0, 0, 0, 0, 0, 0, 0]" by code_simp
  have e: "memar_entry [115, 98] [7] = [76, 79, 82, 68, 22, 0, 0, 0, 0, 0, 0, 0, 1, 0, 0, 0, 0, 0, 0, 0, 115, 98, 7,
      0, 0, 0, 0, 0, 0, 0]"
    by (simp add: memar_entry_def le LORD_def padding_def r)
  have w: "write_file ?fs ?hdr ([120] @ 47 # [115, 98]) ?f0 =
      Some \<lparr>contents = memar_entry [115, 98] [7], offset = length (memar_entry [115, 98] [7])\<rparr>"
    by (subst write_file_entry) simp_all
  have c: "cstr (mem memar_witness) 12288 [115, 98]" by (simp add: memar_witness_def)
  have "initrd_lookup (\<lambda>_. 8192) 12288 memar_witness = Some NULL"
    by (rule memar_archive_unreadable [where fs = ?fs and d = "[120]" and n = "[115, 98]" and bs = "[7]" and ?c0.0 = 115
          and ?c1.0 = 98 and n' = "[]", OF _ _ _ _ _ _ _ _ w])
      (simp_all add: e c, simp_all add: memar_witness_def LORD_def)
  then show ?thesis using c by simp
qed

end
