(* ===== verification/Hive_Blocks.thy ===== *)
theory Hive_Blocks
  imports Hive_Tlsf
begin

text \<open>
  The physical blocks of the heap of \<^verbatim>\<open>mm/tlsf.c\<close>: the memory read as aligned words, the word a
  block header keeps, and the ghost state (sizes and free blocks) that the headers describe,
  with the effect of marking, splitting and joining blocks on it.
\<close>

section \<open>The words of the memory\<close>

definition words :: "memory \<Rightarrow> addr \<Rightarrow> u64" where
  "words M a = (if al8 a then load64 M a else 0)"

lemma words_load: "al8 a \<Longrightarrow> load64 M a = words M a"
  by (simp add: words_def)

lemma words_store [simp]: "al8 a \<Longrightarrow> words (store64 M a v) = (words M)(a := v)"
  by (rule ext) (simp add: words_def al8_load_store)

lemma al8_numeral [simp]: "al8 8" "al8 16" "al8 24" "al8 32" "al8 0"
  by (simp_all add: al8_def)

declare al8_add [al8_intros] al8_diff [al8_intros]

lemma al8_offset: "al8 k \<Longrightarrow> al8 (a + k) \<longleftrightarrow> al8 a"
  by (metis add_diff_cancel_right' al8_add al8_diff)

lemmas al8_offsets [simp] = al8_offset [OF al8_numeral(1)] al8_offset [OF al8_numeral(2)] al8_offset [OF al8_numeral(3)]

text \<open>A word says what its bytes are.\<close>

lemma bit_u8_high: "8 \<le> n \<Longrightarrow> \<not> bit (w :: u8) n"
  using bit_imp_le_length [of w n] by auto

lemma load_n_byte:
  "i < n \<Longrightarrow> n \<le> 8 \<Longrightarrow> M (a + of_nat i) = ucast (drop_bit (8 * i) (load_n n M a))"
proof (induction n arbitrary: a i)
  case (Suc n)
  show ?case
  proof (cases i)
    case 0
    then show ?thesis by (auto intro!: bit_word_eqI simp: bit_simps)
  next
    case (Suc j)
    then have "M (a + 1 + of_nat j) = ucast (drop_bit (8 * j) (load_n n M (a + 1)))"
      using Suc.IH Suc.prems by simp
    then show ?thesis using Suc Suc.prems
      by (simp add: algebra_simps) (rule bit_word_eqI, auto simp: bit_simps bit_u8_high)
  qed
qed simp

lemma words_bytes:
  assumes "words M' a = words M a" "al8 a" "i < 8"
  shows "M' (a + of_nat i) = M (a + of_nat i)"
  using assms load_n_byte [of i 8 M' a] load_n_byte [of i 8 M a] by (simp add: words_def load64_def)

section \<open>Headers\<close>

text \<open>The word a header keeps: the size with the two status bits.\<close>

definition tag :: "u64 \<Rightarrow> bool \<Rightarrow> bool \<Rightarrow> u64" where
  "tag s f p = s OR (if f then 1 else 0) OR (if p then 2 else 0)"

lemma free_bits [simp]:
  "block_header_free_bit = 1" "block_header_prev_free_bit = 2"
  by (simp_all add: block_header_free_bit_def block_header_prev_free_bit_def push_bit_eq_mult)

lemma al8_bits: "al8 s \<longleftrightarrow> \<not> bit s 0 \<and> \<not> bit s 1 \<and> \<not> bit s 2"
proof -
  have "unat s mod 8 = unat (take_bit 3 s)" by (simp add: unsigned_take_bit_eq take_bit_nat_def)
  then have "al8 s \<longleftrightarrow> take_bit 3 s = 0" by (simp add: al8_def unat_eq_0)
  also have "\<dots> \<longleftrightarrow> (\<forall>n < 3. \<not> bit s n)" by (auto simp: bit_eq_iff bit_simps)
  also have "\<dots> \<longleftrightarrow> \<not> bit s 0 \<and> \<not> bit s 1 \<and> \<not> bit s 2" by (auto simp: numeral_3_eq_3 numeral_2_eq_2 less_Suc_eq)
  finally show ?thesis .
qed

lemma bit_1_2: "bit (1 :: u64) n \<longleftrightarrow> n = 0" "bit (2 :: u64) n \<longleftrightarrow> n = 1" "bit (3 :: u64) n \<longleftrightarrow> n = 0 \<or> n = 1"
proof -
  show "bit (1 :: u64) n \<longleftrightarrow> n = 0" by (simp add: bit_1_iff)
  have "bit (2 ^ 1 :: u64) n \<longleftrightarrow> n = 1" by (simp only: bit_exp_iff) auto
  then show "bit (2 :: u64) n \<longleftrightarrow> n = 1" by simp
  have "bit (mask 2 :: u64) n \<longleftrightarrow> n = 0 \<or> n = 1" by (simp only: bit_mask_iff) auto
  moreover have "(mask 2 :: u64) = 3" by (simp add: mask_eq_exp_minus_1)
  ultimately show "bit (3 :: u64) n \<longleftrightarrow> n = 0 \<or> n = 1" by simp
qed

lemma bit_int_3: "bit (3 :: int) n \<longleftrightarrow> n = 0 \<or> n = 1"
proof -
  have "bit (mask 2 :: int) n \<longleftrightarrow> n = 0 \<or> n = 1" by (simp only: bit_mask_iff) auto
  then show ?thesis by (simp add: mask_eq_exp_minus_1)
qed

lemma or_1_2: "(1 :: u64) OR 2 = 3" by (rule bit_word_eqI) (auto simp: bit_simps bit_1_2)

lemma tag_bits:
  assumes "al8 s"
  shows "tag s f p AND NOT 3 = s" "tag s f p AND 1 \<noteq> 0 \<longleftrightarrow> f" "tag s f p AND 2 \<noteq> 0 \<longleftrightarrow> p"
    "tag s f p OR 1 = tag s True p" "tag s f p OR 2 = tag s f True"
    "tag s f p AND NOT 1 = tag s False p" "tag s f p AND NOT 2 = tag s f False"
    "al8 t \<Longrightarrow> t OR (tag s f p AND 3) = tag t f p"
    "al8 t \<Longrightarrow> tag s f p + t = tag (s + t) f p"
proof -
  note b = assms [unfolded al8_bits]
  show "tag s f p AND NOT 3 = s" 
    using b by (intro bit_word_eqI) (auto simp: tag_def bit_simps bit_1_2 bit_int_3 intro: gr0I)
  have "tag s f p AND 1 = (if f then 1 else 0)" "tag s f p AND 2 = (if p then 2 else 0)"
    using b by (auto intro!: bit_word_eqI simp: tag_def bit_simps bit_1_2 bit_int_3 intro: gr0I)
  then show "tag s f p AND 1 \<noteq> 0 \<longleftrightarrow> f" "tag s f p AND 2 \<noteq> 0 \<longleftrightarrow> p" by simp_all
  show "tag s f p OR 1 = tag s True p" "tag s f p OR 2 = tag s f True"
    by (auto intro!: bit_word_eqI simp: tag_def bit_simps bit_1_2 bit_int_3 intro: gr0I)
  show "tag s f p AND NOT 1 = tag s False p" "tag s f p AND NOT 2 = tag s f False"
    using b by (auto intro!: bit_word_eqI simp: tag_def bit_simps bit_1_2 bit_int_3 intro: gr0I)
  show "t OR (tag s f p AND 3) = tag t f p" if "al8 t"
    using b by (intro bit_word_eqI) (auto simp: tag_def bit_simps bit_1_2 bit_int_3 intro: gr0I)
  have e: "tag x f p = x + tag 0 f p" if "al8 x" for x
  proof -
    have "x + tag 0 f p = x OR tag 0 f p"
      using that [unfolded al8_bits]
      by (intro disjunctive_add) (auto simp: tag_def bit_simps bit_1_2 bit_int_3 intro: gr0I)
    then show ?thesis by (simp add: tag_def or.assoc)
  qed
  show "tag s f p + t = tag (s + t) f p" if "al8 t"
    using e [OF assms] e [OF al8_add [OF assms that]] by simp
qed

lemma tag_bits_neg:
  assumes "al8 s"
  shows "tag s f p AND - 4 = s" "tag s f p AND - 2 = tag s False p" "tag s f p AND - 3 = tag s f False"
  using tag_bits(1,6,7) [OF assms, of f p] by simp_all

section \<open>Blocks\<close>

text \<open>
  The ghost state of a heap: the size of every block by the address of its header, and the set
  of free blocks. A size of zero is that of the sentinel at the end of the pool, which occupies
  the addresses from \<open>lo\<close> up to \<open>hi\<close> without a gap. A block owns the bytes from its size field up to the size
  field of the next block, among them the first word of that block's header.
\<close>

type_synonym sizes = "addr \<rightharpoonup> u64"

definition nxt :: "sizes \<Rightarrow> addr \<Rightarrow> addr" where
  "nxt S b = b + 8 + the (S b)"

definition own :: "sizes \<Rightarrow> addr \<Rightarrow> addr \<Rightarrow> bool" where
  "own S b a \<longleftrightarrow> unat b + 8 \<le> unat a \<and> unat a < unat b + 16 + unat (the (S b))"

definition geom :: "nat \<Rightarrow> nat \<Rightarrow> sizes \<Rightarrow> bool" where
  "geom lo hi S \<longleftrightarrow> 32 \<le> lo \<and> hi < 18446744073709551616 \<and> hi < lo + 4294967312 \<and>
     (\<forall>b s. S b = Some s \<longrightarrow> al8 b \<and> al8 s \<and> lo \<le> unat b + 8 \<and> unat b + 16 + unat s \<le> hi) \<and>
     (\<forall>b s. S b = Some s \<longrightarrow> s \<noteq> 0 \<longrightarrow> 24 \<le> unat s \<and> unat b + 24 + unat s \<le> hi \<and> nxt S b \<in> dom S) \<and>
     (\<forall>b c s. S b = Some s \<longrightarrow> c \<in> dom S \<longrightarrow> unat b < unat c \<longrightarrow> unat b + 8 + unat s \<le> unat c) \<and>
     (\<exists>b \<in> dom S. unat b + 8 = lo) \<and> (\<forall>b. S b = Some 0 \<longrightarrow> unat b + 16 = hi)"

lemma geom_ends:
  assumes "geom lo hi S"
  shows "\<exists>b s. S b = Some s \<and> unat b + 8 = lo" "S b = Some 0 \<Longrightarrow> unat b + 16 = hi"
  using assms unfolding geom_def dom_def by auto

lemma geomI:
  assumes "32 \<le> lo" "hi < 18446744073709551616" "hi < lo + 4294967312"
    and "\<And>b s. S b = Some s \<Longrightarrow> al8 b \<and> al8 s \<and> lo \<le> unat b + 8 \<and> unat b + 16 + unat s \<le> hi"
    and "\<And>b s. S b = Some s \<Longrightarrow> s \<noteq> 0 \<Longrightarrow> 24 \<le> unat s \<and> unat b + 24 + unat s \<le> hi \<and> nxt S b \<in> dom S"
    and "\<And>b c s t. S b = Some s \<Longrightarrow> S c = Some t \<Longrightarrow> unat b < unat c \<Longrightarrow> unat b + 8 + unat s \<le> unat c"
    and "\<exists>b s. S b = Some s \<and> unat b + 8 = lo" "\<And>b. S b = Some 0 \<Longrightarrow> unat b + 16 = hi"
  shows "geom lo hi S"
  unfolding geom_def dom_def using assms by (auto simp: dom_def)

lemma geom_bounds: "geom lo hi S \<Longrightarrow> 32 \<le> lo" "geom lo hi S \<Longrightarrow> hi < 18446744073709551616"
    "geom lo hi S \<Longrightarrow> hi < lo + 4294967312"
  by (simp_all add: geom_def)

lemma geom_block:
  assumes "geom lo hi S" "S b = Some s"
  shows "al8 b" "al8 s" "lo \<le> unat b + 8" "unat b + 16 + unat s \<le> hi" "hi < 18446744073709551616" "32 \<le> lo"
    "b \<noteq> 0" "unat (nxt S b) = unat b + 8 + unat s" "unat (b + 8) = unat b + 8" "al8 (nxt S b)"
    "unat s < 4294967296"
proof -
  show g: "al8 b" "al8 s" "lo \<le> unat b + 8" "unat b + 16 + unat s \<le> hi" "hi < 18446744073709551616" "32 \<le> lo"
    using assms by (auto simp: geom_def)
  then show "b \<noteq> 0" by auto
  show e: "unat (b + 8) = unat b + 8" using g(4,5) by (subst unat_add64) simp_all
  show "unat (nxt S b) = unat b + 8 + unat s" using e g(4,5) assms(2) by (simp add: nxt_def unat_add64)
  show "al8 (nxt S b)" using g(1,2) assms(2) by (simp add: nxt_def al8_add)
  show "unat s < 4294967296"
  proof (cases "s = 0")
    case False
    have "hi < lo + 4294967312" "unat b + 24 + unat s \<le> hi" using assms False unfolding geom_def by blast+
    then show ?thesis using g(3) by simp
  qed simp
qed

lemma geom_real:
  assumes "geom lo hi S" "S b = Some s" "s \<noteq> 0"
  shows "24 \<le> unat s" "unat b + 24 + unat s \<le> hi" "\<exists>t. S (nxt S b) = Some t"
    "unat (b + 16) = unat b + 16" "unat (b + 24) = unat b + 24"
proof -
  show g: "24 \<le> unat s" "unat b + 24 + unat s \<le> hi" "\<exists>t. S (nxt S b) = Some t"
    using assms by (auto simp: geom_def dom_def)
  then show "unat (b + 16) = unat b + 16" "unat (b + 24) = unat b + 24"
    using geom_block(5) [OF assms(1,2)] by (simp_all add: unat_add64)
qed

lemma geom_order:
  "geom lo hi S \<Longrightarrow> S b = Some s \<Longrightarrow> S c = Some t \<Longrightarrow> unat b < unat c \<Longrightarrow> unat b + 8 + unat s \<le> unat c"
  unfolding geom_def dom_def by blast

lemma own_unique:
  assumes "geom lo hi S" "S b = Some s" "S c = Some t" "own S b a" "own S c a"
  shows "b = c"
proof (rule ccontr)
  assume "b \<noteq> c"
  then consider "unat b < unat c" | "unat c < unat b" by (metis linorder_neqE_nat word_unat_eq_iff)
  then show False
    using geom_order [OF assms(1,2,3)] geom_order [OF assms(1,3,2)] assms(2-5)
    by cases (auto simp: own_def)
qed

lemma own_fields:
  assumes "geom lo hi S" "S b = Some s"
  shows "own S b (b + 8)" "own S b (nxt S b)"
    "s \<noteq> 0 \<Longrightarrow> own S b (b + 16)" "s \<noteq> 0 \<Longrightarrow> own S b (b + 24)"
  using geom_block [OF assms] geom_real [OF assms] assms(2) by (auto simp: own_def)

lemma nxt_inj:
  assumes "geom lo hi S" "S b = Some s" "S c = Some t" "nxt S b = nxt S c"
  shows "b = c"
  using own_unique [OF assms(1-3)] own_fields(2) [OF assms(1,2)] own_fields(2) [OF assms(1,3)] assms(4) by simp

lemma own_apart:
  assumes "geom lo hi S" "S b = Some s" "S c = Some t" "own S b x" "own S c y" "b = c \<Longrightarrow> x \<noteq> y"
  shows "x \<noteq> y"
  using own_unique [OF assms(1-3)] assms(4-6) by blast

lemma fields_apart:
  assumes "geom lo hi S" "S b = Some s" "S c = Some t" "s \<noteq> 0"
  shows "nxt S b \<noteq> c + 8" "nxt S b \<noteq> b" "b + 16 \<noteq> c + 8" "b + 24 \<noteq> c + 8"
    "t \<noteq> 0 \<Longrightarrow> b + 16 \<noteq> c + 24" "b + 16 \<noteq> nxt S c" "b + 24 \<noteq> nxt S c"
proof -
  note u = own_apart [OF assms(1-3)] and f = own_fields [OF assms(1,2)] own_fields [OF assms(1,3)]
  have n: "nxt S b \<noteq> b + 8" "b + 16 \<noteq> nxt S b" "b + 24 \<noteq> nxt S b"
    using geom_block(8,9) [OF assms(1,2)] geom_real [OF assms(1,2,4)] assms(4) by (auto simp: unat_eq_0)
  show "nxt S b \<noteq> b" using geom_block(8) [OF assms(1,2)] by auto
  show "nxt S b \<noteq> c + 8" by (rule u) (use f n(1) in auto)
  show "b + 16 \<noteq> c + 8" by (rule u) (use f assms(4) in auto)
  show "b + 24 \<noteq> c + 8" by (rule u) (use f assms(4) in auto)
  show "b + 16 \<noteq> c + 24" if "t \<noteq> 0" by (rule u) (use f assms(4) that in auto)
  show "b + 16 \<noteq> nxt S c" by (rule u) (use f n assms(4) in auto)
  show "b + 24 \<noteq> nxt S c" by (rule u) (use f n assms(4) in auto)
qed

lemma nxt_nxt:
  assumes "geom lo hi S" "S b = Some s" "s \<noteq> 0" "S x = Some t" "nxt S x = nxt S b"
  shows "x = b"
  using nxt_inj [OF assms(1,4,2,5)] .

lemma unat_pos: "(s :: u64) \<noteq> 0 \<longleftrightarrow> 0 < unat s"
  by (simp add: unat_gt_0)

subsection \<open>Splitting and joining\<close>

lemma geom_split:
  assumes g: "geom lo hi S" and b: "S b = Some s" and sz: "al8 sz" "24 \<le> unat sz" "unat sz + 32 \<le> unat s"
  defines "r \<equiv> b + 8 + sz" and "rs \<equiv> s - (sz + 8)"
  shows "S r = None" "unat r = unat b + 8 + unat sz" "unat rs = unat s - unat sz - 8" "al8 rs" "al8 r"
    "nxt (S(b \<mapsto> sz, r \<mapsto> rs)) = (nxt S)(b := r, r := nxt S b)"
    "geom lo hi (S(b \<mapsto> sz, r \<mapsto> rs))"
proof -
  have s: "s \<noteq> 0" using sz by auto
  note gb = geom_block [OF g b] and gr = geom_real [OF g b s]
  show r: "unat r = unat b + 8 + unat sz" using gb(4,5,9) sz(3) by (simp add: r_def unat_add64)
  show rs: "unat rs = unat s - unat sz - 8"
    using gb(4,5) sz(3) by (simp add: rs_def unat_sub64 unat_add64)
  show al: "al8 rs" "al8 r" using gb(1,2) sz(1) by (simp_all add: rs_def r_def al8_add al8_diff)
  show none: "S r = None"
  proof (cases "S r")
    case (Some t)
    then show ?thesis using geom_order [OF g b Some] r sz by simp
  qed
  have rb: "r \<noteq> b" using r by auto
  have nr: "r + 8 + rs = nxt S b" using b by (simp add: r_def rs_def nxt_def)
  show n: "nxt (S(b \<mapsto> sz, r \<mapsto> rs)) = (nxt S)(b := r, r := nxt S b)"
    using rb nr by (auto simp: nxt_def fun_eq_iff r_def)
  have one: "al8 c \<and> al8 t \<and> lo \<le> unat c + 8 \<and> unat c + 16 + unat t \<le> hi"
    if "(S(b \<mapsto> sz, r \<mapsto> rs)) c = Some t" for c t
    using that geom_block [OF g] gb gr sz r rs al by (auto split: if_splits)
  have two: "24 \<le> unat t \<and> unat c + 24 + unat t \<le> hi \<and> nxt (S(b \<mapsto> sz, r \<mapsto> rs)) c \<in> dom (S(b \<mapsto> sz, r \<mapsto> rs))"
    if t: "(S(b \<mapsto> sz, r \<mapsto> rs)) c = Some t" "t \<noteq> 0" for c t
  proof -
    have "nxt (S(b \<mapsto> sz, r \<mapsto> rs)) c \<in> dom (S(b \<mapsto> sz, r \<mapsto> rs))"
      unfolding n using geom_real(3) [OF g] gr(3) t b by (auto split: if_splits)
    then show ?thesis using t geom_real [OF g] gr sz r rs by (auto split: if_splits)
  qed
  have three: "unat x + 8 + unat t \<le> unat y"
    if xy: "(S(b \<mapsto> sz, r \<mapsto> rs)) x = Some t" "(S(b \<mapsto> sz, r \<mapsto> rs)) y = Some u" "unat x < unat y" for x y t u
  proof -
    have bs: "unat b + 8 + unat s \<le> unat c" if "S c = Some v" "unat b < unat c" for c v
      using geom_order [OF g b that] .
    have sb: "unat c + 8 + unat v \<le> unat b" if "S c = Some v" "unat c < unat b" for c v
      using geom_order [OF g that(1) b that(2)] .
    consider "x = b" "t = sz" "y = r" | "x = b" "t = sz" "S y = Some u" | "x = r" "t = rs" "S y = Some u" "y \<noteq> b"
      | "x = r" "y = b" | "S x = Some t" "y = r" "x \<noteq> b" | "S x = Some t" "y = b" | "S x = Some t" "S y = Some u"
      using xy rb by (cases "x = r"; cases "x = b"; cases "y = r"; cases "y = b") simp_all
    then show ?thesis
    proof cases
      case 1 then show ?thesis using r by simp
    next
      case 2 then show ?thesis using bs [OF 2(3)] xy(3) sz by simp
    next
      case 3 then show ?thesis using bs [OF 3(3)] xy(3) r rs sz by simp
    next
      case 4 then show ?thesis using xy(3) r by simp
    next
      case 5
      show ?thesis
      proof (cases "unat x < unat b")
        case True
        then show ?thesis using sb [OF 5(1)] r 5 by simp
      next
        case False
        then have "unat b < unat x" using 5(3) by (metis linorder_neqE_nat word_unat_eq_iff)
        then show ?thesis using bs [OF 5(1)] 5(2) xy(3) r sz by simp
      qed
    next
      case 6 then show ?thesis using sb [OF 6(1)] xy(3) by simp
    next
      case 7 then show ?thesis using geom_order [OF g 7 xy(3)] by simp
    qed
  qed
  obtain e v where e: "S e = Some v" "unat e + 8 = lo" using geom_ends(1) [OF g] by blast
  have first: "\<exists>c t. (S(b \<mapsto> sz, r \<mapsto> rs)) c = Some t \<and> unat c + 8 = lo"
    by (rule exI [of _ e]) (use e none in auto)
  have rs0: "sz \<noteq> 0" "rs \<noteq> 0" using sz rs by auto
  have last: "unat c + 16 = hi" if "(S(b \<mapsto> sz, r \<mapsto> rs)) c = Some 0" for c
    using that geom_ends(2) [OF g, of c] rs0 by (auto split: if_splits)
  show "geom lo hi (S(b \<mapsto> sz, r \<mapsto> rs))"
    by (rule geomI [OF geom_bounds [OF g] one two three first last])
qed

lemma geom_join:
  assumes g: "geom lo hi S" and b: "S b = Some s" "s \<noteq> 0" and n: "S (nxt S b) = Some t" "t \<noteq> 0"
  defines "S' \<equiv> S(b \<mapsto> s + (t + 8), nxt S b := None)"
  shows "geom lo hi S'" "x \<noteq> nxt S b \<Longrightarrow> nxt S' x = (if x = b then nxt S (nxt S b) else nxt S x)"
    "unat (s + (t + 8)) = unat s + unat t + 8"
proof -
  note gb = geom_block [OF g b(1)] and gr = geom_real [OF g b]
    and nb = geom_block [OF g n(1)] and nr = geom_real [OF g n]
  show u: "unat (s + (t + 8)) = unat s + unat t + 8"
    using gb(5,8) nb(4) by (simp add: unat_add64)
  have nb': "nxt S b \<noteq> b" using fields_apart(2) [OF g b(1) n(1) b(2)] .
  show nx: "nxt S' x = (if x = b then nxt S (nxt S b) else nxt S x)" if "x \<noteq> nxt S b" for x
    using that b n(1) by (auto simp: S'_def nxt_def algebra_simps)
  have one: "al8 c \<and> al8 v \<and> lo \<le> unat c + 8 \<and> unat c + 16 + unat v \<le> hi" if "S' c = Some v" for c v
    using that geom_block [OF g] gb nb nr u by (auto simp: S'_def al8_add split: if_splits)
  have two: "24 \<le> unat v \<and> unat c + 24 + unat v \<le> hi \<and> nxt S' c \<in> dom S'" if c: "S' c = Some v" "v \<noteq> 0" for c v
  proof -
    have cn: "c \<noteq> nxt S b" using c by (auto simp: S'_def)
    show ?thesis
    proof (cases "c = b")
      case True
      have "nxt S (nxt S b) \<noteq> nxt S b" using fields_apart(2) [OF g n(1) n(1) n(2)] .
      then have "nxt S' b \<in> dom S'" using nx [of b] nr(3) nb' by (auto simp: S'_def)
      then show ?thesis using True c(1) u gr nr(2) gb(8) nb' by (auto simp: S'_def)
    next
      case False
      then have v: "S c = Some v" using c(1) cn by (simp add: S'_def)
      have "nxt S c \<noteq> nxt S b" using nxt_inj [OF g v b(1)] False by blast
      then have "nxt S' c \<in> dom S'" using nx [OF cn] geom_real(3) [OF g v c(2)] False by (auto simp: S'_def)
      then show ?thesis using geom_real [OF g v c(2)] by simp
    qed
  qed
  have three: "unat x + 8 + unat v \<le> unat y" if xy: "S' x = Some v" "S' y = Some w" "unat x < unat y" for x y v w
  proof -
    have yx: "x \<noteq> nxt S b" "y \<noteq> nxt S b" "\<exists>w. S y = Some w" using xy b by (auto simp: S'_def split: if_splits)
    then obtain w' where y: "S y = Some w'" by blast
    show ?thesis
    proof (cases "x = b")
      case True
      then have "unat (nxt S b) \<le> unat y" using geom_order [OF g b(1) y] xy(3) gb(8) by simp
      then have "unat (nxt S b) < unat y" using yx(2) by (simp add: le_neq_implies_less word_unat_eq_iff)
      then show ?thesis using geom_order [OF g n(1) y] True xy(1) u gb(8) nb' by (simp add: S'_def)
    next
      case False
      then show ?thesis using geom_order [OF g _ y xy(3)] xy(1) yx(1) by (simp add: S'_def)
    qed
  qed
  obtain e v where e: "S e = Some v" "unat e + 8 = lo" using geom_ends(1) [OF g] by blast
  have en: "e \<noteq> nxt S b" using e(2) gb(3,8) gr(1) by auto
  have first: "\<exists>c t. S' c = Some t \<and> unat c + 8 = lo"
    by (rule exI [of _ e]) (use e en in \<open>auto simp: S'_def\<close>)
  have "s + (t + 8) \<noteq> 0" using u by auto
  then have last: "unat c + 16 = hi" if "S' c = Some 0" for c
    using that geom_ends(2) [OF g, of c] by (auto simp: S'_def split: if_splits)
  show "geom lo hi S'"
    by (rule geomI [OF geom_bounds [OF g] one two three first last])
qed

section \<open>Headers and the ghost state\<close>

text \<open>
  What the memory says of the blocks: the size of every block with its two status bits, and, in the
  first word of the block behind a free one, the address of that free block.
\<close>

definition headers :: "(addr \<Rightarrow> u64) \<Rightarrow> sizes \<Rightarrow> addr set \<Rightarrow> bool" where
  "headers w S F \<longleftrightarrow> (\<forall>b \<in> F. \<exists>s. S b = Some s \<and> s \<noteq> 0) \<and>
     (\<forall>b s. S b = Some s \<longrightarrow> w (b + 8) = tag s (b \<in> F) (b \<in> nxt S ` F)) \<and>
     (\<forall>b \<in> F. w (nxt S b) = b)"

lemma headersD:
  assumes "headers w S F"
  shows "b \<in> F \<Longrightarrow> \<exists>s. S b = Some s \<and> s \<noteq> 0" "S b = Some s \<Longrightarrow> w (b + 8) = tag s (b \<in> F) (b \<in> nxt S ` F)"
    "b \<in> F \<Longrightarrow> w (nxt S b) = b"
  using assms unfolding headers_def by blast+

lemma headers_frame:
  assumes "headers w S F" "\<And>b s. S b = Some s \<Longrightarrow> w' (b + 8) = w (b + 8)" "\<And>b. b \<in> F \<Longrightarrow> w' (nxt S b) = w (nxt S b)"
  shows "headers w' S F"
  using assms unfolding headers_def by metis

lemma headers_mark_used:
  assumes g: "geom lo hi S" and h: "headers w S F" and b: "b \<in> F"
  shows "headers (w(nxt S b + 8 := w (nxt S b + 8) AND NOT 2, b + 8 := w (b + 8) AND NOT 1)) S (F - {b})"
proof -
  obtain s where s: "S b = Some s" "s \<noteq> 0" using headersD(1) [OF h b] by blast
  have inj: "nxt S c \<noteq> nxt S b" if "c \<in> F - {b}" for c
    using that nxt_inj [OF g _ s(1)] headersD(1) [OF h] by blast
  have im: "x \<in> nxt S ` (F - {b}) \<longleftrightarrow> x \<in> nxt S ` F \<and> x \<noteq> nxt S b" for x
    using inj b by auto
  have nb: "nxt S b \<noteq> b" using fields_apart(2) [OF g s(1) s(1,2)] .
  have ne: "nxt S c \<noteq> x + 8" if "c \<in> F" "S x = Some t" for c x t
    using headersD(1) [OF h that(1)] fields_apart(1) [OF g _ that(2)] by blast
  obtain t where t: "S (nxt S b) = Some t" using geom_real(3) [OF g s] by blast
  have "(w(nxt S b + 8 := w (nxt S b + 8) AND NOT 2, b + 8 := w (b + 8) AND NOT 1)) (x + 8) =
    tag u (x \<in> F - {b}) (x \<in> nxt S ` (F - {b}))" if x: "S x = Some u" for x u
  proof -
    have "w (x + 8) = tag u (x \<in> F) (x \<in> nxt S ` F)" using headersD(2) [OF h x] .
    then show ?thesis
      unfolding im using geom_block(2) [OF g x] nb b by (auto simp: tag_bits tag_bits_neg)
  qed
  moreover have "(w(nxt S b + 8 := w (nxt S b + 8) AND NOT 2, b + 8 := w (b + 8) AND NOT 1)) (nxt S c) = c"
    if "c \<in> F - {b}" for c
    using that ne [of c] s(1) t headersD(3) [OF h, of c] by auto
  ultimately show ?thesis using headersD(1) [OF h] unfolding headers_def by blast
qed

lemma headers_mark_free:
  assumes g: "geom lo hi S" and h: "headers w S F" and b: "b \<notin> F" "S b = Some s" "s \<noteq> 0"
  shows "headers (w(nxt S b := b, nxt S b + 8 := w (nxt S b + 8) OR 2, b + 8 := w (b + 8) OR 1)) S (insert b F)"
proof -
  let ?w = "w(nxt S b := b, nxt S b + 8 := w (nxt S b + 8) OR 2, b + 8 := w (b + 8) OR 1)"
  have inj: "nxt S c \<noteq> nxt S b" if "c \<in> F" for c
    using that nxt_inj [OF g _ b(2)] headersD(1) [OF h] b(1) by metis
  have nb: "nxt S b \<noteq> b" using fields_apart(2) [OF g b(2) b(2,3)] .
  have ne: "nxt S c \<noteq> x + 8" if "c \<in> insert b F" "S x = Some t" for c x t
    using headersD(1) [OF h, of c] fields_apart(1) [OF g _ that(2)] that(1) b by blast
  obtain t where t: "S (nxt S b) = Some t" using geom_real(3) [OF g b(2,3)] by blast
  have "?w (x + 8) = tag u (x \<in> insert b F) (x \<in> nxt S ` insert b F)" if x: "S x = Some u" for x u
  proof -
    have "w (x + 8) = tag u (x \<in> F) (x \<in> nxt S ` F)" using headersD(2) [OF h x] .
    then show ?thesis
      using geom_block(2) [OF g x] nb b(1) ne [of b x] x by (auto simp: tag_bits tag_bits_neg)
  qed
  moreover have "?w (nxt S c) = c" if "c \<in> insert b F" for c
    using that ne [of c] b(2) t headersD(3) [OF h, of c] inj by auto
  ultimately show ?thesis using headersD(1) [OF h] b unfolding headers_def by blast
qed

lemma image_split:
  assumes "\<And>c. c \<in> F \<Longrightarrow> c \<noteq> b \<Longrightarrow> g c = f c" "r \<notin> F" "g r = f b" "g b = r"
  shows "x \<in> g ` insert r F \<longleftrightarrow> x \<in> f ` F \<or> x = f b \<or> (b \<in> F \<and> x = r)"
  using assms by (auto simp: image_iff) metis+

lemma image_join:
  assumes "\<And>y. y \<noteq> c \<Longrightarrow> y \<noteq> b \<Longrightarrow> g y = f y" "b \<in> F" "c \<in> F" "b \<noteq> c" "g b = f c" "f b = c" "x \<noteq> c"
  shows "x \<in> g ` (F - {c}) \<longleftrightarrow> x \<in> f ` F"
proof
  assume "x \<in> g ` (F - {c})"
  then obtain y where "y \<in> F" "y \<noteq> c" "x = g y" by blast
  then show "x \<in> f ` F" using assms by (cases "y = b") auto
next
  assume "x \<in> f ` F"
  then obtain y where y: "y \<in> F" "x = f y" by blast
  then consider "y = c" | "y \<noteq> c" "y \<noteq> b" using assms(6,7) by blast
  then show "x \<in> g ` (F - {c})"
  proof cases
    case 1 then show ?thesis using assms y by (metis Diff_iff empty_iff imageI insert_iff)
  next
    case 2 then show ?thesis using assms(1) [OF 2] y by (metis Diff_iff empty_iff imageI insert_iff)
  qed
qed

lemma headers_split:
  assumes g: "geom lo hi S" and h: "headers w S F" and b: "S b = Some s"
    and sz: "al8 sz" "24 \<le> unat sz" "unat sz + 32 \<le> unat s" and v: "b \<in> F \<Longrightarrow> v = b"
  defines "r \<equiv> b + 8 + sz" and "rs \<equiv> s - (sz + 8)" and "n \<equiv> nxt S b"
  shows "headers (w(r + 8 := tag rs True (b \<in> F), b + 8 := tag sz (b \<in> F) (b \<in> nxt S ` F), n := r,
      n + 8 := w (n + 8) OR 2, r := v)) (S(b \<mapsto> sz, r \<mapsto> rs)) (insert r F)" (is "headers ?w ?S _")
proof -
  note gs = geom_split [OF g b sz, folded r_def rs_def]
  have s: "s \<noteq> 0" using sz by auto
  have rs: "rs \<noteq> 0" "sz \<noteq> 0" using gs(3) sz by auto
  have rb: "r \<noteq> b" "r \<notin> F" using gs(1) b headersD(1) [OF h, of r] by auto
  have nx: "nxt ?S b = r" "nxt ?S r = n" "\<And>c. c \<noteq> b \<Longrightarrow> c \<noteq> r \<Longrightarrow> nxt ?S c = nxt S c"
    using gs(6) rb by (simp_all add: n_def)
  note f = fields_apart [OF gs(7)]
  have S': "?S b = Some sz" "?S r = Some rs" "\<And>c t. S c = Some t \<Longrightarrow> c \<noteq> b \<Longrightarrow> ?S c = Some t"
    using rb gs(1) by auto
  obtain t where "S n = Some t" using geom_real(3) [OF g b s] by (auto simp: n_def)
  then have n: "n \<noteq> b" "n \<noteq> r" "?S n = Some t"
    using fields_apart(2) [OF g b b s] gs(1) S'(3) [of n t] by (auto simp: n_def)
  have F: "\<exists>s. ?S c = Some s \<and> s \<noteq> 0" if "c \<in> insert r F" for c
    using that S' rs headersD(1) [OF h, of c] b by (cases "c = b"; cases "c = r") auto
  have im: "x \<in> nxt ?S ` insert r F \<longleftrightarrow> x \<in> nxt S ` F \<or> x = n \<or> (b \<in> F \<and> x = r)" for x
    using image_split [of F b "nxt ?S" "nxt S" r x] nx rb by (auto simp: n_def)
  have rn: "r \<notin> nxt S ` F"
  proof
    assume "r \<in> nxt S ` F"
    then obtain c where c: "c \<in> F" "nxt S c = r" by auto
    then show False using headersD(1) [OF h c(1)] geom_real(3) [OF g] gs(1) by fastforce
  qed
  have "?w (x + 8) = tag u (x \<in> insert r F) (x \<in> nxt ?S ` insert r F)" if x: "?S x = Some u" for x u
  proof -
    have ap: "x + 8 \<noteq> n" "x + 8 \<noteq> r" using f(1) [OF S'(1) x rs(2)] f(1) [OF S'(2) x rs(1)] nx by auto
    show ?thesis
    proof (cases "x = b \<or> x = r")
      case True
      then show ?thesis using ap x rb n unfolding im
        using rn by (auto simp: n_def)
    next
      case False
      then have "S x = Some u" using x by simp
      then have "w (x + 8) = tag u (x \<in> F) (x \<in> nxt S ` F)" "al8 u"
        using headersD(2) [OF h] geom_block(2) [OF g] by blast+
      then show ?thesis using False ap unfolding im by (auto simp: tag_bits)
    qed
  qed
  moreover have "?w (nxt ?S c) = c" if c: "c \<in> insert r F" for c
  proof -
    obtain u where u: "?S c = Some u" "u \<noteq> 0" using F [OF c] by blast
    have ap: "nxt ?S c \<noteq> b + 8" "nxt ?S c \<noteq> r + 8" "nxt ?S c \<noteq> n + 8"
      using f(1) [OF u(1) S'(1) u(2)] f(1) [OF u(1) S'(2) u(2)] f(1) [OF u(1) n(3) u(2)] by auto
    consider "c = r" | "c = b" | "c \<noteq> b" "c \<noteq> r" "c \<in> F" using c by blast
    then show ?thesis
    proof cases
      case 3
      note e = nx(3) [OF 3(1,2)]
      have "nxt S c \<noteq> r" "nxt S c \<noteq> n"
        using nxt_inj [OF gs(7) u(1) S'(1)] nxt_inj [OF gs(7) u(1) S'(2)] nx(1,2) 3(1,2) unfolding e by metis+
      then show ?thesis using ap headersD(3) [OF h 3(3)] unfolding e by simp
    qed (use ap nx n c rb v in auto)
  qed
  ultimately show ?thesis using F unfolding headers_def by blast
qed

text \<open>
  Joining a block with the free block behind it. The joined block stays free; or, for the caller
  that takes both, it becomes a used block and the block behind it is told so.
\<close>

lemma headers_join:
  assumes g: "geom lo hi S" and h: "headers w S F" and b: "b \<in> F" and c: "c \<in> F" "nxt S b = c" and t: "S c = Some t"
  shows "headers (w(b + 8 := w (b + 8) + (t + 8), nxt S c := b)) (S(b \<mapsto> the (S b) + (t + 8), c := None)) (F - {c})"
    (is "headers ?w ?S _")
proof -
  obtain s where s: "S b = Some s" "s \<noteq> 0" using headersD(1) [OF h b] by blast
  have t0: "t \<noteq> 0" using headersD(1) [OF h c(1)] t by auto
  note gj = geom_join [OF g s t [folded c(2)] t0, unfolded c(2)]
  have S: "?S = S(b \<mapsto> s + (t + 8), c := None)" using s by simp
  have cb: "c \<noteq> b" using fields_apart(2) [OF g s(1) s(1,2)] c(2) by simp
  have nx: "nxt ?S b = nxt S c" "\<And>x. x \<noteq> c \<Longrightarrow> x \<noteq> b \<Longrightarrow> nxt ?S x = nxt S x"
    using gj(2) cb unfolding S by auto
  have S0: "\<exists>u. S x = Some u" if "?S x = Some v" for x v using that s(1) cb by (auto split: if_splits)
  have im: "x \<in> nxt ?S ` (F - {c}) \<longleftrightarrow> x \<in> nxt S ` F" if "x \<noteq> c" for x
    using image_join [of c b "nxt ?S" "nxt S" F x] that nx b c cb by metis
  have al: "al8 s" "al8 (t + 8)" using geom_block(2) [OF g s(1)] geom_block(2) [OF g t] by (simp_all)
  have "?w (x + 8) = tag u (x \<in> F - {c}) (x \<in> nxt ?S ` (F - {c}))" if x: "?S x = Some u" for x u
  proof -
    have xc: "x \<noteq> c" using x by auto
    obtain v where v: "S x = Some v" using S0 [OF x] by blast
    have ap: "x + 8 \<noteq> nxt S c" using fields_apart(1) [OF g t v t0] by auto
    show ?thesis
      unfolding im [OF xc] using ap headersD(2) [OF h v] v x xc s al by (auto simp: tag_bits split: if_splits)
  qed
  moreover have "?w (nxt ?S x) = x" if x: "x \<in> F - {c}" for x
  proof (cases "x = b")
    case True then show ?thesis using nx by simp
  next
    case False
    obtain u where u: "S x = Some u" "u \<noteq> 0" using headersD(1) [OF h] x by blast
    have "nxt S x \<noteq> b + 8" using fields_apart(1) [OF g u(1) s(1) u(2)] .
    moreover have "nxt S x \<noteq> nxt S c" using nxt_inj [OF g u(1) t] x by blast
    ultimately show ?thesis using nx(2) False x headersD(3) [OF h] by auto
  qed
  moreover have "\<exists>u. ?S x = Some u \<and> u \<noteq> 0" if x: "x \<in> F - {c}" for x
  proof -
    have "s + (t + 8) \<noteq> 0" using gj(3) by auto
    then show ?thesis using x headersD(1) [OF h] s by auto
  qed
  ultimately show ?thesis unfolding headers_def by blast
qed

lemma headers_join_used:
  assumes g: "geom lo hi S" and h: "headers w S F" and b: "b \<notin> F" "S b = Some s" "s \<noteq> 0"
    and c: "c \<in> F" "nxt S b = c" and t: "S c = Some t"
  shows "headers (w(b + 8 := w (b + 8) + (t + 8), nxt S c := b, nxt S c + 8 := w (nxt S c + 8) AND NOT 2))
    (S(b \<mapsto> s + (t + 8), c := None)) (F - {c})" (is "headers ?w ?S _")
proof -
  have t0: "t \<noteq> 0" using headersD(1) [OF h c(1)] t by auto
  note gj = geom_join [OF g b(2,3) t [folded c(2)] t0, unfolded c(2)]
  have cb: "c \<noteq> b" using b c by auto
  have nx: "nxt ?S b = nxt S c" "\<And>x. x \<noteq> c \<Longrightarrow> x \<noteq> b \<Longrightarrow> nxt ?S x = nxt S x"
    using gj(2) cb by auto
  have S0: "\<exists>u. S x = Some u" if "?S x = Some v" for x v using that b(2) cb by (auto split: if_splits)
  have im: "x \<in> nxt ?S ` (F - {c}) \<longleftrightarrow> x \<in> nxt S ` F \<and> x \<noteq> nxt S c" for x
  proof -
    have "nxt ?S ` (F - {c}) = nxt S ` (F - {c})" using nx b(1) by (intro image_cong) auto
    moreover have "nxt S y \<noteq> nxt S c" if "y \<in> F - {c}" for y
      using nxt_inj [OF g _ t] headersD(1) [OF h, of y] that by blast
    ultimately show ?thesis using c(1) by (auto simp: image_iff)
  qed
  have al: "al8 s" "al8 (t + 8)" using geom_block(2) [OF g b(2)] geom_block(2) [OF g t] by simp_all
  have nb: "nxt S c \<noteq> b"
  proof
    assume "nxt S c = b"
    then have "unat b = unat c + 8 + unat t" "unat c = unat b + 8 + unat s"
      using geom_block(8) [OF g t] geom_block(8) [OF g b(2)] c(2) by auto
    then show False by simp
  qed
  have "?w (x + 8) = tag u (x \<in> F - {c}) (x \<in> nxt ?S ` (F - {c}))" if x: "?S x = Some u" for x u
  proof -
    have xc: "x \<noteq> c" using x by auto
    obtain v where v: "S x = Some v" using S0 [OF x] by blast
    have ap: "x + 8 \<noteq> nxt S c" using fields_apart(1) [OF g t v t0] by auto
    show ?thesis
      unfolding im using ap headersD(2) [OF h v] v x xc b al geom_block(2) [OF g v] nb
      by (auto simp: tag_bits tag_bits_neg split: if_splits)
  qed
  moreover have "?w (nxt ?S x) = x" if x: "x \<in> F - {c}" for x
  proof -
    obtain u where u: "S x = Some u" "u \<noteq> 0" using headersD(1) [OF h] x by blast
    obtain z where z: "S (nxt S c) = Some z" using geom_real(3) [OF g t t0] by blast
    have "nxt S x \<noteq> b + 8" "nxt S x \<noteq> nxt S c + 8"
      using fields_apart(1) [OF g u(1) b(2) u(2)] fields_apart(1) [OF g u(1) z u(2)] by auto
    moreover have "nxt S x \<noteq> nxt S c" using nxt_inj [OF g u(1) t] x by blast
    moreover have e: "nxt ?S x = nxt S x" using x b(1) by (intro nx(2)) auto
    ultimately show ?thesis using x headersD(3) [OF h] unfolding e by simp
  qed
  moreover have "\<exists>u. ?S x = Some u \<and> u \<noteq> 0" if x: "x \<in> F - {c}" for x
    using x headersD(1) [OF h] b by auto
  ultimately show ?thesis unfolding headers_def by blast
qed

end
