(* ===== verification/Hive_Freelist.thy ===== *)
theory Hive_Freelist
  imports Hive_Blocks
begin

text \<open>
  The free lists of the heap of \<^verbatim>\<open>mm/tlsf.c\<close>: doubly linked lists through the payload of the free
  blocks, one for each size class, and the two levels of bitmaps over them. The lemmas give the
  effect of \<^verbatim>\<open>insert_free_block\<close>, \<^verbatim>\<open>remove_free_block\<close> and \<^verbatim>\<open>search_suitable_block\<close> on the ghost
  map from a listed block to its class.
\<close>

section \<open>Doubly linked lists\<close>

text \<open>
  The list from \<open>h\<close> on, whose first element points back to \<open>p\<close> and whose last element points to
  \<open>z\<close>: the next pointer of an element is the word at offset 16, the back pointer that at 24.
\<close>

fun dll :: "(addr \<Rightarrow> u64) \<Rightarrow> addr \<Rightarrow> addr \<Rightarrow> addr \<Rightarrow> addr list \<Rightarrow> bool" where
  "dll w z p h [] \<longleftrightarrow> h = z"
| "dll w z p h (x # xs) \<longleftrightarrow> h = x \<and> w (x + 24) = p \<and> dll w z x (w (x + 16)) xs"

lemma dll_append: "dll w z p h (xs @ ys) \<longleftrightarrow> (\<exists>m. dll w m p h xs \<and> dll w z (last (p # xs)) m ys)"
  by (induction xs arbitrary: p h) auto

lemma dll_frame:
  "dll w z p h xs \<Longrightarrow> (\<And>x. x \<in> set xs \<Longrightarrow> w' (x + 16) = w (x + 16) \<and> w' (x + 24) = w (x + 24)) \<Longrightarrow> dll w' z p h xs"
  by (induction xs arbitrary: p h) auto

text \<open>Nodes whose two link words are all different, with the null block \<open>z\<close> among them.\<close>

definition nodes :: "addr \<Rightarrow> addr set \<Rightarrow> bool" where
  "nodes z D \<longleftrightarrow> al8 z \<and> z \<noteq> 0 \<and> (\<forall>x \<in> D. al8 x \<and> x \<noteq> 0 \<and> x \<noteq> z) \<and> (\<forall>x \<in> insert z D. \<forall>y \<in> insert z D. x + 16 \<noteq> y + 24)"

lemma nodesD:
  assumes "nodes z D"
  shows "al8 z" "z \<noteq> 0" "x \<in> D \<Longrightarrow> al8 x" "x \<in> D \<Longrightarrow> x \<noteq> 0" "x \<in> D \<Longrightarrow> x \<noteq> z" "z \<notin> D"
    "x \<in> insert z D \<Longrightarrow> y \<in> insert z D \<Longrightarrow> x + 16 \<noteq> y + 24"
    "x \<in> insert z D \<Longrightarrow> y \<in> insert z D \<Longrightarrow> y + 24 \<noteq> x + 16"
    "x \<in> insert z D \<Longrightarrow> al8 x \<and> x \<noteq> 0"
proof -
  show o: "x \<in> insert z D \<Longrightarrow> y \<in> insert z D \<Longrightarrow> x + 16 \<noteq> y + 24" for x y
    using assms unfolding nodes_def by blast
  then show "x \<in> insert z D \<Longrightarrow> y \<in> insert z D \<Longrightarrow> y + 24 \<noteq> x + 16" by metis
  have a: "al8 z" "z \<noteq> 0" "\<And>x. x \<in> D \<Longrightarrow> al8 x \<and> x \<noteq> 0 \<and> x \<noteq> z" using assms unfolding nodes_def by simp_all
  then show "al8 z" "z \<noteq> 0" "x \<in> D \<Longrightarrow> al8 x" "x \<in> D \<Longrightarrow> x \<noteq> 0" "x \<in> D \<Longrightarrow> x \<noteq> z" "z \<notin> D"
    "x \<in> insert z D \<Longrightarrow> al8 x \<and> x \<noteq> 0"
    by auto
qed

lemma nodes_mono: "nodes z D \<Longrightarrow> E \<subseteq> D \<Longrightarrow> nodes z E"
  unfolding nodes_def by blast

lemma dll_cons:
  assumes d: "dll w z p h xs" and n: "nodes z (insert b (set xs))" and b: "b \<notin> set xs" "distinct xs"
  shows "dll (w(b + 16 := h, b + 24 := z, h + 24 := b)) z z b (b # xs)"
proof -
  note s = nodesD(7,8) [OF n]
  have bz: "b \<noteq> z" using nodesD(5) [OF n, of b] by simp
  show ?thesis
  proof (cases xs)
    case Nil
    then show ?thesis using d bz s [of b z] s [of b b] by simp
  next
    case (Cons x ys)
    have x: "h = x" "dll w z x (w (x + 16)) ys" using d Cons by auto
    have "dll (w(b + 16 := h, b + 24 := z, h + 24 := b)) z x (w (x + 16)) ys"
      using x(2) by (rule dll_frame) (use s b x(1) Cons in auto)
    then show ?thesis using x(1) Cons b s [of b x] s [of b b] s [of x b] s [of x x] by auto
  qed
qed

lemma dll_delete:
  assumes d: "dll w z p h (xs @ b # ys)" and n: "nodes z (set (xs @ b # ys))" and dist: "distinct (xs @ b # ys)"
    and p: "p = z"
  defines "prev \<equiv> w (b + 24)" and "nx \<equiv> w (b + 16)"
  shows "dll (w(nx + 24 := prev, prev + 16 := nx)) z p (if xs = [] then nx else h) (xs @ ys)"
    "prev = last (p # xs)" "nx = hd (ys @ [z])" "xs = [] \<longleftrightarrow> h = b"
proof -
  obtain k where k: "dll w k p h xs" "k = b" "prev = last (p # xs)" "dll w z b nx ys"
    using d by (auto simp: dll_append prev_def nx_def)
  show prev: "prev = last (p # xs)" by (rule k(3))
  show "nx = hd (ys @ [z])" using k(4) by (cases ys) auto
  show "xs = [] \<longleftrightarrow> h = b" using k(1,2) dist by (cases xs) auto
  note s = nodesD(7,8) [OF n]
  let ?w = "w(nx + 24 := prev, prev + 16 := nx)"
  have ys: "dll ?w z prev nx ys"
  proof (cases ys)
    case Nil
    then show ?thesis using k(4) by simp
  next
    case (Cons y zs)
    have y: "nx = y" "dll w z y (w (y + 16)) zs" using k(4) Cons by auto
    have pr: "prev \<in> insert z (set xs)" using prev p by (cases xs) auto
    have "dll ?w z y (w (y + 16)) zs"
      using y(2) by (rule dll_frame) (use s pr dist Cons y(1) nodesD(5,6) [OF n] in auto)
    moreover have "prev \<noteq> y" using pr dist Cons nodesD(5) [OF n, of y] by auto
    ultimately show ?thesis using y(1) Cons s [of prev y] s [of y y] pr by auto
  qed
  have "dll ?w nx p (if xs = [] then nx else h) xs"
  proof (cases xs rule: rev_cases)
    case (snoc us l)
    have l: "prev = l" "dll w l p h us" "w (l + 24) = last (p # us)" "w (l + 16) = k"
      using prev k(1) snoc by (auto simp: dll_append)
    have nn: "nx \<in> insert z (set ys)" using k(4) by (cases ys) auto
    have "dll ?w l p h us"
      using l(2) by (rule dll_frame) (use s nn dist snoc l(1) nodesD(5,6) [OF n] in auto)
    moreover have "nx \<noteq> l" using nn dist snoc nodesD(5) [OF n, of l] by auto
    ultimately show ?thesis
      using l snoc s [of l nx] s [of l l] nn by (auto simp: dll_append)
  qed simp
  then show "dll ?w z p (if xs = [] then nx else h) (xs @ ys)"
    using ys prev by (auto simp: dll_append)
qed

section \<open>The free lists of the control structure\<close>

text \<open>
  \<open>K\<close> gives the class of every block that is in a list. Each head starts the list of the blocks
  of its class, and the bitmaps say which lists, and which rows of them, are not empty.
\<close>

type_synonym classes = "addr \<rightharpoonup> nat \<times> nat"

definition lists :: "(addr \<Rightarrow> u64) \<Rightarrow> addr \<Rightarrow> control_t \<Rightarrow> classes \<Rightarrow> bool" where
  "lists w z c K \<longleftrightarrow> (\<exists>L. \<forall>i j. distinct (L i j) \<and> set (L i j) = {b. K b = Some (i, j)} \<and>
     (i < FL_INDEX_COUNT \<longrightarrow> j < SL_INDEX_COUNT \<longrightarrow> dll w z z (blocks c i j) (L i j)))"

definition bitmaps :: "control_t \<Rightarrow> classes \<Rightarrow> bool" where
  "bitmaps c K \<longleftrightarrow> (\<forall>b i j. K b = Some (i, j) \<longrightarrow> i < FL_INDEX_COUNT \<and> j < SL_INDEX_COUNT) \<and>
     (\<forall>i j. i < FL_INDEX_COUNT \<longrightarrow> j < SL_INDEX_COUNT \<longrightarrow> bit (sl_bitmap c i) j = (\<exists>b. K b = Some (i, j))) \<and>
     (\<forall>i. bit (fl_bitmap c) i = (\<exists>b j. K b = Some (i, j)))"

definition free_lists :: "(addr \<Rightarrow> u64) \<Rightarrow> addr \<Rightarrow> control_t \<Rightarrow> classes \<Rightarrow> bool" where
  "free_lists w z c K \<longleftrightarrow> nodes z (dom K) \<and> lists w z c K \<and> bitmaps c K"

lemma listsE:
  assumes "lists w z c K"
  obtains L where "\<And>i j. distinct (L i j)" "\<And>i j. set (L i j) = {b. K b = Some (i, j)}"
    "\<And>i j. i < FL_INDEX_COUNT \<Longrightarrow> j < SL_INDEX_COUNT \<Longrightarrow> dll w z z (blocks c i j) (L i j)"
  using assms unfolding lists_def by blast

lemma listsI:
  assumes "\<And>i j. distinct (L i j)" "\<And>i j. set (L i j) = {b. K b = Some (i, j)}"
    "\<And>i j. i < FL_INDEX_COUNT \<Longrightarrow> j < SL_INDEX_COUNT \<Longrightarrow> dll w z z (blocks c i j) (L i j)"
  shows "lists w z c K"
  unfolding lists_def using assms by blast

lemma lists_frame:
  assumes "lists w z c K" "\<And>x. x \<in> dom K \<Longrightarrow> w' (x + 16) = w (x + 16) \<and> w' (x + 24) = w (x + 24)"
  shows "lists w' z c K"
proof -
  obtain L where L: "\<And>i j. distinct (L i j)" "\<And>i j. set (L i j) = {b. K b = Some (i, j)}"
    "\<And>i j. i < FL_INDEX_COUNT \<Longrightarrow> j < SL_INDEX_COUNT \<Longrightarrow> dll w z z (blocks c i j) (L i j)"
    using listsE [OF assms(1)] by blast
  show ?thesis
  proof (rule listsI [OF L(1,2)])
    fix i j assume ij: "i < FL_INDEX_COUNT" "j < SL_INDEX_COUNT"
    show "dll w' z z (blocks c i j) (L i j)" using L(3) [OF ij] by (rule dll_frame) (use L(2) assms(2) [OF domI] in auto)
  qed
qed

text \<open>Putting a block in front of the list of its class.\<close>

lemma lists_insert:
  assumes l: "lists w z c K" and n: "nodes z (insert b (dom K))" and b: "K b = None"
    and ij: "i < FL_INDEX_COUNT" "j < SL_INDEX_COUNT"
  defines "h \<equiv> blocks c i j"
  shows "lists (w(b + 16 := h, b + 24 := z, h + 24 := b)) z (set_head i j b c) (K(b \<mapsto> (i, j)))" (is "lists ?w _ _ ?K")
    and "h \<in> insert z (dom K)"
proof -
  obtain L where L: "\<And>i j. distinct (L i j)" "\<And>i j. set (L i j) = {b. K b = Some (i, j)}"
    "\<And>i j. i < FL_INDEX_COUNT \<Longrightarrow> j < SL_INDEX_COUNT \<Longrightarrow> dll w z z (blocks c i j) (L i j)"
    using listsE [OF l] by blast
  have h: "h = z \<or> h \<in> set (L i j)" using L(3) [OF ij] by (cases "L i j") (auto simp: h_def)
  then show hK: "h \<in> insert z (dom K)" using L(2) by auto
  let ?L = "\<lambda>i' j'. if i' = i \<and> j' = j then b # L i j else L i' j'"
  show "lists ?w z (set_head i j b c) ?K"
  proof (rule listsI [where L = ?L])
    show "distinct (?L i' j')" for i' j' using L(1,2) b by auto
    show "set (?L i' j') = {x. ?K x = Some (i', j')}" for i' j' using L(2) b by auto
    fix i' j' assume ij': "i' < FL_INDEX_COUNT" "j' < SL_INDEX_COUNT"
    show "dll ?w z z (blocks (set_head i j b c) i' j') (?L i' j')"
    proof (cases "i' = i \<and> j' = j")
      case True
      have "nodes z (insert b (set (L i j)))" using L(2) by (intro nodes_mono [OF n]) auto
      then have "dll ?w z z b (b # L i j)"
        using dll_cons [OF L(3) [OF ij]] L(1,2) b by (auto simp: h_def)
      then show ?thesis using True by (simp add: set_head_def)
    next
      case False
      note s = nodesD(7,8) [OF n]
      have "dll ?w z z (blocks c i' j') (L i' j')"
        using L(3) [OF ij']
      proof (rule dll_frame)
        fix x assume x: "x \<in> set (L i' j')"
        then have "x \<in> insert z (insert b (dom K))" "x \<noteq> b" "x \<noteq> z" "h \<in> insert z (insert b (dom K))" "x \<noteq> h"
          using L(2) b nodesD(5) [OF n, of x] hK h False by auto
        then show "?w (x + 16) = w (x + 16) \<and> ?w (x + 24) = w (x + 24)"
          using s [of x b] s [of b x] s [of x h] s [of h x] by auto
      qed
      then show ?thesis using False by (auto simp: set_head_def)
    qed
  qed
qed

text \<open>Taking a block out of its list.\<close>

lemma lists_remove:
  assumes l: "lists w z c K" and n: "nodes z (dom K)" and b: "K b = Some (i, j)"
    and ij: "i < FL_INDEX_COUNT" "j < SL_INDEX_COUNT"
  defines "pv \<equiv> w (b + 24)" and "nx \<equiv> w (b + 16)"
  defines "c' \<equiv> if blocks c i j = b then set_head i j nx c else c"
  shows "lists (w(nx + 24 := pv, pv + 16 := nx)) z c' (K(b := None))" (is "lists ?w _ _ ?K")
    and "pv \<in> insert z (dom K - {b})" "nx \<in> insert z (dom K - {b})"
    and "blocks c i j = b \<Longrightarrow> nx = z \<longleftrightarrow> (\<forall>x. (K(b := None)) x \<noteq> Some (i, j))"
      "blocks c i j \<noteq> b \<Longrightarrow> \<exists>x. (K(b := None)) x = Some (i, j)"
proof -
  obtain L where L: "\<And>i j. distinct (L i j)" "\<And>i j. set (L i j) = {b. K b = Some (i, j)}"
    "\<And>i j. i < FL_INDEX_COUNT \<Longrightarrow> j < SL_INDEX_COUNT \<Longrightarrow> dll w z z (blocks c i j) (L i j)"
    using listsE [OF l] by blast
  have "b \<in> set (L i j)" using L(2) b by simp
  then obtain xs ys where xy: "L i j = xs @ b # ys" by (meson split_list)
  have nn: "nodes z (set (xs @ b # ys))" using L(2) [of i j] xy by (intro nodes_mono [OF n]) auto
  have di: "distinct (xs @ b # ys)" using L(1) [of i j] xy by simp
  note dd = dll_delete [OF L(3) [OF ij, unfolded xy] nn di refl, folded pv_def nx_def]
  have sub: "set xs \<union> set ys \<subseteq> dom K - {b}" using L(2) [of i j] xy di by auto
  have "pv \<in> insert z (set xs)" using dd(2) by (cases xs) auto
  then have pvl: "pv = z \<or> K pv = Some (i, j)" and pv': "pv \<in> insert z (dom K - {b})"
    using sub L(2) [of i j] xy by auto
  then show pv: "pv \<in> insert z (dom K - {b})" by simp
  have "nx \<in> insert z (set ys)" using dd(3) by (cases ys) auto
  then have nxl: "nx = z \<or> K nx = Some (i, j)" and nx': "nx \<in> insert z (dom K - {b})"
    using sub L(2) [of i j] xy by auto
  then show nx: "nx \<in> insert z (dom K - {b})" by simp
  have rest: "(\<exists>x. ?K x = Some (i, j)) \<longleftrightarrow> xs @ ys \<noteq> []"
  proof -
    have "{x. ?K x = Some (i, j)} = set (xs @ ys)"
      using L(2) [of i j] xy di by (auto split: if_splits)
    then show ?thesis by (metis (mono_tags, lifting) empty_Collect_eq set_empty)
  qed
  have zy: "z \<notin> set ys" using nodesD(6) [OF nn] by auto
  show "nx = z \<longleftrightarrow> (\<forall>x. ?K x \<noteq> Some (i, j))" if "blocks c i j = b"
  proof -
    have "xs = []" using dd(4) that by simp
    then have "nx = z \<longleftrightarrow> xs @ ys = []" using dd(3) zy by (cases ys) auto
    then show ?thesis using rest by metis
  qed
  show "\<exists>x. ?K x = Some (i, j)" if "blocks c i j \<noteq> b" using rest dd(4) that by simp
  let ?L = "\<lambda>i' j'. if i' = i \<and> j' = j then xs @ ys else L i' j'"
  show "lists ?w z c' ?K"
  proof (rule listsI [where L = ?L])
    show "distinct (?L i' j')" for i' j' using L(1) di by auto
    show "set (?L i' j') = {x. ?K x = Some (i', j')}" for i' j'
      using L(2) [of i' j'] xy di b by (cases "i' = i \<and> j' = j") auto
    fix i' j' assume ij': "i' < FL_INDEX_COUNT" "j' < SL_INDEX_COUNT"
    show "dll ?w z z (blocks c' i' j') (?L i' j')"
    proof (cases "i' = i \<and> j' = j")
      case True
      then show ?thesis using dd(1,4) by (auto simp: c'_def set_head_def split: if_splits)
    next
      case False
      note s = nodesD(7,8) [OF n]
      have "dll ?w z z (blocks c i' j') (L i' j')"
        using L(3) [OF ij']
      proof (rule dll_frame)
        fix x assume x: "x \<in> set (L i' j')"
        then have "x \<in> dom K" "x \<noteq> z" "x \<noteq> pv" "x \<noteq> nx"
          using L(2) [of i' j'] nodesD(5) [OF n, of x] pvl nxl False by auto
        then show "?w (x + 16) = w (x + 16) \<and> ?w (x + 24) = w (x + 24)"
          using s [of x nx] s [of pv x] pv nx by auto
      qed
      then show ?thesis using False by (auto simp: c'_def set_head_def)
    qed
  qed
qed

section \<open>The bitmaps\<close>

lemma bitmapsD:
  assumes "bitmaps c K"
  shows "K b = Some (i, j) \<Longrightarrow> i < FL_INDEX_COUNT" "K b = Some (i, j) \<Longrightarrow> j < SL_INDEX_COUNT"
    "i < FL_INDEX_COUNT \<Longrightarrow> j < SL_INDEX_COUNT \<Longrightarrow> bit (sl_bitmap c i) j = (\<exists>b. K b = Some (i, j))"
    "bit (fl_bitmap c) i = (\<exists>b j. K b = Some (i, j))"
  using assms unfolding bitmaps_def by blast+

lemma bitmapsI:
  assumes "\<And>b i j. K b = Some (i, j) \<Longrightarrow> i < FL_INDEX_COUNT \<and> j < SL_INDEX_COUNT"
    "\<And>i j. i < FL_INDEX_COUNT \<Longrightarrow> j < SL_INDEX_COUNT \<Longrightarrow> bit (sl_bitmap c i) j = (\<exists>b. K b = Some (i, j))"
    "\<And>i. bit (fl_bitmap c) i = (\<exists>b j. K b = Some (i, j))"
  shows "bitmaps c K"
  unfolding bitmaps_def using assms by blast

lemma bit_push_1: "bit (push_bit n 1 :: u32) k \<longleftrightarrow> k = n \<and> n < 32" "bit (2 ^ n :: u32) k \<longleftrightarrow> k = n \<and> n < 32"
  by (auto simp: bit_simps)

lemma ex_class_add:
  fixes K :: classes
  assumes "K b = None"
  shows "(\<exists>x. (K(b \<mapsto> v)) x = Some u) \<longleftrightarrow> u = v \<or> (\<exists>x. K x = Some u)"
proof -
  have "(\<exists>x. M x = Some u) \<longleftrightarrow> u \<in> ran M" for M :: classes by (simp add: ran_def)
  then show ?thesis unfolding ran_map_upd [of K b v, OF assms] by (metis insert_iff ran_map_upd [of K b v, OF assms])
qed

lemma ex_class_drop:
  fixes K :: classes
  assumes "K b = Some v" "u \<noteq> v"
  shows "(\<exists>x. (K(b := None)) x = Some u) \<longleftrightarrow> (\<exists>x. K x = Some u)"
proof
  assume "\<exists>x. K x = Some u"
  then obtain x where "K x = Some u" ..
  then show "\<exists>x. (K(b := None)) x = Some u" using assms by (intro exI [of _ x]) auto
next
  assume "\<exists>x. (K(b := None)) x = Some u"
  then show "\<exists>x. K x = Some u" by (auto split: if_splits)
qed

definition mark_class :: "nat \<Rightarrow> nat \<Rightarrow> control_t \<Rightarrow> control_t" where
  "mark_class i j c = c\<lparr>fl_bitmap := fl_bitmap c OR push_bit i 1,
     sl_bitmap := (sl_bitmap c)(i := sl_bitmap c i OR push_bit j 1)\<rparr>"

definition clear_class :: "nat \<Rightarrow> nat \<Rightarrow> control_t \<Rightarrow> control_t" where
  "clear_class i j c = (
     let c = c\<lparr>sl_bitmap := (sl_bitmap c)(i := sl_bitmap c i AND NOT (push_bit j 1))\<rparr>
     in if sl_bitmap c i = 0 then c\<lparr>fl_bitmap := fl_bitmap c AND NOT (push_bit i 1)\<rparr> else c)"

lemma bitmaps_heads: "bitmaps (set_head i j h c) K = bitmaps c K"
  by (simp add: bitmaps_def set_head_def)

lemma mark_class_heads: "blocks (mark_class i j c) = blocks c" "blocks (clear_class i j c) = blocks c"
  by (simp_all add: mark_class_def clear_class_def Let_def)

lemma lists_blocks: "blocks c' = blocks c \<Longrightarrow> lists w z c' K = lists w z c K"
  by (simp add: lists_def)

lemma bitmaps_mark:
  assumes m: "bitmaps c K" and ij: "i < FL_INDEX_COUNT" "j < SL_INDEX_COUNT" and b: "K b = None"
  shows "bitmaps (mark_class i j c) (K(b \<mapsto> (i, j)))"
proof (rule bitmapsI)
  show "i' < FL_INDEX_COUNT \<and> j' < SL_INDEX_COUNT" if "(K(b \<mapsto> (i, j))) x = Some (i', j')" for x i' j'
    using that ij bitmapsD(1,2) [OF m] by (auto split: if_splits)
  have ex: "(\<exists>x. (K(b \<mapsto> (i, j))) x = Some (i', j')) \<longleftrightarrow> (i' = i \<and> j' = j) \<or> (\<exists>x. K x = Some (i', j'))" for i' j'
    using ex_class_add [of K b, OF b] by auto
  then have exr: "(\<exists>x j'. (K(b \<mapsto> (i, j))) x = Some (i', j')) \<longleftrightarrow> i' = i \<or> (\<exists>x j'. K x = Some (i', j'))" for i'
    by blast
  show "bit (sl_bitmap (mark_class i j c) i') j' = (\<exists>x. (K(b \<mapsto> (i, j))) x = Some (i', j'))"
    if "i' < FL_INDEX_COUNT" "j' < SL_INDEX_COUNT" for i' j'
    unfolding ex using bitmapsD(3) [OF m that] ij by (auto simp: mark_class_def bit_or_iff bit_push_1)
  show "bit (fl_bitmap (mark_class i j c)) i' = (\<exists>x j'. (K(b \<mapsto> (i, j))) x = Some (i', j'))" for i'
    unfolding exr using bitmapsD(4) [OF m] ij by (auto simp: mark_class_def bit_or_iff bit_push_1)
qed

lemma row_empty:
  assumes m: "bitmaps c K" and i: "i < FL_INDEX_COUNT"
  shows "sl_bitmap c i = 0 \<longleftrightarrow> (\<forall>x j. K x \<noteq> Some (i, j))"
proof
  assume "sl_bitmap c i = 0"
  then show "\<forall>x j. K x \<noteq> Some (i, j)"
    using bitmapsD(2,3) [OF m] i by (metis bit_0_eq bot_apply bot_bool_def)
next
  assume e: "\<forall>x j. K x \<noteq> Some (i, j)"
  show "sl_bitmap c i = 0"
  proof (rule bit_word_eqI)
    fix j assume "j < LENGTH(32)"
    then show "bit (sl_bitmap c i) j = bit 0 j" using bitmapsD(3) [OF m i, of j] e by simp
  qed
qed

lemma bitmaps_keep:
  assumes m: "bitmaps c K" and b: "K b = Some (i, j)" and x: "(K(b := None)) x = Some (i, j)"
  shows "bitmaps c (K(b := None))"
proof -
  have ex: "(\<exists>y. (K(b := None)) y = Some (i', j')) \<longleftrightarrow> (\<exists>y. K y = Some (i', j'))" for i' j'
    using ex_class_drop [of K b, OF b] x b by (cases "(i', j') = (i, j)") blast+
  show ?thesis
  proof (rule bitmapsI)
    show "i' < FL_INDEX_COUNT \<and> j' < SL_INDEX_COUNT" if "(K(b := None)) y = Some (i', j')" for y i' j'
      using that bitmapsD(1,2) [OF m] by (auto split: if_splits)
    show "bit (sl_bitmap c i') j' = (\<exists>y. (K(b := None)) y = Some (i', j'))"
      if "i' < FL_INDEX_COUNT" "j' < SL_INDEX_COUNT" for i' j'
      unfolding ex using bitmapsD(3) [OF m that] .
    show "bit (fl_bitmap c) i' = (\<exists>y j'. (K(b := None)) y = Some (i', j'))" for i'
      using bitmapsD(4) [OF m, of i'] ex by blast
  qed
qed

lemma bitmaps_clear:
  assumes m: "bitmaps c K" and b: "K b = Some (i, j)" and x: "\<forall>x. (K(b := None)) x \<noteq> Some (i, j)"
  shows "bitmaps (clear_class i j c) (K(b := None))"
proof (rule bitmapsI)
  note ij = bitmapsD(1,2) [OF m b]
  let ?K = "K(b := None)" and ?c = "c\<lparr>sl_bitmap := (sl_bitmap c)(i := sl_bitmap c i AND NOT (push_bit j 1))\<rparr>"
  show "i' < FL_INDEX_COUNT \<and> j' < SL_INDEX_COUNT" if "?K x = Some (i', j')" for x i' j'
    using that bitmapsD(1,2) [OF m] by (auto split: if_splits)
  have ex: "(\<exists>x. ?K x = Some (i', j')) \<longleftrightarrow> (\<exists>x. K x = Some (i', j')) \<and> \<not> (i' = i \<and> j' = j)" for i' j'
    using ex_class_drop [of K b, OF b] x by (cases "(i', j') = (i, j)") blast+
  have sl: "bit (sl_bitmap ?c i') j' = (\<exists>x. ?K x = Some (i', j'))" if "i' < FL_INDEX_COUNT" "j' < SL_INDEX_COUNT" for i' j'
    unfolding ex using bitmapsD(3) [OF m that] that ij by (auto simp: bit_and_iff bit_not_iff bit_push_1)
  have c: "sl_bitmap (clear_class i j c) = sl_bitmap ?c" by (simp add: clear_class_def Let_def)
  show "bit (sl_bitmap (clear_class i j c) i') j' = (\<exists>x. ?K x = Some (i', j'))"
    if "i' < FL_INDEX_COUNT" "j' < SL_INDEX_COUNT" for i' j'
    unfolding c by (rule sl [OF that])
  have z: "sl_bitmap ?c i = 0 \<longleftrightarrow> (\<forall>x j'. ?K x \<noteq> Some (i, j'))"
  proof
    assume "sl_bitmap ?c i = 0"
    then show "\<forall>x j'. ?K x \<noteq> Some (i, j')"
      using sl [OF ij(1)] bitmapsD(2) [OF m] by (metis bit_0_eq bot_apply bot_bool_def fun_upd_apply option.distinct(1))
  next
    assume e: "\<forall>x j'. ?K x \<noteq> Some (i, j')"
    show "sl_bitmap ?c i = 0"
      by (rule bit_word_eqI) (use sl [OF ij(1)] e in simp)
  qed
  have exr: "(\<exists>x j'. ?K x = Some (i', j')) \<longleftrightarrow> (\<exists>x j'. K x = Some (i', j'))" if "i' \<noteq> i" for i'
    using ex that by blast
  have "i < 32" using ij by simp
  show "bit (fl_bitmap (clear_class i j c)) i' = (\<exists>x j'. ?K x = Some (i', j'))" for i'
  proof (cases "i' = i")
    case True
    have "bit (fl_bitmap c) i" using bitmapsD(4) [OF m] b by blast
    then show ?thesis
      unfolding True using z \<open>i < 32\<close> by (auto simp: clear_class_def Let_def bit_and_iff bit_not_iff bit_push_1)
  next
    case False
    then have "bit (fl_bitmap (clear_class i j c)) i' = bit (fl_bitmap c) i'"
      using bit_imp_le_length [of "fl_bitmap c" i']
      by (auto simp: clear_class_def Let_def bit_and_iff bit_not_iff bit_push_1)
    then show ?thesis unfolding exr [OF False] using bitmapsD(4) [OF m] by simp
  qed
qed

section \<open>The operations on the lists\<close>

lemma align_ptr_al8: "al8 p \<Longrightarrow> align_ptr p 8 = Some p"
proof -
  assume a: "al8 p"
  then have m: "unat p mod 8 = 0" by (simp add: al8_def)
  then have u: "unat (p + 7) = unat p + 7" using unat64_lt [of p] by (subst unat_add64) (simp, presburger, simp)
  have "unat ((p + 7) AND NOT (mask 3)) = unat p + 7 - (unat p + 7) mod 8"
    by (simp add: unat_align_down_mask u)
  also have "(unat p + 7) mod 8 = 7" using m by presburger
  finally have "(p + 7) AND NOT (mask 3) = p" by (simp add: word_unat_eq_iff)
  then show ?thesis by (simp add: align_ptr_def tlsf_assert_def Let_def mask_eq_exp_minus_1)
qed

lemma insert_free_block_ok:
  assumes f: "free_lists (words (mem m)) ctl (control m) K" and n: "nodes ctl (insert b (dom K))" and b: "K b = None"
    and ij: "i < FL_INDEX_COUNT" "j < SL_INDEX_COUNT"
  obtains h M c where "h \<in> insert ctl (dom K)" "insert_free_block ctl b i j m = Some (m\<lparr>mem := M, control := c\<rparr>)"
    "words M = (words (mem m))(b + 16 := h, b + 24 := ctl, h + 24 := b)" "free_lists (words M) ctl c (K(b \<mapsto> (i, j)))"
proof -
  let ?h = "blocks (control m) i j"
  let ?w = "(words (mem m))(b + 16 := ?h, b + 24 := ctl, ?h + 24 := b)"
  let ?c = "mark_class i j (set_head i j b (control m))"
  have f: "lists (words (mem m)) ctl (control m) K" "bitmaps (control m) K" using f by (simp_all add: free_lists_def)
  note li = lists_insert [OF f(1) n b ij]
  have h: "al8 ?h" "?h \<noteq> 0" "al8 b" "b \<noteq> 0" using nodesD(9) [OF n, of ?h] nodesD(9) [OF n, of b] li(2) by auto
  let ?M = "store64 (store64 (store64 (mem m) (b + 16) ?h) (b + 24) ctl) (?h + 24) b"
  have "insert_free_block ctl b i j m = Some (m\<lparr>mem := ?M, control := ?c\<rparr>)"
    using h ij align_ptr_al8 [of "b + 16"]
    by (simp add: insert_free_block_def head_at_def tlsf_assert_def next_free_field_def prev_free_field_def
        block_to_ptr_def mark_class_def set_head_def)
  moreover have w: "words ?M = ?w" using h by simp
  moreover have "free_lists ?w ctl ?c (K(b \<mapsto> (i, j)))"
  proof -
    have "lists ?w ctl ?c (K(b \<mapsto> (i, j)))" using li(1) lists_blocks [OF mark_class_heads(1)] by blast
    moreover have "bitmaps ?c (K(b \<mapsto> (i, j)))" using bitmaps_mark [of _ K, OF _ ij b] bitmaps_heads f(2) by blast
    moreover have "dom (K(b \<mapsto> (i, j))) = insert b (dom K)" by simp
    ultimately show ?thesis using n by (simp add: free_lists_def)
  qed
  ultimately show ?thesis using that [of ?h ?c ?M] li(2) by simp
qed

lemma remove_free_block_ok:
  assumes f: "free_lists (words (mem m)) ctl (control m) K" and b: "K b = Some (i, j)"
  obtains p n M c where "p \<in> insert ctl (dom K - {b})" "n \<in> insert ctl (dom K - {b})"
    "remove_free_block ctl b i j m = Some (m\<lparr>mem := M, control := c\<rparr>)"
    "words M = (words (mem m))(n + 24 := p, p + 16 := n)" "free_lists (words M) ctl c (K(b := None))"
proof -
  let ?w = "words (mem m)"
  let ?p = "?w (b + 24)" and ?n = "?w (b + 16)"
  let ?W = "?w(?n + 24 := ?p, ?p + 16 := ?n)"
  have f: "nodes ctl (dom K)" "lists ?w ctl (control m) K" "bitmaps (control m) K" using f by (simp_all add: free_lists_def)
  note ij = bitmapsD(1,2) [OF f(3) b]
  note lr = lists_remove [OF f(2,1) b ij]
  have al: "al8 b" using nodesD(3) [OF f(1)] b by blast
  have pn: "al8 ?p" "?p \<noteq> 0" "al8 ?n" "?n \<noteq> 0"
    using nodesD(9) [OF f(1), of ?p] nodesD(9) [OF f(1), of ?n] lr(2,3) by auto
  let ?M = "store64 (store64 (mem m) (?n + 24) ?p) (?p + 16) ?n"
  let ?h = "set_head i j ?n (control m)"
  define c where "c = (if blocks (control m) i j = b then if ?n = ctl then clear_class i j ?h else ?h else control m)"
  have "remove_free_block ctl b i j m = Some (m\<lparr>mem := ?M, control := c\<rparr>)"
    using pn ij al
    by (simp add: remove_free_block_def head_at_def tlsf_assert_def next_free_field_def prev_free_field_def
        words_load c_def clear_class_def Let_def)
  moreover have "words ?M = ?W" using pn by simp
  moreover have "free_lists ?W ctl c (K(b := None))"
  proof -
    have "lists ?W ctl c (K(b := None))"
      using lr(1) lists_blocks [OF mark_class_heads(2)] by (auto simp: c_def split: if_splits)
    moreover have "bitmaps c (K(b := None))"
    proof (cases "blocks (control m) i j = b")
      case True
      show ?thesis
      proof (cases "?n = ctl")
        case e: True
        then have "\<forall>x. (K(b := None)) x \<noteq> Some (i, j)" using lr(4) [OF True] by blast
        then show ?thesis using bitmaps_clear [of ?h K] b True e bitmaps_heads f(3) by (simp add: c_def)
      next
        case e: False
        then obtain x where "(K(b := None)) x = Some (i, j)" using lr(4) [OF True] by blast
        then show ?thesis using bitmaps_keep [OF f(3) b] True e bitmaps_heads by (simp add: c_def)
      qed
    next
      case False
      then show ?thesis using bitmaps_keep [OF f(3) b] lr(5) by (auto simp: c_def)
    qed
    moreover have "nodes ctl (dom (K(b := None)))" using f(1) by (rule nodes_mono) auto
    ultimately show ?thesis by (simp add: free_lists_def)
  qed
  ultimately show ?thesis using that [of ?p ?n c ?M] lr(2,3) by simp
qed

text \<open>The search finds a block of the smallest non-empty class from the given one on.\<close>

lemma head_in_class:
  assumes "free_lists w z c K" "\<exists>b. K b = Some (i, j)"
  shows "K (blocks c i j) = Some (i, j)"
proof -
  obtain L where L: "\<And>i j. set (L i j) = {b. K b = Some (i, j)}"
    "\<And>i j. i < FL_INDEX_COUNT \<Longrightarrow> j < SL_INDEX_COUNT \<Longrightarrow> dll w z z (blocks c i j) (L i j)"
    using assms(1) listsE unfolding free_lists_def by metis
  obtain b where b: "K b = Some (i, j)" using assms(2) ..
  then have ij: "i < FL_INDEX_COUNT" "j < SL_INDEX_COUNT" using assms(1) bitmapsD(1,2) unfolding free_lists_def by blast+
  have "b \<in> set (L i j)" using L(1) b by simp
  then obtain x xs where "L i j = x # xs" by (cases "L i j") auto
  then have "blocks c i j \<in> set (L i j)" using L(2) [OF ij] by simp
  then show ?thesis using L(1) by simp
qed

lemma first_of_ok:
  assumes f: "free_lists w z c K" and i: "i < FL_INDEX_COUNT" and s: "s \<noteq> 0"
    and bits: "\<And>j. bit s j \<longleftrightarrow> j < SL_INDEX_COUNT \<and> P j \<and> (\<exists>b. K b = Some (i, j))"
  obtains b j where "first_of c i s = Some (b, i, j)" "K b = Some (i, j)" "P j"
proof -
  obtain j where j: "j < 32" "low_bit s j" using low_bit_ex [OF s] by blast
  then have "bit s j" by (simp add: low_bit_def)
  then have "P j" "K (blocks c i j) = Some (i, j)" using bits head_in_class [OF f] by blast+
  moreover have "first_of c i s = Some (blocks c i j, i, j)"
    using j i s by (simp add: first_of_def tlsf_assert_def tlsf_ffs_low head_at_def)
  ultimately show ?thesis using that by blast
qed

lemma bit_from: "bit (m AND push_bit k (NOT 0) :: u32) n \<longleftrightarrow> bit m n \<and> k \<le> n"
  using bit_imp_le_length [of m n] by (auto simp: bit_simps)

lemma search_suitable_block_ok:
  assumes f: "free_lists w z c K" and ij: "i < FL_INDEX_COUNT" "j < SL_INDEX_COUNT"
  shows "(\<exists>b i' j'. search_suitable_block c i j = Some (b, i', j') \<and> K b = Some (i', j') \<and> class_le (i, j) (i', j')) \<or>
    (\<exists>i' j'. search_suitable_block c i j = Some (NULL, i', j') \<and> (\<forall>b k. K b = Some k \<longrightarrow> \<not> class_le (i, j) k))"
proof -
  have bm: "bitmaps c K" using f by (simp add: free_lists_def)
  let ?sl = "sl_bitmap c i AND push_bit j (NOT 0)"
  have sl: "bit ?sl k \<longleftrightarrow> k < SL_INDEX_COUNT \<and> j \<le> k \<and> (\<exists>b. K b = Some (i, k))" for k
    unfolding bit_from using bitmapsD(3) [OF bm ij(1), of k] bitmapsD(2) [OF bm] bit_imp_le_length [of "sl_bitmap c i" k]
    by auto
  show ?thesis
  proof (cases "?sl = 0")
    case False
    obtain b k where "first_of c i ?sl = Some (b, i, k)" "K b = Some (i, k)" "j \<le> k"
      using first_of_ok [OF f ij(1) False, of "\<lambda>k. j \<le> k"] sl by blast
    then show ?thesis using ij False by (auto simp: search_suitable_block_def sl_at_def Let_def class_le_def)
  next
    case True
    have row: "K b \<noteq> Some (i, k)" if "j \<le> k" for b k
      using sl [of k] True that bitmapsD(2) [OF bm, of b i k] by auto
    let ?fl = "fl_bitmap c AND push_bit (i + 1) (NOT 0)"
    have fl: "bit ?fl k \<longleftrightarrow> i < k \<and> (\<exists>b j. K b = Some (k, j))" for k
      unfolding bit_from using bitmapsD(4) [OF bm] by auto
    show ?thesis
    proof (cases "?fl = 0")
      case e: True
      then have "K b \<noteq> Some (k, j')" if "i < k" for b k j' using fl [of k] that by auto
      then have "\<not> class_le (i, j) k" if "K b = Some k" for b k
        using that row by (cases k) (auto simp: class_le_def)
      then show ?thesis using ij True e by (auto simp: search_suitable_block_def sl_at_def Let_def)
    next
      case e: False
      obtain k where k: "k < 32" "low_bit ?fl k" using low_bit_ex [OF e] by blast
      then have k': "i < k" "\<exists>b j. K b = Some (k, j)" using fl [of k] by (auto simp: low_bit_def)
      then have kk: "k < FL_INDEX_COUNT" using bitmapsD(1) [OF bm] by blast
      have "sl_bitmap c k \<noteq> 0" using row_empty [OF bm kk] k'(2) by blast
      moreover have "bit (sl_bitmap c k) j' \<longleftrightarrow> j' < SL_INDEX_COUNT \<and> True \<and> (\<exists>b. K b = Some (k, j'))" for j'
        using bitmapsD(3) [OF bm kk, of j'] bit_imp_le_length [of "sl_bitmap c k" j'] by auto
      ultimately obtain b j' where "first_of c k (sl_bitmap c k) = Some (b, k, j')" "K b = Some (k, j')"
        using first_of_ok [OF f kk, of "sl_bitmap c k" "\<lambda>_. True"] by blast
      then show ?thesis using ij True e kk k'(1) tlsf_ffs_low [OF k(2)]
        by (auto simp: search_suitable_block_def sl_at_def Let_def class_le_def)
    qed
  qed
qed

end
