(* ===== verification/Hive_Heap.thy ===== *)
theory Hive_Heap
  imports Hive_Freelist
begin

text \<open>
  The heap invariant of \<^verbatim>\<open>mm/tlsf.c\<close> and the proofs that \<^verbatim>\<open>tlsf_malloc\<close> and \<^verbatim>\<open>tlsf_free\<close> keep it:
  the headers in memory describe a chain of blocks, the free blocks are in the lists of their
  classes, and no two free blocks are neighbours. Each lemma also says which words an operation
  may have written: those of the control structure, of headers and of free blocks.
\<close>

section \<open>Reading headers\<close>

lemma header_reads:
  assumes g: "geom lo hi S" and h: "headers (words M) S F" and b: "S b = Some s"
  shows "block_size M b = s" "block_is_free M b \<longleftrightarrow> b \<in> F" "block_is_prev_free M b \<longleftrightarrow> b \<in> nxt S ` F"
    "block_is_last M b \<longleftrightarrow> s = 0" "s \<noteq> 0 \<Longrightarrow> block_next M b = Some (nxt S b)"
    "load64 M (b + 8) = tag s (b \<in> F) (b \<in> nxt S ` F)"
proof -
  note gb = geom_block [OF g b]
  show l: "load64 M (b + 8) = tag s (b \<in> F) (b \<in> nxt S ` F)"
    using headersD(2) [OF h b] gb(1) by (simp add: words_load)
  show s: "block_size M b = s"
    using l tag_bits(1) [OF gb(2)] by (simp add: block_size_def size_field_def or_1_2 tag_bits_neg [OF gb(2)])
  show "block_is_free M b \<longleftrightarrow> b \<in> F" "block_is_prev_free M b \<longleftrightarrow> b \<in> nxt S ` F"
    using l tag_bits(2,3) [OF gb(2)] by (simp_all add: block_is_free_def block_is_prev_free_def size_field_def)
  show "block_is_last M b \<longleftrightarrow> s = 0" by (simp add: block_is_last_def s)
  then show "s \<noteq> 0 \<Longrightarrow> block_next M b = Some (nxt S b)"
    using b by (simp add: block_next_def tlsf_assert_def offset_to_block_def block_to_ptr_def s nxt_def Let_def algebra_simps)
qed

section \<open>The heap\<close>

text \<open>
  The invariant between and inside the operations: \<open>K\<close> says which free blocks are in the lists.
  Between the operations it is all of them, each in the class of its size, and no free block has
  a free neighbour.
\<close>

definition heap_at ::
    "addr \<Rightarrow> nat \<Rightarrow> nat \<Rightarrow> (addr \<Rightarrow> u64) \<Rightarrow> control_t \<Rightarrow> sizes \<Rightarrow> addr set \<Rightarrow> classes \<Rightarrow> bool" where
  "heap_at ctl lo hi w c S F K \<longleftrightarrow> unat ctl + 32 \<le> lo \<and> geom lo hi S \<and> headers w S F \<and>
     free_lists w ctl c K \<and> dom K \<subseteq> F"

definition size_classes :: "sizes \<Rightarrow> addr set \<Rightarrow> classes" where
  "size_classes S F b = (if b \<in> F then Some (mapping_insert (the (S b))) else None)"

definition heap ::
    "addr \<Rightarrow> nat \<Rightarrow> nat \<Rightarrow> (addr \<Rightarrow> u64) \<Rightarrow> control_t \<Rightarrow> sizes \<Rightarrow> addr set \<Rightarrow> bool" where
  "heap ctl lo hi w c S F \<longleftrightarrow> heap_at ctl lo hi w c S F (size_classes S F) \<and> (\<forall>b \<in> F. nxt S b \<notin> F)"

lemma dom_size_classes [simp]: "dom (size_classes S F) = F"
  by (auto simp: size_classes_def split: if_splits)

lemma heap_atD:
  assumes "heap_at ctl lo hi w c S F K"
  shows "unat ctl + 32 \<le> lo" "geom lo hi S" "headers w S F" "free_lists w ctl c K" "dom K \<subseteq> F"
    "al8 ctl" "ctl \<noteq> 0"
proof -
  show "unat ctl + 32 \<le> lo" "geom lo hi S" "headers w S F" "free_lists w ctl c K" "dom K \<subseteq> F"
    using assms unfolding heap_at_def by simp_all
  then have n: "nodes ctl (dom K)" unfolding free_lists_def by blast
  show "al8 ctl" using n by (rule nodesD(1))
  show "ctl \<noteq> 0" using n by (rule nodesD(2))
qed

lemma nodes_blocks:
  assumes c: "unat ctl + 32 \<le> lo" "al8 ctl" "ctl \<noteq> 0" and g: "geom lo hi S"
    and D: "\<And>x. x \<in> D \<Longrightarrow> \<exists>s. S x = Some s \<and> s \<noteq> 0"
  shows "nodes ctl D"
proof -
  have cu: "unat (ctl + 16) = unat ctl + 16" "unat (ctl + 24) = unat ctl + 24" if "x \<in> D" for x
  proof -
    obtain s where s: "S x = Some s" using D [OF \<open>x \<in> D\<close>] by blast
    have "lo < 18446744073709551616" using geom_block(3,4,5) [OF g s] by simp
    then show "unat (ctl + 16) = unat ctl + 16" "unat (ctl + 24) = unat ctl + 24"
      using c(1) by (simp_all add: unat_add64)
  qed
  have x: "al8 x" "x \<noteq> 0" "x \<noteq> ctl" "x + 16 \<noteq> ctl + 24" "ctl + 16 \<noteq> x + 24" if xD: "x \<in> D" for x
  proof -
    obtain s where s: "S x = Some s" "s \<noteq> 0" using D [OF xD] by blast
    note gb = geom_block [OF g s(1)] and gr = geom_real [OF g s]
    show "al8 x" "x \<noteq> 0" using gb by blast+
    show "x \<noteq> ctl" using gb(3) c(1) by auto
    have "unat (x + 16) \<noteq> unat (ctl + 24)" "unat (ctl + 16) \<noteq> unat (x + 24)"
      unfolding gr(4,5) cu [OF xD] using gb(3) c(1) by linarith+
    then show "x + 16 \<noteq> ctl + 24" "ctl + 16 \<noteq> x + 24" by metis+
  qed
  have "x + 16 \<noteq> y + 24" if "x \<in> D" "y \<in> D" for x y
    using D [OF that(1)] D [OF that(2)] fields_apart(5) [OF g] by blast
  then show ?thesis unfolding nodes_def using x c by auto
qed

text \<open>Where the operations may write.\<close>

definition meta :: "addr \<Rightarrow> sizes \<Rightarrow> addr set \<Rightarrow> addr set" where
  "meta ctl S F = {ctl + 16, ctl + 24} \<union> (\<lambda>b. b + 8) ` dom S \<union> {a. \<exists>b \<in> F. own S b a}"

definition within :: "addr set \<Rightarrow> (addr \<Rightarrow> u64) \<Rightarrow> (addr \<Rightarrow> u64) \<Rightarrow> bool" where
  "within A w w' \<longleftrightarrow> (\<forall>a. a \<notin> A \<longrightarrow> w' a = w a)"

lemma within_refl [simp]: "within A w w"
  and within_upd: "within A w w' \<Longrightarrow> a \<in> A \<Longrightarrow> within A w (w'(a := v))"
  and within_trans: "within A w w' \<Longrightarrow> within A w' w'' \<Longrightarrow> within A w w''"
  and within_mono: "within A w w' \<Longrightarrow> A \<subseteq> B \<Longrightarrow> within B w w'"
  by (auto simp: within_def)

lemma in_meta:
  "ctl + 16 \<in> meta ctl S F" "ctl + 24 \<in> meta ctl S F" "S b = Some s \<Longrightarrow> b + 8 \<in> meta ctl S F"
  "b \<in> F \<Longrightarrow> own S b a \<Longrightarrow> a \<in> meta ctl S F"
  by (auto simp: meta_def)

text \<open>Stores to headers keep the lists, and stores to links keep the headers.\<close>

lemma free_lists_frame:
  "free_lists w z c K \<Longrightarrow> (\<And>x. x \<in> dom K \<Longrightarrow> w' (x + 16) = w (x + 16) \<and> w' (x + 24) = w (x + 24)) \<Longrightarrow> free_lists w' z c K"
  using lists_frame unfolding free_lists_def by blast

lemma links_off_headers:
  assumes h: "heap_at ctl lo hi w c S F K" and x: "x \<in> insert ctl F"
  shows "S b = Some s \<Longrightarrow> b + 8 \<noteq> x + 16 \<and> b + 8 \<noteq> x + 24" "b \<in> F \<Longrightarrow> nxt S b \<noteq> x + 16 \<and> nxt S b \<noteq> x + 24"
    "x + 16 \<in> meta ctl S F" "x + 24 \<in> meta ctl S F"
proof -
  note g = heap_atD(2) [OF h]
  have cu: "unat (ctl + 16) = unat ctl + 16" "unat (ctl + 24) = unat ctl + 24" "lo \<le> unat b + 8" "unat (b + 8) = unat b + 8"
    "unat (nxt S b) = unat b + 8 + unat s"
    if "S b = Some s" for b s
    using geom_block [OF g that] heap_atD(1) [OF h] by (simp_all add: unat_add64)
  have off: "x + 16 \<noteq> b + 8 \<and> x + 24 \<noteq> b + 8 \<and> x + 16 \<noteq> nxt S b \<and> x + 24 \<noteq> nxt S b" if b: "S b = Some s" for b s
  proof (cases "x = ctl")
    case True
    have "unat (x + 16) < unat (b + 8)" "unat (x + 24) < unat (b + 8)" "unat (x + 16) < unat (nxt S b)" "unat (x + 24) < unat (nxt S b)"
      unfolding True using cu [OF b] heap_atD(1) [OF h] by simp_all
    then show ?thesis by (metis less_irrefl)
  next
    case False
    then obtain t where "S x = Some t" "t \<noteq> 0" using x headersD(1) [OF heap_atD(3) [OF h]] by blast
    then show ?thesis using fields_apart [OF g _ b] by blast
  qed
  then show "S b = Some s \<Longrightarrow> b + 8 \<noteq> x + 16 \<and> b + 8 \<noteq> x + 24" by metis
  show "b \<in> F \<Longrightarrow> nxt S b \<noteq> x + 16 \<and> nxt S b \<noteq> x + 24"
    using off headersD(1) [OF heap_atD(3) [OF h], of b] by metis
  show "x + 16 \<in> meta ctl S F" "x + 24 \<in> meta ctl S F"
  proof -
    have "own S x (x + 16) \<and> own S x (x + 24)" if "x \<in> F"
      using headersD(1) [OF heap_atD(3) [OF h] that] own_fields(3,4) [OF g] by blast
    then show "x + 16 \<in> meta ctl S F" "x + 24 \<in> meta ctl S F" using x in_meta by auto
  qed
qed

lemma heap_insert:
  assumes h: "heap_at ctl lo hi (words (mem m)) (control m) S F K" and b: "b \<in> F" "K b = None"
  obtains M c where "block_insert ctl b m = Some (m\<lparr>mem := M, control := c\<rparr>)"
    "heap_at ctl lo hi (words M) c S F (K(b \<mapsto> mapping_insert (the (S b))))"
    "within (meta ctl S F) (words (mem m)) (words M)"
proof -
  note g = heap_atD(2) [OF h] and hd = headersD [OF heap_atD(3) [OF h]]
  obtain s where s: "S b = Some s" "s \<noteq> 0" using hd(1) b(1) by blast
  obtain i j where ij: "mapping_insert s = (i, j)" by (cases "mapping_insert s")
  have ij': "i < FL_INDEX_COUNT" "j < SL_INDEX_COUNT"
    using mapping_insert_in_class(3,4) [OF ij] geom_block(11) [OF g s(1)] by simp_all
  have n: "nodes ctl (insert b (dom K))"
    using heap_atD(1,6,7) [OF h] g by (rule nodes_blocks) (use hd(1) b(1) heap_atD(5) [OF h] in blast)
  obtain x M c where x: "x \<in> insert ctl (dom K)" "insert_free_block ctl b i j m = Some (m\<lparr>mem := M, control := c\<rparr>)"
    "words M = (words (mem m))(b + 16 := x, b + 24 := ctl, x + 24 := b)" "free_lists (words M) ctl c (K(b \<mapsto> (i, j)))"
    using insert_free_block_ok [OF heap_atD(4) [OF h] n b(2) ij'] by metis
  have xF: "x \<in> insert ctl F" "b \<in> insert ctl F" using x(1) heap_atD(5) [OF h] b by auto
  note off = links_off_headers [OF h xF(1)] links_off_headers [OF h xF(2)]
  have "headers (words M) S F"
    using heap_atD(3) [OF h] by (rule headers_frame) (use off in \<open>auto simp: x(3) simp del: add_left_cancel add_right_cancel\<close>)
  then have "heap_at ctl lo hi (words M) c S F (K(b \<mapsto> (i, j)))"
    using h x(4) b unfolding heap_at_def by auto
  moreover have "within (meta ctl S F) (words (mem m)) (words M)"
    unfolding x(3) using off by (intro within_upd) simp_all
  moreover have "block_insert ctl b m = Some (m\<lparr>mem := M, control := c\<rparr>)"
    using x(2) ij header_reads(1) [OF g heap_atD(3) [OF h] s(1)] by (simp add: block_insert_def)
  ultimately show ?thesis using that s ij by simp
qed

lemma heap_remove:
  assumes h: "heap_at ctl lo hi (words (mem m)) (control m) S F K" and b: "K b = Some (i, j)"
  obtains M c where "remove_free_block ctl b i j m = Some (m\<lparr>mem := M, control := c\<rparr>)"
    "heap_at ctl lo hi (words M) c S F (K(b := None))" "within (meta ctl S F) (words (mem m)) (words M)"
proof -
  obtain p n M c where x: "p \<in> insert ctl (dom K - {b})" "n \<in> insert ctl (dom K - {b})"
    "remove_free_block ctl b i j m = Some (m\<lparr>mem := M, control := c\<rparr>)"
    "words M = (words (mem m))(n + 24 := p, p + 16 := n)" "free_lists (words M) ctl c (K(b := None))"
    using remove_free_block_ok [OF heap_atD(4) [OF h] b] by metis
  have F: "p \<in> insert ctl F" "n \<in> insert ctl F" using x(1,2) heap_atD(5) [OF h] by auto
  note off = links_off_headers [OF h F(1)] links_off_headers [OF h F(2)]
  have "headers (words M) S F"
    using heap_atD(3) [OF h] by (rule headers_frame) (use off in \<open>auto simp: x(4) simp del: add_left_cancel add_right_cancel\<close>)
  then have "heap_at ctl lo hi (words M) c S F (K(b := None))"
    using h x(5) unfolding heap_at_def by auto
  moreover have "within (meta ctl S F) (words (mem m)) (words M)"
    unfolding x(4) using off by (intro within_upd) simp_all
  ultimately show ?thesis using that x(3) by blast
qed

section \<open>Marking, splitting and joining in the heap\<close>

definition header_words :: "sizes \<Rightarrow> addr set" where
  "header_words S = (\<lambda>x. x + 8) ` dom S \<union> nxt S ` dom S"

lemma in_header_words: "S b = Some s \<Longrightarrow> b + 8 \<in> header_words S" "S b = Some s \<Longrightarrow> nxt S b \<in> header_words S"
  by (auto simp: header_words_def)

lemma links_after_header_writes:
  assumes f: "free_lists w ctl c K" and g: "geom lo hi S" and r: "\<And>x. x \<in> dom K \<Longrightarrow> \<exists>s. S x = Some s \<and> s \<noteq> 0"
    and w: "within (header_words S) w w'"
  shows "free_lists w' ctl c K"
  using f
proof (rule free_lists_frame)
  fix x assume "x \<in> dom K"
  then obtain s where s: "S x = Some s" "s \<noteq> 0" using r by blast
  have "x + 16 \<notin> header_words S" "x + 24 \<notin> header_words S"
    unfolding header_words_def using fields_apart(3,4,6,7) [OF g s(1) _ s(2)] by blast+
  then show "w' (x + 16) = w (x + 16) \<and> w' (x + 24) = w (x + 24)" using w by (simp add: within_def)
qed

lemma heap_mark_used:
  assumes h: "heap_at ctl lo hi (words M) c S F K" and b: "b \<in> F" "b \<notin> dom K"
  obtains M' where "block_mark_as_used b M = Some M'" "heap_at ctl lo hi (words M') c S (F - {b}) K"
    "within (meta ctl S F) (words M) (words M')"
proof -
  note g = heap_atD(2) [OF h] and hd = heap_atD(3) [OF h]
  obtain s where s: "S b = Some s" "s \<noteq> 0" using headersD(1) [OF hd b(1)] by blast
  obtain t where t: "S (nxt S b) = Some t" using geom_real(3) [OF g s] by blast
  let ?n = "nxt S b"
  let ?w = "(words M)(?n + 8 := words M (?n + 8) AND NOT 2, b + 8 := words M (b + 8) AND NOT 1)"
  let ?M = "block_set_used b (block_set_prev_used ?n M)"
  have al: "al8 b" "al8 ?n" "?n \<noteq> b" using geom_block [OF g s(1)] fields_apart(2) [OF g s(1) s(1,2)] by blast+
  have "block_mark_as_used b M = Some ?M"
    using header_reads(5) [OF g hd s] by (simp add: block_mark_as_used_def Let_def)
  moreover have w: "words ?M = ?w"
    using al by (simp add: block_set_used_def block_set_prev_used_def size_field_def words_load fun_upd_twist)
  moreover have "heap_at ctl lo hi ?w c S (F - {b}) K"
  proof -
    have "within (header_words S) (words M) ?w"
      using in_header_words(1) [of S b, OF s(1)] in_header_words(1) [of S "nxt S b", OF t] by (intro within_upd) simp_all
    then have "free_lists ?w ctl c K"
      by (rule links_after_header_writes [OF heap_atD(4) [OF h] g, rotated])
        (use heap_atD(5) [OF h] headersD(1) [OF hd] in blast)
    then show ?thesis
      using h headers_mark_used [OF g hd b(1)] b(2) unfolding heap_at_def by blast
  qed
  moreover have "within (meta ctl S F) (words M) ?w"
    using in_meta(3) [where S = S and b = b, OF s(1)] in_meta(3) [where S = S and b = "nxt S b", OF t] by (intro within_upd) simp_all
  ultimately show ?thesis using that by metis
qed

lemma heap_mark_free:
  assumes h: "heap_at ctl lo hi (words M) c S F K" and b: "b \<notin> F" "S b = Some s" "s \<noteq> 0"
  obtains M' where "block_mark_as_free b M = Some M'" "heap_at ctl lo hi (words M') c S (insert b F) K"
    "within (meta ctl S (insert b F)) (words M) (words M')"
proof -
  note g = heap_atD(2) [OF h] and hd = heap_atD(3) [OF h]
  obtain t where t: "S (nxt S b) = Some t" using geom_real(3) [OF g b(2,3)] by blast
  let ?n = "nxt S b"
  let ?w = "(words M)(?n := b, ?n + 8 := words M (?n + 8) OR 2, b + 8 := words M (b + 8) OR 1)"
  let ?M = "block_set_free b (block_set_prev_free ?n (store64 M ?n b))"
  have al: "al8 b" "al8 ?n" "?n \<noteq> b" "?n \<noteq> b + 8"
    using geom_block [OF g b(2)] fields_apart(1,2) [OF g b(2,2,3)] by blast+
  have "block_mark_as_free b M = Some ?M"
    using header_reads(5) [OF g hd b(2,3)] by (simp add: block_mark_as_free_def block_link_next_def Let_def)
  moreover have w: "words ?M = ?w"
    using al by (simp add: block_set_free_def block_set_prev_free_def size_field_def words_load)
  moreover have "heap_at ctl lo hi ?w c S (insert b F) K"
  proof -
    have "within (header_words S) (words M) ?w"
      using in_header_words [of S b, OF b(2)] in_header_words(1) [of S "nxt S b", OF t] by (intro within_upd) simp_all
    then have "free_lists ?w ctl c K"
      by (rule links_after_header_writes [OF heap_atD(4) [OF h] g, rotated])
        (use heap_atD(5) [OF h] headersD(1) [OF hd] in blast)
    then show ?thesis
      using h headers_mark_free [OF g hd b] unfolding heap_at_def by blast
  qed
  moreover have "within (meta ctl S (insert b F)) (words M) ?w"
    using in_meta(3) [where S = S and b = b, OF b(2)] in_meta(3) [where S = S and b = "nxt S b", OF t] in_meta(4) [of b "insert b F" S ?n] own_fields(2) [OF g b(2)]
    by (intro within_upd) simp_all
  ultimately show ?thesis using that by metis
qed

text \<open>The new header keeps status bits that were payload until it is marked.\<close>

lemma junk_bits:
  assumes "al8 t"
  shows "(t OR (x AND 3)) AND - 4 = t" "((t OR (x AND 3)) OR 1) OR 2 = tag t True True"
    "((t OR (x AND 3)) OR 1) AND - 3 = tag t True False"
proof -
  have "x AND 3 = tag 0 (bit x 0) (bit x 1)"
    by (rule bit_word_eqI) (auto simp: tag_def bit_simps bit_1_2 bit_int_3 intro: gr0I)
  then have "t OR (x AND 3) = tag t (bit x 0) (bit x 1)" by (simp add: tag_def)
  then show "(t OR (x AND 3)) AND - 4 = t" "((t OR (x AND 3)) OR 1) OR 2 = tag t True True"
    "((t OR (x AND 3)) OR 1) AND - 3 = tag t True False"
    using assms by (simp_all add: tag_bits tag_bits_neg)
qed

lemma block_split_words:
  assumes g: "geom lo hi S" and hd: "headers (words M) S F" and b: "S b = Some s"
    and sz: "al8 sz" "24 \<le> unat sz" "unat sz + 32 \<le> unat s"
  defines "r \<equiv> b + 8 + sz" and "rs \<equiv> s - (sz + 8)" and "n \<equiv> nxt S b"
  obtains M' where "block_split b sz M = Some (r, M')"
    "words M' = (words M)(r + 8 := (rs OR (words M (r + 8) AND 3)) OR 1, b + 8 := tag sz (b \<in> F) (b \<in> nxt S ` F),
      n := r, n + 8 := words M (n + 8) OR 2)"
proof -
  note gs = geom_split [OF g b sz, folded r_def rs_def]
  have s: "s \<noteq> 0" using sz by auto
  note gb = geom_block [OF g b]
  obtain t where t: "S n = Some t" using geom_real(3) [OF g b s] by (auto simp: n_def)
  have rb: "r \<noteq> b" and rs: "rs \<noteq> 0" using gs(2,3) sz by auto
  have S': "(S(b \<mapsto> sz, r \<mapsto> rs)) b = Some sz" "(S(b \<mapsto> sz, r \<mapsto> rs)) r = Some rs" "nxt (S(b \<mapsto> sz, r \<mapsto> rs)) r = n"
    using rb gs(6) by (simp_all add: n_def)
  have ne: "n \<noteq> r" "n \<noteq> b" "n \<noteq> b + 8" "n \<noteq> r + 8"
    using fields_apart(1,2) [OF gs(7) S'(2,2) rs] fields_apart(1) [OF gs(7) S'(2,1) rs]
      fields_apart(2) [OF g b b s] unfolding S'(3) n_def by blast+
  have al: "al8 b" "al8 r" "al8 n" "al8 rs" using gb gs(4,5) by (simp_all add: n_def)
  let ?x = "rs OR (words M (r + 8) AND 3)"
  let ?M1 = "store64 M (r + 8) ?x"
  let ?M2 = "store64 ?M1 (b + 8) (tag sz (b \<in> F) (b \<in> nxt S ` F))"
  let ?M5 = "block_set_free r (block_set_prev_free n (store64 ?M2 n r))"
  have 1: "block_set_size r rs M = ?M1" using al by (simp add: block_set_size_def size_field_def Let_def words_load)
  have lb: "load64 ?M1 (b + 8) = tag s (b \<in> F) (b \<in> nxt S ` F)"
    using al rb header_reads(6) [OF g hd b] by (simp add: words_load)
  have 2: "block_set_size b sz ?M1 = ?M2"
    using lb tag_bits(8) [OF gb(2) sz(1)] by (simp add: block_set_size_def size_field_def Let_def)
  have s1: "block_size ?M1 r = rs" "block_size ?M2 r = rs"
    using al rb junk_bits(1) [OF al(4)] by (simp_all add: block_size_def size_field_def words_load)
  have nx: "block_next ?M2 r = Some n"
  proof -
    have "r + 16 + (rs - 8) = n" using b by (simp add: r_def rs_def n_def nxt_def)
    then show ?thesis
      using rs by (simp add: block_next_def block_is_last_def s1 tlsf_assert_def offset_to_block_def block_to_ptr_def)
  qed
  have 3: "block_mark_as_free r ?M2 = Some ?M5"
    by (simp add: block_mark_as_free_def block_link_next_def nx)
  have "24 \<le> rs" using gs(3) sz(3) by (simp add: word_le_nat_alt)
  moreover have "b + 16 + (sz - 8) = r" by (simp add: r_def)
  moreover have "s - (sz + 8) = rs" "rs + sz + 8 = s" by (simp_all add: rs_def)
  moreover have "align_ptr (r + 16) 8 = Some (r + 16)" using al by (simp add: align_ptr_al8)
  ultimately have "block_split b sz M = Some (r, ?M5)"
    using header_reads(1) [OF g hd b] 1 2 3 s1
    by (simp add: block_split_def offset_to_block_def block_to_ptr_def tlsf_assert_def Let_def)
  moreover have "words ?M5 = (words M)(r + 8 := ?x OR 1, b + 8 := tag sz (b \<in> F) (b \<in> nxt S ` F),
      n := r, n + 8 := words M (n + 8) OR 2)"
    using al ne rb
    by (auto simp: block_set_free_def block_set_prev_free_def size_field_def words_load fun_eq_iff)
  ultimately show ?thesis using that by blast
qed

text \<open>The split of a free block and of a used one, with the marks that follow it.\<close>

lemma heap_split:
  assumes h: "heap_at ctl lo hi (words M) c S F K" and b: "S b = Some s" "b \<notin> dom K"
    and sz: "al8 sz" "24 \<le> unat sz" "unat sz + 32 \<le> unat s"
  defines "r \<equiv> b + 8 + sz" and "rs \<equiv> s - (sz + 8)"
  defines "S' \<equiv> S(b \<mapsto> sz, r \<mapsto> rs)"
  obtains M1 where "block_split b sz M = Some (r, M1)" "block_next M1 b = Some r" "r \<notin> dom S" "geom lo hi S'"
    "b \<in> F \<Longrightarrow> heap_at ctl lo hi (words (block_set_prev_free r (store64 M1 r b))) c S' (insert r F) K \<and>
       within (meta ctl S F) (words M) (words (block_set_prev_free r (store64 M1 r b)))"
    "b \<notin> F \<Longrightarrow> heap_at ctl lo hi (words (block_set_prev_used r M1)) c S' (insert r F) K \<and>
       within (meta ctl S' (insert r F)) (words M) (words (block_set_prev_used r M1))"
proof -
  note g = heap_atD(2) [OF h] and hd = heap_atD(3) [OF h]
  note gs = geom_split [OF g b(1) sz, folded r_def rs_def, folded S'_def]
  let ?n = "nxt S b" and ?w = "words M"
  have s: "s \<noteq> 0" using sz by auto
  note gb = geom_block [OF g b(1)]
  obtain M1 where m: "block_split b sz M = Some (r, M1)"
    "words M1 = ?w(r + 8 := (rs OR (?w (r + 8) AND 3)) OR 1, b + 8 := tag sz (b \<in> F) (b \<in> nxt S ` F),
      ?n := r, ?n + 8 := ?w (?n + 8) OR 2)"
    using block_split_words [OF g hd b(1) sz, folded r_def rs_def] by blast
  obtain t where t: "S ?n = Some t" using geom_real(3) [OF g b(1) s] by blast
  have rb: "r \<noteq> b" and rs: "rs \<noteq> 0" using gs(2,3) sz by auto
  have S': "S' b = Some sz" "S' r = Some rs" "nxt S' r = ?n" "nxt S' b = r"
    using rb gs(6) by (simp_all add: S'_def)
  have sz0: "sz \<noteq> 0" using sz by auto
  have ne: "?n \<noteq> r" "?n \<noteq> b" "?n \<noteq> b + 8" "?n \<noteq> r + 8" "r \<noteq> b + 8" "r \<noteq> ?n + 8"
    using fields_apart(1,2) [OF gs(7) S'(2,2) rs] fields_apart(1) [OF gs(7) S'(2,1) rs]
      fields_apart(2) [OF g b(1,1) s] fields_apart(1) [OF gs(7) S'(1,1) sz0] fields_apart(1) [OF gs(7) S'(1) _ sz0, of ?n]
      geom_real(3) [OF gs(7) S'(2) rs] unfolding S'(3,4) by blast+
  have al: "al8 b" "al8 r" "al8 ?n" "al8 rs" using gb gs(4,5) by simp_all
  have nx: "block_next M1 b = Some r"
  proof -
    have "words M1 (b + 8) = tag sz (b \<in> F) (b \<in> nxt S ` F)" using m(2) ne by simp
    then have "block_size M1 b = sz"
      using al tag_bits_neg(1) [OF sz(1)] by (simp add: block_size_def size_field_def words_load)
    moreover have "b + 16 + (sz - 8) = r" by (simp add: r_def)
    ultimately show ?thesis
      using sz0 by (simp add: block_next_def block_is_last_def tlsf_assert_def offset_to_block_def block_to_ptr_def)
  qed
  have K: "\<exists>u. S' x = Some u \<and> u \<noteq> 0" if "x \<in> dom K" for x
  proof -
    have "x \<in> F" "x \<noteq> b" using that heap_atD(5) [OF h] b(2) by auto
    then obtain u where "S x = Some u" "u \<noteq> 0" using headersD(1) [OF hd] by blast
    then show ?thesis using \<open>x \<noteq> b\<close> gs(1) by (auto simp: S'_def)
  qed
  let ?w1 = "?w(r + 8 := tag rs True (b \<in> F), b + 8 := tag sz (b \<in> F) (b \<in> nxt S ` F), ?n := r,
      ?n + 8 := ?w (?n + 8) OR 2, r := (if b \<in> F then b else ?w r))"
  have hs: "headers ?w1 S' (insert r F)"
    unfolding S'_def r_def rs_def by (rule headers_split [OF g hd b(1) sz]) simp
  have hw: "within (header_words S') ?w ?w1"
    using in_header_words [of S' b, OF S'(1)] in_header_words [of S' r, OF S'(2)]
      geom_real(3) [OF gs(7) S'(2) rs] in_header_words(1) [of S' ?n] unfolding S'(3,4)
    by (intro within_upd) auto
  have at: "heap_at ctl lo hi ?w1 c S' (insert r F) K"
    using h hs gs(7) links_after_header_writes [OF heap_atD(4) [OF h] gs(7) K hw] unfolding heap_at_def by blast
  have own: "own S b (r + 8)" "own S b r" "own S b ?n"
    using gs(2) sz gb(4,5,9) own_fields(2) [OF g b(1)] b(1) geom_block(9) [OF gs(7) S'(2)]
    by (simp_all add: own_def)
  have wi: "within (meta ctl S (insert b F)) ?w ?w1"
    using in_meta(4) [of b "insert b F" S, OF _ own(1)] in_meta(4) [of b "insert b F" S, OF _ own(2)]
      in_meta(4) [of b "insert b F" S, OF _ own(3)] in_meta(3) [where S = S and b = b, OF b(1)]
      in_meta(3) [where S = S and b = ?n, OF t]
    by (intro within_upd) simp_all
  have f: "words (block_set_prev_free r (store64 M1 r b)) = ?w1" if "b \<in> F"
    using that al ne rb junk_bits(2) [OF al(4), of "?w (r + 8)"]
    by (auto simp: block_set_prev_free_def size_field_def words_load m(2) fun_eq_iff)
  have u: "words (block_set_prev_used r M1) = ?w1" if "b \<notin> F"
    using that al ne rb junk_bits(3) [OF al(4), of "?w (r + 8)"]
    by (auto simp: block_set_prev_used_def size_field_def words_load m(2) fun_eq_iff)
  have wu: "within (meta ctl S' (insert r F)) ?w ?w1" if "b \<notin> F"
  proof -
    obtain v where v: "S' ?n = Some v" using geom_real(3) [OF gs(7) S'(2) rs] unfolding S'(3) by blast
    have "?w1 = ?w(r + 8 := tag rs True (b \<in> F), b + 8 := tag sz (b \<in> F) (b \<in> nxt S ` F), ?n := r, ?n + 8 := ?w (?n + 8) OR 2)"
      using that ne by (auto simp: fun_eq_iff)
    moreover have "?n \<in> meta ctl S' (insert r F)"
      using in_meta(4) [of r "insert r F" S' ?n] own_fields(2) [OF gs(7) S'(2)] S'(3) by simp
    ultimately show ?thesis
      using in_meta(3) [where S = S' and b = r, OF S'(2)] in_meta(3) [where S = S' and b = b, OF S'(1)]
        in_meta(3) [where S = S' and b = ?n, OF v] by (simp add: within_upd)
  qed
  have bF: "b \<in> F \<Longrightarrow> insert b F = F" by blast
  show ?thesis
  proof (rule that [OF m(1) nx _ gs(7)])
    show "r \<notin> dom S" using gs(1) by auto
    show "heap_at ctl lo hi (words (block_set_prev_free r (store64 M1 r b))) c S' (insert r F) K \<and>
       within (meta ctl S F) (words M) (words (block_set_prev_free r (store64 M1 r b)))" if "b \<in> F"
      unfolding f [OF that] using at wi [unfolded bF [OF that]] by blast
    show "heap_at ctl lo hi (words (block_set_prev_used r M1)) c S' (insert r F) K \<and>
       within (meta ctl S' (insert r F)) (words M) (words (block_set_prev_used r M1))" if "b \<notin> F"
      unfolding u [OF that] using at wu [OF that] by blast
  qed
qed

lemma block_absorb_words:
  assumes g: "geom lo hi S" and hd: "headers (words M) S F" and b: "S b = Some s" "s \<noteq> 0"
    and e: "nxt S b = e" "S e = Some t" "t \<noteq> 0"
  obtains M' where "block_absorb b e M = Some (b, M')" "block_next M' b = Some (nxt S e)"
    "words M' = (words M)(b + 8 := words M (b + 8) + (t + 8), nxt S e := b)"
proof -
  note gb = geom_block [OF g b(1)] and ge = geom_block [OF g e(2)]
  note gj = geom_join [OF g b e(2,3) [folded e(1)], unfolded e(1)]
  have ap: "nxt S e \<noteq> b + 8" using fields_apart(1) [OF g e(2) b(1) e(3)] .
  have al: "al8 b" "al8 (nxt S e)" "al8 (t + 8)" using gb ge by simp_all
  let ?M1 = "store64 M (b + 8) (load64 M (b + 8) + (t + 8))"
  let ?M2 = "store64 ?M1 (nxt S e) b"
  have tag: "words M (b + 8) + (t + 8) = tag (s + (t + 8)) (b \<in> F) (b \<in> nxt S ` F)"
    using headersD(2) [OF hd b(1)] tag_bits(9) [OF gb(2) al(3)] by simp
  have s0: "s + (t + 8) \<noteq> 0" using gj(3) by auto
  have nx: "block_next N b = Some (nxt S e)" if "words N (b + 8) = words M (b + 8) + (t + 8)" for N
  proof -
    have "block_size N b = s + (t + 8)"
      using that tag al tag_bits_neg(1) [OF al8_add [OF gb(2) al(3)]]
      by (simp add: block_size_def size_field_def words_load)
    moreover have "b + 16 + (s + (t + 8) - 8) = nxt S e" using b e by (simp add: nxt_def algebra_simps)
    ultimately show ?thesis
      using s0 by (simp add: block_next_def block_is_last_def tlsf_assert_def offset_to_block_def block_to_ptr_def)
  qed
  have "block_absorb b e M = Some (b, ?M2)"
    using header_reads(1,4) [OF g hd b(1)] header_reads(1) [OF g hd e(2)] b(2) nx [of ?M1] al
    by (simp add: block_absorb_def block_link_next_def size_field_def tlsf_assert_def words_load)
  moreover have w: "words ?M2 = (words M)(b + 8 := words M (b + 8) + (t + 8), nxt S e := b)"
    using al by (simp add: words_load)
  moreover have "block_next ?M2 b = Some (nxt S e)" using ap w by (intro nx) simp
  ultimately show ?thesis using that by blast
qed

lemma own_nxt_join:
  assumes g: "geom lo hi S" and b: "S b = Some s" and n: "S (nxt S b) = Some t" and z: "s \<noteq> 0" "t \<noteq> 0"
  shows "own (S(b \<mapsto> s + (t + 8), nxt S b := None)) b a \<longleftrightarrow> own S b a \<or> own S (nxt S b) a"
proof -
  have "nxt S b \<noteq> b" using fields_apart(2) [OF g b b z(1)] .
  then show ?thesis
    using geom_join(3) [OF g b z(1) n z(2)] geom_block(8) [OF g b] b n by (auto simp: own_def)
qed

lemma meta_join:
  assumes g: "geom lo hi S" and h: "headers w S F" and e: "e \<in> F" "nxt S b = e" and b: "S b = Some s" "s \<noteq> 0" and t: "S e = Some t"
  shows "meta ctl (S(b \<mapsto> s + (t + 8), e := None)) (F - {e}) \<subseteq> meta ctl S F"
proof
  fix a assume a: "a \<in> meta ctl (S(b \<mapsto> s + (t + 8), e := None)) (F - {e})"
  let ?S = "S(b \<mapsto> s + (t + 8), e := None)"
  have t0: "t \<noteq> 0" using headersD(1) [OF h e(1)] t by auto
  have d: "dom ?S \<subseteq> dom S" using b by auto
  consider "a \<in> {ctl + 16, ctl + 24} \<union> (\<lambda>b. b + 8) ` dom ?S" | x where "x \<in> F" "x \<noteq> e" "own ?S x a"
    using a by (auto simp: meta_def)
  then show "a \<in> meta ctl S F"
  proof cases
    case 1
    then show ?thesis using d unfolding meta_def by blast
  next
    case 2
    show ?thesis
    proof (cases "x = b")
      case True
      then have "own S b a \<or> own S e a" using own_nxt_join [OF g b(1) t [folded e(2)] b(2) t0] 2(3) e(2) by simp
      then show ?thesis using 2(1) True e(1) by (auto simp: meta_def)
    next
      case False
      then have "own S x a" using 2(2,3) by (simp add: own_def)
      then show ?thesis using 2(1) by (auto simp: meta_def)
    qed
  qed
qed

lemma heap_join:
  assumes h: "heap_at ctl lo hi (words M) c S F K" and b: "b \<in> F" "S b = Some s" and e: "e \<in> F" "nxt S b = e" "S e = Some t"
    and K: "b \<notin> dom K" "e \<notin> dom K"
  obtains M' where "block_absorb b e M = Some (b, M')"
    "heap_at ctl lo hi (words M') c (S(b \<mapsto> s + (t + 8), e := None)) (F - {e}) K"
    "within (meta ctl S F) (words M) (words M')"
proof -
  note g = heap_atD(2) [OF h] and hd = heap_atD(3) [OF h]
  have s: "s \<noteq> 0" "t \<noteq> 0" using headersD(1) [OF hd b(1)] headersD(1) [OF hd e(1)] b e by auto
  obtain M' where m: "block_absorb b e M = Some (b, M')"
    "words M' = (words M)(b + 8 := words M (b + 8) + (t + 8), nxt S e := b)"
    using block_absorb_words [OF g hd b(2) s(1) e(2,3) s(2)] by metis
  note gj = geom_join [OF g b(2) s(1) e(3) [folded e(2)] s(2), unfolded e(2)]
  have "headers (words M') (S(b \<mapsto> s + (t + 8), e := None)) (F - {e})"
    using headers_join [OF g hd b(1) e] b(2) m(2) by simp
  moreover have "within (header_words S) (words M) (words M')"
    unfolding m(2) using in_header_words(1) [of S b, OF b(2)] in_header_words(2) [of S e, OF e(3)]
    by (intro within_upd) simp_all
  then have "free_lists (words M') ctl c K"
    by (rule links_after_header_writes [OF heap_atD(4) [OF h] g, rotated])
      (use heap_atD(5) [OF h] headersD(1) [OF hd] in blast)
  ultimately have "heap_at ctl lo hi (words M') c (S(b \<mapsto> s + (t + 8), e := None)) (F - {e}) K"
    using h gj(1) K unfolding heap_at_def by blast
  moreover have "within (meta ctl S F) (words M) (words M')"
    unfolding m(2) using in_meta(3) [where S = S and b = b, OF b(2)] in_meta(4) [OF e(1) own_fields(2) [OF g e(3)]]
    by (intro within_upd) simp_all
  ultimately show ?thesis using that m(1) by blast
qed

lemma meta_split:
  assumes g: "geom lo hi S" and b: "S b = Some s" and sz: "al8 sz" "24 \<le> unat sz" "unat sz + 32 \<le> unat s"
  defines "r \<equiv> b + 8 + sz" and "rs \<equiv> s - (sz + 8)"
  shows "meta ctl (S(b \<mapsto> sz, r \<mapsto> rs)) (insert r F) \<subseteq> meta ctl S (insert b F)" (is "meta ctl ?S _ \<subseteq> _")
proof
  note gs = geom_split [OF g b sz, folded r_def rs_def]
  note gb = geom_block [OF g b]
  have rb: "r \<noteq> b" using gs(2) sz by auto
  have r8: "own S b (r + 8)"
    using gs(2,3) sz gb(4,5) b geom_block(9) [OF gs(7), of r rs] by (simp add: own_def)
  fix a assume "a \<in> meta ctl ?S (insert r F)"
  then consider "a \<in> {ctl + 16, ctl + 24} \<union> (\<lambda>b. b + 8) ` dom S" | "a = b + 8" | "a = r + 8"
    | "own ?S r a" | x where "x \<in> F" "own ?S x a"
    unfolding meta_def by auto
  then show "a \<in> meta ctl S (insert b F)"
  proof cases
    case 4
    then have "own S b a" using gs(2,3) sz b by (simp add: own_def)
    then show ?thesis by (auto simp: meta_def)
  next
    case 5
    show ?thesis
    proof (cases "x = b \<or> x = r")
      case True
      then have "own S b a" using 5(2) gs(2,3) sz b rb by (auto simp: own_def)
      then show ?thesis by (auto simp: meta_def)
    next
      case False
      then show ?thesis using 5 by (auto simp: meta_def own_def)
    qed
  qed (use b r8 in \<open>auto simp: meta_def\<close>)
qed

lemma can_split:
  assumes g: "geom lo hi S" and h: "headers (words M) S F" and b: "S b = Some s" and sz: "unat sz < 4294967296"
  shows "block_can_split M b sz \<longleftrightarrow> unat sz + 32 \<le> unat s"
proof -
  have "unat (32 + sz) = 32 + unat sz" using sz by (subst unat_add64) simp_all
  then show ?thesis using header_reads(1) [OF g h b] by (simp add: block_can_split_def word_le_nat_alt add.commute)
qed

lemma trim_free_split:
  assumes h: "heap_at ctl lo hi (words (mem m)) (control m) S F K" and b: "b \<in> F" "b \<notin> dom K" "S b = Some s"
    and sz: "al8 sz" "24 \<le> unat sz" "unat sz + 32 \<le> unat s"
  defines "r \<equiv> b + 8 + sz" and "rs \<equiv> s - (sz + 8)"
  obtains M c where "block_trim_free ctl b sz m = Some (m\<lparr>mem := M, control := c\<rparr>)"
    "heap_at ctl lo hi (words M) c (S(b \<mapsto> sz, r \<mapsto> rs)) (insert r F) (K(r \<mapsto> mapping_insert rs))"
    "within (meta ctl S F) (words (mem m)) (words M)"
proof -
  note g = heap_atD(2) [OF h] and hd = heap_atD(3) [OF h]
  note gs = geom_split [OF g b(3) sz, folded r_def rs_def]
  let ?S = "S(b \<mapsto> sz, r \<mapsto> rs)"
  obtain M1 where m1: "block_split b sz (mem m) = Some (r, M1)" "block_next M1 b = Some r"
    "heap_at ctl lo hi (words (block_set_prev_free r (store64 M1 r b))) (control m) ?S (insert r F) K"
    "within (meta ctl S F) (words (mem m)) (words (block_set_prev_free r (store64 M1 r b)))"
    using heap_split [OF h b(3,2) sz, folded r_def rs_def] b(1) by metis
  let ?m = "m\<lparr>mem := block_set_prev_free r (store64 M1 r b)\<rparr>"
  have m': "heap_at ctl lo hi (words (mem ?m)) (control ?m) ?S (insert r F) K" using m1(3) by simp
  have rK: "K r = None" using gs(1) heap_atD(5) [OF h] headersD(1) [OF hd, of r] by fastforce
  obtain M c where m2: "block_insert ctl r ?m = Some (?m\<lparr>mem := M, control := c\<rparr>)"
    "heap_at ctl lo hi (words M) c ?S (insert r F) (K(r \<mapsto> mapping_insert (the (?S r))))"
    "within (meta ctl ?S (insert r F)) (words (mem ?m)) (words M)"
    using heap_insert [OF m', of r] rK by blast
  have "unat sz < 4294967296" using geom_block(11) [OF g b(3)] sz by simp
  then have "block_can_split (mem m) b sz" using can_split [OF g hd b(3)] sz by simp
  then have "block_trim_free ctl b sz m = Some (m\<lparr>mem := M, control := c\<rparr>)"
    using header_reads(2) [OF g hd b(3)] b(1) m1(1,2) m2(1)
    by (simp add: block_trim_free_def tlsf_assert_def on_mem_def block_link_next_def)
  moreover have "within (meta ctl S F) (words (mem m)) (words M)"
  proof -
    have "meta ctl ?S (insert r F) \<subseteq> meta ctl S F"
      using meta_split [OF g b(3) sz, of ctl F] b(1) by (simp add: r_def rs_def insert_absorb)
    then show ?thesis using within_trans [OF m1(4) within_mono] m2(3) by simp
  qed
  ultimately show ?thesis using that m2(2) by simp
qed

section \<open>Live blocks\<close>

text \<open>What the client holds: the size of every block in use, by the pointer it was given.\<close>

definition live :: "sizes \<Rightarrow> addr set \<Rightarrow> addr \<rightharpoonup> u64" where
  "live S F p = (if p - 16 \<in> F then None else case S (p - 16) of None \<Rightarrow> None | Some s \<Rightarrow> if s = 0 then None else Some s)"

lemma live_Some: "live S F p = Some s \<longleftrightarrow> p - 16 \<notin> F \<and> S (p - 16) = Some s \<and> s \<noteq> 0"
  by (auto simp: live_def split: option.splits)

lemma live_eqI:
  assumes "\<And>b s. s \<noteq> 0 \<Longrightarrow> b \<notin> F' \<and> S' b = Some s \<longleftrightarrow> U (b + 16) = Some s" "\<And>p. U p \<noteq> Some 0"
  shows "live S' F' = U"
proof
  fix p
  have "live S' F' p = Some s \<longleftrightarrow> U p = Some s" for s
    using assms(1) [of s "p - 16"] assms(2) [of p] by (cases "s = 0") (auto simp: live_Some)
  then show "live S' F' p = U p" by (metis not_None_eq)
qed

section \<open>malloc\<close>

lemma live_real: "live S F p \<noteq> Some 0"
  by (simp add: live_Some)

lemma size_classes_remove: "b \<in> F \<Longrightarrow> size_classes S (F - {b}) = (size_classes S F)(b := None)"
  by (auto simp: size_classes_def)

lemma fit:
  assumes "mapping_search q = (i, j)" "al8 q" "unat q < 4294967296" "class_le (i, j) (mapping_insert s)"
  shows "unat q \<le> unat s"
proof -
  obtain i' j' where s: "mapping_insert s = (i', j')" by (cases "mapping_insert s")
  have "unat q \<le> class_size i j" "j < 32"
    using mapping_search_class [OF assms(1,3)] assms(2) by (auto simp: al8_def)
  then show ?thesis using class_size_mono [of i j i' j'] assms(4) s mapping_insert_in_class(1) [OF s] by simp
qed

text \<open>The class a request is served from; a class past the table is one no block has.\<close>

lemma class_past_table: "heap_at ctl lo hi w c S F K \<Longrightarrow> \<not> i < FL_INDEX_COUNT \<Longrightarrow> K b = Some k \<Longrightarrow> \<not> class_le (i, j) k"
  using bitmapsD(1) [of c K b "fst k" "snd k"] unfolding heap_at_def free_lists_def by (auto simp: class_le_def)

lemma locate_free_ok:
  assumes h: "heap_at ctl lo hi (words (mem m)) (control m) S F K" and K: "K = size_classes S F"
    and q: "al8 q" "unat q < 4294967296" "q \<noteq> 0"
  shows "(block_locate_free ctl q m = Some (NULL, m) \<and> (\<forall>b k. K b = Some k \<longrightarrow> \<not> class_le (mapping_search q) k)) \<or>
    (\<exists>b s M c. block_locate_free ctl q m = Some (b, m\<lparr>mem := M, control := c\<rparr>) \<and> b \<in> F \<and> S b = Some s \<and>
       unat q \<le> unat s \<and> heap_at ctl lo hi (words M) c S F (K(b := None)) \<and>
       within (meta ctl S F) (words (mem m)) (words M) \<and> class_le (mapping_search q) (mapping_insert s))"
proof -
  obtain i j where ij: "mapping_search q = (i, j)" by (cases "mapping_search q")
  have j: "j < SL_INDEX_COUNT" using mapping_search_class(2) [OF ij q(2)] q(1) by (simp add: al8_def)
  show ?thesis
  proof (cases "i < FL_INDEX_COUNT")
    case False
    then show ?thesis using class_past_table [OF h] q(3) ij by (auto simp: block_locate_free_def)
  next
    case True
    consider (found) b i' j' where "search_suitable_block (control m) i j = Some (b, i', j')" "K b = Some (i', j')" "class_le (i, j) (i', j')"
      | (none) i' j' where "search_suitable_block (control m) i j = Some (NULL, i', j')" "\<forall>b k. K b = Some k \<longrightarrow> \<not> class_le (i, j) k"
      using search_suitable_block_ok [OF heap_atD(4) [OF h] True j] by blast
    then show ?thesis
    proof cases
      case none
      then show ?thesis using True q(3) ij by (auto simp: block_locate_free_def)
    next
      case found
      have b: "b \<in> F" using found(2) K by (auto simp: size_classes_def split: if_splits)
      then obtain s where s: "S b = Some s" "s \<noteq> 0" using headersD(1) [OF heap_atD(3) [OF h]] by blast
      have cl: "mapping_insert s = (i', j')" using found(2) K b s by (simp add: size_classes_def)
      have le: "unat q \<le> unat s" using fit [OF ij q(1,2)] found(3) cl by simp
      have b0: "b \<noteq> 0" using geom_block(7) [OF heap_atD(2) [OF h] s(1)] .
      obtain M c where r: "remove_free_block ctl b i' j' m = Some (m\<lparr>mem := M, control := c\<rparr>)"
        "heap_at ctl lo hi (words M) c S F (K(b := None))" "within (meta ctl S F) (words (mem m)) (words M)"
        using heap_remove [OF h found(2)] by metis
      have "block_locate_free ctl q m = Some (b, m\<lparr>mem := M, control := c\<rparr>)"
        using found(1) True q(3) ij b0 r(1) le header_reads(1) [OF heap_atD(2,3) [OF h] s(1)]
        by (simp add: block_locate_free_def tlsf_assert_def word_le_nat_alt)
      moreover have "class_le (mapping_search q) (mapping_insert s)" using found(3) cl ij by simp
      ultimately show ?thesis using b s(1) le r(2,3) by blast
    qed
  qed
qed

lemma live_take:
  assumes "b \<in> F" "S b = Some s" "s \<noteq> 0"
  shows "live S (F - {b}) = (live S F)(b + 16 \<mapsto> s)"
  by (rule live_eqI) (use assms live_real in \<open>auto simp: live_Some\<close>)

lemma live_split:
  assumes "b \<in> F" "S r = None" "r \<noteq> b" "sz \<noteq> 0"
  shows "live (S(b \<mapsto> sz, r \<mapsto> rs)) (insert r F - {b}) = (live S F)(b + 16 \<mapsto> sz)"
  by (rule live_eqI) (use assms live_real in \<open>auto simp: live_Some\<close>)

lemma prepare_used_ok:
  assumes h: "heap_at ctl lo hi (words (mem m)) (control m) S F K" and K: "K = (size_classes S F)(b := None)"
    and co: "\<forall>x \<in> F. nxt S x \<notin> F - {b}"
    and b: "b \<in> F" "S b = Some s" and q: "al8 q" "24 \<le> unat q" "unat q \<le> unat s"
  obtains M c S' F' t where "block_prepare_used ctl b q m = Some (b + 16, m\<lparr>mem := M, control := c\<rparr>)"
    "heap ctl lo hi (words M) c S' F'" "live S' F' = (live S F)(b + 16 \<mapsto> t)" "unat q \<le> unat t"
    "within (meta ctl S F) (words (mem m)) (words M)"
proof -
  note g = heap_atD(2) [OF h] and hd = heap_atD(3) [OF h]
  have b0: "b \<noteq> 0" using geom_block(7) [OF g b(2)] .
  have bK: "b \<notin> dom K" using K by simp
  have sz: "unat q < 4294967296" using geom_block(11) [OF g b(2)] q(3) by simp
  have q0: "q \<noteq> 0" using q(2) by auto
  show ?thesis
  proof (cases "unat q + 32 \<le> unat s")
    case True
    let ?r = "b + 8 + q" and ?rs = "s - (q + 8)"
    note gs = geom_split [OF g b(2) q(1,2) True]
    have "unat ?r \<noteq> unat b" using gs(2) q by linarith
    then have rb: "?r \<noteq> b" by metis
    let ?S = "S(b \<mapsto> q, ?r \<mapsto> ?rs)"
    obtain M1 c where t: "block_trim_free ctl b q m = Some (m\<lparr>mem := M1, control := c\<rparr>)"
      "heap_at ctl lo hi (words M1) c ?S (insert ?r F) (K(?r \<mapsto> mapping_insert ?rs))"
      "within (meta ctl S F) (words (mem m)) (words M1)"
      using trim_free_split [OF h b(1) bK b(2) q(1,2) True] by metis
    have b': "b \<in> insert ?r F" "b \<notin> dom (K(?r \<mapsto> mapping_insert ?rs))" using b(1) bK rb by auto
    obtain M where u: "block_mark_as_used b M1 = Some M"
      "heap_at ctl lo hi (words M) c ?S (insert ?r F - {b}) (K(?r \<mapsto> mapping_insert ?rs))"
      "within (meta ctl ?S (insert ?r F)) (words M1) (words M)"
      using heap_mark_used [OF t(2) b'] by metis
    have K': "K(?r \<mapsto> mapping_insert ?rs) = size_classes ?S (insert ?r F - {b})"
      using rb b(1) by (auto simp: K size_classes_def fun_eq_iff)
    have "nxt ?S x \<notin> insert ?r F - {b}" if x: "x \<in> insert ?r F - {b}" for x
    proof (cases "x = ?r")
      case True
      have s0: "s \<noteq> 0" using q(2,3) by auto
      have "nxt S b \<noteq> ?r" using geom_real(3) [OF g b(2) s0] gs(1) by fastforce
      moreover have "nxt S b \<notin> F" using co b(1) fields_apart(2) [OF g b(2,2) s0] by blast
      moreover have "nxt ?S x = nxt S b" using True by (simp add: gs(6))
      ultimately show ?thesis by simp
    next
      case False
      then have xF: "x \<in> F" "x \<noteq> b" using x by auto
      then obtain v where "S x = Some v" "v \<noteq> 0" using headersD(1) [OF hd] by blast
      then have "nxt S x \<noteq> ?r" using geom_real(3) [OF g, of x v] gs(1) by fastforce
      then show ?thesis using gs(6) False xF co by auto
    qed
    then have "heap ctl lo hi (words M) c ?S (insert ?r F - {b})"
      using u(2) K' unfolding heap_def by simp
    moreover have "live ?S (insert ?r F - {b}) = (live S F)(b + 16 \<mapsto> q)"
      using live_split [of b F S ?r, OF b(1) gs(1) rb q0] .
    moreover have "block_prepare_used ctl b q m = Some (b + 16, m\<lparr>mem := M, control := c\<rparr>)"
      using b0 q0 t(1) u(1) by (simp add: block_prepare_used_def tlsf_assert_def on_mem0_def block_to_ptr_def)
    moreover have "within (meta ctl S F) (words (mem m)) (words M)"
    proof -
      have "meta ctl ?S (insert ?r F) \<subseteq> meta ctl S F"
        using meta_split [OF g b(2) q(1,2) True, of ctl F] b(1) by (simp add: insert_absorb)
      then show ?thesis using within_trans [OF t(3) within_mono [OF u(3)]] by simp
    qed
    ultimately show ?thesis using that by blast
  next
    case False
    then have "block_trim_free ctl b q m = Some m"
      using header_reads(2) [OF g hd b(2)] b(1) can_split [OF g hd b(2) sz]
      by (simp add: block_trim_free_def tlsf_assert_def)
    moreover obtain M where u: "block_mark_as_used b (mem m) = Some M"
      "heap_at ctl lo hi (words M) (control m) S (F - {b}) K"
      "within (meta ctl S F) (words (mem m)) (words M)"
      using heap_mark_used [OF h b(1) bK] by metis
    ultimately have "block_prepare_used ctl b q m = Some (b + 16, m\<lparr>mem := M, control := control m\<rparr>)"
      using b0 q0 by (simp add: block_prepare_used_def tlsf_assert_def on_mem0_def block_to_ptr_def)
    moreover have "heap ctl lo hi (words M) (control m) S (F - {b})"
      using u(2) co K size_classes_remove [OF b(1), of S] unfolding heap_def by simp
    moreover have "s \<noteq> 0" using q by auto
    then have "live S (F - {b}) = (live S F)(b + 16 \<mapsto> s)" using live_take [of b F S s, OF b] by simp
    ultimately show ?thesis using that u(3) q(3) by blast
  qed
qed

lemma heapD:
  assumes "heap ctl lo hi w c S F"
  shows "heap_at ctl lo hi w c S F (size_classes S F)" "b \<in> F \<Longrightarrow> nxt S b \<notin> F"
  using assms unfolding heap_def by blast+

text \<open>
  The request as the allocator rounds it; zero when it is zero or too large. A request that wraps
  around is left out.
\<close>

definition rounded :: "u64 \<Rightarrow> nat" where
  "rounded sz = (if unat sz = 0 \<or> 4294967288 < unat sz then 0 else max ((unat sz + 7) div 8 * 8) 24)"

lemma rounded_bounds:
  assumes "rounded sz \<noteq> 0"
  shows "24 \<le> rounded sz" "rounded sz < 4294967296" "rounded sz mod 8 = 0" "unat sz \<le> rounded sz"
proof -
  have sz: "unat sz \<le> 4294967288" "rounded sz = max ((unat sz + 7) div 8 * 8) 24"
    using assms by (auto simp: rounded_def split: if_splits)
  have "(unat sz + 7) div 8 \<le> 536870911" using sz(1) by (simp add: div_le_mono [of _ 4294967295 8, simplified])
  then show "rounded sz < 4294967296" unfolding sz(2) by simp
  show "24 \<le> rounded sz" unfolding sz(2) by simp
  show "rounded sz mod 8 = 0" unfolding sz(2) max_def by simp
  have "unat sz \<le> (unat sz + 7) div 8 * 8" by presburger
  then show "unat sz \<le> rounded sz" unfolding sz(2) by simp
qed

lemma adjust_rounded:
  assumes "unat sz + 8 \<le> 18446744073709551616"
  shows "adjust_request_size sz ALIGN_SIZE = Some (of_nat (rounded sz))" "unat (of_nat (rounded sz) :: u64) = rounded sz"
    "al8 (of_nat (rounded sz))"
proof -
  have lt: "rounded sz < 18446744073709551616"
    using rounded_bounds(2) [of sz] by (cases "rounded sz = 0") auto
  show u: "unat (of_nat (rounded sz) :: u64) = rounded sz" using lt by (rule unat_of_nat64)
  obtain a where "adjust_request_size sz ALIGN_SIZE = Some a" "unat a = rounded sz"
    using adjust_request_size_8 [OF assms] unfolding rounded_def by blast
  then show "adjust_request_size sz ALIGN_SIZE = Some (of_nat (rounded sz))" by (metis of_nat_unat ucast_id)
  show "al8 (of_nat (rounded sz))"
    unfolding al8_def u using rounded_bounds(3) [of sz] by (cases "rounded sz = 0") auto
qed

text \<open>A request that wraps around becomes the smallest one.\<close>

lemma adjust_wraps:
  assumes "18446744073709551608 < unat sz"
  shows "adjust_request_size sz ALIGN_SIZE = adjust_request_size 24 ALIGN_SIZE"
proof -
  have "unat (sz + 7) = (unat sz + 7) mod 18446744073709551616" by (simp add: unat_word_ariths)
  also have "\<dots> = unat sz + 7 - 18446744073709551616" using assms unat64_lt [of sz] by (simp add: mod_if)
  finally have "unat ((sz + 7) AND NOT (mask 3)) = 0"
    using assms unat64_lt [of sz] by (simp add: unat_align_down_mask)
  then have z: "(sz + 7) AND NOT (mask 3) = 0" by (simp only: unat_eq_0)
  have m: "((24 :: u64) + 7) AND NOT (mask 3) = 24" by (simp add: mask_eq_exp_minus_1)
  have "sz \<noteq> 0" using assms by auto
  then show ?thesis unfolding adjust_request_size_def tlsf_const_values align_up_8 z m by simp
qed

lemma malloc_ok:
  assumes h: "heap ctl lo hi (words (mem m)) (control m) S F" and sz: "unat sz + 8 \<le> 18446744073709551616"
  shows "(tlsf_malloc ctl sz m = Some (NULL, m) \<and>
      (rounded sz = 0 \<or> (\<forall>b \<in> F. \<not> class_le (mapping_search (of_nat (rounded sz))) (mapping_insert (the (S b)))))) \<or>
    (\<exists>p M c S' F' t. tlsf_malloc ctl sz m = Some (p, m\<lparr>mem := M, control := c\<rparr>) \<and> p \<noteq> NULL \<and> rounded sz \<noteq> 0 \<and>
      p - 16 \<in> F \<and> heap ctl lo hi (words M) c S' F' \<and> live S' F' = (live S F)(p \<mapsto> t) \<and>
      rounded sz \<le> unat t \<and> within (meta ctl S F) (words (mem m)) (words M) \<and>
      class_le (mapping_search (of_nat (rounded sz))) (mapping_insert (the (S (p - 16)))))"
proof -
  note a = adjust_rounded [OF sz]
  let ?q = "of_nat (rounded sz) :: u64"
  show ?thesis
  proof (cases "rounded sz = 0")
    case True
    then have "tlsf_malloc ctl sz m = Some (NULL, m)"
      using a(1) by (simp add: tlsf_malloc_def block_locate_free_def block_prepare_used_def)
    then show ?thesis using True by blast
  next
    case False
    have q: "unat ?q < 4294967296" "?q \<noteq> 0" "24 \<le> unat ?q"
      using a(2) rounded_bounds [OF False] False by (auto simp: unat_eq_0)
    consider (none) "block_locate_free ctl ?q m = Some (NULL, m)"
        "\<forall>b k. size_classes S F b = Some k \<longrightarrow> \<not> class_le (mapping_search ?q) k"
      | (found) b s M c where "block_locate_free ctl ?q m = Some (b, m\<lparr>mem := M, control := c\<rparr>)" "b \<in> F" "S b = Some s"
        "unat ?q \<le> unat s" "heap_at ctl lo hi (words M) c S F ((size_classes S F)(b := None))"
        "within (meta ctl S F) (words (mem m)) (words M)" "class_le (mapping_search ?q) (mapping_insert s)"
      using locate_free_ok [OF heapD(1) [OF h] refl a(3) q(1,2)] by blast
    then show ?thesis
    proof cases
      case none
      then have "tlsf_malloc ctl sz m = Some (NULL, m)"
        using a(1) by (simp add: tlsf_malloc_def block_prepare_used_def)
      moreover have "\<forall>b \<in> F. \<not> class_le (mapping_search ?q) (mapping_insert (the (S b)))"
      proof
        fix b assume "b \<in> F"
        then have "size_classes S F b = Some (mapping_insert (the (S b)))" by (simp add: size_classes_def)
        then show "\<not> class_le (mapping_search ?q) (mapping_insert (the (S b)))" using none(2) by blast
      qed
      ultimately show ?thesis by blast
    next
      case found
      let ?m = "m\<lparr>mem := M, control := c\<rparr>"
      have f5: "heap_at ctl lo hi (words (mem ?m)) (control ?m) S F ((size_classes S F)(b := None))" using found(5) by simp
      have co: "\<forall>x \<in> F. nxt S x \<notin> F - {b}" using heapD(2) [OF h] by blast
      obtain M' c' S' F' t where p: "block_prepare_used ctl b ?q ?m = Some (b + 16, ?m\<lparr>mem := M', control := c'\<rparr>)"
        "heap ctl lo hi (words M') c' S' F'" "live S' F' = (live S F)(b + 16 \<mapsto> t)" "unat ?q \<le> unat t"
        "within (meta ctl S F) (words (mem ?m)) (words M')"
        using prepare_used_ok [OF f5 refl co found(2,3) a(3) q(3) found(4)] by metis
      have "tlsf_malloc ctl sz m = Some (b + 16, m\<lparr>mem := M', control := c'\<rparr>)"
        using a(1) found(1) p(1) by (simp add: tlsf_malloc_def)
      moreover have "b + 16 \<noteq> 0"
      proof -
        have "unat s \<noteq> 0" using found(4) q(3) by linarith
        then have "s \<noteq> 0" by auto
        then have "unat (b + 16) = unat b + 16" by (rule geom_real(4) [OF heap_atD(2) [OF f5] found(3)])
        then show ?thesis by auto
      qed
      moreover have "within (meta ctl S F) (words (mem m)) (words M')"
        using within_trans [OF found(6)] p(5) by simp
      ultimately show ?thesis using False found(2,3,7) p(2-4) a(2) by (intro disjI2 exI [of _ "b + 16"] exI [of _ M'] exI [of _ c'] exI [of _ S'] exI [of _ F'] exI [of _ t]) auto
    qed
  qed
qed

section \<open>free\<close>

lemma block_remove_ok:
  assumes h: "heap_at ctl lo hi (words (mem m)) (control m) S F K" and b: "K b = Some (mapping_insert (the (S b)))"
  obtains M c where "block_remove ctl b m = Some (m\<lparr>mem := M, control := c\<rparr>)"
    "heap_at ctl lo hi (words M) c S F (K(b := None))" "within (meta ctl S F) (words (mem m)) (words M)"
proof -
  obtain s where s: "S b = Some s" using b heap_atD(5) [OF h] headersD(1) [OF heap_atD(3) [OF h], of b] by blast
  obtain i j where ij: "mapping_insert s = (i, j)" by (cases "mapping_insert s")
  have "K b = Some (i, j)" using b s ij by simp
  from heap_remove [OF h this] obtain M c where "remove_free_block ctl b i j m = Some (m\<lparr>mem := M, control := c\<rparr>)"
    "heap_at ctl lo hi (words M) c S F (K(b := None))" "within (meta ctl S F) (words (mem m)) (words M)" by blast
  moreover have "block_remove ctl b m = remove_free_block ctl b i j m"
    using header_reads(1) [OF heap_atD(2,3) [OF h] s] ij by (simp add: block_remove_def)
  ultimately show ?thesis using that by simp
qed

text \<open>
  A heap with one free block \<open>d\<close> outside the lists, which alone may have a free block behind it.
\<close>

definition heap_but :: "addr \<Rightarrow> nat \<Rightarrow> nat \<Rightarrow> (addr \<Rightarrow> u64) \<Rightarrow> control_t \<Rightarrow> sizes \<Rightarrow> addr set \<Rightarrow> addr \<Rightarrow> bool" where
  "heap_but ctl lo hi w c S F d \<longleftrightarrow> heap_at ctl lo hi w c S F ((size_classes S F)(d := None)) \<and> d \<in> F \<and>
     (\<forall>x \<in> F - {d}. nxt S x \<notin> F)"

lemma live_join:
  assumes "b \<in> F" "b \<noteq> e" "e \<in> F"
  shows "live (S(b \<mapsto> u, e := None)) (F - {e}) = live S F"
  by (rule live_eqI) (use assms live_real in \<open>auto simp: live_Some\<close>)

lemma merge_next_ok:
  assumes h: "heap_but ctl lo hi (words (mem m)) (control m) S F d"
  obtains M c S' F' where "block_merge_next ctl d m = Some (d, m\<lparr>mem := M, control := c\<rparr>)"
    "heap_but ctl lo hi (words M) c S' F' d" "nxt S' d \<notin> F'" "live S' F' = live S F"
    "within (meta ctl S F) (words (mem m)) (words M)" "meta ctl S' F' \<subseteq> meta ctl S F" "unat (the (S d)) \<le> unat (the (S' d))"
proof -
  have at: "heap_at ctl lo hi (words (mem m)) (control m) S F ((size_classes S F)(d := None))" and d: "d \<in> F"
    and co: "\<And>x. x \<in> F \<Longrightarrow> x \<noteq> d \<Longrightarrow> nxt S x \<notin> F"
    using h unfolding heap_but_def by auto
  note g = heap_atD(2) [OF at] and hd = heap_atD(3) [OF at]
  obtain s where s: "S d = Some s" "s \<noteq> 0" using headersD(1) [OF hd d] by blast
  let ?e = "nxt S d"
  obtain t where t: "S ?e = Some t" using geom_real(3) [OF g s] by blast
  have ed: "?e \<noteq> d" using fields_apart(2) [OF g s(1,1,2)] .
  have e0: "?e \<noteq> 0" using geom_block(7) [OF g t] .
  note next_d = header_reads(5) [OF g hd s]
  show ?thesis
  proof (cases "?e \<in> F")
    case False
    then have "block_merge_next ctl d m = Some (d, m\<lparr>mem := mem m, control := control m\<rparr>)"
      using next_d e0 header_reads(2) [OF g hd t] by (simp add: block_merge_next_def tlsf_assert_def)
    then show ?thesis using that [OF _ h False] by simp
  next
    case True
    obtain t' where t0: "t \<noteq> 0" using headersD(1) [OF hd True] t by auto
    have "((size_classes S F)(d := None)) ?e = Some (mapping_insert (the (S ?e)))"
      using True ed by (simp add: size_classes_def)
    from block_remove_ok [OF at this] obtain M1 c where r: "block_remove ctl ?e m = Some (m\<lparr>mem := M1, control := c\<rparr>)"
      "heap_at ctl lo hi (words M1) c S F ((size_classes S F)(d := None, ?e := None))"
      "within (meta ctl S F) (words (mem m)) (words M1)" by metis
    obtain M where j: "block_absorb d ?e M1 = Some (d, M)"
      "heap_at ctl lo hi (words M) c (S(d \<mapsto> s + (t + 8), ?e := None)) (F - {?e}) ((size_classes S F)(d := None, ?e := None))"
      "within (meta ctl S F) (words M1) (words M)"
      using heap_join [OF r(2) d s(1) True refl t] by auto
    let ?S = "S(d \<mapsto> s + (t + 8), ?e := None)"
    note gj = geom_join [OF g s t t0]
    have K: "(size_classes S F)(d := None, ?e := None) = (size_classes ?S (F - {?e}))(d := None)"
      by (auto simp: size_classes_def fun_eq_iff)
    have n: "nxt ?S x = nxt S x" if "x \<noteq> ?e" "x \<noteq> d" for x using gj(2) that by simp
    have "heap_but ctl lo hi (words M) c ?S (F - {?e}) d"
      using j(2) K n co d ed unfolding heap_but_def by auto
    moreover have "nxt ?S d \<notin> F - {?e}" using gj(2) [of d] ed co [OF True ed] by auto
    moreover have "live ?S (F - {?e}) = live S F" using live_join [OF d ed [symmetric] True] .
    moreover have "block_merge_next ctl d m = Some (d, m\<lparr>mem := M, control := c\<rparr>)"
      using next_d e0 True header_reads(2) [OF g hd t] header_reads(4) [OF g hd s(1)] s(2) r(1) j(1)
      by (simp add: block_merge_next_def tlsf_assert_def on_mem_def)
    moreover have "unat (the (S d)) \<le> unat (the (?S d))" using s gj(3) ed by simp
    ultimately show ?thesis
      using that within_trans [OF r(3) j(3)] meta_join [OF g hd True refl s t, of ctl] by blast
  qed
qed

lemma insert_last_ok:
  assumes h: "heap_but ctl lo hi (words (mem m)) (control m) S F d" "nxt S d \<notin> F"
  obtains M c where "block_insert ctl d m = Some (m\<lparr>mem := M, control := c\<rparr>)" "heap ctl lo hi (words M) c S F"
    "within (meta ctl S F) (words (mem m)) (words M)"
proof -
  have at: "heap_at ctl lo hi (words (mem m)) (control m) S F ((size_classes S F)(d := None))" and d: "d \<in> F"
    and co: "\<forall>x \<in> F - {d}. nxt S x \<notin> F"
    using h(1) unfolding heap_but_def by auto
  obtain M c where m: "block_insert ctl d m = Some (m\<lparr>mem := M, control := c\<rparr>)"
    "heap_at ctl lo hi (words M) c S F ((size_classes S F)(d := None, d \<mapsto> mapping_insert (the (S d))))"
    "within (meta ctl S F) (words (mem m)) (words M)"
    using heap_insert [OF at d] by (metis fun_upd_same)
  have "(size_classes S F)(d := None, d \<mapsto> mapping_insert (the (S d))) = size_classes S F"
    using d by (auto simp: size_classes_def fun_eq_iff)
  then show ?thesis using that [OF m(1) _ m(3)] m(2) co h(2) unfolding heap_def by auto
qed

lemma meta_mark: "meta ctl S F \<subseteq> meta ctl S (insert b F)"
  by (auto simp: meta_def)

text \<open>Marking a used block free and joining it with a free block in front.\<close>

lemma free_merge_prev_ok:
  assumes h: "heap ctl lo hi (words (mem m)) (control m) S F" and p: "live S F p = Some s"
  defines "b \<equiv> p - 16"
  obtains M0 d M c S' F' where "block_mark_as_free b (mem m) = Some M0"
    "block_merge_prev ctl b (m\<lparr>mem := M0\<rparr>) = Some (d, m\<lparr>mem := M, control := c\<rparr>)"
    "heap_but ctl lo hi (words M) c S' F' d" "live S' F' = (live S F)(p := None)"
    "within (meta ctl S (insert b F)) (words (mem m)) (words M)" "meta ctl S' F' \<subseteq> meta ctl S (insert b F)"
proof -
  note at = heapD(1) [OF h] and co = heapD(2) [OF h]
  have b: "b \<notin> F" "S b = Some s" "s \<noteq> 0" using p by (simp_all add: live_Some b_def)
  note g = heap_atD(2) [OF at] and hd = heap_atD(3) [OF at]
  obtain M0 where m0: "block_mark_as_free b (mem m) = Some M0"
    "heap_at ctl lo hi (words M0) (control m) S (insert b F) (size_classes S F)"
    "within (meta ctl S (insert b F)) (words (mem m)) (words M0)"
    using heap_mark_free [OF at b] by metis
  let ?m = "m\<lparr>mem := M0\<rparr>"
  have hd0: "headers (words (mem ?m)) S (insert b F)" using heap_atD(3) [OF m0(2)] by simp
  have nb: "nxt S b \<noteq> b" using fields_apart(2) [OF g b(2,2,3)] .
  have pp: "p = b + 16" by (simp add: b_def)
  have l0: "live S (insert b F) = (live S F)(p := None)"
    by (rule live_eqI) (use live_real in \<open>auto simp: live_Some pp\<close>)
  show ?thesis
  proof (cases "b \<in> nxt S ` F")
    case False
    then have mp: "block_merge_prev ctl b ?m = Some (b, m\<lparr>mem := M0, control := control m\<rparr>)"
      using header_reads(3) [OF g hd0 b(2)] nb by (simp add: block_merge_prev_def)
    have "size_classes S F = (size_classes S (insert b F))(b := None)"
      using b(1) by (auto simp: size_classes_def fun_eq_iff)
    moreover have "nxt S x \<notin> insert b F" if "x \<in> insert b F - {b}" for x
      using that False co by auto
    ultimately have "heap_but ctl lo hi (words M0) (control m) S (insert b F) b"
      using m0(2) unfolding heap_but_def by simp
    then show ?thesis using that [OF m0(1) mp _ l0 m0(3) order_refl] by blast
  next
    case True
    then obtain d where d: "d \<in> F" "nxt S d = b" by auto
    obtain t where t: "S d = Some t" "t \<noteq> 0" using headersD(1) [OF hd d(1)] by blast
    have db: "d \<noteq> b" using d(1) b(1) by auto
    have d0: "d \<noteq> 0" using geom_block(7) [OF g t(1)] .
    have al: "al8 b" using geom_block(1) [OF g b(2)] .
    have prev: "block_prev M0 b = Some d"
      using header_reads(3) [OF g hd0 b(2)] True headersD(3) [OF hd0, of d] d al
      by (simp add: block_prev_def tlsf_assert_def words_load)
    have m0': "heap_at ctl lo hi (words (mem ?m)) (control ?m) S (insert b F) (size_classes S F)" using m0(2) by simp
    have "size_classes S F d = Some (mapping_insert (the (S d)))" using d(1) by (simp add: size_classes_def)
    from block_remove_ok [OF m0' this] obtain M1 c where r0: "block_remove ctl d ?m = Some (?m\<lparr>mem := M1, control := c\<rparr>)"
      "heap_at ctl lo hi (words M1) c S (insert b F) ((size_classes S F)(d := None))"
      "within (meta ctl S (insert b F)) (words (mem ?m)) (words M1)" by metis
    then have r: "block_remove ctl d ?m = Some (m\<lparr>mem := M1, control := c\<rparr>)"
      "heap_at ctl lo hi (words M1) c S (insert b F) ((size_classes S F)(d := None))"
      "within (meta ctl S (insert b F)) (words M0) (words M1)" by simp_all
    let ?S = "S(d \<mapsto> t + (s + 8), b := None)"
    obtain M where j: "block_absorb d b M1 = Some (d, M)"
      "heap_at ctl lo hi (words M) c ?S (insert b F - {b}) ((size_classes S F)(d := None))"
      "within (meta ctl S (insert b F)) (words M1) (words M)"
      using heap_join [OF r(2) _ t(1) _ d(2) b(2)] d(1) b(1) by auto
    have F: "insert b F - {b} = F" using b(1) by auto
    note gj = geom_join [OF g t b(2) [folded d(2)] b(3), unfolded d(2)]
    have n: "nxt ?S x = nxt S x" if "x \<in> F - {d}" for x
      using gj(2) [of x] that b(1) by auto
    have "(size_classes S F)(d := None) = (size_classes ?S F)(d := None)"
      using b(1) by (auto simp: size_classes_def fun_eq_iff)
    then have "heap_but ctl lo hi (words M) c ?S F d"
      using j(2) n co d(1) unfolding heap_but_def F by auto
    moreover have "live ?S F = (live S F)(p := None)"
      using live_join [of d "insert b F" b S] d(1) db l0 unfolding F by auto
    moreover have "block_merge_prev ctl b ?m = Some (d, m\<lparr>mem := M, control := c\<rparr>)"
      using header_reads(3) [OF g hd0 b(2)] True prev d0 header_reads(2) [OF g hd0 t(1)] d(1) r(1) j(1)
      by (simp add: block_merge_prev_def tlsf_assert_def on_mem_def)
    moreover have "within (meta ctl S (insert b F)) (words (mem m)) (words M)"
      using within_trans [OF m0(3) within_trans [OF r(3) j(3)]] .
    moreover have "meta ctl ?S F \<subseteq> meta ctl S (insert b F)"
      using meta_join [OF g heap_atD(3) [OF m0(2)] _ d(2) t b(2), of ctl] unfolding F by auto
    ultimately show ?thesis using that m0(1) by blast
  qed
qed

lemma free_ok:
  assumes h: "heap ctl lo hi (words (mem m)) (control m) S F" and p: "live S F p = Some s"
  obtains M c S' F' where "tlsf_free ctl p m = Some (m\<lparr>mem := M, control := c\<rparr>)" "heap ctl lo hi (words M) c S' F'"
    "live S' F' = (live S F)(p := None)" "within (meta ctl S (insert (p - 16) F)) (words (mem m)) (words M)"
proof -
  let ?b = "p - 16"
  note at = heapD(1) [OF h]
  have b: "?b \<notin> F" "S ?b = Some s" "s \<noteq> 0" using p by (simp_all add: live_Some)
  have "unat (?b + 16) = unat ?b + 16" using geom_real(4) [OF heap_atD(2) [OF at] b(2,3)] .
  then have p0: "p \<noteq> NULL" by auto
  obtain M0 d M1 c1 S1 F1 where a: "block_mark_as_free ?b (mem m) = Some M0"
    "block_merge_prev ctl ?b (m\<lparr>mem := M0\<rparr>) = Some (d, m\<lparr>mem := M1, control := c1\<rparr>)"
    "heap_but ctl lo hi (words M1) c1 S1 F1 d" "live S1 F1 = (live S F)(p := None)"
    "within (meta ctl S (insert ?b F)) (words (mem m)) (words M1)" "meta ctl S1 F1 \<subseteq> meta ctl S (insert ?b F)"
    by (rule free_merge_prev_ok [OF h p])
  let ?m1 = "m\<lparr>mem := M1, control := c1\<rparr>"
  have a3: "heap_but ctl lo hi (words (mem ?m1)) (control ?m1) S1 F1 d" using a(3) by simp
  obtain M2 c2 S2 F2 where n: "block_merge_next ctl d ?m1 = Some (d, m\<lparr>mem := M2, control := c2\<rparr>)"
    "heap_but ctl lo hi (words M2) c2 S2 F2 d" "nxt S2 d \<notin> F2" "live S2 F2 = live S1 F1"
    "within (meta ctl S1 F1) (words M1) (words M2)" "meta ctl S2 F2 \<subseteq> meta ctl S1 F1"
    by (rule merge_next_ok [OF a3]) simp
  let ?m2 = "m\<lparr>mem := M2, control := c2\<rparr>"
  have n2: "heap_but ctl lo hi (words (mem ?m2)) (control ?m2) S2 F2 d" using n(2) by simp
  obtain M c where i: "block_insert ctl d ?m2 = Some (m\<lparr>mem := M, control := c\<rparr>)" "heap ctl lo hi (words M) c S2 F2"
    "within (meta ctl S2 F2) (words M2) (words M)"
    by (rule insert_last_ok [OF n2 n(3)]) simp
  have "tlsf_free ctl p m = Some (m\<lparr>mem := M, control := c\<rparr>)"
    using p0 header_reads(2) [OF heap_atD(2,3) [OF at] b(2)] b(1) a(1,2) n(1) i(1)
    by (simp add: tlsf_free_def block_from_ptr_def tlsf_assert_def on_mem0_def)
  moreover have "within (meta ctl S (insert ?b F)) (words (mem m)) (words M)"
    by (rule within_trans [OF a(5)], rule within_trans [OF within_mono [OF n(5) a(6)]],
        rule within_mono [OF i(3) subset_trans [OF n(6) a(6)]])
  ultimately show ?thesis using that i(2) n(4) a(4) by simp
qed

end
