(* ===== verification/Hive_Alloc.thy ===== *)
theory Hive_Alloc
  imports Hive_Heap Hive_Pool
begin

text \<open>
  The allocator as its clients see it: a new heap is sound, what a client holds is untouched by
  the allocator, and the laws of an allocator, stated as a locale, hold of \<^verbatim>\<open>mm/tlsf.c\<close> and of
  the root pool of \<^verbatim>\<open>os/pool.c\<close>. A client that keeps to the interface is proved safe once, inside
  the locale.
\<close>

section \<open>A new heap\<close>

lemma tlsf_size_value [simp]: "tlsf_size = 6536"
  by (simp add: tlsf_size_def)

lemma free_lists_empty:
  assumes "al8 z" "z \<noteq> 0"
  shows "free_lists w z \<lparr>fl_bitmap = 0, sl_bitmap = \<lambda>i. 0, blocks = \<lambda>i j. z\<rparr> Map.empty"
proof -
  have "lists w z \<lparr>fl_bitmap = 0, sl_bitmap = \<lambda>i. 0, blocks = \<lambda>i j. z\<rparr> Map.empty"
    by (rule listsI [where L = "\<lambda>i j. []"]) simp_all
  then show ?thesis using assms by (simp add: free_lists_def nodes_def bitmaps_def)
qed

lemma junk_used: "al8 t \<Longrightarrow> ((t OR (x AND 3)) AND - 2) OR 2 = tag t False True"
proof -
  have "x AND 3 = tag 0 (bit x 0) (bit x 1)"
    by (rule bit_word_eqI) (auto simp: tag_def bit_simps bit_1_2 bit_int_3 intro: gr0I)
  then have "t OR (x AND 3) = tag t (bit x 0) (bit x 1)" by (simp add: tag_def)
  moreover assume "al8 t"
  ultimately show ?thesis by (simp add: tag_bits tag_bits_neg)
qed

lemma align_down_8:
  "\<exists>a. align_down x 8 = Some a \<and> unat a = unat x - unat x mod 8"
proof -
  have t: "take_bit 3 x = x AND 7" by (simp add: take_bit_eq_mask mask_eq_exp_minus_1)
  have "unat (x - (x AND 7)) = unat x - unat x mod 2 ^ 3"
    using unat_align_down_mask [of x 3] unfolding and_not_mask_word t .
  then show ?thesis by (simp add: align_down_def tlsf_assert_def)
qed

lemma geom_new:
  assumes "al8 b" "al8 pb" "24 \<le> unat pb" "unat pb < 4294967296" "24 \<le> unat b" "unat b + unat pb + 24 < 18446744073709551616"
  defines "n \<equiv> b + 8 + pb"
  shows "geom (unat b + 8) (unat b + 24 + unat pb) [b \<mapsto> pb, n \<mapsto> 0]" "unat n = unat b + 8 + unat pb" "n \<noteq> b"
    "nxt [b \<mapsto> pb, n \<mapsto> 0] b = n"
proof -
  have "unat (b + 8) = unat b + 8" using assms(6) by (subst unat_add64) simp_all
  then show n: "unat n = unat b + 8 + unat pb" using assms(6) unfolding n_def by (subst unat_add64) simp_all
  then have "unat n \<noteq> unat b" by simp
  then show nb: "n \<noteq> b" by metis
  have pb: "pb \<noteq> 0" using assms(3) by auto
  show nx: "nxt [b \<mapsto> pb, n \<mapsto> 0] b = n" using nb by (simp add: nxt_def n_def)
  have al: "al8 n" using assms(1,2) by (simp add: n_def al8_add)
  have "nxt [b \<mapsto> pb, n \<mapsto> 0] c \<in> dom [b \<mapsto> pb, n \<mapsto> 0]" if "[b \<mapsto> pb, n \<mapsto> 0] c = Some s" "s \<noteq> 0" for c s
    using that nx by (auto split: if_splits)
  note step = this
  show "geom (unat b + 8) (unat b + 24 + unat pb) [b \<mapsto> pb, n \<mapsto> 0]"
  proof (rule geomI)
    show "\<exists>c s. [b \<mapsto> pb, n \<mapsto> 0] c = Some s \<and> unat c + 8 = unat b + 8"
      by (rule exI [of _ b]) (use nb in simp)
    show "24 \<le> unat s \<and> unat c + 24 + unat s \<le> unat b + 24 + unat pb \<and> nxt [b \<mapsto> pb, n \<mapsto> 0] c \<in> dom [b \<mapsto> pb, n \<mapsto> 0]"
      if "[b \<mapsto> pb, n \<mapsto> 0] c = Some s" "s \<noteq> 0" for c s
      using step [OF that] that assms(3) by (auto split: if_splits)
  qed (use assms(1-6) n al pb in \<open>auto split: if_splits\<close>)
qed

lemma add_pool_ok:
  assumes f: "free_lists (words (mem m)) ctl (control m) Map.empty" and p: "al8 p" "unat ctl + 32 \<le> unat p"
    and len: "40 \<le> unat len" "unat len - 16 < 4294967296" "unat p + unat len < 18446744073709551616"
  obtains M c S F where "tlsf_add_pool stk ctl p len m = Some (p, m\<lparr>mem := M, control := c\<rparr>)"
    "heap ctl (unat p) (unat p + 16 + (unat len - 16) div 8 * 8) (words M) c S F" "live S F = Map.empty"
    "F = {p - 8}" "unat (the (S (p - 8))) = (unat len - 16) div 8 * 8"
proof -
  have n: "nodes ctl (dom (Map.empty :: classes))" using f by (simp add: free_lists_def)
  note ctl = nodesD(1,2) [OF n]
  have "unat (len - 16) = unat len - 16" using len(1) by (subst unat_sub64) simp_all
  then obtain pb where pb: "align_down (len - 16) 8 = Some pb" "unat pb = (unat len - 16) div 8 * 8"
    using align_down_8 [of "len - 16"] by (auto simp: minus_mod_eq_div_mult)
  have pb24: "24 \<le> unat pb" "unat pb \<le> unat len - 16"
  proof -
    have "3 \<le> (unat len - 16) div 8" using len(1) by (simp add: div_le_mono [of 24 "unat len - 16" 8, simplified])
    then show "24 \<le> unat pb" unfolding pb(2) by simp
    show "unat pb \<le> unat len - 16" unfolding pb(2) by simp
  qed
  have al: "al8 pb" by (simp add: al8_def pb(2))
  let ?b = "p - 8"
  have b: "unat ?b = unat p - 8" "al8 ?b" using p al8_diff [OF p(1) al8_numeral(1)] by (simp_all add: unat_sub64)
  have lt: "unat pb < 4294967296" "unat ?b + unat pb + 24 < 18446744073709551616" "24 \<le> unat ?b"
    using pb24 len b(1) p(2) by linarith+
  note gn = geom_new [OF b(2) al pb24(1) lt(1,3,2)]
  let ?n = "?b + 8 + pb"
  let ?S = "[?b \<mapsto> pb, ?n \<mapsto> 0]"
  have pbz: "pb \<noteq> 0" using pb24(1) by auto
  have S: "?S ?b = Some pb" "?S ?n = Some 0" using gn(3) by simp_all
  have lo: "unat ctl + 32 \<le> unat ?b + 8" using b(1) p(2) by simp
  have nb: "nodes ctl (insert ?b (dom (Map.empty :: classes)))"
    using lo ctl gn(1) by (rule nodes_blocks) (use S pbz in auto)
  obtain i j where ij: "mapping_insert pb = (i, j)" by (cases "mapping_insert pb")
  have ij': "i < FL_INDEX_COUNT" "j < SL_INDEX_COUNT" using mapping_insert_in_class(3,4) [OF ij] lt(1) by simp_all
  let ?M1 = "block_set_prev_used ?b (block_set_free ?b (block_set_size ?b pb (mem m)))"
  have w1: "words ?M1 = (words (mem m))(?b + 8 := tag pb True False)"
    using p(1) junk_bits(3) [OF al]
    by (simp add: block_set_prev_used_def block_set_free_def block_set_size_def size_field_def words_load Let_def fun_eq_iff)
  have sz: "block_size M ?b = pb" if "words M (?b + 8) = tag pb True False" for M
    using that p(1) tag_bits_neg(1) [OF al] by (simp add: block_size_def size_field_def words_load)
  let ?m1 = "m\<lparr>mem := ?M1\<rparr>"
  have off: "?b + 8 \<noteq> ctl + 16" "?b + 8 \<noteq> ctl + 24"
  proof -
    have "unat (ctl + 16) = unat ctl + 16" "unat (ctl + 24) = unat ctl + 24" "unat (?b + 8) = unat ?b + 8"
      using lo lt(2) b(1) p(2) by (simp_all add: unat_add64)
    then have "unat (?b + 8) \<noteq> unat (ctl + 16)" "unat (?b + 8) \<noteq> unat (ctl + 24)" using lo by linarith+
    then show "?b + 8 \<noteq> ctl + 16" "?b + 8 \<noteq> ctl + 24" by metis+
  qed
  have f1: "free_lists (words (mem ?m1)) ctl (control ?m1) Map.empty"
    using free_lists_frame [OF f] by simp
  obtain h M2 c where i: "h \<in> insert ctl (dom (Map.empty :: classes))" "insert_free_block ctl ?b i j ?m1 = Some (?m1\<lparr>mem := M2, control := c\<rparr>)"
    "words M2 = (words (mem ?m1))(?b + 16 := h, ?b + 24 := ctl, h + 24 := ?b)" "free_lists (words M2) ctl c [?b \<mapsto> (i, j)]"
    by (rule insert_free_block_ok [OF f1 nb refl ij'])
  have h: "h = ctl" using i(1) by simp
  have w2: "words M2 (?b + 8) = tag pb True False" using i(3) w1 off h by simp
  have nx: "block_next M2 ?b = Some ?n"
    using sz [OF w2] pbz
    by (simp add: block_next_def block_is_last_def tlsf_assert_def offset_to_block_def block_to_ptr_def)
  have aln: "al8 ?n" using p(1) al by (simp add: al8_add)
  let ?M = "block_set_prev_free ?n (block_set_used ?n (block_set_size ?n 0 (store64 M2 ?n ?b)))"
  have w: "words ?M = (words M2)(?n := ?b, ?n + 8 := tag 0 False True)"
    using aln junk_used [of 0]
    by (simp add: block_set_prev_free_def block_set_used_def block_set_size_def size_field_def words_load Let_def fun_eq_iff)
  have "block_insert ctl ?b ?m1 = Some (m\<lparr>mem := M2, control := c\<rparr>)"
    using i(2) ij sz [of ?M1] w1 by (simp add: block_insert_def)
  moreover have "\<not> pb < 24" "\<not> 4294967296 < pb" using pb24(1) lt(1) by (simp_all add: word_less_nat_alt)
  moreover have "p mod 8 = 0" using p(1) by (simp add: al8_def word_unat_eq_iff unat_mod)
  ultimately have "tlsf_add_pool stk ctl p len m = Some (p, m\<lparr>mem := ?M, control := c\<rparr>)"
    using pb(1) nx
    by (simp add: tlsf_add_pool_def tlsf_pool_overhead_def offset_to_block_def on_mem_def block_link_next_def Let_def)
  moreover have "heap_at ctl (unat ?b + 8) (unat ?b + 24 + unat pb) (words ?M) c ?S {?b} [?b \<mapsto> (i, j)]"
  proof -
    have ne: "?n \<noteq> ?b + 8"
      using fields_apart(1) [OF gn(1) S(1) S(1) pbz] unfolding gn(4) .
    have "headers (words ?M) ?S {?b}"
      unfolding headers_def gn(4) w using w2 ne gn(3,4) pbz by (auto split: if_splits)
    moreover have "within (header_words ?S) (words M2) (words ?M)"
      unfolding w using in_header_words [of ?S ?b, OF S(1)] in_header_words(1) [of ?S ?n, OF S(2)] gn(4)
      by (intro within_upd) simp_all
    then have "free_lists (words ?M) ctl c [?b \<mapsto> (i, j)]"
      by (rule links_after_header_writes [OF i(4) gn(1), rotated]) (use S pbz in auto)
    ultimately show ?thesis using lo gn(1) by (simp add: heap_at_def)
  qed
  then have "heap ctl (unat ?b + 8) (unat ?b + 24 + unat pb) (words ?M) c ?S {?b}"
  proof -
    have "[?b \<mapsto> (i, j)] = size_classes ?S {?b}" using ij S(1) by (auto simp: size_classes_def fun_eq_iff)
    then show ?thesis using \<open>heap_at _ _ _ _ _ _ _ _\<close> gn(3,4) unfolding heap_def by simp
  qed
  then have "heap ctl (unat p) (unat p + 16 + (unat len - 16) div 8 * 8) (words ?M) c ?S {?b}"
  proof -
    have e: "unat ?b + 8 = unat p" "unat ?b + 24 + unat pb = unat p + 16 + (unat len - 16) div 8 * 8"
      using b(1) p(2) pb(2) by simp_all
    show ?thesis using \<open>heap _ _ _ _ _ _ _\<close> unfolding e .
  qed
  moreover have "live ?S {?b} = Map.empty"
    by (rule live_eqI) (use S in \<open>auto split: if_splits\<close>)
  ultimately show ?thesis using that S(1) pb(2) by simp
qed

lemma create_with_pool_ok:
  assumes p: "al8 p" "p \<noteq> NULL"
    and len: "6576 \<le> unat len" "unat len < 4294973848" "unat p + unat len < 18446744073709551616"
  obtains M c S F where "tlsf_create_with_pool stk1 stk2 p len m = Some (p, m\<lparr>mem := M, control := c\<rparr>)"
    "heap p (unat p + 6536) (unat p + 6552 + (unat len - 6552) div 8 * 8) (words M) c S F" "live S F = Map.empty"
    "F = {p + 6528}" "unat (the (S (p + 6528))) = (unat len - 6552) div 8 * 8"
proof -
  let ?m = "control_construct p m"
  have "p mod 8 = 0" using p(1) by (simp add: al8_def word_unat_eq_iff unat_mod)
  then have cr: "tlsf_create stk1 p m = Some (p, ?m)" by (simp add: tlsf_create_def)
  have f: "free_lists (words (mem ?m)) p (control ?m) Map.empty"
    using free_lists_empty [OF p] by (simp add: control_construct_def Let_def)
  have u: "unat (p + 6536) = unat p + 6536" "unat (len - 6536) = unat len - 6536"
    using len by (simp_all add: unat_add64 unat_sub64)
  have al: "al8 (p + 6536)" using p(1) by (intro al8_add) (simp_all add: al8_def)
  have len': "40 \<le> unat (len - 6536)" "unat (len - 6536) - 16 < 4294967296"
    "unat (p + 6536) + unat (len - 6536) < 18446744073709551616" "unat p + 32 \<le> unat (p + 6536)"
    unfolding u using len by linarith+
  have e: "p + 6536 - 8 = p + 6528" by simp
  obtain M c S F where a: "tlsf_add_pool stk2 p (p + 6536) (len - 6536) ?m = Some (p + 6536, ?m\<lparr>mem := M, control := c\<rparr>)"
    "heap p (unat (p + 6536)) (unat (p + 6536) + 16 + (unat (len - 6536) - 16) div 8 * 8) (words M) c S F"
    "live S F = Map.empty" "F = {p + 6536 - 8}" "unat (the (S (p + 6536 - 8))) = (unat (len - 6536) - 16) div 8 * 8"
    by (rule add_pool_ok [OF f al len'(4,1,2,3)])
  have "tlsf_create_with_pool stk1 stk2 p len m = Some (p, m\<lparr>mem := M, control := c\<rparr>)"
    using cr a(1) by (simp add: tlsf_create_with_pool_def control_construct_def Let_def)
  moreover have "unat p + 6536 + 16 = unat p + 6552" "unat len - 6536 - 16 = unat len - 6552" by simp_all
  ultimately show ?thesis using that a(2-5) unfolding u e by metis
qed

section \<open>Payloads\<close>

text \<open>The bytes the client holds, and memories that agree on them.\<close>

definition payload :: "(addr \<rightharpoonup> u64) \<Rightarrow> addr set" where
  "payload U = {x. \<exists>p s. U p = Some s \<and> unat (x - p) < unat s}"

lemma live_block:
  assumes g: "geom lo hi S" and p: "live S F p = Some s"
  shows "S (p - 16) = Some s" "s \<noteq> 0" "p - 16 \<notin> F" "unat p = unat (p - 16) + 16" "unat (p - 16) + 24 + unat s \<le> hi"
    "hi < 18446744073709551616" "al8 p" "al8 s" "lo + 8 \<le> unat p" "24 \<le> unat s"
proof -
  show b: "S (p - 16) = Some s" "s \<noteq> 0" "p - 16 \<notin> F" using p by (simp_all add: live_Some)
  note gb = geom_block [OF g b(1)] and gr = geom_real [OF g b(1,2)]
  show "unat (p - 16) + 24 + unat s \<le> hi" "hi < 18446744073709551616" "al8 s" "24 \<le> unat s" using gb gr by blast+
  show u: "unat p = unat (p - 16) + 16" using gr(4) by simp
  show "al8 p" using gb(1) al8_add [of "p - 16" 16] by simp
  show "lo + 8 \<le> unat p" using gb(3) u by simp
qed

lemma offset_range:
  fixes x p s :: u64
  assumes "unat p + unat s < 18446744073709551616"
  shows "unat (x - p) < unat s \<longleftrightarrow> unat p \<le> unat x \<and> unat x < unat p + unat s"
proof (cases "unat p \<le> unat x")
  case True
  then have "unat (x - p) = unat x - unat p" by (rule unat_sub64)
  then show ?thesis using True by linarith
next
  case False
  then have "unat (x - p) = 18446744073709551616 + unat x - unat p" by (simp add: unat_sub_if')
  then show ?thesis using assms False by simp
qed

lemma live_range:
  assumes g: "geom lo hi S" and p: "live S F p = Some s"
  shows "unat (x - p) < unat s \<longleftrightarrow> unat p \<le> unat x \<and> unat x < unat p + unat s" "unat (x - p) < unat s \<Longrightarrow> own S (p - 16) x"
proof -
  note l = live_block [OF g p]
  show r: "unat (x - p) < unat s \<longleftrightarrow> unat p \<le> unat x \<and> unat x < unat p + unat s"
    using l(4-6) by (intro offset_range) simp
  show "own S (p - 16) x" if "unat (x - p) < unat s"
    using that [unfolded r] l(1,4) by (simp add: own_def)
qed

text \<open>A word of a payload is written by no operation that has the block in use.\<close>

lemma payload_not_meta:
  assumes h: "heap_at ctl lo hi w c S F K" and p: "live S F p = Some s" and a: "unat (a - p) < unat s" and G: "G \<subseteq> dom S" "p - 16 \<notin> G"
  shows "a \<notin> meta ctl S G"
proof -
  note g = heap_atD(2) [OF h]
  note l = live_block [OF g p] and r = live_range [OF g p, of a]
  have o: "own S (p - 16) a" "unat p \<le> unat a" using r a by blast+
  have "a \<noteq> ctl + 16" "a \<noteq> ctl + 24"
  proof -
    have "unat (ctl + 16) = unat ctl + 16" "unat (ctl + 24) = unat ctl + 24"
      using heap_atD(1) [OF h] l by (simp_all add: unat_add64)
    then have "unat a \<noteq> unat (ctl + 16)" "unat a \<noteq> unat (ctl + 24)" using o(2) l(9) heap_atD(1) [OF h] by linarith+
    then show "a \<noteq> ctl + 16" "a \<noteq> ctl + 24" by metis+
  qed
  moreover have "a \<noteq> b + 8" if bS: "b \<in> dom S" for b
  proof
    assume e: "a = b + 8"
    obtain t where t: "S b = Some t" using bS by auto
    have "b = p - 16" using own_unique [OF g t l(1) own_fields(1) [OF g t]] o(1) e by simp
    then show False using geom_block(9) [OF g l(1)] o(2) l(4) e by simp
  qed
  moreover have "\<not> own S f a" if fG: "f \<in> G" for f
  proof
    assume f: "own S f a"
    obtain t where "S f = Some t" using fG G(1) by blast
    then show False using own_unique [OF g _ l(1) f o(1)] fG G(2) by blast
  qed
  ultimately show ?thesis unfolding meta_def by blast
qed

definition agree :: "addr set \<Rightarrow> memory \<Rightarrow> memory \<Rightarrow> bool" where
  "agree A M M' \<longleftrightarrow> (\<forall>x \<in> A. M' x = M x)"

lemma payload_kept:
  assumes h: "heap_at ctl lo hi w c S F K" and U: "\<And>p s. U p = Some s \<Longrightarrow> live S F p = Some s \<and> p - 16 \<notin> G" and G: "G \<subseteq> dom S"
    and wi: "within (meta ctl S G) (words M) (words M')"
  shows "agree (payload U) M M'"
  unfolding agree_def
proof
  note g = heap_atD(2) [OF h]
  fix x assume "x \<in> payload U"
  then obtain p s where p: "U p = Some s" "unat (x - p) < unat s" by (auto simp: payload_def)
  note u = U [OF p(1)]
  note l = live_block [OF g conjunct1 [OF u]] and r = live_range [OF g conjunct1 [OF u]]
  define i where "i = unat (x - p)"
  have i: "i < unat s" "i < 18446744073709551616" using p(2) unat64_lt [of s] by (simp_all add: i_def)
  define a where "a = p + of_nat (i div 8 * 8)"
  have u8: "unat (of_nat (i div 8 * 8) :: u64) = i div 8 * 8" using i(2) by (intro unat_of_nat64) simp
  have "al8 (of_nat (i div 8 * 8))" unfolding al8_def u8 by simp
  then have al: "al8 a" unfolding a_def by (rule al8_add [OF l(7)])
  have "unat (a - p) < unat s" using i(1) u8 by (simp add: a_def)
  from payload_not_meta [OF h conjunct1 [OF u] this G conjunct2 [OF u]]
  have w: "words M' a = words M a" using wi by (simp add: within_def)
  have "x = p + of_nat i" by (simp add: i_def)
  also have "\<dots> = a + of_nat (i mod 8)"
  proof -
    have "(of_nat i :: u64) = of_nat (i div 8 * 8 + i mod 8)" by simp
    then show ?thesis by (simp only: a_def of_nat_add add.assoc)
  qed
  finally show "M' x = M x" using words_bytes [OF w al, of "i mod 8"] by simp
qed

lemma agree_mono: "agree A M M' \<Longrightarrow> B \<subseteq> A \<Longrightarrow> agree B M M'"
  unfolding agree_def by blast

lemma agree_Un: "agree (A \<union> B) M M' \<longleftrightarrow> agree A M M' \<and> agree B M M'"
  unfolding agree_def by blast

lemma agree_trans: "agree A M M' \<Longrightarrow> agree A M' M'' \<Longrightarrow> agree A M M''"
  by (simp add: agree_def)

text \<open>The memory before the control structure and behind the pool.\<close>

definition beyond :: "addr \<Rightarrow> nat \<Rightarrow> addr set" where
  "beyond ctl hi = {x. unat x < unat ctl \<or> hi \<le> unat x}"

lemma own_ends:
  assumes g: "geom lo hi S" and b: "S b = Some s" and a: "al8 a" "own S b a"
  shows "lo \<le> unat a" "unat a + 8 \<le> hi"
proof -
  note gb = geom_block [OF g b]
  have m: "unat b mod 8 = 0" "unat s mod 8 = 0" "unat a mod 8 = 0" using gb(1,2) a(1) by (simp_all add: al8_def)
  have o: "unat b + 8 \<le> unat a" "unat a < unat b + 16 + unat s" using a(2) b by (simp_all add: own_def)
  have "unat a + 8 \<le> unat b + 16 + unat s" using m o(2) by presburger
  then show "lo \<le> unat a" "unat a + 8 \<le> hi" using gb(3,4) o(1) by simp_all
qed

lemma beyond_kept:
  assumes h: "heap_at ctl lo hi w c S F K" and G: "G \<subseteq> dom S" and wi: "within (meta ctl S G) (words M) (words M')"
  shows "agree (beyond ctl hi) M M'"
  unfolding agree_def
proof
  note g = heap_atD(2) [OF h] and c = heap_atD(1,6) [OF h]
  fix x assume x: "x \<in> beyond ctl hi"
  define a where "a = (of_nat (unat x div 8 * 8) :: u64)"
  have ua: "unat a = unat x div 8 * 8" unfolding a_def by (rule unat_of_nat64) (use unat64_lt [of x] in simp)
  then have al: "al8 a" by (simp add: al8_def)
  have xa: "x = a + of_nat (unat x mod 8)"
  proof -
    have "of_nat (unat x div 8 * 8 + unat x mod 8) = x" by simp
    then show ?thesis unfolding a_def of_nat_add by simp
  qed
  have le: "unat a \<le> unat x" "unat x < unat a + 8" unfolding ua by presburger+
  have "a \<notin> meta ctl S G"
  proof
    have lh: "unat ctl + 32 \<le> lo" "\<exists>b s. S b = Some s" using c geom_ends(1) [OF g] by blast+
    then have hi: "lo + 8 \<le> hi" using geom_block(3,4) [OF g] by fastforce
    have "unat (ctl + 16) = unat ctl + 16" "unat (ctl + 24) = unat ctl + 24"
      using lh hi geom_bounds(2) [OF g] by (simp_all add: unat_add64)
    moreover assume "a \<in> meta ctl S G"
    then consider "a = ctl + 16" | "a = ctl + 24" | b s where "S b = Some s" "own S b a"
      using own_fields(1) [OF g] G unfolding meta_def by blast
    ultimately have "unat ctl \<le> unat a \<and> unat a + 8 \<le> hi"
      using own_ends [OF g _ al] lh hi by cases fastforce+
    then show False using x le unfolding beyond_def by auto
  qed
  then have "words M' a = words M a" using wi by (simp add: within_def)
  from words_bytes [OF this al, of "unat x mod 8"] show "M' x = M x" using xa by simp
qed

text \<open>Both at once, and for all the blocks in use.\<close>

lemma untouched:
  assumes h: "heap_at ctl lo hi w c S F K" and G: "G \<subseteq> dom S" and wi: "within (meta ctl S G) (words M) (words M')"
    and U: "\<And>p s. U p = Some s \<Longrightarrow> live S F p = Some s \<and> p - 16 \<notin> G"
  shows "agree (payload U \<union> beyond ctl hi) M M'"
  unfolding agree_Un using payload_kept [OF h U G wi] beyond_kept [OF h G wi] by blast

lemma live_dom: "geom lo hi S \<Longrightarrow> headers w S F \<Longrightarrow> F \<subseteq> dom S"
  using headersD(1) by fastforce

lemma untouched_live:
  assumes h: "heap_at ctl lo hi w c S F K" and wi: "within (meta ctl S F) (words M) (words M')"
  shows "agree (payload (live S F) \<union> beyond ctl hi) M M'"
  by (rule untouched [OF h live_dom [OF heap_atD(2,3) [OF h]] wi]) (simp add: live_Some)

lemma agree_refl [simp]: "agree A M M"
  by (simp add: agree_def)

text \<open>Writing to payloads, or to memory that is not the allocator's, keeps the heap.\<close>

lemma own_word:
  assumes g: "geom lo hi S" and b: "S b = Some s" and a: "al8 a" "own S b a" and k: "k < 8"
  shows "own S b (a + of_nat k)" "unat (a + of_nat k) = unat a + k"
proof -
  note gb = geom_block [OF g b]
  have m: "unat b mod 8 = 0" "unat s mod 8 = 0" "unat a mod 8 = 0" using gb(1,2) a(1) by (simp_all add: al8_def)
  have o: "unat b + 8 \<le> unat a" "unat a < unat b + 16 + unat s" using a(2) b by (simp_all add: own_def)
  have "unat a + 8 \<le> unat b + 16 + unat s" using m o(2) by presburger
  then have k': "unat a + k < unat b + 16 + unat s" using k by simp
  have uk: "unat (of_nat k :: u64) = k" using k by (intro unat_of_nat64) simp
  show u: "unat (a + of_nat k) = unat a + k" using k' gb(4,5) by (subst unat_add64) (simp_all add: uk)
  show "own S b (a + of_nat k)" using u k' o(1) b by (simp add: own_def)
qed

lemma words_eqI: "(\<And>k. k < 8 \<Longrightarrow> M' (a + of_nat k) = M (a + of_nat k)) \<Longrightarrow> words M' a = words M a"
  using load_n_cong [of 8 M' a M] by (simp add: words_def load64_def)

lemma heap_payload_write:
  assumes h: "heap ctl lo hi (words M) c S F" and w: "\<And>x. x \<notin> payload (live S F) \<union> beyond ctl hi \<Longrightarrow> M' x = M x"
  shows "heap ctl lo hi (words M') c S F"
proof -
  note at = heapD(1) [OF h]
  note g = heap_atD(2) [OF at] and hd = heap_atD(3) [OF at]
  have own: "words M' a = words M a"
    if b: "S b = Some s" and a: "al8 a" "own S b a" and c: "b \<in> F \<or> a = b + 8" for a b s
  proof (rule words_eqI)
    fix k :: nat assume k: "k < 8"
    note o = own_word [OF g b a k]
    show "M' (a + of_nat k) = M (a + of_nat k)"
    proof (rule w, rule notI)
      have "a + of_nat k \<notin> beyond ctl hi"
        using o(2) k own_ends [OF g b a] heap_atD(1) [OF at] by (auto simp: beyond_def)
      moreover assume "a + of_nat k \<in> payload (live S F) \<union> beyond ctl hi"
      ultimately have "a + of_nat k \<in> payload (live S F)" by blast
      then obtain p t where p: "live S F p = Some t" "unat (a + of_nat k - p) < unat t" by (auto simp: payload_def)
      note l = live_block [OF g p(1)] and r = live_range [OF g p(1)]
      have "b = p - 16" using own_unique [OF g b l(1) o(1) r(2) [OF p(2)]] .
      moreover have "unat p \<le> unat a + k" using r(1) p(2) o(2) by simp
      ultimately show False using c l(3,4) k geom_block(9) [OF g b] by auto
    qed
  qed
  have w8: "words M' (b + 8) = words M (b + 8)" if b: "S b = Some s" for b s
    using own [OF b _ own_fields(1) [OF g b]] geom_block(1) [OF g b] by simp
  have wn: "words M' (nxt S b) = words M (nxt S b)" if b: "b \<in> F" for b
  proof -
    obtain s where s: "S b = Some s" using headersD(1) [OF hd b] by blast
    show ?thesis using own [OF s geom_block(10) [OF g s] own_fields(2) [OF g s]] b by blast
  qed
  have "headers (words M') S F" by (rule headers_frame [OF hd w8 wn])
  moreover have "free_lists (words M') ctl c (size_classes S F)"
    using heap_atD(4) [OF at]
  proof (rule free_lists_frame)
    fix x assume "x \<in> dom (size_classes S F)"
    then have x: "x \<in> F" by simp
    then obtain s where s: "S x = Some s" "s \<noteq> 0" using headersD(1) [OF hd] by blast
    show "words M' (x + 16) = words M (x + 16) \<and> words M' (x + 24) = words M (x + 24)"
      using own [OF s(1) _ own_fields(3) [OF g s]] own [OF s(1) _ own_fields(4) [OF g s]] geom_block(1) [OF g s(1)] x
      by simp
  qed
  ultimately show ?thesis using h unfolding heap_def heap_at_def by blast
qed

section \<open>The interface of an allocator\<close>

text \<open>
  What a client of an allocator relies on: \<open>inv U m\<close> says that the allocator of the state \<open>m\<close>
  is sound and that exactly the blocks of \<open>U\<close> are in use. The addresses \<open>away\<close> are no business of
  the allocator, and it leaves them alone.
\<close>

locale allocator =
  fixes alloc :: "u64 \<Rightarrow> 'm \<Rightarrow> (addr \<times> 'm) option"
    and release :: "addr \<Rightarrow> 'm \<Rightarrow> 'm option"
    and mem_of :: "'m \<Rightarrow> memory"
    and set_mem :: "memory \<Rightarrow> 'm \<Rightarrow> 'm"
    and inv :: "(addr \<rightharpoonup> u64) \<Rightarrow> 'm \<Rightarrow> bool"
    and away :: "addr set"
  assumes block: "inv U m \<Longrightarrow> U p = Some s \<Longrightarrow> p \<noteq> NULL \<and> al8 p \<and> unat p + unat s < 18446744073709551616"
    and inside: "inv U m \<Longrightarrow> payload U \<inter> away = {}"
    and separate: "inv U m \<Longrightarrow> U p = Some s \<Longrightarrow> U q = Some t \<Longrightarrow> p \<noteq> q \<Longrightarrow>
      unat p + unat s \<le> unat q \<or> unat q + unat t \<le> unat p"
    and alloc: "inv U m \<Longrightarrow> unat sz + 8 \<le> 18446744073709551616 \<Longrightarrow>
      \<exists>p m'. alloc sz m = Some (p, m') \<and> agree (payload U \<union> away) (mem_of m) (mem_of m') \<and>
        (p = NULL \<and> inv U m' \<or> (\<exists>s. U p = None \<and> unat sz \<le> unat s \<and> inv (U(p \<mapsto> s)) m'))"
    and release: "inv U m \<Longrightarrow> U p = Some s \<Longrightarrow>
      \<exists>m'. release p m = Some m' \<and> inv (U(p := None)) m' \<and> agree (payload (U(p := None)) \<union> away) (mem_of m) (mem_of m')"
    and payload_write: "inv U m \<Longrightarrow> (\<And>x. x \<notin> payload U \<union> away \<Longrightarrow> M x = mem_of m x) \<Longrightarrow> inv U (set_mem M m)"
    and mem_set: "mem_of (set_mem M m) = M"

text \<open>
  A client: it asks for blocks, writes bytes into the blocks it has, and gives them back. For
  each request that was granted it remembers the address and what the block holds.
\<close>

datatype request = Alloc u64 | Release nat | Put nat nat u8

type_synonym holdings = "(addr \<times> u8 list) option list"

definition holding :: "holdings \<Rightarrow> nat \<Rightarrow> (addr \<times> u8 list) option" where
  "holding env i = (if i < length env then env ! i else None)"

fun run_requests ::
    "(u64 \<Rightarrow> 'm \<Rightarrow> (addr \<times> 'm) option) \<Rightarrow> (addr \<Rightarrow> 'm \<Rightarrow> 'm option) \<Rightarrow> ('m \<Rightarrow> memory) \<Rightarrow> (memory \<Rightarrow> 'm \<Rightarrow> 'm)
      \<Rightarrow> request list \<Rightarrow> holdings \<Rightarrow> 'm \<Rightarrow> (holdings \<times> 'm) option" where
  "run_requests al re rd wr [] env m = Some (env, m)"
| "run_requests al re rd wr (Alloc sz # rs) env m = do {
     (p, m) \<leftarrow> al sz m;
     run_requests al re rd wr rs
       (env @ [if p = NULL then None else Some (p, map (\<lambda>k. rd m (p + of_nat k)) [0..<unat sz])]) m }"
| "run_requests al re rd wr (Release i # rs) env m =
     (case holding env i of None \<Rightarrow> run_requests al re rd wr rs env m
      | Some (p, cs) \<Rightarrow> do { m \<leftarrow> re p m; run_requests al re rd wr rs (env[i := None]) m })"
| "run_requests al re rd wr (Put i k v # rs) env m =
     (case holding env i of None \<Rightarrow> run_requests al re rd wr rs env m
      | Some (p, cs) \<Rightarrow>
          if k < length cs
          then run_requests al re rd wr rs (env[i := Some (p, cs[k := v])]) (wr ((rd m)(p + of_nat k := v)) m)
          else run_requests al re rd wr rs env m)"

text \<open>
  What the client holds: distinct blocks in use, as large as requested, with the bytes the
  client put there; and, for accounting, that every block in use is held.
\<close>

definition held :: "memory \<Rightarrow> (addr \<rightharpoonup> u64) \<Rightarrow> holdings \<Rightarrow> bool" where
  "held M U env \<longleftrightarrow>
     (\<forall>i p cs. holding env i = Some (p, cs) \<longrightarrow>
        (\<exists>s. U p = Some s \<and> length cs \<le> unat s) \<and> (\<forall>k < length cs. M (p + of_nat k) = cs ! k)) \<and>
     (\<forall>i j p cs cs'. holding env i = Some (p, cs) \<longrightarrow> holding env j = Some (p, cs') \<longrightarrow> i = j)"

definition accounted :: "(addr \<rightharpoonup> u64) \<Rightarrow> holdings \<Rightarrow> bool" where
  "accounted U env \<longleftrightarrow> (\<forall>p s. U p = Some s \<longrightarrow> (\<exists>i cs. holding env i = Some (p, cs)))"

lemma holding_Nil [simp]: "holding [] i = None"
  by (simp add: holding_def)

lemma holding_append: "holding (env @ [x]) i = (if i = length env then x else holding env i)"
  by (auto simp: holding_def nth_append)

lemma holding_update: "holding (env[i := x]) j = (if j = i \<and> i < length env then x else holding env j)"
  by (auto simp: holding_def)

lemma holding_less: "holding env i = Some x \<Longrightarrow> i < length env"
  by (simp add: holding_def split: if_splits)

lemma accounted_append: "accounted U env \<Longrightarrow> accounted U (env @ [x])"
  unfolding accounted_def by (metis holding_append holding_less less_irrefl)

lemma accounted_alloc: "accounted U env \<Longrightarrow> accounted (U(p \<mapsto> s)) (env @ [Some (p, cs)])"
  unfolding accounted_def by (metis fun_upd_other holding_append holding_less less_irrefl)

lemma accounted_release:
  "accounted U env \<Longrightarrow> holding env i = Some (p, cs) \<Longrightarrow> accounted (U(p := None)) (env[i := None])"
  unfolding accounted_def holding_update by (metis (no_types, lifting) fun_upd_apply option.distinct(1) option.inject prod.inject)

lemma accounted_put:
  "accounted U env \<Longrightarrow> holding env i = Some (p, cs) \<Longrightarrow> accounted U (env[i := Some (p, ds)])"
  unfolding accounted_def holding_update by (metis (no_types, lifting) holding_less option.inject prod.inject)

lemma payload_byte: "U p = Some s \<Longrightarrow> k < unat s \<Longrightarrow> p + of_nat k \<in> payload U"
proof -
  assume u: "U p = Some s" and k: "k < unat s"
  then have "unat (of_nat k :: u64) = k" using unat64_lt [of s] by (intro unat_of_nat64) simp
  then have "unat (p + of_nat k - p) < unat s" using k by simp
  then show ?thesis using u unfolding payload_def by blast
qed

context allocator
begin

lemma held_alloc:
  assumes "held (mem_of m) U env" "agree (payload U) (mem_of m) M" "U p = None" "unat sz \<le> unat s"
  shows "held M (U(p \<mapsto> s)) (env @ [Some (p, map (\<lambda>k. M (p + of_nat k)) [0..<unat sz])])"
  using assms payload_byte unfolding held_def agree_def holding_append
  by (auto split: if_splits) (metis (no_types, lifting) less_le_trans option.distinct(1))+

lemma held_agree:
  assumes "held M U env" "agree (payload U) M M'"
  shows "held M' U env"
  unfolding held_def
proof (intro conjI allI impI)
  fix i p cs assume i: "holding env i = Some (p, cs)"
  then obtain s where s: "U p = Some s" "length cs \<le> unat s" "\<forall>k < length cs. M (p + of_nat k) = cs ! k"
    using assms(1) unfolding held_def by blast
  then show "\<exists>s. U p = Some s \<and> length cs \<le> unat s" by blast
  fix k assume k: "k < length cs"
  then have "p + of_nat k \<in> payload U" using payload_byte [of U p s k] s by simp
  then show "M' (p + of_nat k) = cs ! k" using assms(2) s(3) k unfolding agree_def by simp
next
  fix i j p cs cs' assume "holding env i = Some (p, cs)" "holding env j = Some (p, cs')"
  then show "i = j" using assms(1) unfolding held_def by blast
qed

lemma held_release:
  assumes "held M U env" "holding env i = Some (p, cs)"
  shows "held M (U(p := None)) (env[i := None])"
  unfolding held_def holding_update
proof (intro conjI allI impI)
  fix j q ds assume j: "(if j = i \<and> i < length env then None else holding env j) = Some (q, ds)"
  then have j': "j \<noteq> i" "holding env j = Some (q, ds)" using holding_less [OF assms(2)] by (auto split: if_splits)
  then obtain t where t: "U q = Some t" "length ds \<le> unat t" "\<forall>k < length ds. M (q + of_nat k) = ds ! k"
    using assms(1) unfolding held_def by blast
  have "q \<noteq> p" using assms j' unfolding held_def by blast
  then show "\<exists>t. (U(p := None)) q = Some t \<and> length ds \<le> unat t" using t by simp
  show "M (q + of_nat k) = ds ! k" if "k < length ds" for k using t that by blast
next
  fix j k q ds ds'
  assume "(if j = i \<and> i < length env then None else holding env j) = Some (q, ds)"
    "(if k = i \<and> i < length env then None else holding env k) = Some (q, ds')"
  then have "holding env j = Some (q, ds)" "holding env k = Some (q, ds')" by (auto split: if_splits)
  then show "j = k" using assms(1) unfolding held_def by blast
qed

lemma held_put:
  assumes "inv U m" and h: "held M U env" and p: "holding env i = Some (p, cs)" and k: "k < length cs"
  shows "held (M(p + of_nat k := v)) U (env[i := Some (p, cs[k := v])])"
  unfolding held_def holding_update
proof (intro conjI allI impI)
  obtain s where s: "U p = Some s" "length cs \<le> unat s" "\<forall>n < length cs. M (p + of_nat n) = cs ! n"
    using h p unfolding held_def by blast
  have small: "n < 18446744073709551616" if "n < unat x" for n and x :: u64 using that unat64_lt [of x] by simp
  have inj: "n = l" if "p + of_nat n = p + of_nat l" "n < length cs" "l < length cs" for n l
  proof -
    have "(of_nat n :: u64) = of_nat l" using that(1) by simp
    moreover have "unat (of_nat n :: u64) = n" "unat (of_nat l :: u64) = l"
      using that(2,3) s(2) small [of _ s] by (simp_all add: unat_of_nat64)
    ultimately show ?thesis by metis
  qed
  fix j q ds assume "(if j = i \<and> i < length env then Some (p, cs[k := v]) else holding env j) = Some (q, ds)"
  then consider "j = i" "q = p" "ds = cs[k := v]" | "j \<noteq> i" "holding env j = Some (q, ds)"
    using holding_less [OF p] by (auto split: if_splits)
  then have "(\<exists>t. U q = Some t \<and> length ds \<le> unat t) \<and> (\<forall>n < length ds. (M(p + of_nat k := v)) (q + of_nat n) = ds ! n)"
  proof cases
    case 1
    then show ?thesis using s k inj by (auto simp: nth_list_update)
  next
    case 2
    then obtain t where t: "U q = Some t" "length ds \<le> unat t" "\<forall>n < length ds. M (q + of_nat n) = ds ! n"
      using h unfolding held_def by blast
    have qp: "q \<noteq> p" using h p 2 unfolding held_def by blast
    have "q + of_nat n \<noteq> p + of_nat k" if n: "n < length ds" for n
    proof -
      have "unat (of_nat n :: u64) = n" "unat (of_nat k :: u64) = k"
        using n k s(2) t(2) small [of _ s] small [of _ t] by (simp_all add: unat_of_nat64)
      then have "unat (q + of_nat n) = unat q + n" "unat (p + of_nat k) = unat p + k"
        using block [OF assms(1) t(1)] block [OF assms(1) s(1)] n k s(2) t(2) by (simp_all add: unat_add64)
      then show ?thesis
        using separate [OF assms(1) t(1) s(1) qp] n k s(2) t(2) by auto
    qed
    then show ?thesis using t by auto
  qed
  then show "\<exists>t. U q = Some t \<and> length ds \<le> unat t" "n < length ds \<Longrightarrow> (M(p + of_nat k := v)) (q + of_nat n) = ds ! n" for n
    by blast+
next
  fix j l q ds ds'
  assume "(if j = i \<and> i < length env then Some (p, cs[k := v]) else holding env j) = Some (q, ds)"
    "(if l = i \<and> i < length env then Some (p, cs[k := v]) else holding env l) = Some (q, ds')"
  then show "j = l" using h p unfolding held_def by (metis option.inject prod.inject)
qed

text \<open>Every client runs to its end, and its blocks hold what it put there.\<close>

lemma run_requests_ok:
  assumes "inv U m" "held (mem_of m) U env" "accounted U env" "\<And>sz. Alloc sz \<in> set rs \<Longrightarrow> unat sz + 8 \<le> 18446744073709551616"
  shows "\<exists>env' m' U'. run_requests alloc release mem_of set_mem rs env m = Some (env', m') \<and> inv U' m' \<and> held (mem_of m') U' env' \<and> accounted U' env' \<and> agree away (mem_of m) (mem_of m')"
  using assms
proof (induction rs arbitrary: env m U)
  case Nil
  then show ?case by (auto simp: agree_def)
next
  case (Cons r rs)
  have rs: "\<And>sz. Alloc sz \<in> set rs \<Longrightarrow> unat sz + 8 \<le> 18446744073709551616" using Cons.prems(4) by simp
  show ?case
  proof (cases r)
    case (Alloc sz)
    have sz: "unat sz + 8 \<le> 18446744073709551616" using Cons.prems(4) [of sz] Alloc by simp
    obtain p m' where a: "alloc sz m = Some (p, m')" "agree (payload U) (mem_of m) (mem_of m')"
      "p = NULL \<and> inv U m' \<or> (\<exists>s. U p = None \<and> unat sz \<le> unat s \<and> inv (U(p \<mapsto> s)) m')"
      "agree away (mem_of m) (mem_of m')"
      using alloc [OF Cons.prems(1) sz] unfolding agree_Un by blast
    note aw = agree_trans [OF a(4)]
    show ?thesis
    proof (cases "p = NULL")
      case True
      then have i: "inv U m'" using a(3) block [of "U(p \<mapsto> s)" m' p s for s] by auto
      have "held (mem_of m') U (env @ [None])"
        using held_agree [OF Cons.prems(2) a(2)] unfolding held_def holding_append by (auto split: if_splits)
      from Cons.IH [OF i this accounted_append [OF Cons.prems(3)] rs] show ?thesis using Alloc a(1) True aw by auto
    next
      case False
      then obtain s where s: "U p = None" "unat sz \<le> unat s" "inv (U(p \<mapsto> s)) m'" using a(3) by blast
      from Cons.IH [OF s(3) held_alloc [OF Cons.prems(2) a(2) s(1,2)] accounted_alloc [OF Cons.prems(3)] rs] show ?thesis
        using Alloc a(1) False aw by auto
    qed
  next
    case (Release i)
    show ?thesis
    proof (cases "holding env i")
      case None
      then show ?thesis using Release Cons.IH [OF Cons.prems(1,2,3) rs] by simp
    next
      case (Some pc)
      obtain p cs where pc: "pc = (p, cs)" by (cases pc)
      have h: "holding env i = Some (p, cs)" using Some pc by simp
      then obtain s where "U p = Some s" using Cons.prems(2) unfolding held_def by blast
      from release [OF Cons.prems(1) this] obtain m' where m: "release p m = Some m'" "inv (U(p := None)) m'"
        "agree (payload (U(p := None))) (mem_of m) (mem_of m')" "agree away (mem_of m) (mem_of m')" unfolding agree_Un by blast
      have "held (mem_of m') (U(p := None)) (env[i := None])"
        using held_agree [OF held_release [OF Cons.prems(2) h] m(3)] .
      from Cons.IH [OF m(2) this accounted_release [OF Cons.prems(3) h] rs] show ?thesis
        using Release h m(1) agree_trans [OF m(4)] by auto
    qed
  next
    case (Put i k v)
    show ?thesis
    proof (cases "holding env i")
      case None
      then show ?thesis using Put Cons.IH [OF Cons.prems(1,2,3) rs] by simp
    next
      case (Some pc)
      obtain p cs where pc: "pc = (p, cs)" by (cases pc)
      have h: "holding env i = Some (p, cs)" using Some pc by simp
      show ?thesis
      proof (cases "k < length cs")
        case False
        then show ?thesis using Put h Cons.IH [OF Cons.prems(1,2,3) rs] by simp
      next
        case True
        let ?M = "(mem_of m)(p + of_nat k := v)"
        obtain s where s: "U p = Some s" "length cs \<le> unat s" using Cons.prems(2) h unfolding held_def by blast
        have "p + of_nat k \<in> payload U" using payload_byte [of U p s k] s True by simp
        then have "?M x = mem_of m x" if "x \<notin> payload U" for x using that by auto
        then have i: "inv U (set_mem ?M m)" using payload_write [OF Cons.prems(1), of ?M] by blast
        have hd: "held (mem_of (set_mem ?M m)) U (env[i := Some (p, cs[k := v])])"
          unfolding mem_set by (rule held_put [OF Cons.prems(1,2) h True])
        have ac: "accounted U (env[i := Some (p, cs[k := v])])" by (rule accounted_put [OF Cons.prems(3) h])
        have "agree away (mem_of m) (mem_of (set_mem ?M m))"
          using inside [OF Cons.prems(1)] \<open>p + of_nat k \<in> payload U\<close> unfolding mem_set agree_def by auto
        note aw = agree_trans [OF this]
        from Cons.IH [OF i hd ac rs] show ?thesis using Put h True aw by auto
      qed
    qed
  qed
qed

end

section \<open>The allocator of the kernel\<close>

definition heap_inv :: "addr \<Rightarrow> nat \<Rightarrow> nat \<Rightarrow> (addr \<rightharpoonup> u64) \<Rightarrow> 'a tlsf_scheme \<Rightarrow> bool" where
  "heap_inv ctl lo hi U m \<longleftrightarrow> (\<exists>S F. heap ctl lo hi (words (mem m)) (control m) S F \<and> live S F = U)"

lemma heap_inv_block:
  assumes "heap_inv ctl lo hi U m" "U p = Some s"
  shows "p \<noteq> NULL \<and> al8 p \<and> unat p + unat s < 18446744073709551616" "lo \<le> unat p \<and> unat p + unat s < hi"
proof -
  obtain S F where h: "heap ctl lo hi (words (mem m)) (control m) S F" "live S F p = Some s"
    using assms unfolding heap_inv_def by auto
  note l = live_block [OF heap_atD(2) [OF heapD(1) [OF h(1)]] h(2)]
  show "p \<noteq> NULL \<and> al8 p \<and> unat p + unat s < 18446744073709551616" using l by auto
  show "lo \<le> unat p \<and> unat p + unat s < hi" using l by simp
qed

lemma heap_inv_separate:
  assumes "heap_inv ctl lo hi U m" "U p = Some s" "U q = Some t" "p \<noteq> q"
  shows "unat p + unat s \<le> unat q \<or> unat q + unat t \<le> unat p"
proof -
  obtain S F where h: "heap ctl lo hi (words (mem m)) (control m) S F" "live S F p = Some s" "live S F q = Some t"
    using assms(1-3) unfolding heap_inv_def by auto
  note g = heap_atD(2) [OF heapD(1) [OF h(1)]]
  note lp = live_block [OF g h(2)] and lq = live_block [OF g h(3)]
  have "p - 16 \<noteq> q - 16" using assms(4) by simp
  then consider "unat (p - 16) < unat (q - 16)" | "unat (q - 16) < unat (p - 16)"
    by (metis linorder_neqE_nat word_unat_eq_iff)
  then show ?thesis
    using geom_order [OF g lp(1) lq(1)] geom_order [OF g lq(1) lp(1)] lp(4) lq(4) by cases auto
qed

lemma heap_inv_malloc:
  assumes "heap_inv ctl lo hi U m" "unat sz + 8 \<le> 18446744073709551616"
  shows "\<exists>p m'. tlsf_malloc ctl sz m = Some (p, m') \<and> agree (payload U \<union> beyond ctl hi) (mem m) (mem m') \<and>
    (\<exists>M c. m' = m\<lparr>mem := M, control := c\<rparr>) \<and>
    (p = NULL \<and> heap_inv ctl lo hi U m' \<or> (\<exists>s. U p = None \<and> unat sz \<le> unat s \<and> heap_inv ctl lo hi (U(p \<mapsto> s)) m'))"
proof -
  obtain S F where h: "heap ctl lo hi (words (mem m)) (control m) S F" and U: "live S F = U"
    using assms(1) unfolding heap_inv_def by auto
  note at = heapD(1) [OF h]
  consider (none) "tlsf_malloc ctl sz m = Some (NULL, m)"
    | (some) p M c S' F' t where "tlsf_malloc ctl sz m = Some (p, m\<lparr>mem := M, control := c\<rparr>)" "rounded sz \<noteq> 0" "p - 16 \<in> F"
      "heap ctl lo hi (words M) c S' F'" "live S' F' = (live S F)(p \<mapsto> t)" "rounded sz \<le> unat t"
      "within (meta ctl S F) (words (mem m)) (words M)"
    using malloc_ok [OF h assms(2)] by blast
  then show ?thesis
  proof cases
    case none
    moreover have "m = m\<lparr>mem := mem m, control := control m\<rparr>" by simp
    ultimately show ?thesis using assms(1) unfolding agree_def by blast
  next
    case a: some
    have "agree (payload U \<union> beyond ctl hi) (mem m) M" using untouched_live [OF at a(7)] unfolding U .
    moreover have "U p = None" using a(3) U by (auto simp: live_def)
    moreover have "unat sz \<le> unat t" using rounded_bounds(4) [OF a(2)] a(6) by simp
    moreover have "heap_inv ctl lo hi (U(p \<mapsto> t)) (m\<lparr>mem := M, control := c\<rparr>)"
      using a(4,5) U unfolding heap_inv_def by auto
    ultimately show ?thesis using a(1) by (intro exI [of _ p] exI [of _ "m\<lparr>mem := M, control := c\<rparr>"]) auto
  qed
qed

lemma heap_inv_free:
  assumes "heap_inv ctl lo hi U m" "U p = Some s"
  shows "\<exists>m'. tlsf_free ctl p m = Some m' \<and> heap_inv ctl lo hi (U(p := None)) m' \<and>
    (\<exists>M c. m' = m\<lparr>mem := M, control := c\<rparr>) \<and> agree (payload (U(p := None)) \<union> beyond ctl hi) (mem m) (mem m')"
proof -
  obtain S F where h: "heap ctl lo hi (words (mem m)) (control m) S F" and U: "live S F = U"
    using assms(1) unfolding heap_inv_def by auto
  note at = heapD(1) [OF h]
  have p: "live S F p = Some s" using assms(2) U by simp
  obtain M c S' F' where a: "tlsf_free ctl p m = Some (m\<lparr>mem := M, control := c\<rparr>)" "heap ctl lo hi (words M) c S' F'"
    "live S' F' = (live S F)(p := None)" "within (meta ctl S (insert (p - 16) F)) (words (mem m)) (words M)"
    by (rule free_ok [OF h p])
  have sub: "insert (p - 16) F \<subseteq> dom S" using live_dom [OF heap_atD(2,3) [OF at]] p by (auto simp: live_Some)
  have "agree (payload (U(p := None)) \<union> beyond ctl hi) (mem m) M"
    by (rule untouched [OF at sub a(4)]) (auto simp: U [symmetric] live_Some split: if_splits)
  moreover have "heap_inv ctl lo hi (U(p := None)) (m\<lparr>mem := M, control := c\<rparr>)"
    using a(2,3) U unfolding heap_inv_def by auto
  ultimately show ?thesis using a(1) by (intro exI [of _ "m\<lparr>mem := M, control := c\<rparr>"]) auto
qed

lemma heap_inv_write:
  assumes "heap_inv ctl lo hi U m" "\<And>x. x \<notin> payload U \<union> beyond ctl hi \<Longrightarrow> M x = mem m x"
  shows "heap_inv ctl lo hi U (m\<lparr>mem := M\<rparr>)"
proof -
  obtain S F where h: "heap ctl lo hi (words (mem m)) (control m) S F" and U: "live S F = U"
    using assms(1) unfolding heap_inv_def by auto
  have "heap ctl lo hi (words M) (control m) S F" using heap_payload_write [OF h] assms(2) U by blast
  then show ?thesis using U unfolding heap_inv_def by auto
qed

lemma heap_inv_inside:
  assumes "heap_inv ctl lo hi U m"
  shows "payload U \<inter> beyond ctl hi = {}"
proof -
  have "x \<notin> beyond ctl hi" if "U p = Some s" "unat (x - p) < unat s" for x p s
  proof -
    note b = heap_inv_block [OF assms that(1)]
    have "unat p \<le> unat x \<and> unat x < unat p + unat s" using offset_range [of p s x] b(1) that(2) by blast
    moreover have "unat ctl \<le> lo" using assms heapD(1) heap_atD(1) unfolding heap_inv_def by fastforce
    ultimately show ?thesis using b(2) unfolding beyond_def by auto
  qed
  then show ?thesis unfolding payload_def by blast
qed

text \<open>
  The pool is exhausted for a request when it is zero or too large, or every free block is smaller
  than the rounded request and one part in 32 of it. Only then does malloc refuse.
\<close>

lemma search_misses:
  assumes "n < 4294967296" "\<not> class_le (mapping_search (of_nat n)) (mapping_insert s)"
  shows "32 * unat s < 33 * n"
proof (rule ccontr)
  assume "\<not> 32 * unat s < 33 * n"
  then have "n + n div 32 \<le> unat s" by linarith
  moreover have "unat (of_nat n :: u64) = n" using assms(1) by (intro unat_of_nat64) simp
  ultimately show False using mapping_search_finds [of "of_nat n" s] assms by metis
qed

definition exhausted :: "addr \<Rightarrow> nat \<Rightarrow> nat \<Rightarrow> u64 \<Rightarrow> 'a tlsf_scheme \<Rightarrow> bool" where
  "exhausted ctl lo hi sz m \<longleftrightarrow> rounded sz = 0 \<or>
     (\<forall>S F. heap ctl lo hi (words (mem m)) (control m) S F \<longrightarrow> (\<forall>b \<in> F. 32 * unat (the (S b)) < 33 * rounded sz))"

lemma malloc_refuses:
  assumes sz: "unat sz + 8 \<le> 18446744073709551616" and r: "tlsf_malloc ctl sz m = Some (NULL, m')"
  shows "exhausted ctl lo hi sz m"
proof -
  have "\<forall>b \<in> F. 32 * unat (the (S b)) < 33 * rounded sz" if "rounded sz \<noteq> 0" "heap ctl lo hi (words (mem m)) (control m) S F" for S F
    using malloc_ok [OF that(2) sz] r that(1) search_misses [OF rounded_bounds(2) [OF that(1)]] by auto
  then show ?thesis unfolding exhausted_def by blast
qed

lemmas heap_inv_laws = heap_inv_block heap_inv_separate heap_inv_malloc heap_inv_free heap_inv_write

interpretation tlsf: allocator "tlsf_malloc ctl" "tlsf_free ctl" mem "\<lambda>M m. m\<lparr>mem := M\<rparr>" "heap_inv ctl lo hi" "beyond ctl hi" for ctl lo hi
proof (unfold_locales, goal_cases)
  case 1 then show ?case by (rule heap_inv_block)
next
  case 2 then show ?case by (rule heap_inv_inside)
next
  case 3 then show ?case by (rule heap_inv_separate)
next
  case 4 then show ?case using heap_inv_malloc by blast
next
  case 5 then show ?case using heap_inv_free by blast
next
  case 6 then show ?case by (rule heap_inv_write)
qed simp

section \<open>The root pool\<close>

definition pool_inv :: "addr \<Rightarrow> nat \<Rightarrow> nat \<Rightarrow> (addr \<rightharpoonup> u64) \<Rightarrow> 'a pool_scheme \<Rightarrow> bool" where
  "pool_inv ctl lo hi U m \<longleftrightarrow> pool_lock m = 0 \<and> tlsf_ctx m = ctl \<and> heap_inv ctl lo hi U m"

lemma pool_acquire_free: "pool_lock m = 0 \<Longrightarrow> pool_acquire m = Some (m\<lparr>pool_lock := 1\<rparr>)"
  by (simp add: pool_acquire_def)

lemma heap_inv_pool_lock [simp]: "heap_inv ctl lo hi U (m\<lparr>pool_lock := v\<rparr>) = heap_inv ctl lo hi U m"
  by (simp add: heap_inv_def)

lemma pool_release_eq [simp]: "pool_release m = m\<lparr>pool_lock := 0\<rparr>"
  by (simp add: pool_release_def spinlock_release_def mu_aswap_def)

lemma pool_inv_allocate:
  assumes "pool_inv ctl lo hi U m" "unat sz + 8 \<le> 18446744073709551616"
  shows "\<exists>p m'. os_pool_allocate sz m = Some (p, m') \<and> agree (payload U \<union> beyond ctl hi) (mem m) (mem m') \<and>
    (\<exists>M c. m' = m\<lparr>mem := M, control := c\<rparr>) \<and>
    (p = NULL \<and> pool_inv ctl lo hi U m' \<or> (\<exists>s. U p = None \<and> unat sz \<le> unat s \<and> pool_inv ctl lo hi (U(p \<mapsto> s)) m'))"
proof -
  let ?m = "m\<lparr>pool_lock := 1\<rparr>"
  have l: "pool_lock m = 0" and h: "heap_inv ctl lo hi U ?m" and ctl: "tlsf_ctx m = ctl"
    using assms(1) unfolding pool_inv_def by auto
  obtain p M c where a: "tlsf_malloc ctl sz ?m = Some (p, ?m\<lparr>mem := M, control := c\<rparr>)"
    "agree (payload U \<union> beyond ctl hi) (mem m) M"
    "p = NULL \<and> heap_inv ctl lo hi U (?m\<lparr>mem := M, control := c\<rparr>) \<or>
     (\<exists>s. U p = None \<and> unat sz \<le> unat s \<and> heap_inv ctl lo hi (U(p \<mapsto> s)) (?m\<lparr>mem := M, control := c\<rparr>))"
  proof -
    obtain p m' where m': "tlsf_malloc ctl sz ?m = Some (p, m')" "agree (payload U \<union> beyond ctl hi) (mem ?m) (mem m')"
      "p = NULL \<and> heap_inv ctl lo hi U m' \<or>
       (\<exists>s. U p = None \<and> unat sz \<le> unat s \<and> heap_inv ctl lo hi (U(p \<mapsto> s)) m')"
      "\<exists>M c. m' = ?m\<lparr>mem := M, control := c\<rparr>"
      using heap_inv_malloc [OF h assms(2)] by blast
    then obtain M c where "m' = ?m\<lparr>mem := M, control := c\<rparr>" by blast
    then show ?thesis using that [of p c M] m'(1-3) by simp
  qed
  let ?m' = "m\<lparr>mem := M, control := c\<rparr>"
  have e: "?m\<lparr>mem := M, control := c\<rparr> = ?m'\<lparr>pool_lock := 1\<rparr>" by (cases m) simp
  have z: "?m'\<lparr>pool_lock := 0\<rparr> = ?m'" using l by (cases m) simp
  have "os_pool_allocate sz m = Some (p, ?m')"
    using pool_acquire_free [OF l] a(1) z ctl unfolding e by (simp add: os_pool_allocate_def)
  moreover have "p = NULL \<and> pool_inv ctl lo hi U ?m' \<or> (\<exists>s. U p = None \<and> unat sz \<le> unat s \<and> pool_inv ctl lo hi (U(p \<mapsto> s)) ?m')"
    using a(3) l ctl unfolding e pool_inv_def by auto
  ultimately show ?thesis using a(2) by (intro exI [of _ p] exI [of _ ?m']) auto
qed

lemma pool_inv_free:
  assumes "pool_inv ctl lo hi U m" "U p = Some s"
  shows "\<exists>m'. os_pool_free p m = Some m' \<and> pool_inv ctl lo hi (U(p := None)) m' \<and>
    (\<exists>M c. m' = m\<lparr>mem := M, control := c\<rparr>) \<and> agree (payload (U(p := None)) \<union> beyond ctl hi) (mem m) (mem m')"
proof -
  let ?m = "m\<lparr>pool_lock := 1\<rparr>"
  have l: "pool_lock m = 0" and h: "heap_inv ctl lo hi U ?m" and ctl: "tlsf_ctx m = ctl"
    using assms(1) unfolding pool_inv_def by auto
  obtain M c where a: "tlsf_free ctl p ?m = Some (?m\<lparr>mem := M, control := c\<rparr>)"
    "agree (payload (U(p := None)) \<union> beyond ctl hi) (mem m) M" "heap_inv ctl lo hi (U(p := None)) (?m\<lparr>mem := M, control := c\<rparr>)"
    using heap_inv_free [OF h assms(2)] by auto
  let ?m' = "m\<lparr>mem := M, control := c\<rparr>"
  have e: "?m\<lparr>mem := M, control := c\<rparr> = ?m'\<lparr>pool_lock := 1\<rparr>" by (cases m) simp
  have z: "?m'\<lparr>pool_lock := 0\<rparr> = ?m'" using l by (cases m) simp
  have "os_pool_free p m = Some ?m'"
    using pool_acquire_free [OF l] a(1) z ctl unfolding e by (simp add: os_pool_free_def)
  moreover have "pool_inv ctl lo hi (U(p := None)) ?m'" using a(3) l ctl unfolding e pool_inv_def by auto
  ultimately show ?thesis using a(2) by (intro exI [of _ ?m']) auto
qed

lemma pool_refuses:
  assumes "pool_inv ctl lo hi U m" "unat sz + 8 \<le> 18446744073709551616" "os_pool_allocate sz m = Some (NULL, m')"
  shows "exhausted ctl lo hi sz m"
proof -
  obtain m'' where "tlsf_malloc ctl sz (m\<lparr>pool_lock := 1\<rparr>) = Some (NULL, m'')"
    using assms(1,3) by (auto simp: os_pool_allocate_def pool_inv_def pool_acquire_free split: bind_splits)
  from malloc_refuses [OF assms(2) this] show ?thesis by (simp add: exhausted_def)
qed

interpretation pool: allocator os_pool_allocate os_pool_free mem "\<lambda>M m. m\<lparr>mem := M\<rparr>" "pool_inv ctl lo hi" "beyond ctl hi" for ctl lo hi
proof (unfold_locales, goal_cases)
  case 1 then show ?case using heap_inv_block unfolding pool_inv_def by blast
next
  case 2 then show ?case using heap_inv_inside unfolding pool_inv_def by blast
next
  case 3 then show ?case using heap_inv_separate unfolding pool_inv_def by blast
next
  case 4 then show ?case using pool_inv_allocate by blast
next
  case 5 then show ?case using pool_inv_free by blast
next
  case (6 U m M)
  then have l: "pool_lock m = 0" "tlsf_ctx m = ctl" "heap_inv ctl lo hi U m" unfolding pool_inv_def by blast+
  from heap_inv_write [OF l(3) 6(2)] show ?case using l(1,2) unfolding pool_inv_def by auto
qed simp

text \<open>
  The pool after the start of the kernel: its memory is a run of frames, seen through the
  mapping of all physical memory at the kernel base.
\<close>

lemma os_pool_init_ok:
  assumes new: "\<not> pool_is_init m" "pool_lock m = 0"
    and pm: "pmem_ready m" "last_bit m = 0" "0 < s" "s + 8192 \<le> max_frame m"
      "\<And>k. k < s \<Longrightarrow> frame_used m k" "\<And>k. s \<le> k \<Longrightarrow> k < s + 8192 \<Longrightarrow> \<not> frame_used m k"
    and base: "bpt_kernel_base m = Some off" "al8 off" "unat off + (s + 8192) * 4096 < 18446744073709551616"
  shows "\<exists>m'. os_pool_init stk1 stk2 m = Some m' \<and>
    pool_inv (page s + off) (s * 4096 + unat off + 6536) (s * 4096 + unat off + 33554432) Map.empty m' \<and> pool_is_init m' \<and> tlsf_ctx m' = page s + off"
proof -
  have pages: "POOLSIZE_PAGES = 8192" by (simp add: POOLSIZE_PAGES_def POOLSIZE_BYTES_def PAGESIZE_def)
  have sz: "unat POOLSIZE_BYTES = 33554432" by (simp add: POOLSIZE_BYTES_def)
  obtain m1 where m1: "mm_pmem_alloc POOLSIZE_PAGES m = Some (page s, m1)" "same_but_bits s (s + 8192) True m m1"
    using mm_pmem_alloc_run [OF pm(1,2), of POOLSIZE_PAGES s] pm(3-6) by (auto simp: pages)
  then obtain mm where mm: "m1 = m\<lparr>mem := mm\<rparr>" unfolding same_but_bits_def by blast
  have s: "s < 4503599627370496" using pm(1,4) by (simp add: pmem_ready_def)
  have ps: "unat (page s) = s * 4096" using unat_page [OF s] .
  let ?b = "page s + off"
  have ub: "unat ?b = s * 4096 + unat off" using base(3) by (subst unat_add64) (simp_all add: ps)
  have al: "al8 ?b"
  proof -
    have "s * 4096 = 8 * (s * 512)" by simp
    then have "al8 (page s)" unfolding al8_def ps by (metis mod_mult_self1_is_0)
    then show ?thesis using base(2) by (rule al8_add)
  qed
  have b0: "?b \<noteq> NULL" using ub pm(3) by auto
  let ?m = "m1\<lparr>pool_pma := page s, pool_virt_base := ?b\<rparr>"
  have "bpt_kernel_base (m1\<lparr>pool_pma := page s\<rparr>) = bpt_kernel_base m"
    by (rule bpt_kernel_base_cong) (simp_all add: mm)
  then have p: "PHYS_TO_VIRT (page s) (m1\<lparr>pool_pma := page s\<rparr>) = Some ?b"
    using base(1) by (simp add: PHYS_TO_VIRT_def PTR_OFFSET_def)
  have p0: "page s \<noteq> 0" using ps pm(3) by auto
  have len: "6576 \<le> unat POOLSIZE_BYTES" "unat POOLSIZE_BYTES < 4294973848" "unat ?b + unat POOLSIZE_BYTES < 18446744073709551616"
    unfolding sz ub using base(3) by simp_all
  obtain M c S F where a: "tlsf_create_with_pool stk1 stk2 ?b POOLSIZE_BYTES ?m = Some (?b, ?m\<lparr>mem := M, control := c\<rparr>)"
    "heap ?b (unat ?b + 6536) (unat ?b + 6552 + (unat POOLSIZE_BYTES - 6552) div 8 * 8) (words M) c S F" "live S F = Map.empty"
    by (rule create_with_pool_ok [OF al b0 len])
  let ?m' = "?m\<lparr>mem := M, control := c, tlsf_ctx := ?b, pool_is_init := True\<rparr>"
  have "os_pool_init stk1 stk2 m = Some ?m'"
    using new m1(1) p0 p a(1) by (simp add: os_pool_init_def)
  moreover have "pool_inv (page s + off) (s * 4096 + unat off + 6536) (s * 4096 + unat off + 33554432) Map.empty ?m'"
  proof -
    have "heap ?b (s * 4096 + unat off + 6536) (s * 4096 + unat off + 33554432) (words M) c S F" using a(2) unfolding ub sz by (simp add: add.commute)
    then show ?thesis using a(3) new(2) mm unfolding pool_inv_def heap_inv_def by auto
  qed
  ultimately show ?thesis by (intro exI [of _ ?m']) simp
qed

end
