(* ===== verification/Hive_Heap_Spec.thy ===== *)
theory Hive_Heap_Spec
  imports Hive_Alloc
begin

text \<open>
  What the allocator of \<^verbatim>\<open>mm/tlsf.c\<close> and the pool of \<^verbatim>\<open>os/pool.c\<close> promise: which requests are
  granted, what freeing does, that every client runs to its end with its blocks intact, and that
  nothing is lost when all is given back.
\<close>

section \<open>A machine to start from\<close>

definition heap_machine :: pool where
  "heap_machine = \<lparr>mem = (\<lambda>_. 0), cr3 = 0, cr4 = 0, irq_on = True, uart = [],
     hooks = \<lparr>hook_get_vars = Some limine_get_vars, hook_get_mementry = None, hook_get_module = None\<rparr>,
     resp = \<lparr>r_memmap = None, r_hhdm_offset = Some 0xFFFF800000000000, r_rsdp_address = Some 0, r_module = None\<rparr>,
     req = \<lparr>r_memmap = None, r_hhdm_offset = None, r_rsdp_address = None, r_module = None\<rparr>,
     usable_top = 0x2001000, mem_usable = 0x2001000, bitmap_size = 1025, bitmap = 0xFFFF800010000000,
     last_bit = 0, bitmap_lock = 0,
     control = \<lparr>fl_bitmap = 0, sl_bitmap = (\<lambda>i. 0), blocks = (\<lambda>i j. NULL)\<rparr>,
     pool_is_init = False, pool_virt_base = NULL, pool_pma = 0, pool_lock = 0, tlsf_ctx = NULL\<rparr>"

text \<open>A heap of 64 KiB at the address 8192.\<close>

lemma small_heap:
  obtains m S where "tlsf_create_with_pool [] [] 8192 65536 heap_machine = Some (8192, m)"
    "heap 8192 14728 73728 (words (mem m)) (control m) S {14720}" "live S {14720} = Map.empty" "unat (the (S 14720)) = 58984"
proof -
  have p: "al8 8192" "(8192 :: addr) \<noteq> NULL" by (simp_all add: al8_def)
  have len: "6576 \<le> unat (65536 :: u64)" "unat (65536 :: u64) < 4294973848"
    "unat (8192 :: addr) + unat (65536 :: u64) < 18446744073709551616" by simp_all
  obtain M c S F where "tlsf_create_with_pool [] [] 8192 65536 heap_machine = Some (8192, heap_machine\<lparr>mem := M, control := c\<rparr>)"
    "heap 8192 (unat (8192 :: addr) + 6536) (unat (8192 :: addr) + 6552 + (unat (65536 :: u64) - 6552) div 8 * 8) (words M) c S F"
    "live S F = Map.empty" "F = {8192 + 6528}" "unat (the (S (8192 + 6528))) = (unat (65536 :: u64) - 6552) div 8 * 8"
    by (rule create_with_pool_ok [OF p len])
  then show ?thesis by (intro that [of "heap_machine\<lparr>mem := M, control := c\<rparr>" S]) simp_all
qed

lemma small_request:
  "rounded 100 = 104" "unat (100 :: u64) + 8 \<le> 18446744073709551616"
  "unat (the (S 14720)) = 58984 \<Longrightarrow>
    \<not> (rounded 100 = 0 \<or> (\<forall>b \<in> {14720}. 32 * unat (the ((S :: sizes) b)) < 33 * rounded 100))"
  by (simp_all add: rounded_def)

section \<open>Malloc and free\<close>

lemma malloc_granted:
  assumes h: "heap ctl lo hi (words (mem m)) (control m) S F" and sz: "unat sz + 8 \<le> 18446744073709551616"
  shows "(tlsf_malloc ctl sz m = Some (NULL, m) \<and> (rounded sz = 0 \<or> (\<forall>b \<in> F. 32 * unat (the (S b)) < 33 * rounded sz))) \<or>
    (\<exists>p m' S' F' t. tlsf_malloc ctl sz m = Some (p, m') \<and> p \<noteq> NULL \<and> rounded sz \<noteq> 0 \<and> p - 16 \<in> F \<and>
      heap ctl lo hi (words (mem m')) (control m') S' F' \<and> live S F p = None \<and> live S' F' = (live S F)(p \<mapsto> t) \<and>
      rounded sz \<le> unat t \<and> agree (payload (live S F) \<union> beyond ctl hi) (mem m) (mem m'))"
proof -
  note at = heapD(1) [OF h]
  consider (none) "tlsf_malloc ctl sz m = Some (NULL, m)"
      "rounded sz = 0 \<or> (\<forall>b \<in> F. \<not> class_le (mapping_search (of_nat (rounded sz))) (mapping_insert (the (S b))))"
    | (some) p M c S' F' t where "tlsf_malloc ctl sz m = Some (p, m\<lparr>mem := M, control := c\<rparr>)" "p \<noteq> NULL" "rounded sz \<noteq> 0"
      "p - 16 \<in> F" "heap ctl lo hi (words M) c S' F'" "live S' F' = (live S F)(p \<mapsto> t)" "rounded sz \<le> unat t"
      "within (meta ctl S F) (words (mem m)) (words M)"
    using malloc_ok [OF h sz] by blast
  then show ?thesis
  proof cases
    case none
    then show ?thesis using search_misses [OF rounded_bounds(2)] by metis
  next
    case some
    have "agree (payload (live S F) \<union> beyond ctl hi) (mem m) M"
      by (rule untouched_live [OF at some(8)])
    moreover have "live S F p = None" using some(4) by (simp add: live_def)
    ultimately show ?thesis using some(1-7)
      by (intro disjI2 exI [of _ p] exI [of _ "m\<lparr>mem := M, control := c\<rparr>"] exI [of _ S'] exI [of _ F'] exI [of _ t]) auto
  qed
qed

text \<open>
  C2: on a sound heap malloc returns for every request that does not wrap around. It returns NULL,
  with nothing changed, only for a request of zero or of more than 4294967288 bytes or when every
  free block is smaller than the rounded request and one part in 32 of it. Otherwise the pointer is
  to a new block in use of at least the rounded request, the other blocks in use are the same, their
  bytes are kept, and the heap is sound.
\<close>

theorem tlsf_malloc_takes:
  assumes "heap ctl lo hi (words (mem m)) (control m) S F" "unat sz + 8 \<le> 18446744073709551616"
  shows "(tlsf_malloc ctl sz m = Some (NULL, m) \<and> (rounded sz = 0 \<or> (\<forall>b \<in> F. 32 * unat (the (S b)) < 33 * rounded sz))) \<or>
    (\<exists>p m' S' F' t. tlsf_malloc ctl sz m = Some (p, m') \<and> p \<noteq> NULL \<and> rounded sz \<noteq> 0 \<and> p - 16 \<in> F \<and>
      heap ctl lo hi (words (mem m')) (control m') S' F' \<and> live S F p = None \<and> live S' F' = (live S F)(p \<mapsto> t) \<and>
      rounded sz \<le> unat t \<and> agree (payload (live S F) \<union> beyond ctl hi) (mem m) (mem m'))"
  using assms by (rule malloc_granted)

lemma free_of_free:
  assumes h: "heap ctl lo hi (words (mem m)) (control m) S F" and b: "b \<in> F"
  shows "tlsf_free ctl (b + 16) m = None"
proof -
  note at = heapD(1) [OF h]
  note g = heap_atD(2) [OF at] and hd = heap_atD(3) [OF at]
  obtain s where s: "S b = Some s" "s \<noteq> 0" using headersD(1) [OF hd b] by blast
  have "unat (b + 16) = unat b + 16" using geom_real(4) [OF g s] .
  then have "b + 16 \<noteq> NULL" by auto
  moreover have "block_is_free (mem m) b" using header_reads(2) [OF g hd s(1)] b by simp
  ultimately show ?thesis by (simp add: tlsf_free_def block_from_ptr_def tlsf_assert_def)
qed

text \<open>
  C3: free of a block in use returns with the block, and no other, given back, the bytes of the
  others kept and the heap sound; freeing NULL does nothing, and freeing a block that is free
  already runs into the assertion.
\<close>

theorem tlsf_free_returns:
  assumes "heap ctl lo hi (words (mem m)) (control m) S F" "live S F p = Some s"
  shows "(\<exists>m' S' F'. tlsf_free ctl p m = Some m' \<and> heap ctl lo hi (words (mem m')) (control m') S' F' \<and>
      live S' F' = (live S F)(p := None) \<and> agree (payload ((live S F)(p := None)) \<union> beyond ctl hi) (mem m) (mem m')) \<and>
    tlsf_free ctl NULL m = Some m \<and> (\<forall>b \<in> F. tlsf_free ctl (b + 16) m = None)"
proof -
  have "heap_inv ctl lo hi (live S F) m" using assms(1) unfolding heap_inv_def by blast
  from heap_inv_free [OF this assms(2)] have "\<exists>m' S' F'. tlsf_free ctl p m = Some m' \<and>
      heap ctl lo hi (words (mem m')) (control m') S' F' \<and>
      live S' F' = (live S F)(p := None) \<and> agree (payload ((live S F)(p := None)) \<union> beyond ctl hi) (mem m) (mem m')"
    unfolding heap_inv_def by blast
  moreover have "tlsf_free ctl NULL m = Some m" by (simp add: tlsf_free_def)
  ultimately show ?thesis using free_of_free [OF assms(1)] by blast
qed

lemma tlsf_malloc_takes_witness:
  "\<exists>m p m' S' F' t. tlsf_create_with_pool [] [] 8192 65536 heap_machine = Some (8192, m) \<and>
     tlsf_malloc 8192 100 m = Some (p, m') \<and> p \<noteq> NULL \<and> 104 \<le> unat t \<and>
     heap 8192 14728 73728 (words (mem m')) (control m') S' F' \<and> live S' F' = [p \<mapsto> t]"
proof -
  obtain m S where m: "tlsf_create_with_pool [] [] 8192 65536 heap_machine = Some (8192, m)"
    "heap 8192 14728 73728 (words (mem m)) (control m) S {14720}" "live S {14720} = Map.empty" "unat (the (S 14720)) = 58984"
    by (rule small_heap)
  note r = small_request
  have "\<exists>p m' S' F' t. tlsf_malloc 8192 100 m = Some (p, m') \<and> p \<noteq> NULL \<and> rounded 100 \<le> unat t \<and>
      heap 8192 14728 73728 (words (mem m')) (control m') S' F' \<and> live S' F' = (live S {14720})(p \<mapsto> t)"
    using tlsf_malloc_takes [OF m(2) r(2)] small_request(3) [of S, OF m(4)] by blast
  then show ?thesis using m(1) unfolding m(3) r(1) by blast
qed

lemma tlsf_free_returns_witness:
  "\<exists>m p m' m'' S' F'. tlsf_create_with_pool [] [] 8192 65536 heap_machine = Some (8192, m) \<and>
     tlsf_malloc 8192 100 m = Some (p, m') \<and> p \<noteq> NULL \<and> tlsf_free 8192 p m' = Some m'' \<and>
     heap 8192 14728 73728 (words (mem m'')) (control m'') S' F' \<and> live S' F' = Map.empty"
proof -
  obtain m S where m: "tlsf_create_with_pool [] [] 8192 65536 heap_machine = Some (8192, m)"
    "heap 8192 14728 73728 (words (mem m)) (control m) S {14720}" "live S {14720} = Map.empty" "unat (the (S 14720)) = 58984"
    by (rule small_heap)
  obtain p m' S' F' t where a: "tlsf_malloc 8192 100 m = Some (p, m')" "p \<noteq> NULL"
    "heap 8192 14728 73728 (words (mem m')) (control m') S' F'" "live S' F' = [p \<mapsto> t]"
    using malloc_granted [OF m(2) small_request(2)] small_request(3) [of S, OF m(4)] unfolding m(3) by blast
  have "live S' F' p = Some t" using a(4) by simp
  from conjunct1 [OF tlsf_free_returns [OF a(3) this]] obtain m'' S'' F'' where "tlsf_free 8192 p m' = Some m''"
    "heap 8192 14728 73728 (words (mem m'')) (control m'') S'' F''" "live S'' F'' = Map.empty" unfolding a(4) by auto
  then show ?thesis using m(1) a(1,2) by blast
qed

section \<open>Clients\<close>

text \<open>
  What a client may rely on at the end of its run: its blocks are aligned, inside the memory from
  \<open>lo\<close> to \<open>hi\<close>, apart from each other, and hold what the client put there.
\<close>

definition intact :: "nat \<Rightarrow> nat \<Rightarrow> memory \<Rightarrow> holdings \<Rightarrow> bool" where
  "intact lo hi M env \<longleftrightarrow>
     (\<forall>i p cs. holding env i = Some (p, cs) \<longrightarrow>
        al8 p \<and> lo \<le> unat p \<and> unat p + length cs \<le> hi \<and> (\<forall>k < length cs. M (p + of_nat k) = cs ! k)) \<and>
     (\<forall>i j p q cs ds. holding env i = Some (p, cs) \<longrightarrow> holding env j = Some (q, ds) \<longrightarrow> i \<noteq> j \<longrightarrow>
        unat p + length cs \<le> unat q \<or> unat q + length ds \<le> unat p)"

lemma held_intact:
  assumes h: "heap_inv ctl lo hi U m" and e: "held (mem m) U env"
  shows "intact lo hi (mem m) env"
  unfolding intact_def
proof (intro conjI allI impI)
  fix i p cs assume i: "holding env i = Some (p, cs)"
  obtain s where s: "U p = Some s" "length cs \<le> unat s" using e i unfolding held_def by blast
  show "al8 p" "lo \<le> unat p" "unat p + length cs \<le> hi" using heap_inv_block [OF h s(1)] s(2) by auto
  show "mem m (p + of_nat k) = cs ! k" if "k < length cs" for k
    using e i that unfolding held_def by blast
next
  fix i j p q cs ds
  assume i: "holding env i = Some (p, cs)" and j: "holding env j = Some (q, ds)" and ij: "i \<noteq> j"
  obtain s where s: "U p = Some s" "length cs \<le> unat s" using e i unfolding held_def by blast
  obtain t where t: "U q = Some t" "length ds \<le> unat t" using e j unfolding held_def by blast
  have "p \<noteq> q" using e i j ij unfolding held_def by blast
  from heap_inv_separate [OF h s(1) t(1) this] show "unat p + length cs \<le> unat q \<or> unat q + length ds \<le> unat p"
    using s(2) t(2) by auto
qed

lemma intact_mono: "intact lo hi M env \<Longrightarrow> hi \<le> hi' \<Longrightarrow> intact lo hi' M env"
  unfolding intact_def by (meson order_trans)

text \<open>A heap in which nothing is in use is one free block.\<close>

lemma all_free:
  assumes h: "heap_at ctl lo hi w c S F K" and co: "\<forall>b \<in> F. nxt S b \<notin> F" and l: "live S F = Map.empty" and n: "lo + 16 < hi"
  obtains b s where "b \<in> F" "S b = Some s" "unat s = hi - lo - 16"
proof -
  note g = heap_atD(2) [OF h]
  have z: "s = 0" if "S b = Some s" "b \<notin> F" for b s
  proof (rule ccontr)
    assume "s \<noteq> 0"
    then have "live S F (b + 16) = Some s" using that by (simp add: live_Some)
    then show False using l by simp
  qed
  obtain b s where b: "S b = Some s" "unat b + 8 = lo" using geom_ends(1) [OF g] by blast
  have s0: "s \<noteq> 0" using geom_ends(2) [OF g, of b] b n by auto
  then have bF: "b \<in> F" using z [OF b(1)] by blast
  obtain t where t: "S (nxt S b) = Some t" using geom_real(3) [OF g b(1) s0] by blast
  have "S (nxt S b) = Some 0" using z [OF t] co bF t by blast
  then have "unat (nxt S b) + 16 = hi" by (rule geom_ends(2) [OF g])
  then have "unat s = hi - lo - 16" using geom_block(8) [OF g b(1)] b(2) by simp
  then show ?thesis using that bF b(1) by blast
qed

lemma rounded_le: "rounded sz \<noteq> 0 \<Longrightarrow> rounded sz \<le> unat sz + 24"
  unfolding rounded_def by (simp split: if_splits)

lemma all_free_grants:
  assumes h: "heap_inv ctl lo hi Map.empty m" and sz: "sz \<noteq> 0" "33 * (unat sz + 24) \<le> 32 * (hi - lo - 16)"
  shows "\<exists>p m' t. tlsf_malloc ctl sz m = Some (p, m') \<and> p \<noteq> NULL \<and> unat sz \<le> unat t \<and> heap_inv ctl lo hi [p \<mapsto> t] m'"
proof -
  obtain S F where hp: "heap ctl lo hi (words (mem m)) (control m) S F" and l: "live S F = Map.empty"
    using h unfolding heap_inv_def by blast
  note at = heapD(1) [OF hp]
  have n: "lo + 16 < hi" using sz(2) by simp
  have co: "\<forall>b \<in> F. nxt S b \<notin> F" using heapD(2) [OF hp] by blast
  obtain b s where b: "b \<in> F" "S b = Some s" "unat s = hi - lo - 16" by (rule all_free [OF at co l n])
  have lt: "unat s < 4294967296" using geom_block(11) [OF heap_atD(2) [OF at] b(2)] .
  then have small: "unat sz \<le> 4294967288" using sz(2) b(3) by simp
  have r0: "rounded sz \<noteq> 0" using sz(1) small by (auto simp: rounded_def unat_eq_0)
  have "33 * rounded sz \<le> 33 * (unat sz + 24)" using rounded_le [OF r0] by simp
  then have "\<not> 32 * unat (the (S b)) < 33 * rounded sz" using sz(2) b(2,3) by simp
  then have no: "\<not> (rounded sz = 0 \<or> (\<forall>b \<in> F. 32 * unat (the (S b)) < 33 * rounded sz))" using r0 b(1) by blast
  have "unat sz + 8 \<le> 18446744073709551616" using small by simp
  from malloc_granted [OF hp this] no obtain p m' S' F' t where a: "tlsf_malloc ctl sz m = Some (p, m')" "p \<noteq> NULL"
    "heap ctl lo hi (words (mem m')) (control m') S' F'" "live S' F' = (live S F)(p \<mapsto> t)" "rounded sz \<le> unat t" by blast
  have "unat sz \<le> unat t" using rounded_bounds(4) [OF r0] a(5) by linarith
  moreover have "heap_inv ctl lo hi [p \<mapsto> t] m'" using a(3,4) unfolding heap_inv_def l by blast
  ultimately show ?thesis using a(1,2) by blast
qed

text \<open>Which requests a heap grants depends on its free blocks only through their size classes.\<close>

lemma malloc_grants:
  assumes "heap ctl lo hi (words (mem m)) (control m) S F" "unat sz + 8 \<le> 18446744073709551616"
  shows "(\<exists>q m'. tlsf_malloc ctl sz m = Some (q, m') \<and> q \<noteq> NULL) \<longleftrightarrow>
    rounded sz \<noteq> 0 \<and> (\<exists>b \<in> F. class_le (mapping_search (of_nat (rounded sz))) (mapping_insert (the (S b))))"
  using malloc_ok [OF assms] by auto

lemma all_free_grants_same:
  assumes h: "heap ctl lo hi (words (mem m1)) (control m1) S F" "\<forall>b \<in> F. unat (the (S b)) = hi - lo - 16"
    and i: "heap_inv ctl lo hi Map.empty m2" and g: "\<exists>q m'. tlsf_malloc ctl sz m1 = Some (q, m') \<and> q \<noteq> NULL"
  shows "\<exists>q m'. tlsf_malloc ctl sz m2 = Some (q, m') \<and> q \<noteq> NULL"
proof -
  obtain S' F' where h2: "heap ctl lo hi (words (mem m2)) (control m2) S' F'" and l: "live S' F' = Map.empty"
    using i unfolding heap_inv_def by blast
  have grants: "\<exists>q m'. tlsf_malloc ctl z m2 = Some (q, m') \<and> q \<noteq> NULL"
    if z: "unat z + 8 \<le> 18446744073709551616" "\<exists>q m'. tlsf_malloc ctl z m1 = Some (q, m') \<and> q \<noteq> NULL" for z
  proof -
    obtain b where b: "rounded z \<noteq> 0" "b \<in> F" "class_le (mapping_search (of_nat (rounded z))) (mapping_insert (the (S b)))"
      using malloc_grants [OF h(1) z(1)] z(2) by blast
    obtain s where "S b = Some s" "s \<noteq> 0" using headersD(1) [OF heap_atD(3) [OF heapD(1) [OF h(1)]] b(2)] by blast
    then have "lo + 16 < hi" using h(2) b(2) by (auto simp: word_unat_eq_iff)
    then obtain b' s' where b': "b' \<in> F'" "S' b' = Some s'" "unat s' = hi - lo - 16"
      using all_free [OF heapD(1) [OF h2] _ l] heapD(2) [OF h2] by blast
    have "the (S b) = s'" using h(2) b(2) b'(3) by (simp add: word_unat_eq_iff)
    then have "class_le (mapping_search (of_nat (rounded z))) (mapping_insert (the (S' b')))" using b(3) b'(2) by simp
    then show ?thesis using malloc_grants [OF h2 z(1)] b(1) b'(1) by blast
  qed
  show ?thesis
  proof (cases "18446744073709551608 < unat sz")
    case True
    then have "tlsf_malloc ctl sz m2 = tlsf_malloc ctl 24 m2" "tlsf_malloc ctl sz m1 = tlsf_malloc ctl 24 m1"
      unfolding tlsf_malloc_def by (simp_all only: adjust_wraps)
    then show ?thesis using grants [of 24] g by simp
  qed (use grants [of sz] g in simp)
qed

lemma held_none: "held M Map.empty []" "accounted Map.empty []"
  by (simp_all add: held_def accounted_def)

lemma clients_run:
  assumes p: "al8 p" "p \<noteq> NULL" and len: "6576 \<le> unat len" "unat len < 4294973848" "unat p + unat len < 18446744073709551616"
    and rs: "\<forall>sz. Alloc sz \<in> set rs \<longrightarrow> unat sz + 8 \<le> 18446744073709551616"
  obtains m1 env m2 U where "tlsf_create_with_pool stk1 stk2 p len m = Some (p, m1)"
    "run_requests (tlsf_malloc p) (tlsf_free p) mem (\<lambda>M m. m\<lparr>mem := M\<rparr>) rs [] m1 = Some (env, m2)"
    "heap_inv p (unat p + 6536) (unat p + 6552 + (unat len - 6552) div 8 * 8) U m2" "held (mem m2) U env" "accounted U env"
    "agree (beyond p (unat p + 6552 + (unat len - 6552) div 8 * 8)) (mem m1) (mem m2)"
proof -
  let ?lo = "unat p + 6536" and ?hi = "unat p + 6552 + (unat len - 6552) div 8 * 8"
  obtain M c S F where c: "tlsf_create_with_pool stk1 stk2 p len m = Some (p, m\<lparr>mem := M, control := c\<rparr>)"
    "heap p ?lo ?hi (words M) c S F" "live S F = Map.empty" "F = {p + 6528}" "unat (the (S (p + 6528))) = (unat len - 6552) div 8 * 8"
    by (rule create_with_pool_ok [OF p len])
  let ?m = "m\<lparr>mem := M, control := c\<rparr>"
  have i: "heap_inv p ?lo ?hi Map.empty ?m" using c(2,3) unfolding heap_inv_def by auto
  obtain env m2 U where "run_requests (tlsf_malloc p) (tlsf_free p) mem (\<lambda>M m. m\<lparr>mem := M\<rparr>) rs [] ?m = Some (env, m2)"
    "heap_inv p ?lo ?hi U m2" "held (mem m2) U env" "accounted U env" "agree (beyond p ?hi) (mem ?m) (mem m2)"
    using tlsf.run_requests_ok [OF i held_none, of rs] rs by blast
  then show ?thesis using that c(1) by blast
qed

text \<open>
  C1: after \<^verbatim>\<open>tlsf_create_with_pool\<close>, whatever a client does with malloc, free and the blocks it
  has, every call returns, and its blocks are aligned, inside the pool, apart from each other and
  hold what it put there, and no byte outside of the pool has changed.
\<close>

theorem tlsf_clients_safe:
  assumes "al8 p" "p \<noteq> NULL" "6576 \<le> unat len" "unat len < 4294973848" "unat p + unat len < 18446744073709551616"
    and "\<forall>sz. Alloc sz \<in> set rs \<longrightarrow> unat sz + 8 \<le> 18446744073709551616"
  shows "\<exists>m1 env m2. tlsf_create_with_pool stk1 stk2 p len m = Some (p, m1) \<and>
    run_requests (tlsf_malloc p) (tlsf_free p) mem (\<lambda>M m. m\<lparr>mem := M\<rparr>) rs [] m1 = Some (env, m2) \<and>
    intact (unat p + 6536) (unat p + unat len) (mem m2) env \<and> agree (beyond p (unat p + unat len)) (mem m1) (mem m2)"
proof -
  obtain m1 env m2 U where a: "tlsf_create_with_pool stk1 stk2 p len m = Some (p, m1)"
    "run_requests (tlsf_malloc p) (tlsf_free p) mem (\<lambda>M m. m\<lparr>mem := M\<rparr>) rs [] m1 = Some (env, m2)"
    "heap_inv p (unat p + 6536) (unat p + 6552 + (unat len - 6552) div 8 * 8) U m2" "held (mem m2) U env" "accounted U env"
    "agree (beyond p (unat p + 6552 + (unat len - 6552) div 8 * 8)) (mem m1) (mem m2)"
    by (rule clients_run [OF assms])
  have e: "unat p + 6552 + (unat len - 6552) div 8 * 8 \<le> unat p + unat len" using assms(3) by simp
  then have "intact (unat p + 6536) (unat p + unat len) (mem m2) env"
    by (rule intact_mono [OF held_intact [OF a(3,4)]])
  moreover have "agree (beyond p (unat p + unat len)) (mem m1) (mem m2)"
    by (rule agree_mono [OF a(6)]) (use e in \<open>auto simp: beyond_def\<close>)
  ultimately show ?thesis using a(1,2) by blast
qed

text \<open>
  C4: nothing is lost. When a client has given back all it was granted, every request that the new heap
  grants, of whatever size, is granted still; these are at least the requests that fit into
  the pool with one part in 32 and 24 bytes to spare.
\<close>

theorem tlsf_nothing_lost:
  assumes "al8 p" "p \<noteq> NULL" "6576 \<le> unat len" "unat len < 4294973848" "unat p + unat len < 18446744073709551616"
    and "\<forall>sz. Alloc sz \<in> set rs \<longrightarrow> unat sz + 8 \<le> 18446744073709551616"
    and "tlsf_create_with_pool stk1 stk2 p len m = Some (p, m1)"
    and "run_requests (tlsf_malloc p) (tlsf_free p) mem (\<lambda>M m. m\<lparr>mem := M\<rparr>) rs [] m1 = Some (env, m2)"
    and "\<forall>i. holding env i = None"
  shows "((\<exists>q m'. tlsf_malloc p sz m1 = Some (q, m') \<and> q \<noteq> NULL) \<longrightarrow> (\<exists>q m3. tlsf_malloc p sz m2 = Some (q, m3) \<and> q \<noteq> NULL)) \<and>
    (sz \<noteq> 0 \<and> 33 * (unat sz + 24) \<le> 32 * ((unat len - 6552) div 8 * 8) \<longrightarrow>
      (\<exists>q m3. tlsf_malloc p sz m2 = Some (q, m3) \<and> q \<noteq> NULL))"
proof -
  let ?hi = "unat p + 6552 + (unat len - 6552) div 8 * 8" and ?n = "(unat len - 6552) div 8 * 8"
  obtain M c S F where c: "tlsf_create_with_pool stk1 stk2 p len m = Some (p, m\<lparr>mem := M, control := c\<rparr>)"
    "heap p (unat p + 6536) ?hi (words M) c S F" "live S F = Map.empty" "F = {p + 6528}" "unat (the (S (p + 6528))) = ?n"
    by (rule create_with_pool_ok [OF assms(1-5)])
  obtain m1' env' m2' U where a: "tlsf_create_with_pool stk1 stk2 p len m = Some (p, m1')"
    "run_requests (tlsf_malloc p) (tlsf_free p) mem (\<lambda>M m. m\<lparr>mem := M\<rparr>) rs [] m1' = Some (env', m2')"
    "heap_inv p (unat p + 6536) ?hi U m2'" "held (mem m2') U env'" "accounted U env'"
    "agree (beyond p ?hi) (mem m1') (mem m2')"
    by (rule clients_run [OF assms(1-6)])
  have e: "m1' = m1" "env' = env" "m2' = m2" using a(1,2) assms(7,8) by auto
  have "m1 = m\<lparr>mem := M, control := c\<rparr>" using c(1) assms(7) by simp
  then have h1: "heap p (unat p + 6536) ?hi (words (mem m1)) (control m1) S F" using c(2) by simp
  have "U = Map.empty" using a(5) assms(9) unfolding accounted_def e by fastforce
  then have i2: "heap_inv p (unat p + 6536) ?hi Map.empty m2" using a(3) e by simp
  have "\<exists>q m3. tlsf_malloc p sz m2 = Some (q, m3) \<and> q \<noteq> NULL"
    if "\<exists>q m'. tlsf_malloc p sz m1 = Some (q, m') \<and> q \<noteq> NULL"
    by (rule all_free_grants_same [OF h1 _ i2 that]) (use c(4,5) in auto)
  moreover have "\<exists>q m3. tlsf_malloc p sz m2 = Some (q, m3) \<and> q \<noteq> NULL" if "sz \<noteq> 0 \<and> 33 * (unat sz + 24) \<le> 32 * ?n"
    using all_free_grants [OF i2] that by force
  ultimately show ?thesis by blast
qed

lemma small_args:
  "al8 8192" "(8192 :: addr) \<noteq> NULL" "6576 \<le> unat (65536 :: u64)" "unat (65536 :: u64) < 4294973848"
  "unat (8192 :: addr) + unat (65536 :: u64) < 18446744073709551616"
  by (simp_all add: al8_def)

lemma tlsf_clients_safe_witness:
  "\<exists>m1 env m2. tlsf_create_with_pool [] [] 8192 65536 heap_machine = Some (8192, m1) \<and>
    run_requests (tlsf_malloc 8192) (tlsf_free 8192) mem (\<lambda>M m. m\<lparr>mem := M\<rparr>)
      [Alloc 100, Put 0 5 77, Alloc 3000, Release 0, Alloc 0, Alloc 60000, Put 1 2999 9] [] m1 = Some (env, m2) \<and>
    intact (unat (8192 :: addr) + 6536) (unat (8192 :: addr) + unat (65536 :: u64)) (mem m2) env \<and>
    agree (beyond 8192 (unat (8192 :: addr) + unat (65536 :: u64))) (mem m1) (mem m2)"
  by (rule tlsf_clients_safe [OF small_args]) auto

lemma tlsf_nothing_lost_witness:
  "\<exists>m1 m2 q m3. tlsf_create_with_pool [] [] 8192 65536 heap_machine = Some (8192, m1) \<and>
    run_requests (tlsf_malloc 8192) (tlsf_free 8192) mem (\<lambda>M m. m\<lparr>mem := M\<rparr>) [Alloc 100, Release 0] [] m1 = Some ([None], m2) \<and>
    tlsf_malloc 8192 50000 m2 = Some (q, m3) \<and> q \<noteq> NULL"
proof -
  obtain m S where m: "tlsf_create_with_pool [] [] 8192 65536 heap_machine = Some (8192, m)"
    "heap 8192 14728 73728 (words (mem m)) (control m) S {14720}" "live S {14720} = Map.empty" "unat (the (S 14720)) = 58984"
    by (rule small_heap)
  obtain p m' S' F' t where a: "tlsf_malloc 8192 100 m = Some (p, m')" "p \<noteq> NULL"
    "heap 8192 14728 73728 (words (mem m')) (control m') S' F'" "live S' F' = [p \<mapsto> t]"
    using malloc_granted [OF m(2) small_request(2)] small_request(3) [of S, OF m(4)] unfolding m(3) by blast
  have "heap_inv 8192 14728 73728 [p \<mapsto> t] m'" using a(3,4) unfolding heap_inv_def by blast
  then obtain m2 where f: "tlsf_free 8192 p m' = Some m2" using heap_inv_free [of 8192 14728 73728 "[p \<mapsto> t]" m' p t] by auto
  have r: "run_requests (tlsf_malloc 8192) (tlsf_free 8192) mem (\<lambda>M m. m\<lparr>mem := M\<rparr>) [Alloc 100, Release 0] [] m = Some ([None], m2)"
    using a(1,2) f by (simp add: holding_def)
  have "\<exists>q m3. tlsf_malloc 8192 50000 m2 = Some (q, m3) \<and> q \<noteq> NULL"
    by (rule conjunct2 [OF tlsf_nothing_lost [OF small_args _ m(1) r], rule_format]) (auto simp: holding_def)
  then show ?thesis using m(1) r by blast
qed

section \<open>The pool of the kernel\<close>


text \<open>The frames 1 to 8192 of the machine are free.\<close>

definition pool_witness :: pool where
  "pool_witness = heap_machine\<lparr>mem := (\<lambda>_. 0)(0xFFFF800010000000 := 1)\<rparr>"

lemma pool_witness_used:
  assumes "k < 8193"
  shows "frame_used pool_witness k \<longleftrightarrow> k = 0"
proof -
  have u: "unat (drop_bit 3 (of_nat k :: u64)) = k div 8" using assms by (simp add: drop_bit_eq_div unat_div unat_of_nat64)
  have "drop_bit 3 (of_nat k :: u64) = 0 \<longleftrightarrow> k < 8" unfolding unat_eq_0 [symmetric] u by (simp add: div_eq_0_iff)
  then show ?thesis using assms
    by (auto simp: frame_used_def TESTBIT_bit unat_mod unat_of_nat64 pool_witness_def heap_machine_def bit_byte_def bit_1_iff)
qed


end
