(* ===== verification/Hive_Heap_Check.thy ===== *)
theory Hive_Heap_Check
  imports Hive_Heap_Spec
begin

text \<open>
  The consistency checks of \<^verbatim>\<open>mm/tlsf.c\<close> on a sound heap: they come to an end and find nothing;
  and the boundaries of the sizes at which the allocator gives way.
\<close>

section \<open>The checks\<close>

lemma insist_True [simp]: "tlsf_insist True st = Some st"
  by (simp add: tlsf_insist_def tlsf_assert_def)

lemma check_list_ok:
  assumes h: "heap ctl lo hi (words M) c S F"
  shows "dll (words M) ctl p b xs \<Longrightarrow> \<forall>x \<in> set xs. size_classes S F x = Some (i, j) \<Longrightarrow> check_list ctl M i j b st = Some st"
proof (induction xs arbitrary: p b st)
  case Nil
  then show ?case by (simp add: check_list.simps [of ctl])
next
  case (Cons x xs)
  note at = heapD(1) [OF h]
  note g = heap_atD(2) [OF at] and hd = heap_atD(3) [OF at]
  have x: "x \<in> F" "mapping_insert (the (S x)) = (i, j)" using Cons.prems(2) by (auto simp: size_classes_def split: if_splits)
  obtain s where s: "S x = Some s" "s \<noteq> 0" using headersD(1) [OF hd x(1)] by blast
  obtain t where t: "S (nxt S x) = Some t" using geom_real(3) [OF g s] by blast
  note r = header_reads [OF g hd s(1)] and n = header_reads [OF g hd t]
  have xp: "x \<notin> nxt S ` F" using heapD(2) [OF h] x(1) by blast
  have xc: "x \<noteq> ctl"
  proof -
    have "nodes ctl (dom (size_classes S F))" using heap_atD(4) [OF at] unfolding free_lists_def by blast
    then show ?thesis using nodesD(5) x(1) by auto
  qed
  have min: "block_size_min \<le> s" using geom_real(1) [OF g s] by (simp add: word_le_nat_alt block_size_min_def sizeof_block_header_t_def)
  have ld: "load64 M (next_free_field x) = words M (x + 16)"
    using geom_block(1) [OF g s(1)] by (simp add: next_free_field_def words_load)
  have "check_list ctl M i j x st = check_list ctl M i j (words M (x + 16)) st"
    by (subst check_list.simps) (use xc x s r n xp heapD(2) [OF h x(1)] min ld in simp)
  moreover have "b = x" "dll (words M) ctl x (words M (x + 16)) xs" using Cons.prems(1) by simp_all
  ultimately show ?case using Cons.IH Cons.prems(2) by simp
qed

lemma and_bit_zero: "n < 32 \<Longrightarrow> (x :: u32) AND push_bit n 1 = 0 \<longleftrightarrow> \<not> bit x n"
proof -
  assume n: "n < 32"
  have "x AND push_bit n 1 = 0 \<longleftrightarrow> (\<forall>k. \<not> (bit x k \<and> k = n))"
    using n unfolding bit_eq_iff [of "x AND push_bit n 1"] bit_and_iff bit_push_1 by simp (metis bit_imp_le_length)
  then show ?thesis by blast
qed

lemma check_class_ok:
  assumes h: "heap ctl lo hi (words M) c S F" and ij: "i < FL_INDEX_COUNT" "j < SL_INDEX_COUNT"
  shows "check_class ctl M c i j st = Some st"
proof -
  note at = heapD(1) [OF h]
  let ?K = "size_classes S F"
  have f: "lists (words M) ctl c ?K" "bitmaps c ?K" using heap_atD(4) [OF at] unfolding free_lists_def by blast+
  obtain L where L: "set (L i j) = {b. ?K b = Some (i, j)}" "dll (words M) ctl ctl (blocks c i j) (L i j)"
    using listsE [OF f(1)] ij by metis
  have l: "check_list ctl M i j (blocks c i j) s = Some s" for s
    by (rule check_list_ok [OF h L(2)]) (use L(1) in simp)
  have i32: "i < 32" "j < 32" using ij by (simp_all add: FL_INDEX_COUNT_def SL_INDEX_COUNT_def FL_INDEX_MAX_def FL_INDEX_SHIFT_def SL_INDEX_COUNT_LOG2_def ALIGN_SIZE_LOG2_def)
  have fl: "bit (fl_bitmap c) i \<longleftrightarrow> (\<exists>b j. ?K b = Some (i, j))" using bitmapsD(4) [OF f(2)] .
  have sl: "bit (sl_bitmap c i) j \<longleftrightarrow> (\<exists>b. ?K b = Some (i, j))" using bitmapsD(3) [OF f(2) ij] .
  have e: "blocks c i j = ctl" if "\<not> bit (sl_bitmap c i) j"
  proof -
    have "L i j = []" using that sl L(1) by (cases "L i j") auto
    then show ?thesis using L(2) by simp
  qed
  have ne: "blocks c i j \<noteq> ctl" "sl_bitmap c i \<noteq> 0" "bit (fl_bitmap c) i" if "bit (sl_bitmap c i) j"
  proof -
    show "sl_bitmap c i \<noteq> 0" using that by auto
    show "bit (fl_bitmap c) i" using that sl fl by blast
    have "?K (blocks c i j) = Some (i, j)" using head_in_class [OF heap_atD(4) [OF at]] that sl by blast
    moreover have "nodes ctl (dom ?K)" using heap_atD(4) [OF at] unfolding free_lists_def by blast
    ultimately show "blocks c i j \<noteq> ctl" using nodesD(5) by blast
  qed
  show ?thesis
  proof (cases "bit (sl_bitmap c i) j")
    case True
    then show ?thesis using ne [OF True] ij i32 l
      by (simp add: check_class_def sl_at_def head_at_def and_bit_zero del: push_bit_of_1)
  next
    case False
    then show ?thesis using e [OF False] ij i32
      by (simp add: check_class_def sl_at_def head_at_def and_bit_zero del: push_bit_of_1)
  qed
qed

lemma check_classes_ok:
  "(\<And>i j. (i, j) \<in> set ijs \<Longrightarrow> check_class ctl M c i j st = Some st) \<Longrightarrow> check_classes ctl M c ijs st = Some st"
  by (induction ijs) auto

lemma check_ok:
  assumes "heap ctl lo hi (words (mem m)) (control m) S F"
  shows "tlsf_check ctl m = Some 0"
  unfolding tlsf_check_def using check_class_ok [OF assms] by (intro check_classes_ok) auto

text \<open>The walk over the blocks of the pool, from a block to the sentinel.\<close>

lemma walk_ok:
  assumes g: "geom lo hi S" and hd: "headers (words (mem m)) S F"
  shows "S b = Some s \<Longrightarrow> prev_status ig = (if b \<in> nxt S ` F then 1 else 0) \<Longrightarrow>
    \<exists>ig'. walk_loop integrity_walker b (ig, m) = Some (ig', m) \<and> istatus ig' = istatus ig"
proof (induction "hi - unat b" arbitrary: b s ig rule: less_induct)
  case less
  note r = header_reads [OF g hd less.prems(1)]
  note gb = geom_block [OF g less.prems(1)]
  show ?case
  proof (cases "s = 0")
    case True
    then show ?thesis using r(4) by (simp add: walk_loop.simps [of integrity_walker b "(ig, m)"])
  next
    case False
    note gr = geom_real [OF g less.prems(1) False]
    obtain t where t: "S (nxt S b) = Some t" using gr(3) by blast
    let ?ig = "ig\<lparr>prev_status := (if b \<in> F then 1 else 0)\<rparr>"
    have w: "integrity_walker (block_to_ptr b) s u (ig, m) = Some (?ig, m)" for u
      using r(1-3) less.prems(2) by (simp add: integrity_walker_def block_from_ptr_def block_to_ptr_def Let_def)
    have im: "nxt S b \<in> nxt S ` F \<longleftrightarrow> b \<in> F"
    proof
      assume "nxt S b \<in> nxt S ` F"
      then obtain f u where f: "f \<in> F" "S f = Some u" "nxt S f = nxt S b" using headersD(1) [OF hd] by fastforce
      show "b \<in> F" using nxt_inj [OF g f(2) less.prems(1) f(3)] f(1) by simp
    qed simp
    have "hi - unat (nxt S b) < hi - unat b" using gb(8) gr(2) by simp
    moreover have "prev_status ?ig = (if nxt S b \<in> nxt S ` F then 1 else 0)" by (simp add: im)
    ultimately have "\<exists>ig'. walk_loop integrity_walker (nxt S b) (?ig, m) = Some (ig', m) \<and> istatus ig' = istatus ?ig"
      by (rule less.hyps [OF _ t])
    then obtain ig' where i: "walk_loop integrity_walker (nxt S b) (?ig, m) = Some (ig', m)" "istatus ig' = istatus ig"
      by auto
    have "walk_loop integrity_walker b (ig, m) = Some (ig', m)"
      using w i(1) r False gb(7) by (subst walk_loop.simps) simp
    then show ?thesis using i(2) by blast
  qed
qed

lemma check_pool_ok:
  assumes h: "heap ctl lo hi (words (mem m)) c S F" and p: "unat pool = lo"
  shows "tlsf_check_pool pool m = Some 0"
proof -
  note g = heap_atD(2) [OF heapD(1) [OF h]] and hd = heap_atD(3) [OF heapD(1) [OF h]]
  obtain b s where b: "S b = Some s" "unat b + 8 = lo" using geom_ends(1) [OF g] by blast
  have "unat (b + 8) = unat pool" using geom_block(9) [OF g b(1)] b(2) p by simp
  then have pb: "pool = b + 8" by (simp add: word_unat_eq_iff)
  have "b \<notin> nxt S ` F"
  proof
    assume "b \<in> nxt S ` F"
    then obtain f t where f: "S f = Some t" "b = nxt S f" using headersD(1) [OF hd] by blast
    then have "unat b = unat f + 8 + unat t" using geom_block(8) [OF g f(1)] by simp
    then show False using geom_block(3) [OF g f(1)] b(2) by simp
  qed
  then obtain ig where "walk_loop integrity_walker b (\<lparr>prev_status = 0, istatus = 0\<rparr>, m) = Some (ig, m)" "istatus ig = 0"
    using walk_ok [OF g hd b(1), of "\<lparr>prev_status = 0, istatus = 0\<rparr>"] by auto
  then show ?thesis by (simp add: tlsf_check_pool_def tlsf_walk_pool_def offset_to_block_def block_header_overhead_def pb)
qed

text \<open>
  C5: on a sound heap, whatever was allocated and freed before, \<^verbatim>\<open>tlsf_check\<close> and
  \<^verbatim>\<open>tlsf_check_pool\<close> come to an end without an assertion failing, and report no error.
\<close>

theorem tlsf_check_passes:
  assumes "heap_inv ctl lo hi U m" "unat pool = lo"
  shows "tlsf_check ctl m = Some 0 \<and> tlsf_check_pool pool m = Some 0"
  using assms check_ok check_pool_ok unfolding heap_inv_def by blast

lemma tlsf_check_passes_witness:
  "\<exists>m p m'. tlsf_create_with_pool [] [] 8192 65536 heap_machine = Some (8192, m) \<and>
     tlsf_malloc 8192 100 m = Some (p, m') \<and> p \<noteq> NULL \<and>
     tlsf_check 8192 m' = Some 0 \<and> tlsf_check_pool 14728 m' = Some 0"
proof -
  obtain m S where m: "tlsf_create_with_pool [] [] 8192 65536 heap_machine = Some (8192, m)"
    "heap 8192 14728 73728 (words (mem m)) (control m) S {14720}" "live S {14720} = Map.empty" "unat (the (S 14720)) = 58984"
    by (rule small_heap)
  obtain p m' S' F' where a: "tlsf_malloc 8192 100 m = Some (p, m')" "p \<noteq> NULL"
    "heap 8192 14728 73728 (words (mem m')) (control m') S' F'"
    using malloc_granted [OF m(2) small_request(2)] small_request(3) [of S, OF m(4)] by blast
  have "heap_inv 8192 14728 73728 (live S' F') m'" using a(3) unfolding heap_inv_def by blast
  from tlsf_check_passes [OF this, of 14728] show ?thesis using m(1) a(1,2) by auto
qed

section \<open>Sizes at the boundaries\<close>

lemma add_pool_past_table:
  assumes p: "al8 p" and len: "(unat len - 16) div 8 = 536870912"
  shows "tlsf_add_pool stk ctl p len m = None"
proof -
  have "16 \<le> unat len" using len by (cases "16 \<le> unat len") simp_all
  then have "unat (len - 16) = unat len - 16" by (subst unat_sub64) simp_all
  then obtain pb where pb: "align_down (len - 16) 8 = Some pb" "unat pb = 4294967296"
    using align_down_8 [of "len - 16"] len by (auto simp: minus_mod_eq_div_mult)
  have e: "pb = 4294967296" using pb(2) by (simp add: word_unat_eq_iff)
  have al: "al8 pb" by (simp add: al8_def pb(2))
  have mi: "mapping_insert 4294967296 = (25, 0)"
  proof -
    have t: "top_bit (unat (4294967296 :: u64)) 32" by (simp add: top_bit_def)
    show ?thesis using mapping_insert_big [OF t] by simp
  qed
  have p8: "p mod 8 = 0" using p by (simp add: al8_def word_unat_eq_iff unat_mod)
  let ?b = "p - 8"
  let ?M = "block_set_prev_used ?b (block_set_free ?b (block_set_size ?b pb (mem m)))"
  have w: "words ?M = (words (mem m))(p := tag pb True False)"
    using p junk_bits(3) [OF al]
    by (simp add: block_set_prev_used_def block_set_free_def block_set_size_def size_field_def words_load Let_def fun_eq_iff)
  have "block_size ?M ?b = pb"
    using fun_cong [OF w, of p] p tag_bits_neg(1) [OF al] by (simp add: block_size_def size_field_def words_load or_1_2)
  then have "block_insert ctl ?b (m\<lparr>mem := ?M\<rparr>) = None"
    by (simp add: block_insert_def e mi insert_free_block_def head_at_def)
  then show ?thesis
    using pb(1) p8 by (simp add: tlsf_add_pool_def tlsf_pool_overhead_def e offset_to_block_def word_less_nat_alt)
qed

text \<open>
  C9: the boundaries. A request of more than 2^64 - 8 bytes wraps around when it is rounded and is
  served like one of 24 bytes, by malloc and by the root pool. A pool with 2^32 usable bytes is
  accepted by the test of \<^verbatim>\<open>tlsf_add_pool\<close>, whose bound is inclusive, but its size class lies behind
  the tables, so that the call has no result.
\<close>

theorem tlsf_size_limits:
  "(18446744073709551608 < unat sz \<longrightarrow> tlsf_malloc ctl sz m = tlsf_malloc ctl 24 m \<and> os_pool_allocate sz m = os_pool_allocate 24 m) \<and>
   (al8 p \<and> (unat len - 16) div 8 = 536870912 \<longrightarrow> tlsf_add_pool stk ctl p len m = None)"
  using adjust_wraps [of sz] add_pool_past_table [of p len]
  by (auto simp: tlsf_malloc_def os_pool_allocate_def)

lemma tlsf_size_limits_witness:
  "tlsf_malloc 8192 (- 2) heap_machine = tlsf_malloc 8192 24 heap_machine \<and>
   os_pool_allocate (- 2) heap_machine = os_pool_allocate 24 heap_machine \<and>
   tlsf_add_pool [] 8192 16384 4294967312 heap_machine = None"
  using tlsf_size_limits [of "- 2" 8192 heap_machine 16384 4294967312 "[]"] by (simp add: al8_def)

end
