(* ===== verification/Hive_Ob_Spec.thy ===== *)
theory Hive_Ob_Spec
  imports Hive_Ob Hive_Heap_Spec
begin

text \<open>
  What the object store promises: new nodes and directories are blocks of the root pool that
  disturb nothing else, failed calls leave nothing allocated, and a directory is the list of the
  nodes appended to it, in which a lookup finds the first with the name.
\<close>

section \<open>Blocks of the pool\<close>

text \<open>What a client may read when the pool has the blocks \<open>U\<close>: they and all that is not the pool.\<close>

definition readable :: "(addr \<rightharpoonup> u64) \<Rightarrow> addr set \<Rightarrow> addr set" where
  "readable U away = payload U \<union> away"

definition string_at :: "addr set \<Rightarrow> memory \<Rightarrow> addr \<Rightarrow> u8 list \<Rightarrow> bool" where
  "string_at A M a cs \<longleftrightarrow> cstr M a cs \<and> (\<forall>k \<le> length cs. a + of_nat k \<in> A)"

lemma string_at_agree: "string_at A M a cs \<Longrightarrow> agree A M M' \<Longrightarrow> string_at A M' a cs"
  by (auto simp: string_at_def agree_def cstr_bytes_at bytes_at_nth)

lemma bytes_of_block: "x \<in> payload U \<longleftrightarrow> (\<exists>p s. U p = Some s \<and> unat (x - p) < unat s)"
  by (auto simp: payload_def)

context allocator
begin

lemma fresh:
  assumes i: "inv (U(p \<mapsto> s)) m" and n: "U p = None" and x: "x \<in> readable U away"
  shows "\<not> unat (x - p) < unat s"
proof
  assume b: "unat (x - p) < unat s"
  have p: "(U(p \<mapsto> s)) p = Some s" by simp
  have "x \<in> payload (U(p \<mapsto> s))" unfolding bytes_of_block using b by (metis fun_upd_same)
  then have "x \<notin> away" using inside [OF i] by blast
  then have "x \<in> payload U" using x unfolding readable_def by blast
  then obtain q t where q: "U q = Some t" "unat (x - q) < unat t" unfolding bytes_of_block by blast
  then have qp: "q \<noteq> p" "(U(p \<mapsto> s)) q = Some t" using n by auto
  have "unat p \<le> unat x \<and> unat x < unat p + unat s" "unat q \<le> unat x \<and> unat x < unat q + unat t"
    using offset_range [of p s x] offset_range [of q t x] block [OF i p] block [OF i qp(2)] b q(2) by blast+
  then show False using separate [OF i p qp(2)] qp(1) by force
qed

lemma separate_bytes:
  assumes "inv U m" "U p = Some s" "U q = Some t" "p \<noteq> q" "unat (x - p) < unat s"
  shows "\<not> unat (x - q) < unat t"
proof
  assume "unat (x - q) < unat t"
  then have "unat p \<le> unat x \<and> unat x < unat p + unat s" "unat q \<le> unat x \<and> unat x < unat q + unat t"
    using offset_range [of p s x] offset_range [of q t x] block [OF assms(1,2)] block [OF assms(1,3)] assms(5) by blast+
  then show False using separate [OF assms(1-4)] by force
qed

end

section \<open>Stores\<close>

lemma store64_other: "\<not> unat (x - a) < 8 \<Longrightarrow> store64 M a v x = M x"
  by (simp add: store64_def store_n_def)

lemma store32_other: "\<not> unat (x - a) < 4 \<Longrightarrow> store32 M a v x = M x"
  by (simp add: store32_def store_n_def)

lemma field_offset:
  fixes x p :: u64
  assumes "unat (x - (p + k)) < n" "unat k + n < 18446744073709551616"
  shows "unat (x - p) = unat (x - (p + k)) + unat k"
proof -
  have "x - p = (x - (p + k)) + k" by simp
  then show ?thesis using assms by (subst unat_add64 [symmetric]) simp_all
qed

section \<open>Nodes\<close>

definition knode_at :: "(addr \<rightharpoonup> u64) \<Rightarrow> memory \<Rightarrow> addr \<Rightarrow> u8 list \<Rightarrow> ktype_t \<Rightarrow> bool" where
  "knode_at U M k cs t \<longleftrightarrow> (\<exists>s. U k = Some s \<and> 72 \<le> unat s) \<and> cstr M k cs \<and> length cs < 31 \<and> kn_type M k = ktype_num t"

text \<open>A name and a type lie in the first 36 bytes of the node.\<close>

lemma cstr_cong: "(\<And>k. k \<le> length cs \<Longrightarrow> M' (a + of_nat k) = M (a + of_nat k)) \<Longrightarrow> cstr M' a cs = cstr M a cs"
  by (auto simp: cstr_bytes_at bytes_at_nth)

lemma unat_off: "k < 18446744073709551616 \<Longrightarrow> unat (p + of_nat k - p :: u64) = k"
  by (simp add: unat_of_nat64)

lemma knode_cong:
  assumes "length cs < 31" "\<And>x. unat (x - k) < 36 \<Longrightarrow> M' x = M x"
  shows "cstr M' k cs = cstr M k cs" "kn_type M' k = kn_type M k"
proof -
  show "cstr M' k cs = cstr M k cs"
    by (rule cstr_cong, rule assms(2)) (use assms(1) in \<open>simp add: unat_of_nat64\<close>)
  have "load_n 4 M' (k + 32) = load_n 4 M (k + 32)"
  proof (rule load_n_cong, rule assms(2))
    fix i :: nat assume "i < 4"
    then have "unat (32 + of_nat i :: u64) = 32 + i" by (simp add: unat_add64 unat_of_nat64)
    then show "unat (k + 32 + of_nat i - k) < 36" using \<open>i < 4\<close> by simp
  qed
  then show "kn_type M' k = kn_type M k" by (simp add: kn_type_def load32_def)
qed

text \<open>The writes of \<^verbatim>\<open>ob_knode_new\<close> to the block it was given.\<close>

definition new_node :: "memory \<Rightarrow> addr \<Rightarrow> addr \<Rightarrow> u64 \<Rightarrow> ktype_t \<Rightarrow> memory" where
  "new_node M k name n t = set_kn_ref k 1 (set_kn_type k (ktype_num t) ((snd (memcpy M k name n))(k + n := 0)))"

lemma new_node_bytes:
  assumes k: "k \<noteq> NULL" "name \<noteq> NULL" and n: "length cs < 31" and c: "cstr M name cs"
    and off: "\<And>i. i \<le> length cs \<Longrightarrow> \<not> unat (name + of_nat i - k) < 72"
  shows "cstr (new_node M k name (of_nat (length cs)) t) k cs"
    "kn_type (new_node M k name (of_nat (length cs)) t) k = ktype_num t"
    "\<not> unat (x - k) < 72 \<Longrightarrow> new_node M k name (of_nat (length cs)) t x = M x"
proof -
  let ?n = "of_nat (length cs) :: u64"
  have un: "unat ?n = length cs" using n by (simp add: unat_of_nat64)
  have "apart k (length cs) name (length cs)"
    unfolding apart_def
  proof
    show "length cs \<le> unat (name - k)" using off [of 0] n by simp
    show "length cs \<le> unat (k - name)"
    proof (rule ccontr)
      assume "\<not> length cs \<le> unat (k - name)"
      then show False using off [of "unat (k - name)"] by simp
    qed
  qed
  then have mc: "snd (memcpy M k name ?n) x = (if unat (x - k) < length cs then M (name + (x - k)) else M x)" for x
    using memcpy_apply(2) [of k name ?n M x] k n by (simp add: un)
  let ?C = "(snd (memcpy M k name ?n))(k + ?n := 0)"
  have low: "new_node M k name ?n t x = ?C x" if "unat (x - k) < 32 \<or> \<not> unat (x - k) < 72" for x
  proof -
    have "\<not> unat (x - (k + 48)) < 4" "\<not> unat (x - (k + 32)) < 4"
      using that field_offset [of x k 48 4] field_offset [of x k 32 4] by auto
    then show ?thesis by (simp add: new_node_def set_kn_ref_def set_kn_type_def store32_other)
  qed
  show "cstr (new_node M k name ?n t) k cs"
    unfolding cstr_bytes_at bytes_at_nth
  proof (intro conjI allI impI)
    show "0 \<notin> set cs" using c by (simp add: cstr_bytes_at)
    fix i assume i: "i < length (cs @ [0])"
    then have ui: "unat (k + of_nat i - k) = i" using n by (simp add: unat_of_nat64)
    have "new_node M k name ?n t (k + of_nat i) = ?C (k + of_nat i)" by (rule low) (use ui i n in simp)
    also have "\<dots> = (cs @ [0]) ! i"
    proof (cases "i = length cs")
      case False
      then have "(of_nat i :: u64) \<noteq> ?n" using i n un by (metis append_eq_append_conv2 length_append_singleton less_SucE ui unat_of_nat64 add_diff_cancel_left')
      moreover have "M (name + of_nat i) = (cs @ [0]) ! i" using c i by (simp add: cstr_bytes_at bytes_at_nth)
      ultimately show ?thesis using mc [of "k + of_nat i"] ui False i by simp
    qed simp
    finally show "new_node M k name ?n t (k + of_nat i) = (cs @ [0]) ! i" .
  qed
  show "kn_type (new_node M k name ?n t) k = ktype_num t"
  proof -
    have "load32 (store32 X (k + 48) 1) (k + 32) = load32 X (k + 32)" for X
      by (simp add: load32_def store32_def load_store_apart apart_def)
    then show ?thesis by (simp add: new_node_def set_kn_ref_def set_kn_type_def kn_type_def)
  qed
  show "new_node M k name ?n t x = M x" if x: "\<not> unat (x - k) < 72"
  proof -
    have "x \<noteq> k + ?n" using x un n by auto
    then show ?thesis using low [of x] mc [of x] x n by simp
  qed
qed

section \<open>New nodes\<close>

lemma cstr_length:
  assumes "cstr M a cs"
  shows "length cs < 18446744073709551616"
proof (rule ccontr)
  assume "\<not> length cs < 18446744073709551616"
  then obtain k where k: "length cs = k + 18446744073709551616" by (metis add.commute le_Suc_ex not_less)
  have b: "M (a + of_nat i) = (cs @ [0]) ! i" if "i \<le> length cs" for i
    using assms that by (simp add: cstr_bytes_at bytes_at_nth)
  have "(of_nat (length cs) :: u64) = of_nat k" unfolding k of_nat_add by simp
  then have "M (a + of_nat k) = M (a + of_nat (length cs))" by simp
  also have "\<dots> = 0" unfolding b [OF order_refl] by simp
  finally have "cs ! k = 0" using b [of k] k by (simp add: nth_append)
  then show False using assms k by (metis add_less_same_cancel1 cstr_bytes_at less_add_same_cancel1 nth_mem zero_less_numeral)
qed

lemma pool_alloc:
  assumes "pool_inv ctl lo hi U m" "unat sz + 8 \<le> 18446744073709551616"
  obtains (none) m' M c where "os_pool_allocate sz m = Some (NULL, m')" "m' = m\<lparr>mem := M, control := c\<rparr>" "pool_inv ctl lo hi U m'"
      "agree (readable U (beyond ctl hi)) (mem m) (mem m')"
    | (some) p s m' M c where "os_pool_allocate sz m = Some (p, m')" "m' = m\<lparr>mem := M, control := c\<rparr>" "p \<noteq> NULL" "U p = None"
      "unat sz \<le> unat s" "pool_inv ctl lo hi (U(p \<mapsto> s)) m'" "agree (readable U (beyond ctl hi)) (mem m) (mem m')"
proof -
  obtain p m' where a: "os_pool_allocate sz m = Some (p, m')" "agree (payload U \<union> beyond ctl hi) (mem m) (mem m')"
    "\<exists>M c. m' = m\<lparr>mem := M, control := c\<rparr>"
    "p = NULL \<and> pool_inv ctl lo hi U m' \<or> (\<exists>s. U p = None \<and> unat sz \<le> unat s \<and> pool_inv ctl lo hi (U(p \<mapsto> s)) m')"
    using pool_inv_allocate [OF assms] by blast
  note ag = a(2) [folded readable_def]
  show ?thesis
  proof (cases "p = NULL")
    case True
    then have "pool_inv ctl lo hi U m'" using a(4) pool.block [of ctl lo hi "U(p \<mapsto> s)" m' p s for s] by auto
    then show ?thesis using none a(1,3) ag True by blast
  next
    case False
    then show ?thesis using some a(1,3,4) ag by blast
  qed
qed

lemma pool_write:
  assumes "pool_inv ctl lo hi U m" "\<And>x. x \<notin> payload U \<Longrightarrow> M x = mem m x"
  shows "pool_inv ctl lo hi U (m\<lparr>mem := M\<rparr>)"
  by (rule pool.payload_write [OF assms(1)]) (use assms(2) in auto)

lemma block_bytes: "U p = Some s \<Longrightarrow> unat (x - p) < unat s \<Longrightarrow> x \<in> payload U"
  unfolding bytes_of_block by blast

lemma knode_new_ok:
  assumes i: "pool_inv ctl lo hi U m" and nm: "name \<noteq> NULL" "string_at (readable U (beyond ctl hi)) (mem m) name cs"
  shows "31 \<le> length cs \<Longrightarrow> ob_knode_new name t True m = Some (Inl (- ENAMETOOLONG), m)"
    and "length cs < 31 \<Longrightarrow> \<exists>r m' M c. ob_knode_new name t True m = Some (r, m') \<and> m' = m\<lparr>mem := M, control := c\<rparr> \<and>
      agree (readable U (beyond ctl hi)) (mem m) (mem m') \<and>
      (r = Inl (- ENOMEM) \<and> exhausted ctl lo hi sizeof_knode m \<and> pool_inv ctl lo hi U m' \<or>
       (\<exists>k s. r = Inr k \<and> k \<noteq> NULL \<and> U k = None \<and> pool_inv ctl lo hi (U(k \<mapsto> s)) m' \<and> knode_at (U(k \<mapsto> s)) (mem m') k cs t))"
proof -
  have c: "cstr (mem m) name cs" using nm(2) by (simp add: string_at_def)
  have un: "unat (of_nat (length cs) :: u64) = length cs" using cstr_length [OF c] by (rule unat_of_nat64)
  have cmp: "KNODE_NAME_LEN - 1 \<le> of_nat (length cs) \<longleftrightarrow> 31 \<le> length cs"
    unfolding KNODE_NAME_LEN_def word_le_nat_alt un by simp
  show "ob_knode_new name t True m = Some (Inl (- ENAMETOOLONG), m)" if "31 \<le> length cs"
    using that cmp nm(1) strlen_cstr [OF c] by (simp add: ob_knode_new_def)
  let ?goal = "\<exists>r m' M c. ob_knode_new name t True m = Some (r, m') \<and> m' = m\<lparr>mem := M, control := c\<rparr> \<and>
      agree (readable U (beyond ctl hi)) (mem m) (mem m') \<and>
      (r = Inl (- ENOMEM) \<and> exhausted ctl lo hi sizeof_knode m \<and> pool_inv ctl lo hi U m' \<or>
       (\<exists>k s. r = Inr k \<and> k \<noteq> NULL \<and> U k = None \<and> pool_inv ctl lo hi (U(k \<mapsto> s)) m' \<and> knode_at (U(k \<mapsto> s)) (mem m') k cs t))"
  show ?goal if len: "length cs < 31"
  proof -
    have l: "\<not> KNODE_NAME_LEN - 1 \<le> of_nat (length cs)" using cmp len by simp
    have sz: "unat sizeof_knode + 8 \<le> 18446744073709551616" by (simp add: sizeof_knode_def)
    show ?goal
    proof (cases rule: pool_alloc [OF i sz])
      case (1 m' M c)
      then have "ob_knode_new name t True m = Some (Inl (- ENOMEM), m')"
        using nm(1) l strlen_cstr [OF c] by (simp add: ob_knode_new_def)
      then show ?goal using 1 pool_refuses [OF i sz 1(1)] by blast
    next
      case (2 k s m' M c)
      have s: "72 \<le> unat s" using 2(5) by (simp add: sizeof_knode_def)
      have c': "cstr (mem m') name cs" using string_at_agree [OF nm(2) 2(7)] by (simp add: string_at_def)
      have off: "\<not> unat (x - k) < 72" if "x \<in> readable U (beyond ctl hi)" for x
        using pool.fresh [OF 2(6,4) that] s by linarith
      have "\<not> unat (name + of_nat j - k) < 72" if "j \<le> length cs" for j
        using off nm(2) that by (simp add: string_at_def)
      note w = new_node_bytes [OF 2(3) nm(1) len c' this, where t = t]
      let ?M = "new_node (mem m') k name (of_nat (length cs)) t"
      have "ob_knode_new name t True m = Some (Inr k, m'\<lparr>mem := ?M\<rparr>)"
        using nm(1) l strlen_cstr [OF c] 2(1,3) by (simp add: ob_knode_new_def new_node_def)
      moreover have "pool_inv ctl lo hi (U(k \<mapsto> s)) (m'\<lparr>mem := ?M\<rparr>)"
      proof (rule pool_write [OF 2(6)])
        fix x assume "x \<notin> payload (U(k \<mapsto> s))"
        then have "\<not> unat (x - k) < unat s" using block_bytes [of "U(k \<mapsto> s)" k s x] by auto
        then have "\<not> unat (x - k) < 72" using s by (meson less_le_trans)
        then show "?M x = mem m' x" using w(3) [of x] by simp
      qed
      moreover have "agree (readable U (beyond ctl hi)) (mem m) ?M"
        by (rule agree_trans [OF 2(7)]) (use w(3) off in \<open>simp add: agree_def\<close>)
      moreover have "knode_at (U(k \<mapsto> s)) ?M k cs t" using w(1,2) s len by (simp add: knode_at_def)
      moreover have "m'\<lparr>mem := ?M\<rparr> = m\<lparr>mem := ?M, control := c\<rparr>" using 2(2) by simp
      ultimately show ?goal using 2(3,4)
        by (intro exI [of _ "Inr k"] exI [of _ "m'\<lparr>mem := ?M\<rparr>"] exI [of _ ?M] exI [of _ c]) auto
    qed
  qed
qed

section \<open>Directories\<close>

text \<open>A directory: a node whose data is another block with the list of its entries and their number.\<close>

definition dir_at :: "(addr \<rightharpoonup> u64) \<Rightarrow> memory \<Rightarrow> addr \<Rightarrow> u8 list \<Rightarrow> addr list \<Rightarrow> bool" where
  "dir_at U M d cs xs \<longleftrightarrow> knode_at U M d cs K_DIR \<and> kn_data M d \<noteq> d \<and> (\<exists>s. U (kn_data M d) = Some s \<and> 32 \<le> unat s) \<and>
     tailq dir_link M (kn_data M d) xs \<and> dir_entry_count M (kn_data M d) = of_nat (length xs) \<and>
     (\<forall>x \<in> set xs. x \<noteq> d \<and> x \<noteq> kn_data M d \<and> (\<exists>cs t. knode_at U M x cs t))"

lemma tailq_frame:
  assumes t: "tailq f M h xs" and a: "al8 a" "a \<notin> {h, h + 8, h + 16}" "a \<notin> set (q_cells f xs)"
  shows "tailq f (store64 M a v) h xs"
proof -
  have sep: "q_sep f [h, h + 8, h + 16] xs" using t by (simp add: tailq_def)
  note c = q_sep_cells [OF sep]
  have h: "al8 h" "al8 (h + 8)" "al8 (h + 16)" using c(1) by simp_all
  have e: "q_end f h xs \<noteq> a" "al8 (q_end f h xs)" using q_end_cells [of f h xs] a(2,3) h(1) c(2) by auto
  have "chain f (store64 M a v) h xs = chain f M h xs"
    by (rule chain_store_other [OF sep _ a(1,3)]) (use a(2) in auto)
  then show ?thesis using t e h a(1,2) by (auto simp: tailq_def tq_head_defs al8_load_store)
qed

text \<open>The writes of \<^verbatim>\<open>ob_dir_new\<close> to the node and the block of the list.\<close>

definition new_dir :: "memory \<Rightarrow> addr \<Rightarrow> addr \<Rightarrow> memory" where
  "new_dir M k h = set_dir_entry_count h 0 (TAILQ_INIT (set_kn_data k h M) h)"

lemma new_dir_other:
  assumes "\<not> (40 \<le> unat (x - k) \<and> unat (x - k) < 48)" "\<not> unat (x - h) < 32"
  shows "new_dir M k h x = M x"
proof -
  have "\<not> unat (x - (k + 40)) < 8" using assms(1) field_offset [of x k 40 8] by auto
  moreover have "\<not> unat (x - (h + 8)) < 8" "\<not> unat (x - (h + 16)) < 8" "\<not> unat (x - (h + 24)) < 8" "\<not> unat (x - h) < 8"
    using assms(2) field_offset [of x h 8 8] field_offset [of x h 16 8] field_offset [of x h 24 8] by auto
  ultimately show ?thesis
    by (simp add: new_dir_def set_dir_entry_count_def TAILQ_INIT_def set_nelem_def set_kn_data_def store64_other Let_def)
qed

lemma new_dir_list:
  assumes "al8 h"
  shows "tailq dir_link (new_dir M k h) h []" "dir_entry_count (new_dir M k h) h = 0"
proof -
  show "tailq dir_link (new_dir M k h) h []"
    unfolding new_dir_def set_dir_entry_count_def
    by (rule tailq_frame [OF tailq_init [OF assms]]) (use assms in \<open>simp_all add: al8_add\<close>)
  show "dir_entry_count (new_dir M k h) h = 0"
    by (simp add: new_dir_def set_dir_entry_count_def dir_entry_count_def)
qed

lemma load64_cong: "(\<And>x. unat (x - a) < 8 \<Longrightarrow> M' x = M x) \<Longrightarrow> load64 M' a = load64 M a"
  unfolding load64_def by (rule load_n_cong) (simp add: unat_of_nat64)

lemma new_dir_node:
  assumes "\<And>x. unat (x - k) < 72 \<Longrightarrow> \<not> unat (x - h) < 32"
  shows "kn_data (new_dir M k h) k = h"
    "length cs < 31 \<Longrightarrow> cstr (new_dir M k h) k cs = cstr M k cs" "kn_type (new_dir M k h) k = kn_type M k"
proof -
  have eq: "load64 (new_dir M k h) (k + 40) = load64 (set_kn_data k h M) (k + 40)"
  proof (rule load64_cong)
    fix x assume x: "unat (x - (k + 40)) < 8"
    then have "unat (x - k) < 72" using field_offset [of x k 40 8] by simp
    note o = assms [OF this]
    have "\<not> unat (x - (h + 8)) < 8" "\<not> unat (x - (h + 16)) < 8" "\<not> unat (x - (h + 24)) < 8" "\<not> unat (x - h) < 8"
      using o field_offset [of x h 8 8] field_offset [of x h 16 8] field_offset [of x h 24 8] by auto
    then show "new_dir M k h x = set_kn_data k h M x"
      by (simp add: new_dir_def set_dir_entry_count_def TAILQ_INIT_def set_nelem_def store64_other Let_def)
  qed
  then show "kn_data (new_dir M k h) k = h" by (simp add: kn_data_def set_kn_data_def)
  have low: "new_dir M k h x = M x" if "unat (x - k) < 36" for x
    using that assms [of x] by (intro new_dir_other) auto
  show "cstr (new_dir M k h) k cs = cstr M k cs" if "length cs < 31" using knode_cong(1) [OF that low] .
  show "kn_type (new_dir M k h) k = kn_type M k" using knode_cong(2) [of "[]", OF _ low] by simp
qed

lemma agree_readable_mono: "agree (readable V A) M M' \<Longrightarrow> payload U \<subseteq> payload V \<Longrightarrow> agree (readable U A) M M'"
  unfolding readable_def by (erule agree_mono) blast

lemma payload_upd: "U k = None \<Longrightarrow> payload U \<subseteq> payload (U(k \<mapsto> s))"
  unfolding payload_def by auto (metis option.distinct(1))

lemma dir_new_ok:
  assumes i: "pool_inv ctl lo hi U m" and nm: "name \<noteq> NULL" "string_at (readable U (beyond ctl hi)) (mem m) name cs"
    and len: "length cs < 31"
  shows "\<exists>r m' M c. ob_dir_new name True m = Some (r, m') \<and> m' = m\<lparr>mem := M, control := c\<rparr> \<and>
      agree (readable U (beyond ctl hi)) (mem m) (mem m') \<and>
      (r = Inl (- ENOMEM) \<and> pool_inv ctl lo hi U m' \<and> (exhausted ctl lo hi sizeof_knode m \<or>
          (\<exists>k m1. ob_knode_new name K_DIR True m = Some (Inr k, m1) \<and> exhausted ctl lo hi sizeof_knode_dir m1)) \<or>
       (\<exists>d h s t. r = Inr d \<and> d \<noteq> NULL \<and> U d = None \<and> U h = None \<and> d \<noteq> h \<and> pool_inv ctl lo hi (U(d \<mapsto> s, h \<mapsto> t)) m' \<and>
          dir_at (U(d \<mapsto> s, h \<mapsto> t)) (mem m') d cs []))"
    (is "\<exists>r m' M c. ?P r m' M c")
proof -
  obtain r m1 M1 c1 where n: "ob_knode_new name K_DIR True m = Some (r, m1)" "m1 = m\<lparr>mem := M1, control := c1\<rparr>"
    "agree (readable U (beyond ctl hi)) (mem m) (mem m1)"
    "r = Inl (- ENOMEM) \<and> exhausted ctl lo hi sizeof_knode m \<and> pool_inv ctl lo hi U m1 \<or> (\<exists>k s. r = Inr k \<and> k \<noteq> NULL \<and> U k = None \<and>
      pool_inv ctl lo hi (U(k \<mapsto> s)) m1 \<and> knode_at (U(k \<mapsto> s)) (mem m1) k cs K_DIR)"
    using knode_new_ok(2) [OF i nm len, of K_DIR] by blast
  show ?thesis
  proof (cases "r = Inl (- ENOMEM) \<and> exhausted ctl lo hi sizeof_knode m \<and> pool_inv ctl lo hi U m1")
    case True
    then have "?P r m1 M1 c1" using nm n by (simp add: ob_dir_new_def)
    then show ?thesis by blast
  next
    case False
    then obtain k s where k: "r = Inr k" "k \<noteq> NULL" "U k = None" "pool_inv ctl lo hi (U(k \<mapsto> s)) m1"
      "knode_at (U(k \<mapsto> s)) (mem m1) k cs K_DIR" using n(4) by blast
    let ?U = "U(k \<mapsto> s)"
    have s: "72 \<le> unat s" using k(5) by (simp add: knode_at_def)
    have sz: "unat sizeof_knode_dir + 8 \<le> 18446744073709551616" by (simp add: sizeof_knode_dir_def)
    have sub: "payload U \<subseteq> payload ?U" using payload_upd [of U k s, OF k(3)] .
    show ?thesis
    proof (cases rule: pool_alloc [OF k(4) sz])
      case (1 m2 M2 c2)
      let ?m3 = "m2\<lparr>mem := set_kn_data k NULL (mem m2)\<rparr>"
      have w: "set_kn_data k NULL (mem m2) x = mem m2 x" if "\<not> unat (x - k) < unat s" for x
      proof -
        have "\<not> unat (x - (k + 40)) < 8" using that s field_offset [of x k 40 8] by auto
        then show ?thesis by (simp add: set_kn_data_def store64_other)
      qed
      have i3: "pool_inv ctl lo hi ?U ?m3"
      proof (rule pool_write [OF 1(3)])
        fix x assume "x \<notin> payload ?U"
        then have "\<not> unat (x - k) < unat s" using block_bytes [of ?U k s x] by auto
        then show "set_kn_data k NULL (mem m2) x = mem m2 x" by (rule w)
      qed
      obtain m4 M4 c4 where f: "os_pool_free k ?m3 = Some m4" "pool_inv ctl lo hi (?U(k := None)) m4"
        "m4 = ?m3\<lparr>mem := M4, control := c4\<rparr>" "agree (readable (?U(k := None)) (beyond ctl hi)) (mem ?m3) (mem m4)"
        using pool_inv_free [OF i3, of k s] unfolding readable_def by auto
      have e: "?U(k := None) = U" using k(3) by auto
      have a3: "agree (readable U (beyond ctl hi)) (mem m2) (mem ?m3)"
        using pool.fresh [OF 1(3) k(3)] w by (auto simp: agree_def)
      have "agree (readable U (beyond ctl hi)) (mem m) (mem m4)"
        using n(3) agree_readable_mono [OF 1(4) sub] a3 f(4) unfolding e by (blast intro: agree_trans)
      moreover have "kn_data (set_kn_data k NULL (mem m2)) k = NULL" by (simp add: kn_data_def set_kn_data_def)
      moreover have "m4 = m\<lparr>mem := M4, control := c4\<rparr>" using f(3) 1(2) n(2) by simp
      ultimately have "?P (Inl (- ENOMEM)) m4 M4 c4"
        using nm n(1) k(1) 1(1) f(1,2) pool_refuses [OF k(4) sz 1(1)] unfolding e by (simp add: ob_dir_new_def)
      then show ?thesis by blast
    next
      case (2 h t m2 M2 c2)
      let ?M = "new_dir (mem m2) k h" and ?V = "U(k \<mapsto> s, h \<mapsto> t)"
      have t: "32 \<le> unat t" using 2(5) by (simp add: sizeof_knode_dir_def)
      have kh: "k \<noteq> h" "U h = None" using 2(4) by (auto split: if_splits)
      have b: "?V k = Some s" "?V h = Some t" using kh by auto
      have off: "\<not> unat (x - h) < 32" if "unat (x - k) < 72" for x
      proof -
        have "unat (x - k) < unat s" using that s by simp
        then show ?thesis using pool.separate_bytes [OF 2(6) b kh(1)] t by (meson less_le_trans)
      qed
      note w = new_dir_node [OF off, where M = "mem m2"]
      have al: "al8 h" using pool.block [OF 2(6) b(2)] by blast
      note l = new_dir_list [OF al, of "mem m2" k]
      have other: "?M x = mem m2 x" if "\<not> unat (x - k) < unat s" "\<not> unat (x - h) < unat t" for x
        by (rule new_dir_other) (use that s t in auto)
      have "pool_inv ctl lo hi ?V (m2\<lparr>mem := ?M\<rparr>)"
      proof (rule pool_write [OF 2(6)])
        fix x assume "x \<notin> payload ?V"
        then have "\<not> unat (x - k) < unat s" "\<not> unat (x - h) < unat t"
          using block_bytes [of ?V _ _ x] b by blast+
        then show "?M x = mem m2 x" by (rule other)
      qed
      moreover have "agree (readable U (beyond ctl hi)) (mem m) ?M"
      proof -
        have "agree (readable U (beyond ctl hi)) (mem m2) ?M"
          unfolding agree_def
        proof
          fix x assume x: "x \<in> readable U (beyond ctl hi)"
          then have x': "x \<in> readable ?U (beyond ctl hi)" using sub unfolding readable_def by blast
          have "\<not> unat (x - h) < unat t" using pool.fresh [OF 2(6,4) x'] .
          moreover have "\<not> unat (x - k) < unat s" using pool.fresh [OF k(4,3) x] .
          ultimately show "?M x = mem m2 x" using other by blast
        qed
        then show ?thesis using n(3) agree_readable_mono [OF 2(7) sub] by (blast intro: agree_trans)
      qed
      moreover have "dir_at ?V ?M k cs []"
      proof -
        have "agree (payload ?U) (mem m1) (mem m2)" using 2(7) unfolding readable_def agree_Un by blast
        then have same: "mem m2 x = mem m1 x" if "unat (x - k) < 36" for x
          using block_bytes [of ?U k s x] that s unfolding agree_def by simp
        have "knode_at ?V ?M k cs K_DIR"
          using k(5) w(2,3) len knode_cong [OF _ same] b s by (simp add: knode_at_def)
        then show ?thesis using w(1) l b t kh by (auto simp: dir_at_def)
      qed
      moreover have "kn_data (set_kn_data k h (mem m2)) k = h" by (simp add: kn_data_def set_kn_data_def)
      moreover have "m2\<lparr>mem := ?M\<rparr> = m\<lparr>mem := ?M, control := c2\<rparr>" using 2(2) n(2) by simp
      ultimately have "?P (Inr k) (m2\<lparr>mem := ?M\<rparr>) ?M c2"
        using nm n(1) k(1,2,3) 2(1,3) kh by (auto simp: ob_dir_new_def new_dir_def)
      then show ?thesis by blast
    qed
  qed
qed

section \<open>Lookup\<close>

lemma cstr_head: "cstr M a cs \<Longrightarrow> M a = (case cs of [] \<Rightarrow> 0 | c # _ \<Rightarrow> c)"
  by (cases cs) auto

lemma find_loop_chain:
  assumes "cstr M name cs"
  shows "chain f M p xs \<Longrightarrow> f = dir_link \<Longrightarrow> load64 M (q_end f p xs) = NULL \<Longrightarrow> \<forall>x \<in> set xs. cstr M x (nm x) \<Longrightarrow>
    find_loop M name (load64 M p) = Some (case find (\<lambda>x. nm x = cs) xs of None \<Rightarrow> NULL | Some x \<Rightarrow> x)"
proof (induction xs arbitrary: p)
  case Nil
  then show ?case by (simp add: find_loop.simps)
next
  case (Cons x xs)
  have x: "load64 M p = x" "x \<noteq> NULL" "cstr M x (nm x)" using Cons.prems by simp_all
  have IH: "find_loop M name (load64 M (x + f)) = Some (case find (\<lambda>x. nm x = cs) xs of None \<Rightarrow> NULL | Some x \<Rightarrow> x)"
    by (rule Cons.IH) (use Cons.prems in simp_all)
  have ne: "M x \<noteq> M name \<Longrightarrow> nm x \<noteq> cs" using cstr_head [OF x(3)] cstr_head [OF assms] by auto
  obtain r where r: "strcmp M x name = Some r" "r = 0 \<longleftrightarrow> nm x = cs" using strcmp_eq [OF x(3) assms] by blast
  show ?case
    unfolding x(1) using IH Cons.prems(2) x(2) ne r by (subst find_loop.simps) (auto simp: q_next_def)
qed

lemma dir_find:
  assumes d: "dir_at U (mem m) d dn xs" and nm: "\<forall>x \<in> set xs. cstr (mem m) x (nm x)" and c: "cstr (mem m) name cs"
    and z: "d \<noteq> NULL" "name \<noteq> NULL"
  shows "knode_subdir_find d name True m = Some (case find (\<lambda>x. nm x = cs) xs of None \<Rightarrow> Inl (- ENOENT) | Some x \<Rightarrow> Inr x)"
proof -
  have t: "tailq dir_link (mem m) (kn_data (mem m) d) xs" "kn_type (mem m) d = ktype_num K_DIR"
    using d by (simp_all add: dir_at_def knode_at_def)
  have f: "find_loop (mem m) name (load64 (mem m) (kn_data (mem m) d)) =
      Some (case find (\<lambda>x. nm x = cs) xs of None \<Rightarrow> NULL | Some x \<Rightarrow> x)"
    by (rule find_loop_chain [OF c, of dir_link]) (use t(1) nm in \<open>simp_all add: tailq_def\<close>)
  have "x \<noteq> NULL" if "find (\<lambda>x. nm x = cs) xs = Some x" for x
  proof -
    have "x \<in> set xs" using that by (auto simp: find_Some_iff)
    moreover have "chain dir_link (mem m) p ys \<Longrightarrow> x \<in> set ys \<Longrightarrow> x \<noteq> NULL" for p ys by (induction ys arbitrary: p) auto
    ultimately show ?thesis using t(1) unfolding tailq_def by blast
  qed
  then show ?thesis
    using f z t(2) by (auto simp: knode_subdir_find_def KNODE_DIR_def TAILQ_FIRST_def split: option.splits)
qed

section \<open>Appending\<close>

definition link_byte :: "addr set \<Rightarrow> addr \<Rightarrow> bool" where
  "link_byte N x \<longleftrightarrow> (\<exists>q \<in> N. 56 \<le> unat (x - q) \<and> unat (x - q) < 72)"

lemma link_offsets:
  assumes "\<not> link_byte N x" "q \<in> N"
  shows "\<not> unat (x - (q + 56)) < 8" "\<not> unat (x - (q + 64)) < 8"
  using assms field_offset [of x q 56 8] field_offset [of x q 64 8] unfolding link_byte_def by auto

lemma insert_tail_other:
  assumes t: "tailq dir_link M h xs" and k: "q_sep dir_link [h, h + 8, h + 16] (k # xs)"
    and x: "\<not> link_byte (insert k (set xs)) x" "\<not> unat (x - h) < 24"
  shows "TAILQ_INSERT_TAIL dir_link M h k x = M x"
proof -
  have h: "al8 h" "al8 (h + 8)" "al8 (h + 16)" using tailq_heads [OF t] by auto
  have ka: "al8 (k + 56)" "al8 (k + 64)" "h + 8 \<noteq> k + 56" "h + 8 \<noteq> k + 64" using k by (auto simp: dir_link_def add.commute)
  define l where "l = q_end dir_link h xs"
  have l: "tqh_last M h = l" "l = h \<or> (\<exists>q \<in> set xs. l = q + 56)"
    using t by (auto simp: tailq_def l_def q_end_def dir_link_def)
  have ka': "al8 (64 + k)" using ka(2) by (simp add: add.commute)
  have last: "tqh_last (set_q_prev dir_link (set_q_next dir_link M k v) k w) h = l" for v w
    using ka ka' h l(1) by (auto simp: tqh_last_def set_q_next_def set_q_prev_def dir_link_def al8_load_store)
  have last': "tqh_last (set_q_next dir_link M k v) h = l" for v
    using ka h l(1) by (auto simp: tqh_last_def set_q_next_def dir_link_def al8_load_store)
  have kx: "\<not> unat (x - (64 + k)) < 8" using link_offsets(2) [OF x(1), of k] by (simp add: add.commute)
  have "\<not> unat (x - (h + 8)) < 8" "\<not> unat (x - (h + 16)) < 8" "\<not> unat (x - h) < 8"
    using x(2) field_offset [of x h 8 8] field_offset [of x h 16 8] by auto
  moreover have "\<not> unat (x - (k + 56)) < 8" "\<not> unat (x - (k + 64)) < 8" using link_offsets [OF x(1)] by auto
  moreover have "\<not> unat (x - l) < 8" using l(2) link_offsets(1) [OF x(1)] calculation(3) by auto
  ultimately show ?thesis using kx
    unfolding TAILQ_INSERT_TAIL_def Let_def last last'
    by (simp add: set_nelem_def store64_other) (simp add: set_q_next_def set_q_prev_def dir_link_def store64_other)
qed

text \<open>Blocks in use are apart, so the links of nodes are.\<close>

lemma nodes_apart:
  assumes i: "pool_inv ctl lo hi U m" and p: "U p = Some s" "U q = Some t" "p \<noteq> q" and o: "unat a < unat s" "unat b < unat t"
  shows "p + a \<noteq> q + b"
proof
  assume e: "p + a = q + b"
  have "unat (p + a - p) < unat s" using o(1) by simp
  moreover have "unat (p + a - q) < unat t" unfolding e using o(2) by simp
  ultimately show False using pool.separate_bytes [OF i p] by blast
qed

lemma node_links:
  assumes i: "pool_inv ctl lo hi U m" and h: "U h = Some t" "32 \<le> unat t"
    and x: "\<forall>x \<in> set xs. x \<noteq> h \<and> (\<exists>s. U x = Some s \<and> 72 \<le> unat s)" "distinct xs"
  shows "q_sep dir_link [h, h + 8, h + 16] xs" "h + 24 \<notin> set (q_cells dir_link xs)" "al8 (h + 24)"
proof -
  have al: "al8 p" if "U p = Some s" for p s using pool.block [OF i that] by blast
  have ah: "al8 (h + 8)" "al8 (h + 16)" "al8 (h + 24)" "al8 h" using al [OF h(1)] by simp_all
  have nh: "x + a \<noteq> h + b" if xx: "x \<in> set xs" "unat a < 72" "unat b < 32" for x a b
  proof -
    obtain s where s: "U x = Some s" "72 \<le> unat s" "x \<noteq> h" using bspec [OF x(1) xx(1)] by blast
    show ?thesis by (rule nodes_apart [OF i s(1) h(1) s(3)]) (use xx s(2) h(2) in simp_all)
  qed
  have nn: "x + 0 \<noteq> y + 8" if xy: "x \<in> set xs" "y \<in> set xs" for x y
  proof (cases "x = y")
    case False
    obtain s where s: "U x = Some s" "72 \<le> unat s" using bspec [OF x(1) xy(1)] by blast
    obtain u where u: "U y = Some u" "72 \<le> unat u" using bspec [OF x(1) xy(2)] by blast
    show ?thesis by (rule nodes_apart [OF i s(1) u(1) False]) (use s(2) u(2) in simp_all)
  qed simp
  have ax: "al8 (x + 56)" "al8 (x + 56 + 8)" if xx: "x \<in> set xs" for x
  proof -
    obtain s where "U x = Some s" using bspec [OF x(1) xx] by blast
    then have a: "al8 x" by (rule al)
    have n: "al8 56" "al8 8" by (simp_all add: al8_def)
    show "al8 (x + 56)" "al8 (x + 56 + 8)" using al8_add [OF a n(1)] al8_add [OF al8_add [OF a n(1)] n(2)] by blast+
  qed
  have n56: "x + 56 \<noteq> h + b" "x + 56 + 8 \<noteq> h + b" if "x \<in> set xs" "unat b < 32" for x b
    using nh [of x 56 b] nh [of x 64 b] that by (simp_all add: add.assoc)
  show "q_sep dir_link [h, h + 8, h + 16] xs"
    unfolding q_sep_def dir_link_def using x(2) ah ax nn n56 [of _ 0] n56 [of _ 8] n56 [of _ 16] by simp
  show "h + 24 \<notin> set (q_cells dir_link xs)" using n56 [of _ 24] by (force simp: q_cells_def dir_link_def)
  show "al8 (h + 24)" by fact
qed

lemma dir_append_ok:
  assumes i: "pool_inv ctl lo hi U m" and d: "dir_at U (mem m) d dn xs" "d \<noteq> NULL"
    and k: "knode_at U (mem m) k kn t" "k \<notin> set xs" "k \<noteq> d" "k \<noteq> kn_data (mem m) d"
  shows "\<exists>M. ob_dir_append lit k d m = Some (0, m\<lparr>mem := M\<rparr>) \<and> pool_inv ctl lo hi U (m\<lparr>mem := M\<rparr>) \<and>
    dir_at U M d dn (xs @ [k]) \<and> agree (beyond ctl hi) (mem m) M \<and>
    (\<forall>x n t. x \<noteq> kn_data (mem m) d \<longrightarrow> knode_at U (mem m) x n t \<longrightarrow> knode_at U M x n t)"
proof -
  define h where "h = kn_data (mem m) d"
  obtain u where u: "U h = Some u" "32 \<le> unat u" using d(1) unfolding dir_at_def h_def by blast
  note t = d(1) [unfolded dir_at_def, folded h_def]
  obtain sk where sk: "U k = Some sk" "72 \<le> unat sk" using k(1) unfolding knode_at_def by blast
  have k0: "k \<noteq> NULL" "h \<noteq> NULL" using pool.block [OF i sk(1)] pool.block [OF i u(1)] by blast+
  have nodes: "\<forall>x \<in> set (k # xs). x \<noteq> h \<and> (\<exists>s. U x = Some s \<and> 72 \<le> unat s)"
    using t sk k(4) h_def by (auto simp: knode_at_def)
  have dist: "distinct (k # xs)" using t k(2) by (auto simp: tailq_def q_sep_def)
  note sep = node_links [OF i u nodes dist]
  have tq: "tailq dir_link (mem m) h xs" using t by blast
  let ?M1 = "TAILQ_INSERT_TAIL dir_link (mem m) h k"
  let ?M = "set_dir_entry_count h (dir_entry_count ?M1 h + 1) ?M1"
  have t1: "tailq dir_link ?M1 h (xs @ [k])" by (rule tailq_insert_tail [OF tq sep(1) k0(1)])
  have cells: "h + 24 \<notin> set (q_cells dir_link (xs @ [k]))" using sep(2) by auto
  have t2: "tailq dir_link ?M h (xs @ [k])"
    unfolding set_dir_entry_count_def by (rule tailq_frame [OF t1 sep(3) _ cells]) simp
  have link_block: "unat (x - q) < unat s" if "link_byte {q} x" "U q = Some s" "q \<in> set (k # xs)" for x q s
    using that nodes by (auto simp: link_byte_def)
  have other1: "?M1 x = mem m x" if "\<not> link_byte (insert k (set xs)) x" "\<not> unat (x - h) < 24" for x
    by (rule insert_tail_other [OF tq sep(1) that])
  have other: "?M x = mem m x" if "\<not> link_byte (insert k (set xs)) x" "\<not> unat (x - h) < 32" for x
  proof -
    have "\<not> unat (x - (h + 24)) < 8" "\<not> unat (x - h) < 24" using that(2) field_offset [of x h 24 8] by auto
    then show ?thesis using other1 [OF that(1)] by (simp add: set_dir_entry_count_def store64_other)
  qed
  have notlink: "\<not> link_byte (insert k (set xs)) x"
    if p: "U p = Some s" "unat (x - p) < unat s" "p \<notin> set (k # xs) \<or> unat (x - p) < 56" for x p s
  proof
    assume "link_byte (insert k (set xs)) x"
    then obtain q where q: "q \<in> set (k # xs)" "56 \<le> unat (x - q)" "unat (x - q) < 72" by (auto simp: link_byte_def)
    obtain v where v: "U q = Some v" "72 \<le> unat v" using nodes q(1) by blast
    have "p \<noteq> q" using p(3) q(1,2) by auto
    then show False using pool.separate_bytes [OF i p(1) v(1) _ p(2)] q(3) v(2) by auto
  qed
  have cnt: "dir_entry_count ?M1 h = dir_entry_count (mem m) h"
    unfolding dir_entry_count_def
  proof (rule load64_cong)
    fix x assume x: "unat (x - (h + 24)) < 8"
    then have xh: "unat (x - h) < unat u" "\<not> unat (x - h) < 24" using field_offset [of x h 24 8] u(2) by auto
    show "?M1 x = mem m x" by (rule other1 [OF notlink [OF u(1) xh(1)] xh(2)]) (use nodes in auto)
  qed
  have low: "?M x = mem m x" if p: "U p = Some s" "p \<noteq> h" "unat (x - p) < 56" "72 \<le> unat s" for x p s
  proof -
    have xs: "unat (x - p) < unat s" using p(3,4) by simp
    show ?thesis
      by (rule other [OF notlink [OF p(1) xs]]) (use p(3) pool.separate_bytes [OF i p(1) u(1) p(2) xs] u(2) in auto)
  qed
  have keep: "knode_at U ?M x n t'" if x: "x \<noteq> h" "knode_at U (mem m) x n t'" for x n t'
  proof -
    obtain s where s: "U x = Some s" "72 \<le> unat s" using x(2) unfolding knode_at_def by blast
    have "?M y = mem m y" if "unat (y - x) < 36" for y by (rule low [OF s(1) x(1) _ s(2)]) (use that in simp)
    then show ?thesis using x(2) knode_cong [of n x ?M "mem m"] unfolding knode_at_def by simp
  qed
  have dd: "kn_data ?M d = h"
  proof -
    obtain s where s: "U d = Some s" "72 \<le> unat s" using t unfolding knode_at_def by blast
    have "load64 ?M (d + 40) = load64 (mem m) (d + 40)"
    proof (rule load64_cong)
      fix x assume "unat (x - (d + 40)) < 8"
      then have "unat (x - d) < 56" using field_offset [of x d 40 8] by simp
      then show "?M x = mem m x" using low [OF s(1) _ _ s(2)] t by auto
    qed
    then show ?thesis by (simp add: kn_data_def h_def)
  qed
  have "dir_at U ?M d dn (xs @ [k])"
    unfolding dir_at_def dd
  proof (intro conjI ballI)
    show "knode_at U ?M d dn K_DIR" using keep t by auto
    show "h \<noteq> d" "\<exists>s. U h = Some s \<and> 32 \<le> unat s" "tailq dir_link ?M h (xs @ [k])" using t u t2 by auto
    show "dir_entry_count ?M h = of_nat (length (xs @ [k]))"
      using t cnt by (simp add: set_dir_entry_count_def dir_entry_count_def)
    fix x assume "x \<in> set (xs @ [k])"
    then have x: "x \<in> set (k # xs)" by auto
    then show "x \<noteq> h" "x \<noteq> d" using nodes t k(3) by auto
    have "\<exists>cs t. knode_at U (mem m) x cs t" using x t k(1) by auto
    then show "\<exists>cs t. knode_at U ?M x cs t" using keep \<open>x \<noteq> h\<close> by blast
  qed
  moreover have "pool_inv ctl lo hi U (m\<lparr>mem := ?M\<rparr>)"
  proof (rule pool_write [OF i], rule other)
    fix x assume x: "x \<notin> payload U"
    show "\<not> unat (x - h) < 32" using block_bytes [of U h u x] u x by auto
    show "\<not> link_byte (insert k (set xs)) x"
    proof
      assume "link_byte (insert k (set xs)) x"
      then obtain q where q: "q \<in> set (k # xs)" "unat (x - q) < 72" by (auto simp: link_byte_def)
      obtain v where v: "U q = Some v" "72 \<le> unat v" using nodes q(1) by blast
      then show False using block_bytes [of U q v x] q(2) x by simp
    qed
  qed
  moreover have "agree (beyond ctl hi) (mem m) ?M"
  proof -
    have "pool_inv ctl lo hi U (m\<lparr>mem := ?M\<rparr>)" by fact
    have "?M x = mem m x" if x: "x \<in> beyond ctl hi" for x
    proof (rule other)
      have np: "x \<notin> payload U" using pool.inside [OF i] x by blast
      show "\<not> unat (x - h) < 32" using block_bytes [of U h u x] u np by auto
      show "\<not> link_byte (insert k (set xs)) x"
      proof
        assume "link_byte (insert k (set xs)) x"
        then obtain q where q: "q \<in> set (k # xs)" "unat (x - q) < 72" by (auto simp: link_byte_def)
        obtain v where v: "U q = Some v" "72 \<le> unat v" using nodes q(1) by blast
        then show False using block_bytes [of U q v x] q(2) np by simp
      qed
    qed
    then show ?thesis by (simp add: agree_def)
  qed
  moreover have "ob_dir_append lit k d m = Some (0, m\<lparr>mem := ?M\<rparr>)"
    using k0 d(2) t by (simp add: ob_dir_append_def knode_at_def h_def Let_def)
  ultimately show ?thesis using keep unfolding h_def by blast
qed

section \<open>The promises\<close>

text \<open>
  C39: a new node. A name of 31 bytes or more is refused with nothing changed. Otherwise the node is a
  new block of the pool with the name, cut by no byte, and the type, and it is refused with -ENOMEM, and
  nothing stays allocated, only when the pool is exhausted: every free block is smaller than the
  72 bytes of a node and one part in 32 of them. No other block and no byte outside of the pool changes.
\<close>

theorem ob_knode_new_creates:
  assumes "pool_inv ctl lo hi U m" "name \<noteq> NULL" "string_at (readable U (beyond ctl hi)) (mem m) name cs"
  shows "(31 \<le> length cs \<longrightarrow> ob_knode_new name t True m = Some (Inl (- ENAMETOOLONG), m)) \<and>
    (length cs < 31 \<longrightarrow> (\<exists>r m'. ob_knode_new name t True m = Some (r, m') \<and> agree (readable U (beyond ctl hi)) (mem m) (mem m') \<and>
      (r = Inl (- ENOMEM) \<and> exhausted ctl lo hi sizeof_knode m \<and> pool_inv ctl lo hi U m' \<or>
       (\<exists>k s. r = Inr k \<and> k \<noteq> NULL \<and> U k = None \<and> pool_inv ctl lo hi (U(k \<mapsto> s)) m' \<and> knode_at (U(k \<mapsto> s)) (mem m') k cs t))))"
  using knode_new_ok [OF assms, of t] by blast

text \<open>
  C40: a new directory is two new blocks of the pool, the node with its name and the list with no
  entries. It is refused with -ENOMEM only when the pool is exhausted for the node, or for the list once
  the node is there; when the second block is not granted the first is given back: nothing stays allocated.
\<close>

theorem ob_dir_new_creates:
  assumes "pool_inv ctl lo hi U m" "name \<noteq> NULL" "string_at (readable U (beyond ctl hi)) (mem m) name cs" "length cs < 31"
  shows "\<exists>r m'. ob_dir_new name True m = Some (r, m') \<and> agree (readable U (beyond ctl hi)) (mem m) (mem m') \<and>
      (r = Inl (- ENOMEM) \<and> pool_inv ctl lo hi U m' \<and> (exhausted ctl lo hi sizeof_knode m \<or>
          (\<exists>k m1. ob_knode_new name K_DIR True m = Some (Inr k, m1) \<and> exhausted ctl lo hi sizeof_knode_dir m1)) \<or>
       (\<exists>d h s t. r = Inr d \<and> d \<noteq> NULL \<and> U d = None \<and> U h = None \<and> d \<noteq> h \<and> pool_inv ctl lo hi (U(d \<mapsto> s, h \<mapsto> t)) m' \<and>
          dir_at (U(d \<mapsto> s, h \<mapsto> t)) (mem m') d cs []))"
  using dir_new_ok [OF assms] by blast

text \<open>
  C38: a directory is the list of its nodes. Appending a node that is in no directory puts it at
  the end, counts it and keeps the pool sound and the memory outside of the pool as it is; then a
  lookup finds the first node with the name, the appended one when no earlier node has it, and
  fails with ENOENT when no node has it.
\<close>

theorem ob_directory:
  assumes "pool_inv ctl lo hi U m" "dir_at U (mem m) d dn xs" "d \<noteq> NULL"
    and "knode_at U (mem m) k kn t" "k \<notin> set xs" "k \<noteq> d" "k \<noteq> kn_data (mem m) d"
    and "\<forall>x \<in> set xs. cstr (mem m) x (nm x)" "name \<noteq> NULL" "string_at (beyond ctl hi) (mem m) name cs"
  shows "\<exists>m'. ob_dir_append lit k d m = Some (0, m') \<and> pool_inv ctl lo hi U m' \<and> dir_at U (mem m') d dn (xs @ [k]) \<and>
    agree (beyond ctl hi) (mem m) (mem m') \<and>
    knode_subdir_find d name True m' = Some (case find (\<lambda>x. nm x = cs) xs of Some x \<Rightarrow> Inr x
      | None \<Rightarrow> if kn = cs then Inr k else Inl (- ENOENT))"
proof -
  obtain M where a: "ob_dir_append lit k d m = Some (0, m\<lparr>mem := M\<rparr>)" "pool_inv ctl lo hi U (m\<lparr>mem := M\<rparr>)"
    "dir_at U M d dn (xs @ [k])" "agree (beyond ctl hi) (mem m) M"
    "\<forall>x n t. x \<noteq> kn_data (mem m) d \<longrightarrow> knode_at U (mem m) x n t \<longrightarrow> knode_at U M x n t"
    using dir_append_ok [OF assms(1-7)] by blast
  let ?nm = "nm(k := kn)"
  have k: "cstr M k kn" using a(5) assms(4,7) unfolding knode_at_def by blast
  have x: "cstr M x (nm x)" if x: "x \<in> set xs" for x
  proof -
    obtain n t where n: "knode_at U (mem m) x n t" "x \<noteq> kn_data (mem m) d" using assms(2) x unfolding dir_at_def by blast
    have c: "cstr (mem m) x n" using n(1) unfolding knode_at_def by blast
    have "nm x = n" using cstr_unique [OF bspec [OF assms(8) x] c] .
    moreover have "knode_at U M x n t" using a(5) n by blast
    ultimately show ?thesis unfolding knode_at_def by blast
  qed
  have names: "\<forall>x \<in> set (xs @ [k]). cstr M x (?nm x)" using k x by auto
  have c: "cstr M name cs" using string_at_agree [OF assms(10) a(4)] by (simp add: string_at_def)
  have d: "dir_at U (mem (m\<lparr>mem := M\<rparr>)) d dn (xs @ [k])" using a(3) by simp
  have f: "find (\<lambda>x. ?nm x = cs) (xs @ [k]) = (case find (\<lambda>x. nm x = cs) xs of Some x \<Rightarrow> Some x | None \<Rightarrow> if kn = cs then Some k else None)"
    using assms(5) by (induction xs) auto
  have "knode_subdir_find d name True (m\<lparr>mem := M\<rparr>) = Some (case find (\<lambda>x. ?nm x = cs) (xs @ [k]) of None \<Rightarrow> Inl (- ENOENT) | Some x \<Rightarrow> Inr x)"
    by (rule dir_find [OF d]) (use names c assms(3,9) in simp_all)
  then show ?thesis using a(1-4) unfolding f
    by (intro exI [of _ "m\<lparr>mem := M\<rparr>"]) (auto split: option.splits)
qed

section \<open>Examples\<close>

text \<open>A heap of 64 KiB with nothing in use, and the string \<^verbatim>\<open>a\<close> before it.\<close>

definition ob_machine :: ob where
  "ob_machine = pool.extend heap_machine (ob.fields False NULL)"

lemma ob_start:
  obtains m :: ob where "pool_inv 8192 14728 73728 Map.empty m" "string_at (beyond 8192 73728) (mem m) 128 [97]" "pool_lock m = 0"
proof -
  have p: "al8 8192" "(8192 :: addr) \<noteq> NULL" by (simp_all add: al8_def)
  have len: "6576 \<le> unat (65536 :: u64)" "unat (65536 :: u64) < 4294973848"
    "unat (8192 :: addr) + unat (65536 :: u64) < 18446744073709551616" by simp_all
  obtain M c S F where h: "tlsf_create_with_pool [] [] 8192 65536 ob_machine = Some (8192, ob_machine\<lparr>mem := M, control := c\<rparr>)"
    "heap 8192 (unat (8192 :: addr) + 6536) (unat (8192 :: addr) + 6552 + (unat (65536 :: u64) - 6552) div 8 * 8) (words M) c S F"
    "live S F = Map.empty" "F = {8192 + 6528}" "unat (the (S (8192 + 6528))) = (unat (65536 :: u64) - 6552) div 8 * 8"
    by (rule create_with_pool_ok [OF p len])
  let ?m = "ob_machine\<lparr>mem := M, control := c, tlsf_ctx := 8192\<rparr>"
  have l: "pool_lock ?m = 0" by (simp add: ob_machine_def pool.defs heap_machine_def)
  have i: "pool_inv 8192 14728 73728 Map.empty ?m"
    using h(2,3) l by (auto simp: pool_inv_def heap_inv_def)
  let ?M = "M(128 := 97, 129 := 0)"
  have b: "128 \<in> beyond 8192 73728" "129 \<in> beyond 8192 73728" by (simp_all add: beyond_def)
  have "pool_inv 8192 14728 73728 Map.empty (?m\<lparr>mem := ?M\<rparr>)"
    by (rule pool.payload_write [OF i]) (use b in auto)
  moreover have "string_at (beyond 8192 73728) ?M 128 [97]"
    using b by (auto simp: string_at_def le_Suc_eq)
  ultimately show ?thesis using l by (intro that [of "?m\<lparr>mem := ?M\<rparr>"]) simp_all
qed

lemma string_readable: "string_at A M a cs \<Longrightarrow> string_at (readable U A) M a cs"
  by (simp add: string_at_def readable_def)

text \<open>The pool of the example is not exhausted, so the node is created.\<close>

lemma ob_start_room:
  assumes "pool_inv 8192 14728 73728 Map.empty m"
  shows "\<not> exhausted 8192 14728 73728 sizeof_knode m"
proof -
  obtain S F where h: "heap 8192 14728 73728 (words (mem m)) (control m) S F" and l: "live S F = Map.empty"
    using assms unfolding pool_inv_def heap_inv_def by blast
  have "\<forall>b \<in> F. nxt S b \<notin> F" using heapD(2) [OF h] by blast
  moreover have "(14728 :: nat) + 16 < 73728" by simp
  ultimately obtain b s where b: "b \<in> F" "S b = Some s" "unat s = 73728 - 14728 - 16" by (rule all_free [OF heapD(1) [OF h] _ l])
  have r: "rounded sizeof_knode = 72" by (simp add: rounded_def sizeof_knode_def)
  have "\<not> 32 * unat (the (S b)) < 33 * rounded sizeof_knode" using b(2,3) r by simp
  then show ?thesis using h b(1) r unfolding exhausted_def by auto
qed

lemma ob_knode_new_creates_witness:
  "\<exists>m :: ob. \<exists>m' k s. pool_inv 8192 14728 73728 Map.empty m \<and> cstr (mem m) 128 [97] \<and>
    ob_knode_new 128 K_CLKDEV True m = Some (Inr k, m') \<and> k \<noteq> NULL \<and> pool_inv 8192 14728 73728 [k \<mapsto> s] m' \<and>
    knode_at [k \<mapsto> s] (mem m') k [97] K_CLKDEV"
proof -
  obtain m :: ob where m: "pool_inv 8192 14728 73728 Map.empty m" "string_at (beyond 8192 73728) (mem m) 128 [97]"
    by (rule ob_start)
  have n: "(128 :: addr) \<noteq> NULL" by simp
  have "length [97 :: u8] < 31" by simp
  with ob_knode_new_creates [OF m(1) n string_readable [OF m(2)], of K_CLKDEV] ob_start_room [OF m(1)] m show ?thesis
    unfolding string_at_def by metis
qed

lemma ob_dir_new_creates_witness:
  "\<exists>m :: ob. \<exists>r m'. pool_inv 8192 14728 73728 Map.empty m \<and> cstr (mem m) 128 [97] \<and>
    ob_dir_new 128 True m = Some (r, m') \<and>
    (r = Inl (- ENOMEM) \<and> pool_inv 8192 14728 73728 Map.empty m' \<or>
     (\<exists>d h s t. r = Inr d \<and> d \<noteq> h \<and> pool_inv 8192 14728 73728 [d \<mapsto> s, h \<mapsto> t] m' \<and> dir_at [d \<mapsto> s, h \<mapsto> t] (mem m') d [97] []))"
proof -
  obtain m :: ob where m: "pool_inv 8192 14728 73728 Map.empty m" "string_at (beyond 8192 73728) (mem m) 128 [97]"
    by (rule ob_start)
  have n: "(128 :: addr) \<noteq> NULL" by simp
  have "length [97 :: u8] < 31" by simp
  from ob_dir_new_creates [OF m(1) n string_readable [OF m(2)] this] m show ?thesis
    unfolding string_at_def by metis
qed

text \<open>
  A directory at 16392 with its list at 16480, a node named \<^verbatim>\<open>a\<close> at 16528, in a heap with nothing
  free; the string \<^verbatim>\<open>a\<close> is also at 128.
\<close>

definition dir_witness :: ob where
  "dir_witness = ob_machine\<lparr>mem := (\<lambda>_. 0)(128 := 97, 16384 := 80, 16472 := 40, 16520 := 80, 16392 := 47, 16424 := 1,
       16432 := 96, 16433 := 64, 16488 := 96, 16489 := 64, 16528 := 97, 16560 := 2),
     control := \<lparr>fl_bitmap = 0, sl_bitmap = (\<lambda>i. 0), blocks = (\<lambda>i j. 8192)\<rparr>, tlsf_ctx := 8192\<rparr>"

lemma load_n_numeral:
  "load_n (numeral k) M a = ucast (M a) OR push_bit 8 (load_n (pred_numeral k) M (a + 1))"
  "load_n (Suc 0) M a = ucast (M a)"
  by (simp_all add: numeral_eq_Suc)

lemma dir_witness_blocks:
  defines "S \<equiv> [16376 \<mapsto> 80, 16464 \<mapsto> 40, 16512 \<mapsto> 80, 16600 \<mapsto> 0] :: sizes"
  shows "geom 16384 16616 S" "headers (words (mem dir_witness)) S {}"
    "live S {} = [16392 \<mapsto> 80, 16480 \<mapsto> 40, 16528 \<mapsto> 80]"
proof -
  have c: "b \<in> {16376, 16464, 16512, 16600}" if "S b = Some s" for b s
    using that by (auto simp: S_def split: if_splits)
  have n: "nxt S 16376 = 16464" "nxt S 16464 = 16512" "nxt S 16512 = 16600" by (simp_all add: S_def nxt_def)
  show "geom 16384 16616 S"
  proof (rule geomI)
    show "al8 b \<and> al8 s \<and> 16384 \<le> unat b + 8 \<and> unat b + 16 + unat s \<le> 16616" if "S b = Some s" for b s
      using c [OF that] that by (auto simp: S_def al8_def)
    show "24 \<le> unat s \<and> unat b + 24 + unat s \<le> 16616 \<and> nxt S b \<in> dom S" if "S b = Some s" "s \<noteq> 0" for b s
      using c [OF that(1)] that n by (auto simp: S_def)
    show "unat b + 8 + unat s \<le> unat e" if "S b = Some s" "S e = Some t" "unat b < unat e" for b e s t
      using c [OF that(1)] c [OF that(2)] that by (auto simp: S_def)
    show "\<exists>b s. S b = Some s \<and> unat b + 8 = 16384" by (rule exI [of _ 16376]) (simp add: S_def)
    show "unat b + 16 = 16616" if "S b = Some 0" for b using c [OF that] that by (auto simp: S_def)
  qed simp_all
  have w: "words (mem dir_witness) 16384 = 80" "words (mem dir_witness) 16472 = 40" "words (mem dir_witness) 16520 = 80"
    "words (mem dir_witness) 16608 = 0"
    by (simp_all add: words_def al8_def load64_def dir_witness_def load_n_numeral)
  show "headers (words (mem dir_witness)) S {}"
    unfolding headers_def
  proof (intro conjI allI impI ballI)
    show "words (mem dir_witness) (b + 8) = tag s (b \<in> {}) (b \<in> nxt S ` {})" if "S b = Some s" for b s
      using c [OF that] that w by (auto simp: S_def tag_def)
  qed simp_all
  show "live S {} = [16392 \<mapsto> 80, 16480 \<mapsto> 40, 16528 \<mapsto> 80]"
    by (rule live_eqI) (auto simp: S_def eq_diff_eq [symmetric] split: if_splits)
qed

lemma dir_witness_pool: "pool_inv 8192 16384 16616 [16392 \<mapsto> 80, 16480 \<mapsto> 40, 16528 \<mapsto> 80] dir_witness"
proof -
  let ?S = "[16376 \<mapsto> 80, 16464 \<mapsto> 40, 16512 \<mapsto> 80, 16600 \<mapsto> 0] :: sizes"
  note b = dir_witness_blocks
  have k: "size_classes ?S {} = Map.empty" by (auto simp: size_classes_def)
  have "free_lists (words (mem dir_witness)) 8192 (control dir_witness) Map.empty"
    using free_lists_empty [of 8192 "words (mem dir_witness)"] by (simp add: dir_witness_def al8_def)
  then have "heap 8192 16384 16616 (words (mem dir_witness)) (control dir_witness) ?S {}"
    using b(1,2) unfolding heap_def heap_at_def k by simp
  moreover have "pool_lock dir_witness = 0" "tlsf_ctx dir_witness = 8192"
    by (simp_all add: dir_witness_def ob_machine_def pool.defs heap_machine_def)
  ultimately show ?thesis using b(3) unfolding pool_inv_def heap_inv_def by blast
qed

lemma ob_directory_witness:
  "\<exists>m'. ob_dir_append (\<lambda>_. NULL) 16528 16392 dir_witness = Some (0, m') \<and>
    dir_at [16392 \<mapsto> 80, 16480 \<mapsto> 40, 16528 \<mapsto> 80] (mem m') 16392 [47] [16528] \<and>
    knode_subdir_find 16392 128 True m' = Some (Inr 16528)"
proof -
  let ?U = "[16392 \<mapsto> 80, 16480 \<mapsto> 40, 16528 \<mapsto> 80] :: addr \<rightharpoonup> u64"
  note eval = load64_def load32_def dir_witness_def load_n_numeral
  have data: "kn_data (mem dir_witness) 16392 = 16480" by (simp add: kn_data_def eval push_bit_eq_mult)
  have d: "knode_at ?U (mem dir_witness) 16392 [47] K_DIR" "knode_at ?U (mem dir_witness) 16528 [97] K_CLKDEV"
    by (simp_all add: knode_at_def kn_type_def eval)
  have t: "tailq dir_link (mem dir_witness) 16480 []"
    by (simp add: tailq_def q_sep_def al8_def tq_head_defs eval push_bit_eq_mult)
  have dir: "dir_at ?U (mem dir_witness) 16392 [47] []"
    unfolding dir_at_def data using d(1) t by (simp add: dir_entry_count_def eval)
  have s: "string_at (beyond 8192 16616) (mem dir_witness) 128 [97]"
    by (auto simp: string_at_def le_Suc_eq beyond_def dir_witness_def)
  show ?thesis
    using ob_directory [OF dir_witness_pool dir _ d(2) _ _ _ _ _ s, of "\<lambda>_. []" "\<lambda>_. NULL"] data by auto
qed

end
