(* ===== verification/Hive_Realloc.thy ===== *)
theory Hive_Realloc
  imports Hive_Heap_Spec
begin

text \<open>
  Resizing in \<^verbatim>\<open>mm/tlsf.c\<close>: \<^verbatim>\<open>tlsf_realloc\<close> shrinks a block, grows it into the free block behind it, or
  moves it, and keeps the heap invariant and what the blocks hold. A request above the largest size
  is where it goes wrong.
\<close>

section \<open>Shrinking\<close>

lemma trim_used_ok:
  assumes h: "heap ctl lo hi (words (mem m)) (control m) S F" and b: "b \<notin> F" "S b = Some s"
    and q: "al8 q" "24 \<le> unat q" "unat q \<le> unat s"
  obtains M c S' F' t where "block_trim_used ctl b q m = Some (m\<lparr>mem := M, control := c\<rparr>)" "heap ctl lo hi (words M) c S' F'"
    "live S' F' = (live S F)(b + 16 \<mapsto> t)" "unat q \<le> unat t" "unat t \<le> unat s"
    "agree (payload ((live S F)(b + 16 \<mapsto> t)) \<union> beyond ctl hi) (mem m) M"
proof -
  note at = heapD(1) [OF h] and co = heapD(2) [OF h]
  note g = heap_atD(2) [OF at] and hd = heap_atD(3) [OF at]
  have s: "s \<noteq> 0" using q by auto
  have used: "\<not> block_is_free (mem m) b" using header_reads(2) [OF g hd b(2)] b(1) by simp
  have split: "block_can_split (mem m) b q \<longleftrightarrow> unat q + 32 \<le> unat s"
    using can_split [OF g hd b(2)] geom_block(11) [OF g b(2)] q(3) by simp
  show ?thesis
  proof (cases "unat q + 32 \<le> unat s")
    case False
    then have "block_trim_used ctl b q m = Some (m\<lparr>mem := mem m, control := control m\<rparr>)"
      using used split by (simp add: block_trim_used_def tlsf_assert_def)
    moreover have "(live S F)(b + 16 \<mapsto> s) = live S F" using b s by (auto simp: fun_eq_iff live_def)
    ultimately show ?thesis using that [of "control m" "mem m" S F s] h q(3) by simp
  next
    case True
    let ?r = "b + 8 + q" and ?rs = "s - (q + 8)"
    let ?S = "S(b \<mapsto> q, ?r \<mapsto> ?rs)" and ?G = "insert (b + 8 + q) F"
    note gs = geom_split [OF g b(2) q(1,2) True]
    have bK: "b \<notin> dom (size_classes S F)" using b(1) by simp
    obtain M1 where m1: "block_split b q (mem m) = Some (?r, M1)"
      "heap_at ctl lo hi (words (block_set_prev_used ?r M1)) (control m) ?S ?G (size_classes S F)"
      "within (meta ctl ?S ?G) (words (mem m)) (words (block_set_prev_used ?r M1))"
      using heap_split [OF at b(2) bK q(1,2) True] b(1) by metis
    let ?m1 = "m\<lparr>mem := block_set_prev_used ?r M1\<rparr>"
    have rF: "?r \<notin> F" using gs(1) headersD(1) [OF hd, of ?r] by auto
    have rb: "?r \<noteq> b" using gs(1) b(2) by (metis option.distinct(1))
    have K: "size_classes S F = (size_classes ?S ?G)(?r := None)"
      using rF b(1) by (auto simp: size_classes_def fun_eq_iff simp del: add_left_cancel)
    have "nxt ?S x \<notin> ?G" if x: "x \<in> F" for x
    proof -
      obtain v where v: "S x = Some v" "v \<noteq> 0" using headersD(1) [OF hd x] by blast
      have "nxt S x \<noteq> ?r" using geom_real(3) [OF g v] gs(1) by fastforce
      moreover have "x \<noteq> b" "x \<noteq> ?r" using x b(1) rF by auto
      ultimately show ?thesis using co [OF x] by (simp add: gs(6))
    qed
    then have but: "heap_but ctl lo hi (words (mem ?m1)) (control ?m1) ?S ?G ?r"
      using m1(2) K unfolding heap_but_def by auto
    obtain M2 c2 S2 F2 where m2: "block_merge_next ctl ?r ?m1 = Some (?r, ?m1\<lparr>mem := M2, control := c2\<rparr>)"
      "heap_but ctl lo hi (words M2) c2 S2 F2 ?r" "nxt S2 ?r \<notin> F2" "live S2 F2 = live ?S ?G"
      "within (meta ctl ?S ?G) (words (mem ?m1)) (words M2)" "meta ctl S2 F2 \<subseteq> meta ctl ?S ?G"
      by (rule merge_next_ok [OF but])
    let ?m2 = "m\<lparr>mem := M2, control := c2\<rparr>"
    have "heap_but ctl lo hi (words (mem ?m2)) (control ?m2) S2 F2 ?r" using m2(2) by simp
    from insert_last_ok [OF this m2(3)] obtain M c where i: "block_insert ctl ?r ?m2 = Some (?m2\<lparr>mem := M, control := c\<rparr>)"
      "heap ctl lo hi (words M) c S2 F2" "within (meta ctl S2 F2) (words (mem ?m2)) (words M)" by metis
    have l: "live ?S ?G = (live S F)(b + 16 \<mapsto> q)"
      by (rule live_eqI) (use b(1) rF rb gs(1) q live_real in \<open>auto simp: live_Some\<close>)
    have wi: "within (meta ctl ?S ?G) (words (mem m)) (words M)"
      using within_trans [OF m1(3) within_trans [OF _ within_mono [OF i(3) m2(6)]]] m2(5) by simp
    have "agree (payload (live ?S ?G) \<union> beyond ctl hi) (mem m) M"
      by (rule untouched_live [OF m1(2) wi])
    moreover have "block_trim_used ctl b q m = Some (m\<lparr>mem := M, control := c\<rparr>)"
      using used split True m1(1) m2(1) i(1) by (simp add: block_trim_used_def tlsf_assert_def on_mem_def)
    ultimately show ?thesis using that i(2) m2(4) l q(3) by simp
  qed
qed

section \<open>Growing into the block behind\<close>

lemma grow_ok:
  assumes h: "heap ctl lo hi (words (mem m)) (control m) S F" and b: "b \<notin> F" "S b = Some s" "s \<noteq> 0"
    and e: "nxt S b \<in> F" "S (nxt S b) = Some t"
  obtains M1 c M where "block_merge_next ctl b m = Some (b, m\<lparr>mem := M1, control := c\<rparr>)" "block_mark_as_used b M1 = Some M"
    "heap ctl lo hi (words M) c (S(b \<mapsto> s + (t + 8), nxt S b := None)) (F - {nxt S b})"
    "live (S(b \<mapsto> s + (t + 8), nxt S b := None)) (F - {nxt S b}) = (live S F)(b + 16 \<mapsto> s + (t + 8))"
    "unat (s + (t + 8)) = unat s + unat t + 8" "agree (payload (live S F) \<union> beyond ctl hi) (mem m) M"
proof -
  note at = heapD(1) [OF h] and co = heapD(2) [OF h]
  note g = heap_atD(2) [OF at] and hd = heap_atD(3) [OF at]
  let ?e = "nxt S b"
  let ?S = "S(b \<mapsto> s + (t + 8), ?e := None)"
  have t: "t \<noteq> 0" using headersD(1) [OF hd e(1)] e(2) by auto
  have eb: "?e \<noteq> b" "?e \<noteq> 0" using e(1) b(1) geom_block(7) [OF g e(2)] by auto
  note gj = geom_join [OF g b(2,3) e(2) t]
  have "size_classes S F ?e = Some (mapping_insert (the (S ?e)))" using e(1) by (simp add: size_classes_def)
  from block_remove_ok [OF at this] obtain M0 c where r: "block_remove ctl ?e m = Some (m\<lparr>mem := M0, control := c\<rparr>)"
    "heap_at ctl lo hi (words M0) c S F ((size_classes S F)(?e := None))" "within (meta ctl S F) (words (mem m)) (words M0)" by metis
  note hd0 = heap_atD(3) [OF r(2)]
  obtain M1 where a: "block_absorb b ?e M0 = Some (b, M1)" "block_next M1 b = Some (nxt S ?e)"
    "words M1 = (words M0)(b + 8 := words M0 (b + 8) + (t + 8), nxt S ?e := b)"
    by (rule block_absorb_words [OF g hd0 b(2,3) refl e(2) t])
  let ?M = "block_set_used b (block_set_prev_used (nxt S ?e) M1)"
  let ?w = "(words M0)(b + 8 := words M0 (b + 8) + (t + 8), nxt S ?e := b, nxt S ?e + 8 := words M0 (nxt S ?e + 8) AND NOT 2)"
  have al: "al8 b" "al8 (nxt S ?e)" "al8 (t + 8)" "al8 s" using geom_block [OF g b(2)] geom_block [OF g e(2)] by simp_all
  have w: "words ?M = ?w"
  proof -
    have "words M0 (b + 8) + (t + 8) = tag (s + (t + 8)) False (b \<in> nxt S ` F)"
      using headersD(2) [OF hd0 b(2)] b(1) tag_bits(9) [OF al(4,3)] by simp
    then have "(words M0 (b + 8) + (t + 8)) AND NOT 1 = words M0 (b + 8) + (t + 8)"
      using tag_bits(6) [OF al8_add [OF al(4,3)]] by simp
    moreover have "nxt S ?e \<noteq> b + 8" using fields_apart(1) [OF g e(2) b(2) t] .
    moreover have "nxt S ?e \<noteq> b" using gj(3) geom_block(8) [OF g e(2)] geom_block(8) [OF g b(2)] by auto
    ultimately show ?thesis
      using al by (auto simp: block_set_used_def block_set_prev_used_def size_field_def words_load a(3) fun_eq_iff)
  qed
  have "block_merge_next ctl b m = Some (b, m\<lparr>mem := M1, control := c\<rparr>)"
    using header_reads(4,5) [OF g hd b(2)] b(3) eb(2) header_reads(2) [OF g hd e(2)] e(1) r(1) a(1)
    by (simp add: block_merge_next_def tlsf_assert_def on_mem_def)
  moreover have "block_mark_as_used b M1 = Some ?M" using a(2) by (simp add: block_mark_as_used_def)
  moreover have "heap ctl lo hi (words ?M) c ?S (F - {?e})"
  proof -
    have "headers ?w ?S (F - {?e})" by (rule headers_join_used [OF g hd0 b e(1) refl e(2)])
    moreover obtain v where v: "S (nxt S ?e) = Some v" using geom_real(3) [OF g e(2) t] by blast
    have "within (header_words S) (words M0) ?w"
      using in_header_words(1) [of S b, OF b(2)] in_header_words(2) [of S ?e, OF e(2)] in_header_words(1) [of S "nxt S ?e", OF v]
      by (intro within_upd) simp_all
    then have "free_lists ?w ctl c ((size_classes S F)(?e := None))"
      by (rule links_after_header_writes [OF heap_atD(4) [OF r(2)] g, rotated])
        (use heap_atD(5) [OF r(2)] headersD(1) [OF hd] in blast)
    moreover have "(size_classes S F)(?e := None) = size_classes ?S (F - {?e})"
      using b(1) by (auto simp: size_classes_def fun_eq_iff)
    moreover have "nxt ?S x \<notin> F - {?e}" if "x \<in> F - {?e}" for x
      using gj(2) [of x] co [of x] that b(1) by auto
    ultimately show ?thesis
      using heap_atD(1) [OF at] gj(1) unfolding w heap_def heap_at_def by auto
  qed
  moreover have "live ?S (F - {?e}) = (live S F)(b + 16 \<mapsto> s + (t + 8))"
  proof (rule live_eqI)
    have "s + (t + 8) \<noteq> 0" using gj(3) by auto
    then show "((live S F)(b + 16 \<mapsto> s + (t + 8))) p \<noteq> Some 0" for p using live_real by auto
    show "x \<notin> F - {?e} \<and> ?S x = Some u \<longleftrightarrow> ((live S F)(b + 16 \<mapsto> s + (t + 8))) (x + 16) = Some u" if "u \<noteq> 0" for x u
      using that b e eb by (auto simp: live_Some)
  qed
  moreover have "agree (payload (live S F) \<union> beyond ctl hi) (mem m) ?M"
  proof -
    obtain v where v: "S (nxt S ?e) = Some v" using geom_real(3) [OF g e(2) t] by blast
    have "within (meta ctl S F) (words M0) (words ?M)"
      unfolding w using in_meta(3) [where S = S and b = b, OF b(2)] in_meta(4) [OF e(1) own_fields(2) [OF g e(2)]]
        in_meta(3) [where S = S and b = "nxt S ?e", OF v]
      by (intro within_upd) simp_all
    then show ?thesis by (rule untouched_live [OF at within_trans [OF r(3)]])
  qed
  ultimately show ?thesis using that gj(3) by metis
qed


section \<open>realloc\<close>

text \<open>What realloc promises of the block \<open>q\<close> it returns for the block \<open>p\<close> of \<open>s\<close> bytes.\<close>

definition resized :: "addr \<Rightarrow> nat \<Rightarrow> nat \<Rightarrow> (addr \<rightharpoonup> u64) \<Rightarrow> addr \<Rightarrow> u64 \<Rightarrow> u64 \<Rightarrow> addr \<Rightarrow> 'a tlsf_scheme \<Rightarrow> 'b tlsf_scheme \<Rightarrow> bool" where
  "resized ctl lo hi U p s sz q m m' \<longleftrightarrow> q \<noteq> NULL \<and> (q = p \<or> U q = None) \<and>
     (\<exists>t. rounded sz \<le> unat t \<and> heap_inv ctl lo hi (U(p := None, q \<mapsto> t)) m') \<and>
     (\<forall>k < min (unat s) (unat sz). mem m' (q + of_nat k) = mem m (p + of_nat k)) \<and>
     agree (payload (U(p := None)) \<union> beyond ctl hi) (mem m) (mem m')"

lemma payload_resize: "x \<in> payload (U(p := None)) \<Longrightarrow> x \<in> payload (U(p \<mapsto> t))" "x \<in> payload (U(p := None)) \<Longrightarrow> x \<in> payload U"
  by (auto simp: payload_def split: if_splits)

lemma payload_fresh:
  assumes "x \<in> payload U" "U q = None"
  shows "x \<in> payload (U(q \<mapsto> t))"
proof -
  obtain p s where p: "U p = Some s" "unat (x - p) < unat s" using assms(1) unfolding payload_def by blast
  then have "(U(q \<mapsto> t)) p = Some s" using assms(2) by (cases "p = q") simp_all
  then show ?thesis using p(2) unfolding payload_def by blast
qed

lemma resized_in_place:
  assumes h: "heap_inv ctl lo hi U m" and p: "U p = Some s" and m': "heap_inv ctl lo hi (U(p \<mapsto> t)) m'" "rounded sz \<le> unat t" "unat sz \<le> unat t"
    and a: "agree (payload U \<union> beyond ctl hi) (mem m) M1" "agree (payload (U(p \<mapsto> t)) \<union> beyond ctl hi) M1 (mem m')"
  shows "resized ctl lo hi U p s sz p m m'"
proof -
  have "mem m' (p + of_nat k) = mem m (p + of_nat k)" if "k < min (unat s) (unat sz)" for k
    using a payload_byte [where U = U and p = p and s = s, OF p, of k] payload_byte [of "U(p \<mapsto> t)" p t k] that m'(3) unfolding agree_def by auto
  moreover have "agree (payload (U(p := None)) \<union> beyond ctl hi) (mem m) (mem m')"
    using a payload_resize [of _ U p] unfolding agree_def by auto
  ultimately show ?thesis using heap_inv_block(1) [OF h p] m' unfolding resized_def by auto
qed

lemma memcpy_disjoint:
  assumes "q \<noteq> NULL" "p \<noteq> NULL" "unat n \<le> unat s" "unat n \<le> unat t" "unat n < 9223372036854775808"
    and "unat p + unat s < 18446744073709551616" "unat q + unat t < 18446744073709551616"
    and "unat p + unat s \<le> unat q \<or> unat q + unat t \<le> unat p"
  shows "snd (memcpy M q p n) x = (if unat (x - q) < unat n then M (p + (x - q)) else M x)"
proof (rule memcpy_apply(2))
  have "unat n \<le> unat (p - q) \<and> unat n \<le> unat (q - p)"
    using assms(3-8) by (cases "unat q \<le> unat p") (auto simp: unat_sub_if')
  then show "apart q (unat n) p (unat n)" by (simp add: apart_def)
qed (use assms in auto)

lemma copied:
  assumes h: "heap_inv ctl lo hi U m" and U: "U p = Some s" "U q = Some t" "p \<noteq> q" and n: "unat n \<le> unat s" "unat n \<le> unat t" "unat s < 4294967296"
  defines "m' \<equiv> m\<lparr>mem := snd (memcpy (mem m) q p n)\<rparr>"
  shows "heap_inv ctl lo hi U m'" "k < unat n \<Longrightarrow> mem m' (q + of_nat k) = mem m (p + of_nat k)"
    "agree (payload (U(q := None)) \<union> beyond ctl hi) (mem m) (mem m')"
proof -
  note bp = heap_inv_block [OF h U(1)] and bq = heap_inv_block [OF h U(2)]
  have c: "snd (memcpy (mem m) q p n) x = (if unat (x - q) < unat n then mem m (p + (x - q)) else mem m x)" for x
    by (rule memcpy_disjoint) (use bp bq n heap_inv_separate [OF h U] in auto)
  show "k < unat n \<Longrightarrow> mem m' (q + of_nat k) = mem m (p + of_nat k)"
    using unat64_lt [of n] by (simp add: m'_def c unat_of_nat64)
  have off: "mem m' x = mem m x" if "\<not> unat (x - q) < unat t" for x
    using that n(2) by (simp add: m'_def c)
  show "heap_inv ctl lo hi U m'"
    unfolding m'_def using U(2) off by (intro heap_inv_write [OF h]) (auto simp: payload_def m'_def)
  have "\<not> unat (x - q) < unat t" if xp: "x \<in> payload (U(q := None)) \<union> beyond ctl hi" for x
  proof
    assume x: "unat (x - q) < unat t"
    then have xr: "unat q \<le> unat x \<and> unat x < unat q + unat t" using offset_range [of q t x] bq by blast
    have "x \<notin> beyond ctl hi" using heap_inv_inside [OF h] x U(2) unfolding payload_def by blast
    then obtain r u where r: "U r = Some u" "r \<noteq> q" "unat (x - r) < unat u" using xp by (auto simp: payload_def split: if_splits)
    have "unat r \<le> unat x \<and> unat x < unat r + unat u" using offset_range [of r u x] heap_inv_block [OF h r(1)] r(3) by blast
    then show False using heap_inv_separate [OF h r(1) U(2) r(2)] xr by auto
  qed
  then show "agree (payload (U(q := None)) \<union> beyond ctl hi) (mem m) (mem m')" using off unfolding agree_def by blast
qed


text \<open>
  What realloc does, by what it reads of the block and of the one behind it: it moves the block, or
  it grows the block into the one behind, or that is not needed; the rest is given back.
\<close>

lemma realloc_cases:
  assumes h: "heap ctl lo hi (words (mem m)) (control m) S F" and p: "live S F p = Some s" and sz: "sz \<noteq> 0" "unat sz + 8 \<le> 18446744073709551616"
    and t: "S (nxt S (p - 16)) = Some t"
  shows "unat s < rounded sz \<Longrightarrow> nxt S (p - 16) \<notin> F \<or> unat s + unat t + 8 < rounded sz \<Longrightarrow> tlsf_malloc ctl sz m = Some (NULL, m1) \<Longrightarrow>
      tlsf_realloc ctl p sz m = Some (NULL, m1)"
    "unat s < rounded sz \<Longrightarrow> nxt S (p - 16) \<notin> F \<or> unat s + unat t + 8 < rounded sz \<Longrightarrow> tlsf_malloc ctl sz m = Some (q, m1) \<Longrightarrow> q \<noteq> NULL \<Longrightarrow>
      tlsf_free ctl p (m1\<lparr>mem := snd (memcpy (mem m1) q p (min s sz))\<rparr>) = Some m' \<Longrightarrow> tlsf_realloc ctl p sz m = Some (q, m')"
    "unat s < rounded sz \<Longrightarrow> nxt S (p - 16) \<in> F \<Longrightarrow> rounded sz \<le> unat s + unat t + 8 \<Longrightarrow>
      block_merge_next ctl (p - 16) m = Some (b, m1) \<Longrightarrow> on_mem0 (block_mark_as_used (p - 16)) m1 = Some m2 \<Longrightarrow>
      block_trim_used ctl (p - 16) (of_nat (rounded sz)) m2 = Some m' \<Longrightarrow> tlsf_realloc ctl p sz m = Some (p, m')"
    "rounded sz \<le> unat s \<Longrightarrow> block_trim_used ctl (p - 16) (of_nat (rounded sz)) m = Some m' \<Longrightarrow> tlsf_realloc ctl p sz m = Some (p, m')"
proof -
  let ?b = "p - 16"
  note at = heapD(1) [OF h]
  note g = heap_atD(2) [OF at] and hd = heap_atD(3) [OF at]
  have b: "?b \<notin> F" "S ?b = Some s" "s \<noteq> 0" using p by (simp_all add: live_Some)
  have p0: "p \<noteq> NULL" using live_block(4) [OF g p] by auto
  have u: "unat (s + t + 8) = unat s + unat t + 8"
  proof (cases "t = 0")
    case True
    then show ?thesis using geom_block(4,5) [OF g b(2)] by (simp add: unat_add64)
  next
    case False
    from geom_join(3) [OF g b(2,3) t False] show ?thesis by (simp add: algebra_simps)
  qed
  note a = adjust_rounded [OF sz(2)]
  have lt: "s < of_nat (rounded sz) \<longleftrightarrow> unat s < rounded sz" "s + t + 8 < of_nat (rounded sz) \<longleftrightarrow> unat s + unat t + 8 < rounded sz"
    by (simp_all only: word_less_nat_alt a(2) u)
  note reads = header_reads(1,2,5) [OF g hd b(2)] header_reads(1,2) [OF g hd t]
  note run = tlsf_realloc_def block_from_ptr_def tlsf_assert_def Let_def lt p0 sz(1) b(1,3) reads
  show "tlsf_realloc ctl p sz m = Some (NULL, m1)"
    if "unat s < rounded sz" "nxt S ?b \<notin> F \<or> unat s + unat t + 8 < rounded sz" "tlsf_malloc ctl sz m = Some (NULL, m1)"
    using that a(1) by (simp add: run)
  show "tlsf_realloc ctl p sz m = Some (q, m')"
    if "unat s < rounded sz" "nxt S ?b \<notin> F \<or> unat s + unat t + 8 < rounded sz" "tlsf_malloc ctl sz m = Some (q, m1)" "q \<noteq> NULL"
      "tlsf_free ctl p (m1\<lparr>mem := snd (memcpy (mem m1) q p (min s sz))\<rparr>) = Some m'"
    using that a(1) by (simp add: run)
  show "tlsf_realloc ctl p sz m = Some (p, m')"
    if "unat s < rounded sz" "nxt S ?b \<in> F" "rounded sz \<le> unat s + unat t + 8" "block_merge_next ctl ?b m = Some (b, m1)"
      "on_mem0 (block_mark_as_used ?b) m1 = Some m2" "block_trim_used ctl ?b (of_nat (rounded sz)) m2 = Some m'"
    using that a(1) by (simp add: run)
  show "tlsf_realloc ctl p sz m = Some (p, m')" if "rounded sz \<le> unat s" "block_trim_used ctl ?b (of_nat (rounded sz)) m = Some m'"
    using that a(1) by (simp add: run)
qed

lemma realloc_moves:
  assumes h: "heap ctl lo hi (words (mem m)) (control m) S F" and p: "live S F p = Some s" and sz: "rounded sz \<noteq> 0"
    and a: "tlsf_malloc ctl sz m = Some (q, m1)" "q \<noteq> NULL" "heap ctl lo hi (words (mem m1)) (control m1) S1 F1" "live S F q = None"
      "live S1 F1 = (live S F)(q \<mapsto> t)" "rounded sz \<le> unat t" "agree (payload (live S F) \<union> beyond ctl hi) (mem m) (mem m1)"
  shows "\<exists>m'. tlsf_free ctl p (m1\<lparr>mem := snd (memcpy (mem m1) q p (min s sz))\<rparr>) = Some m' \<and> resized ctl lo hi (live S F) p s sz q m m'"
proof -
  let ?U = "live S F" and ?n = "min s sz"
  let ?m2 = "m1\<lparr>mem := snd (memcpy (mem m1) q p ?n)\<rparr>"
  have U: "(?U(q \<mapsto> t)) p = Some s" "(?U(q \<mapsto> t)) q = Some t" "p \<noteq> q" "?U(q \<mapsto> t, q := None) = ?U" using p a(4) by auto
  have n: "unat ?n = min (unat s) (unat sz)" by (simp add: min_def word_le_nat_alt)
  have "S (p - 16) = Some s" using p by (simp add: live_Some)
  then have s: "unat s < 4294967296" by (rule geom_block(11) [OF heap_atD(2) [OF heapD(1) [OF h]]])
  have nt: "unat ?n \<le> unat s" "unat ?n \<le> unat t" unfolding n using rounded_bounds(4) [OF sz] a(6) by auto
  have h1: "heap_inv ctl lo hi (?U(q \<mapsto> t)) m1" using a(3,5) unfolding heap_inv_def by blast
  note c = copied [OF h1 U(1-3) nt s]
  from heap_inv_free [OF c(1) U(1)] obtain m' where f: "tlsf_free ctl p ?m2 = Some m'" "heap_inv ctl lo hi (?U(q \<mapsto> t, p := None)) m'"
    "agree (payload (?U(q \<mapsto> t, p := None)) \<union> beyond ctl hi) (mem ?m2) (mem m')" by blast
  have tw: "?U(q \<mapsto> t, p := None) = ?U(p := None, q \<mapsto> t)" using U(3) by (simp add: fun_upd_twist)
  have "mem m' (q + of_nat k) = mem m (p + of_nat k)" if k: "k < min (unat s) (unat sz)" for k
  proof -
    have "q + of_nat k \<in> payload (?U(p := None, q \<mapsto> t))" "p + of_nat k \<in> payload ?U"
      using payload_byte [of "?U(p := None, q \<mapsto> t)" q t k] payload_byte [of ?U p s k] k nt(2) n p by auto
    then have "mem m' (q + of_nat k) = mem ?m2 (q + of_nat k)" "mem m1 (p + of_nat k) = mem m (p + of_nat k)"
      using f(3) a(7) unfolding agree_def tw by blast+
    moreover have "mem ?m2 (q + of_nat k) = mem m1 (p + of_nat k)" by (rule c(2)) (use k n in simp)
    ultimately show ?thesis by metis
  qed
  moreover have "agree (payload (?U(p := None)) \<union> beyond ctl hi) (mem m) (mem m')"
  proof -
    have "x \<in> payload (?U(p := None, q \<mapsto> t))" if "x \<in> payload (?U(p := None))" for x
    proof (rule payload_fresh [OF that])
      show "(?U(p := None)) q = None" using a(4) by simp
    qed
    then have in_all: "x \<in> payload ?U \<union> beyond ctl hi" "x \<in> payload (?U(p := None, q \<mapsto> t)) \<union> beyond ctl hi"
      if "x \<in> payload (?U(p := None)) \<union> beyond ctl hi" for x
      using that payload_resize(2) [of x ?U p] by blast+
    show ?thesis
      unfolding agree_def
    proof
      fix x assume "x \<in> payload (?U(p := None)) \<union> beyond ctl hi"
      note x = in_all [OF this]
      have "mem m' x = mem ?m2 x" "mem ?m2 x = mem m1 x" "mem m1 x = mem m x"
        using x f(3) c(3) a(7) unfolding agree_def tw U(4) by blast+
      then show "mem m' x = mem m x" by metis
    qed
  qed
  ultimately show ?thesis using f(1,2) a(2,4,6) unfolding resized_def tw by auto
qed

lemma realloc_ok:
  assumes h: "heap ctl lo hi (words (mem m)) (control m) S F" and p: "live S F p = Some s" and sz: "rounded sz \<noteq> 0"
  shows "(tlsf_realloc ctl p sz m = Some (NULL, m) \<and> unat s < rounded sz \<and> (\<forall>b \<in> F. 32 * unat (the (S b)) < 33 * rounded sz)) \<or>
    (\<exists>q m'. tlsf_realloc ctl p sz m = Some (q, m') \<and> resized ctl lo hi (live S F) p s sz q m m')"
proof -
  let ?U = "live S F" and ?b = "p - 16" and ?q = "of_nat (rounded sz) :: u64"
  note at = heapD(1) [OF h]
  note g = heap_atD(2) [OF at] and hd = heap_atD(3) [OF at]
  have b: "?b \<notin> F" "S ?b = Some s" "s \<noteq> 0" using p by (simp_all add: live_Some)
  have sz0: "sz \<noteq> 0" "unat sz + 8 \<le> 18446744073709551616" using sz by (auto simp: rounded_def split: if_splits)
  note r = rounded_bounds [OF sz] and a = adjust_rounded(2,3) [OF sz0(2)]
  have hi: "heap_inv ctl lo hi ?U m" using h unfolding heap_inv_def by blast
  obtain t where t: "S (nxt S ?b) = Some t" using geom_real(3) [OF g b(2,3)] by blast
  note re = realloc_cases [OF h p sz0 t]
  consider (move) "unat s < rounded sz" "nxt S ?b \<notin> F \<or> unat s + unat t + 8 < rounded sz"
    | (grow) "unat s < rounded sz" "nxt S ?b \<in> F" "rounded sz \<le> unat s + unat t + 8" | (shrink) "rounded sz \<le> unat s"
    by linarith
  then show ?thesis
  proof cases
    case move
    from malloc_granted [OF h sz0(2)] consider "tlsf_malloc ctl sz m = Some (NULL, m)" "\<forall>b \<in> F. 32 * unat (the (S b)) < 33 * rounded sz"
      | q m1 S1 F1 t1 where "tlsf_malloc ctl sz m = Some (q, m1)" "q \<noteq> NULL" "heap ctl lo hi (words (mem m1)) (control m1) S1 F1" "?U q = None"
        "live S1 F1 = ?U(q \<mapsto> t1)" "rounded sz \<le> unat t1" "agree (payload ?U \<union> beyond ctl hi) (mem m) (mem m1)"
      using sz by blast
    then show ?thesis
    proof cases
      case 1
      then show ?thesis using re(1) [OF move] move(1) by blast
    next
      case 2
      then show ?thesis using realloc_moves [OF h p sz 2] re(2) [OF move 2(1,2)] by blast
    qed
  next
    case grow
    obtain M1 c M where gr: "block_merge_next ctl ?b m = Some (?b, m\<lparr>mem := M1, control := c\<rparr>)" "block_mark_as_used ?b M1 = Some M"
      "heap ctl lo hi (words M) c (S(?b \<mapsto> s + (t + 8), nxt S ?b := None)) (F - {nxt S ?b})"
      "live (S(?b \<mapsto> s + (t + 8), nxt S ?b := None)) (F - {nxt S ?b}) = ?U(?b + 16 \<mapsto> s + (t + 8))"
      "unat (s + (t + 8)) = unat s + unat t + 8" "agree (payload ?U \<union> beyond ctl hi) (mem m) M"
      by (rule grow_ok [OF h b grow(2) t])
    let ?m = "m\<lparr>mem := M, control := c\<rparr>"
    have h1: "heap ctl lo hi (words (mem ?m)) (control ?m) (S(?b \<mapsto> s + (t + 8), nxt S ?b := None)) (F - {nxt S ?b})" using gr(3) by simp
    have nb: "nxt S ?b \<noteq> ?b" using grow(2) b(1) by metis
    obtain M2 c2 S2 F2 t2 where tr: "block_trim_used ctl ?b ?q ?m = Some (?m\<lparr>mem := M2, control := c2\<rparr>)" "heap ctl lo hi (words M2) c2 S2 F2"
      "live S2 F2 = (?U(?b + 16 \<mapsto> s + (t + 8)))(?b + 16 \<mapsto> t2)" "unat ?q \<le> unat t2"
      "agree (payload ((?U(?b + 16 \<mapsto> s + (t + 8)))(?b + 16 \<mapsto> t2)) \<union> beyond ctl hi) (mem ?m) M2"
      by (rule trim_used_ok [OF h1 _ _ a(2), of ?b "s + (t + 8)", unfolded gr(4)]) (use b nb a r gr(5) grow(3) in auto)
    let ?m' = "m\<lparr>mem := M2, control := c2\<rparr>"
    have "tlsf_realloc ctl p sz m = Some (p, ?m')"
      by (rule re(3) [OF grow gr(1) _ tr(1) [simplified]]) (simp add: on_mem0_def gr(2))
    moreover have "heap_inv ctl lo hi (?U(p \<mapsto> t2)) ?m'" using tr(2,3) unfolding heap_inv_def by auto
    then have "resized ctl lo hi ?U p s sz p m ?m'"
      using tr(4,5) a(1) r(4) by (intro resized_in_place [OF hi p _ _ _ gr(6), of t2]) simp_all
    ultimately show ?thesis by blast
  next
    case shrink
    obtain M2 c2 S2 F2 t2 where tr: "block_trim_used ctl ?b ?q m = Some (m\<lparr>mem := M2, control := c2\<rparr>)" "heap ctl lo hi (words M2) c2 S2 F2"
      "live S2 F2 = ?U(?b + 16 \<mapsto> t2)" "unat ?q \<le> unat t2" "agree (payload (?U(?b + 16 \<mapsto> t2)) \<union> beyond ctl hi) (mem m) M2"
      by (rule trim_used_ok [OF h b(1,2) a(2)]) (use a r shrink in auto)
    let ?m' = "m\<lparr>mem := M2, control := c2\<rparr>"
    have "tlsf_realloc ctl p sz m = Some (p, ?m')" by (rule re(4) [OF shrink tr(1)])
    moreover have "heap_inv ctl lo hi (?U(p \<mapsto> t2)) ?m'" using tr(2,3) unfolding heap_inv_def by auto
    then have "resized ctl lo hi ?U p s sz p m ?m'"
      using tr(4,5) a(1) r(4) by (intro resized_in_place [OF hi p _ _ _ agree_refl, of t2]) simp_all
    ultimately show ?thesis by blast
  qed
qed

section \<open>A request above the largest size\<close>

text \<open>
  The size of such a request is adjusted to zero, which realloc takes for a small one: it splits the
  block at zero. The block that remains starts inside the header of the block, at \<open>b + 8\<close>.
\<close>

lemma split_at_zero:
  assumes h: "heap_at ctl lo hi (words M) c S F K" and b: "b \<notin> F" "S b = Some s" "32 \<le> unat s"
  obtains M1 where "block_split b 0 M = Some (b + 8, M1)"
    "words (block_set_prev_used (b + 8) M1) = (words M)(b + 16 := tag (s - 8) True False, b + 8 := tag 0 False (b \<in> nxt S ` F),
      nxt S b := b + 8, nxt S b + 8 := words M (nxt S b + 8) OR 2)"
proof -
  note g = heap_atD(2) [OF h] and hd = heap_atD(3) [OF h]
  let ?n = "nxt S b"
  have s: "s \<noteq> 0" using b(3) by auto
  note gb = geom_block [OF g b(2)] and gr = geom_real [OF g b(2) s]
  have al: "al8 b" "al8 ?n" "al8 (s - 8)" "al8 s" using gb by (simp_all add: al8_diff)
  have us: "unat (s - 8) = unat s - 8" using b(3) by (subst unat_sub64) simp_all
  have ne: "?n \<noteq> b + 8" "?n \<noteq> b + 16" "?n \<noteq> b"
    using fields_apart(1,2,6) [OF g b(2,2) s] by metis+
  have e: "8 + b = b + 8" "16 + b = b + 16" "24 + b = b + 24" by simp_all
  let ?x = "(s - 8) OR (words M (b + 16) AND 3)"
  let ?M1 = "store64 M (b + 16) ?x"
  let ?M2 = "store64 ?M1 (b + 8) (tag 0 False (b \<in> nxt S ` F))"
  let ?M5 = "block_set_free (b + 8) (block_set_prev_free ?n (store64 ?M2 ?n (b + 8)))"
  have 1: "block_set_size (b + 8) (s - 8) M = ?M1" using al by (simp add: block_set_size_def size_field_def Let_def words_load e)
  have "load64 ?M1 (b + 8) = tag s False (b \<in> nxt S ` F)"
    using al b(1) header_reads(6) [OF g hd b(2)] by (simp add: words_load)
  then have 2: "block_set_size b 0 ?M1 = ?M2"
    using tag_bits(8) [OF al(4), of 0] by (simp add: block_set_size_def size_field_def Let_def)
  have s1: "block_size ?M1 (b + 8) = s - 8" "block_size ?M2 (b + 8) = s - 8"
    using al junk_bits(1) [OF al(3)] by (simp_all add: block_size_def size_field_def words_load e)
  have s8: "s - 8 \<noteq> 0" using us b(3) by auto
  have "b + 8 + 16 + (s - 8 - 8) = ?n" using b(2) by (simp add: nxt_def)
  then have "block_next ?M2 (b + 8) = Some ?n"
    using s8 by (simp add: block_next_def block_is_last_def s1 tlsf_assert_def offset_to_block_def block_to_ptr_def)
  then have 3: "block_mark_as_free (b + 8) ?M2 = Some ?M5"
    by (simp add: block_mark_as_free_def block_link_next_def)
  have "24 \<le> s - 8" using us b(3) by (simp add: word_le_nat_alt)
  moreover have "align_ptr (b + 8 + 16) 8 = Some (b + 8 + 16)" using al(1) by (intro align_ptr_al8) (simp add: e)
  ultimately have "block_split b 0 M = Some (b + 8, ?M5)"
    using header_reads(1) [OF g hd b(2)] 1 2 3 s1
    by (simp add: block_split_def offset_to_block_def block_to_ptr_def tlsf_assert_def Let_def e)
  moreover have "words (block_set_prev_used (b + 8) ?M5) = (words M)(b + 16 := tag (s - 8) True False, b + 8 := tag 0 False (b \<in> nxt S ` F),
      ?n := b + 8, ?n + 8 := words M (?n + 8) OR 2)"
    using al ne junk_bits(3) [OF al(3), of "words M (b + 16)"]
    by (auto simp: block_set_prev_used_def block_set_free_def block_set_prev_free_def size_field_def words_load fun_eq_iff e)
  ultimately show ?thesis using that by blast
qed

lemma nodes_inside:
  assumes h: "heap_at ctl lo hi w c S F K" and b: "b \<notin> F" "S b = Some s" "32 \<le> unat s"
  shows "nodes ctl (insert (b + 8) (dom K))"
proof -
  note g = heap_atD(2) [OF h] and n = heap_atD(4) [OF h]
  have nk: "nodes ctl (dom K)" using n by (simp add: free_lists_def)
  note gb = geom_block [OF g b(2)]
  have u: "unat (b + 24) = unat b + 24" "unat (b + 32) = unat b + 32"
    using gb(4,5) b(3) by (simp_all add: unat_add64)
  have cu: "unat (ctl + 16) = unat ctl + 16" "unat (ctl + 24) = unat ctl + 24"
    using heap_atD(1) [OF h] gb(3,4,5) by (simp_all add: unat_add64)
  have o: "own S b (b + 24)" "own S b (b + 32)" using u b(2,3) by (simp_all add: own_def)
  have x: "b + 24 \<noteq> x + 24 \<and> x + 16 \<noteq> b + 32" if "x \<in> dom K" for x
  proof -
    have "x \<in> F" using that heap_atD(5) [OF h] by blast
    then obtain t where t: "S x = Some t" "t \<noteq> 0" "x \<noteq> b" using headersD(1) [OF heap_atD(3) [OF h]] b(1) by blast
    show ?thesis
      using own_apart [OF g b(2) t(1) o(1) own_fields(4) [OF g t(1,2)]] own_apart [OF g b(2) t(1) o(2) own_fields(3) [OF g t(1,2)]] t(3) by metis
  qed
  have "unat (b + 24) \<noteq> unat (ctl + 24)" "unat (ctl + 16) \<noteq> unat (b + 32)" "unat (b + 8) \<noteq> unat ctl" "unat (b + 8) \<noteq> 0"
    unfolding u cu gb(9) using heap_atD(1) [OF h] gb(3) by linarith+
  then have c: "b + 24 \<noteq> ctl + 24" "ctl + 16 \<noteq> b + 32" "b + 8 \<noteq> ctl" "b + 8 \<noteq> 0" by (metis, metis, metis, metis unat_0)
  have "b + 8 + 16 = b + 24" "b + 8 + 24 = b + 32" by simp_all
  moreover have "b + 24 \<noteq> b + 32" by simp
  ultimately show ?thesis using nk x c gb(1) unfolding nodes_def by (auto simp del: add_left_cancel add_right_cancel)
qed

text \<open>The words of the header and the first word of a block in use are not links of a list.\<close>

lemma links_off_used:
  assumes h: "heap_at ctl lo hi w c S F K" and b: "b \<notin> F" "S b = Some s" "s \<noteq> 0" and x: "x \<in> insert ctl F"
  shows "b + 8 \<noteq> x + 16" "b + 8 \<noteq> x + 24" "b + 16 \<noteq> x + 16" "b + 16 \<noteq> x + 24"
proof -
  note g = heap_atD(2) [OF h]
  show "b + 8 \<noteq> x + 16" "b + 8 \<noteq> x + 24" using links_off_headers(1) [OF h x b(2)] by blast+
  have "b + 16 \<noteq> x + 16 \<and> b + 16 \<noteq> x + 24"
  proof (cases "x = ctl")
    case True
    have "unat (ctl + 16) = unat ctl + 16" "unat (ctl + 24) = unat ctl + 24"
      using heap_atD(1) [OF h] geom_block(3,4,5) [OF g b(2)] by (simp_all add: unat_add64)
    then have "unat (b + 16) \<noteq> unat (ctl + 16)" "unat (b + 16) \<noteq> unat (ctl + 24)"
      unfolding geom_real(4) [OF g b(2,3)] using heap_atD(1) [OF h] geom_block(3) [OF g b(2)] by linarith+
    then show ?thesis unfolding True by metis
  next
    case False
    then obtain t where t: "S x = Some t" "t \<noteq> 0" using x headersD(1) [OF heap_atD(3) [OF h]] by blast
    have "b \<noteq> x" using x False b(1) by blast
    then show ?thesis
      using own_apart [OF g b(2) t(1) own_fields(3) [OF g b(2,3)]] own_fields(3,4) [OF g t] by metis
  qed
  then show "b + 16 \<noteq> x + 16" "b + 16 \<noteq> x + 24" by blast+
qed

lemma merge_inside:
  assumes h: "heap ctl lo hi (words (mem m)) (control m) S F" and b: "b \<notin> F" "S b = Some s" "32 \<le> unat s"
    and w: "words M = (words (mem m))(b + 16 := tag (s - 8) True False, b + 8 := tag 0 False f, nxt S b := b + 8,
      nxt S b + 8 := words (mem m) (nxt S b + 8) OR 2)"
  obtains M' c' K' u where "block_merge_next ctl (b + 8) (m\<lparr>mem := M\<rparr>) = Some (b + 8, m\<lparr>mem := M', control := c'\<rparr>)"
    "free_lists (words M') ctl c' K'" "dom K' \<subseteq> F" "words M' (b + 8) = tag 0 False f" "words M' (b + 16) = tag u True False"
    "al8 u" "unat u < 4294967296"
proof -
  note at = heapD(1) [OF h]
  note g = heap_atD(2) [OF at] and hd = heap_atD(3) [OF at]
  let ?n = "nxt S b" and ?m = "m\<lparr>mem := M\<rparr>"
  have s: "s \<noteq> 0" using b(3) by auto
  note gb = geom_block [OF g b(2)]
  obtain t where t: "S ?n = Some t" using geom_real(3) [OF g b(2) s] by blast
  note off = links_off_used [OF at b(1,2) s]
  have al: "al8 b" "al8 ?n" "al8 s" "al8 (s - 8)" "al8 t" using gb geom_block(2) [OF g t] by (simp_all add: al8_diff)
  have us: "unat (s - 8) = unat s - 8" using b(3) by (subst unat_sub64) simp_all
  have s8: "s - 8 \<noteq> 0" using us b(3) by auto
  have e: "8 + b = b + 8" "16 + b = b + 16" "24 + b = b + 24" by simp_all
  have ne: "?n \<noteq> b + 8" "?n \<noteq> b + 16" "?n \<noteq> b" "?n + 8 \<noteq> b + 16"
    using fields_apart(1,2,6) [OF g b(2,2) s] fields_apart(3) [OF g b(2) t s] by metis+
  have w16: "words M (b + 16) = tag (s - 8) True False" "words M (b + 8) = tag 0 False f"
    using ne by (simp_all add: w)
  have wn: "words M (?n + 8) = tag t (?n \<in> F) (?n \<in> nxt S ` F) OR 2" using headersD(2) [OF hd t] by (simp add: w)
  then have n: "block_size M ?n = t" "block_is_free M ?n \<longleftrightarrow> ?n \<in> F"
    using al(2) tag_bits(2,5) [OF al(5)] tag_bits_neg(1) [OF al(5)]
    by (simp_all add: block_size_def block_is_free_def size_field_def words_load or_1_2)
  have size: "block_size N (b + 8) = u" if "words N (b + 16) = tag u True False" "al8 u" for N u
    using that al(1) tag_bits_neg(1) [OF that(2)] by (simp add: block_size_def size_field_def words_load or_1_2 e)
  have "b + 8 + 16 + (s - 8 - 8) = ?n" using b(2) by (simp add: nxt_def)
  then have nx: "block_next M (b + 8) = Some ?n"
    using s8 size [OF w16(1) al(4)] by (simp add: block_next_def block_is_last_def tlsf_assert_def offset_to_block_def block_to_ptr_def)
  have n0: "?n \<noteq> 0" using geom_block(7) [OF g t] .
  have f: "free_lists (words M) ctl (control m) (size_classes S F)"
    using heap_atD(4) [OF at]
  proof (rule free_lists_frame)
    fix x assume "x \<in> dom (size_classes S F)"
    then have x: "x \<in> insert ctl F" "x \<in> F" by simp_all
    then obtain v where v: "S x = Some v" "v \<noteq> 0" using headersD(1) [OF hd] by blast
    show "words M (x + 16) = words (mem m) (x + 16) \<and> words M (x + 24) = words (mem m) (x + 24)"
      using off [OF x(1)] fields_apart(6,7) [OF g v(1) b(2) v(2)] fields_apart(3,4) [OF g v(1) t v(2)]
      by (simp add: w del: add_left_cancel add_right_cancel)
  qed
  show ?thesis
  proof (cases "?n \<in> F")
    case False
    then have "block_merge_next ctl (b + 8) ?m = Some (b + 8, m\<lparr>mem := M, control := control m\<rparr>)"
      using nx n n0 by (simp add: block_merge_next_def tlsf_assert_def)
    moreover have "unat (s - 8) < 4294967296" using us gb(11) by simp
    ultimately show ?thesis using that [of "control m" M "size_classes S F" "s - 8"] f w16 al(4) by simp
  next
    case True
    have t0: "t \<noteq> 0" using headersD(1) [OF hd True] t by auto
    obtain i j where ij: "mapping_insert t = (i, j)" by (cases "mapping_insert t")
    have K: "size_classes S F ?n = Some (i, j)" using True t ij by (simp add: size_classes_def)
    have f': "free_lists (words (mem ?m)) ctl (control ?m) (size_classes S F)" using f by simp
    obtain x y M5 c where r: "x \<in> insert ctl (dom (size_classes S F) - {?n})" "y \<in> insert ctl (dom (size_classes S F) - {?n})"
      "remove_free_block ctl ?n i j ?m = Some (?m\<lparr>mem := M5, control := c\<rparr>)"
      "words M5 = (words (mem ?m))(y + 24 := x, x + 16 := y)" "free_lists (words M5) ctl c ((size_classes S F)(?n := None))"
      by (rule remove_free_block_ok [OF f' K])
    have xy: "x \<in> insert ctl F" "y \<in> insert ctl F" using r(1,2) by auto
    note o = off [OF xy(1)] off [OF xy(2)] links_off_headers(1) [OF at xy(1) t] links_off_headers(1) [OF at xy(2) t]
    have w5: "words M5 (b + 16) = tag (s - 8) True False" "words M5 (b + 8) = tag 0 False f" "words M5 (?n + 8) = words M (?n + 8)"
      using o w16 by (simp_all add: r(4) del: add_left_cancel add_right_cancel)
    have st: "unat (s + t) < 4294967296" "al8 (s + t)"
    proof -
      note gj = geom_join [OF g b(2) s t t0]
      have "(S(b \<mapsto> s + (t + 8), ?n := None)) b = Some (s + (t + 8))" using ne(3) by simp
      from geom_block(11) [OF gj(1) this] have lt: "unat s + unat t + 8 < 4294967296" using gj(3) by simp
      then have "unat (s + t) = unat s + unat t" by (intro unat_add64) simp
      then show "unat (s + t) < 4294967296" using lt by simp
      show "al8 (s + t)" using al(3,5) by (rule al8_add)
    qed
    have st0: "s + t \<noteq> 0"
    proof
      assume "s + t = 0"
      then have "unat (s + t) = 0" by simp
      moreover have "unat (s + t) = unat s + unat t" using gb(4,5,8) geom_block(4) [OF g t] by (intro unat_add64) simp
      ultimately show False using b(3) by simp
    qed
    let ?M6 = "store64 (store64 M5 (b + 16) (tag (s + t) True False)) (nxt S ?n) (b + 8)"
    have aln: "al8 (nxt S ?n)" using geom_block(10) [OF g t] .
    have nn: "nxt S ?n \<noteq> b + 8" "nxt S ?n \<noteq> b + 16"
      using fields_apart(1) [OF g t b(2) t0] fields_apart(6) [OF g b(2) t s] by metis+
    have w6: "words ?M6 = (words M5)(b + 16 := tag (s + t) True False, nxt S ?n := b + 8)" using al(1) aln by simp
    have l5: "load64 M5 (b + 16) + (t + 8) = tag (s + t) True False"
    proof -
      have "load64 M5 (b + 16) = tag (s - 8) True False" using w5(1) al(1) by (simp add: words_load)
      then show ?thesis using tag_bits(9) [OF al(4), of "t + 8"] al(5) by simp
    qed
    have b5: "block_size M5 ?n = t"
      using n(1) w5(3) al(2) by (simp add: block_size_def size_field_def words_load)
    have "words (store64 M5 (b + 16) (tag (s + t) True False)) (b + 16) = tag (s + t) True False" using al(1) by simp
    note size6 = size [OF this st(2)]
    have "b + 8 + 16 + (s + t - 8) = nxt S ?n" using t b(2) by (simp add: nxt_def)
    then have "block_next (store64 M5 (b + 16) (tag (s + t) True False)) (b + 8) = Some (nxt S ?n)"
      using st0 size6 by (simp add: block_next_def block_is_last_def tlsf_assert_def offset_to_block_def block_to_ptr_def)
    then have ab: "block_absorb (b + 8) ?n M5 = Some (b + 8, ?M6)"
      using size [OF w5(1) al(4)] s8 b5 l5
      by (simp add: block_absorb_def block_is_last_def tlsf_assert_def block_link_next_def size_field_def e)
    have "block_merge_next ctl (b + 8) ?m = Some (b + 8, m\<lparr>mem := ?M6, control := c\<rparr>)"
      using nx n n0 True size [OF w16(1) al(4)] s8 r(3) ij ab
      by (simp add: block_merge_next_def block_remove_def block_is_last_def tlsf_assert_def on_mem_def)
    moreover have "free_lists (words ?M6) ctl c ((size_classes S F)(?n := None))"
      using r(5)
    proof (rule free_lists_frame)
      fix z assume "z \<in> dom ((size_classes S F)(?n := None))"
      then have z: "z \<in> insert ctl F" "z \<in> F" by auto
      then obtain v where v: "S z = Some v" "v \<noteq> 0" using headersD(1) [OF hd] by blast
      show "words ?M6 (z + 16) = words M5 (z + 16) \<and> words ?M6 (z + 24) = words M5 (z + 24)"
        using off [OF z(1)] fields_apart(6,7) [OF g v(1) t v(2)]
        by (simp add: w6 del: add_left_cancel add_right_cancel)
    qed
    moreover have "words ?M6 (b + 8) = tag 0 False f" "words ?M6 (b + 16) = tag (s + t) True False"
      using nn w5 by (simp_all add: w6)
    ultimately show ?thesis using that st by auto
  qed
qed


lemma trim_at_zero:
  assumes h: "heap ctl lo hi (words (mem m)) (control m) S F" and b: "b \<notin> F" "S b = Some s" "32 \<le> unat s"
  obtains M c K where "block_trim_used ctl b 0 m = Some (m\<lparr>mem := M, control := c\<rparr>)" "free_lists (words M) ctl c K"
    "b + 8 \<in> dom K" "block_size M b = 0" "\<not> block_is_free M b"
proof -
  note at = heapD(1) [OF h]
  note g = heap_atD(2) [OF at] and hd = heap_atD(3) [OF at]
  let ?f = "b \<in> nxt S ` F"
  have s: "s \<noteq> 0" using b(3) by auto
  note al = geom_block(1) [OF g b(2)]
  have e: "b + 8 + 8 = b + 16" "b + 8 + 16 = b + 24" "b + 8 + 24 = b + 32" by simp_all
  obtain M1 where m1: "block_split b 0 (mem m) = Some (b + 8, M1)"
    "words (block_set_prev_used (b + 8) M1) = (words (mem m))(b + 16 := tag (s - 8) True False, b + 8 := tag 0 False ?f,
      nxt S b := b + 8, nxt S b + 8 := words (mem m) (nxt S b + 8) OR 2)"
    by (rule split_at_zero [OF at b])
  obtain M' c' K u where g2: "block_merge_next ctl (b + 8) (m\<lparr>mem := block_set_prev_used (b + 8) M1\<rparr>) = Some (b + 8, m\<lparr>mem := M', control := c'\<rparr>)"
    "free_lists (words M') ctl c' K" "dom K \<subseteq> F" "words M' (b + 8) = tag 0 False ?f" "words M' (b + 16) = tag u True False"
    "al8 u" "unat u < 4294967296"
    by (rule merge_inside [OF h b m1(2)])
  let ?m = "m\<lparr>mem := M', control := c'\<rparr>"
  obtain i j where ij: "mapping_insert u = (i, j)" by (cases "mapping_insert u")
  have ij': "i < FL_INDEX_COUNT" "j < SL_INDEX_COUNT" using mapping_insert_in_class(3,4) [OF ij] g2(7) by simp_all
  have n: "nodes ctl (insert (b + 8) (dom K))"
    by (rule nodes_mono [OF nodes_inside [OF at b]]) (use g2(3) in auto)
  have K: "K (b + 8) = None"
  proof (rule ccontr)
    assume "K (b + 8) \<noteq> None"
    then have "b + 8 \<in> F" using g2(3) by blast
    then obtain v where "S (b + 8) = Some v" using headersD(1) [OF hd] by blast
    from geom_order [OF g b(2) this] show False using b(3) geom_block(9) [OF g b(2)] by simp
  qed
  have f2: "free_lists (words (mem ?m)) ctl (control ?m) K" using g2(2) by simp
  obtain x M c where i: "x \<in> insert ctl (dom K)" "insert_free_block ctl (b + 8) i j ?m = Some (?m\<lparr>mem := M, control := c\<rparr>)"
    "words M = (words (mem ?m))(b + 8 + 16 := x, b + 8 + 24 := ctl, x + 24 := b + 8)" "free_lists (words M) ctl c (K(b + 8 \<mapsto> (i, j)))"
    by (rule insert_free_block_ok [OF f2 n K ij'])
  have x: "x \<in> insert ctl F" using i(1) g2(3) by blast
  have w: "words M (b + 8) = tag 0 False ?f"
    using links_off_used(2) [OF at b(1,2) s x] g2(4) by (simp add: i(3) e del: add_left_cancel add_right_cancel)
  have "block_size M' (b + 8) = u"
    using g2(5) tag_bits_neg(1) [OF g2(6)] al by (simp add: block_size_def size_field_def words_load or_1_2 e)
  then have "block_insert ctl (b + 8) ?m = Some (m\<lparr>mem := M, control := c\<rparr>)"
    using i(2) ij by (simp add: block_insert_def)
  moreover have "block_can_split (mem m) b 0" using can_split [OF g hd b(2), of 0] b(3) by simp
  moreover have "\<not> block_is_free (mem m) b" using header_reads(2) [OF g hd b(2)] b(1) by simp
  ultimately have "block_trim_used ctl b 0 m = Some (m\<lparr>mem := M, control := c\<rparr>)"
    using m1(1) g2(1) by (simp add: block_trim_used_def tlsf_assert_def on_mem_def)
  moreover have "block_size M b = 0" "\<not> block_is_free M b"
    using w al tag_bits_neg(1) [of 0 False ?f] tag_bits(2) [of 0 False ?f]
    by (simp_all add: block_size_def block_is_free_def size_field_def words_load or_1_2)
  ultimately show ?thesis using that i(4) by auto
qed

lemma realloc_too_large:
  assumes h: "heap ctl lo hi (words (mem m)) (control m) S F" and p: "live S F p = Some s" "32 \<le> unat s"
    and sz: "rounded sz = 0" "sz \<noteq> 0" "unat sz + 8 \<le> 18446744073709551616"
  shows "\<exists>m' K. tlsf_realloc ctl p sz m = Some (p, m') \<and> tlsf_block_size p (mem m') = 0 \<and> tlsf_free ctl p m' = None \<and>
    free_lists (words (mem m')) ctl (control m') K \<and> p - 8 \<in> dom K"
proof -
  let ?b = "p - 16"
  note at = heapD(1) [OF h]
  note g = heap_atD(2) [OF at]
  have b: "?b \<notin> F" "S ?b = Some s" "s \<noteq> 0" using p by (simp_all add: live_Some)
  have p0: "p \<noteq> NULL" using live_block(4) [OF g p(1)] by auto
  obtain t where t: "S (nxt S ?b) = Some t" using geom_real(3) [OF g b(2,3)] by blast
  obtain M c K where m': "block_trim_used ctl ?b 0 m = Some (m\<lparr>mem := M, control := c\<rparr>)" "free_lists (words M) ctl c K"
    "?b + 8 \<in> dom K" "block_size M ?b = 0" "\<not> block_is_free M ?b"
    by (rule trim_at_zero [OF h b(1,2) p(2)])
  let ?m = "m\<lparr>mem := M, control := c\<rparr>"
  have "tlsf_realloc ctl p sz m = Some (p, ?m)"
    by (rule realloc_cases(4) [OF h p(1) sz(2,3) t]) (use sz(1) m'(1) in simp_all)
  moreover have "tlsf_block_size p (mem ?m) = 0" using p0 m'(4) by (simp add: tlsf_block_size_def block_from_ptr_def)
  moreover have "tlsf_free ctl p ?m = None"
    using p0 m'(4,5) by (simp add: tlsf_free_def block_from_ptr_def tlsf_assert_def on_mem0_def block_mark_as_free_def
        block_link_next_def block_next_def block_is_last_def)
  moreover have "p - 8 \<in> dom K" using m'(3) by simp
  ultimately show ?thesis using m'(2) by (intro exI [of _ ?m] exI [of _ K]) simp
qed

lemma realloc_too_large_small:
  assumes h: "heap ctl lo hi (words (mem m)) (control m) S F" and p: "live S F p = Some s"
    and sz: "rounded sz = 0" "sz \<noteq> 0" "unat sz + 8 \<le> 18446744073709551616" "unat s < 32"
  shows "tlsf_realloc ctl p sz m = Some (p, m)"
proof -
  note at = heapD(1) [OF h]
  note g = heap_atD(2) [OF at] and hd = heap_atD(3) [OF at]
  have b: "p - 16 \<notin> F" "S (p - 16) = Some s" "s \<noteq> 0" using p by (simp_all add: live_Some)
  obtain t where t: "S (nxt S (p - 16)) = Some t" using geom_real(3) [OF g b(2,3)] by blast
  have "\<not> block_can_split (mem m) (p - 16) 0" using can_split [OF g hd b(2), of 0] sz(4) by simp
  moreover have "\<not> block_is_free (mem m) (p - 16)" using header_reads(2) [OF g hd b(2)] b(1) by simp
  ultimately have "block_trim_used ctl (p - 16) 0 m = Some m" by (simp add: block_trim_used_def tlsf_assert_def)
  then show ?thesis using realloc_cases(4) [OF h p sz(2,3) t] sz(1) by simp
qed

text \<open>A request that wraps around is at most the size of the block, so the block stays where it is.\<close>

lemma realloc_wraps:
  assumes h: "heap ctl lo hi (words (mem m)) (control m) S F" and p: "live S F p = Some s"
    and sz: "18446744073709551608 < unat sz"
  shows "tlsf_realloc ctl p sz m = tlsf_realloc ctl p 24 m"
proof -
  note at = heapD(1) [OF h]
  note g = heap_atD(2) [OF at] and hd = heap_atD(3) [OF at]
  have b: "S (p - 16) = Some s" "s \<noteq> 0" using p by (simp_all add: live_Some)
  have p0: "p \<noteq> NULL" using live_block(4) [OF g p] by auto
  have z: "sz \<noteq> 0" using sz by auto
  have a: "adjust_request_size sz ALIGN_SIZE = Some 24" "adjust_request_size 24 ALIGN_SIZE = Some 24"
    using adjust_wraps [OF sz] adjust_rounded(1) [of 24] by (simp_all add: rounded_def)
  have "block_size (mem m) (block_from_ptr p) = s" using header_reads(1) [OF g hd b(1)] by (simp add: block_from_ptr_def)
  then have lt: "\<not> block_size (mem m) (block_from_ptr p) < 24" using live_block(10) [OF g p] by (simp add: word_less_nat_alt)
  show ?thesis unfolding tlsf_realloc_def a Let_def using p0 z lt by simp
qed

section \<open>Realloc\<close>

text \<open>
  C6: on a sound heap realloc returns for every block in use and every request that can be
  rounded. It returns NULL, with nothing changed, only when the block is too small and every free
  block is smaller than the rounded request and one part in 32 of it. Otherwise the old block is
  exchanged for one of at least the rounded request, at the same address or at one that was not in
  use, with the bytes of the old block up to the smaller of both sizes; the other blocks and their
  bytes are the same, and the heap is sound. NULL is resized by malloc, and a request of zero frees.
\<close>

theorem tlsf_realloc_keeps:
  assumes "heap ctl lo hi (words (mem m)) (control m) S F" "live S F p = Some s" "rounded sz \<noteq> 0"
  shows "((tlsf_realloc ctl p sz m = Some (NULL, m) \<and> unat s < rounded sz \<and> (\<forall>b \<in> F. 32 * unat (the (S b)) < 33 * rounded sz)) \<or>
      (\<exists>q m'. tlsf_realloc ctl p sz m = Some (q, m') \<and> resized ctl lo hi (live S F) p s sz q m m')) \<and>
    tlsf_realloc ctl NULL sz m = tlsf_malloc ctl sz m \<and> tlsf_realloc ctl p 0 m = map_option (Pair NULL) (tlsf_free ctl p m)"
proof -
  have "p \<noteq> NULL" using live_block(4) [OF heap_atD(2) [OF heapD(1) [OF assms(1)]] assms(2)] by auto
  moreover have "sz \<noteq> 0" using assms(3) by (auto simp: rounded_def)
  ultimately have "tlsf_realloc ctl NULL sz m = tlsf_malloc ctl sz m \<and> tlsf_realloc ctl p 0 m = map_option (Pair NULL) (tlsf_free ctl p m)"
    by (cases "tlsf_free ctl p m") (simp_all add: tlsf_realloc_def)
  then show ?thesis using realloc_ok [OF assms] by blast
qed

text \<open>A block of the small heap to start from.\<close>

lemma small_block:
  obtains m p m' S F t where "tlsf_create_with_pool [] [] 8192 65536 heap_machine = Some (8192, m)" "tlsf_malloc 8192 100 m = Some (p, m')"
    "heap 8192 14728 73728 (words (mem m')) (control m') S F" "live S F = [p \<mapsto> t]" "104 \<le> unat t"
proof -
  obtain m S where m: "tlsf_create_with_pool [] [] 8192 65536 heap_machine = Some (8192, m)"
    "heap 8192 14728 73728 (words (mem m)) (control m) S {14720}" "live S {14720} = Map.empty" "unat (the (S 14720)) = 58984"
    by (rule small_heap)
  obtain p m' S' F' t where "tlsf_malloc 8192 100 m = Some (p, m')" "heap 8192 14728 73728 (words (mem m')) (control m') S' F'"
    "live S' F' = [p \<mapsto> t]" "rounded 100 \<le> unat t"
    using malloc_granted [OF m(2) small_request(2)] small_request(3) [of S, OF m(4)] unfolding m(3) by blast
  then show ?thesis using that m(1) small_request(1) by metis
qed

lemma tlsf_realloc_keeps_witness:
  "\<exists>m p m' q m'' t. tlsf_create_with_pool [] [] 8192 65536 heap_machine = Some (8192, m) \<and>
     tlsf_malloc 8192 100 m = Some (p, m') \<and> tlsf_realloc 8192 p 50 m' = Some (q, m'') \<and>
     q \<noteq> NULL \<and> 56 \<le> unat t \<and> heap_inv 8192 14728 73728 [q \<mapsto> t] m''"
proof -
  obtain m p m' S F t where a: "tlsf_create_with_pool [] [] 8192 65536 heap_machine = Some (8192, m)" "tlsf_malloc 8192 100 m = Some (p, m')"
    "heap 8192 14728 73728 (words (mem m')) (control m') S F" "live S F = [p \<mapsto> t]" "104 \<le> unat t"
    by (rule small_block)
  have r: "rounded 50 = 56" "rounded 50 \<noteq> 0" by (simp_all add: rounded_def)
  have l: "live S F p = Some t" using a(4) by simp
  have "\<not> unat t < rounded 50" using a(5) r(1) by simp
  then obtain q m'' where q: "tlsf_realloc 8192 p 50 m' = Some (q, m'')" "resized 8192 14728 73728 (live S F) p t 50 q m' m''"
    using conjunct1 [OF tlsf_realloc_keeps [OF a(3) l r(2)]] by blast
  then obtain t' where "q \<noteq> NULL" "56 \<le> unat t'" "heap_inv 8192 14728 73728 [q \<mapsto> t'] m''"
    unfolding resized_def a(4) r(1) by auto
  then show ?thesis using a(1,2) q(1) by blast
qed

text \<open>
  C10: realloc never refuses a request of more than 4294967288 bytes for a block in use; what it does depends on the size
  of the block. A block of 32 bytes or more loses all of its size: the same pointer is returned
  as if the request had been granted, with the size of the block set to zero, memory that is still the
  caller's is put into the lists of free blocks, and freeing the pointer later runs into an assertion.
  A smaller block (one of 24 bytes, the least size) cannot be split: its pointer is returned with nothing
  changed. And a request of more than 2^64 - 8 bytes wraps around and is treated as one of 24 bytes.
\<close>

theorem tlsf_realloc_too_large:
  assumes "heap ctl lo hi (words (mem m)) (control m) S F" "live S F p = Some s" "4294967288 < unat sz"
  shows "(unat sz + 8 \<le> 18446744073709551616 \<and> 32 \<le> unat s \<longrightarrow>
      (\<exists>m' K. tlsf_realloc ctl p sz m = Some (p, m') \<and> tlsf_block_size p (mem m') = 0 \<and> tlsf_free ctl p m' = None \<and>
        free_lists (words (mem m')) ctl (control m') K \<and> p - 8 \<in> dom K)) \<and>
    (unat sz + 8 \<le> 18446744073709551616 \<and> unat s < 32 \<longrightarrow> tlsf_realloc ctl p sz m = Some (p, m)) \<and>
    (18446744073709551616 < unat sz + 8 \<longrightarrow> tlsf_realloc ctl p sz m = tlsf_realloc ctl p 24 m)"
proof -
  have "rounded sz = 0" "sz \<noteq> 0" using assms(3) by (auto simp: rounded_def)
  then show ?thesis
    using realloc_too_large [OF assms(1,2)] realloc_too_large_small [OF assms(1,2)] realloc_wraps [OF assms(1,2), of sz] by auto
qed

lemma tlsf_realloc_too_large_witness:
  "\<exists>m p m' m''. tlsf_create_with_pool [] [] 8192 65536 heap_machine = Some (8192, m) \<and>
     tlsf_malloc 8192 100 m = Some (p, m') \<and> tlsf_realloc 8192 p 4294967296 m' = Some (p, m'') \<and>
     tlsf_block_size p (mem m'') = 0 \<and> tlsf_free 8192 p m'' = None"
proof -
  obtain m p m' S F t where a: "tlsf_create_with_pool [] [] 8192 65536 heap_machine = Some (8192, m)" "tlsf_malloc 8192 100 m = Some (p, m')"
    "heap 8192 14728 73728 (words (mem m')) (control m') S F" "live S F = [p \<mapsto> t]" "104 \<le> unat t"
    by (rule small_block)
  have l: "live S F p = Some t" "32 \<le> unat t" using a(4,5) by simp_all
  have "4294967288 < unat (4294967296 :: u64)" "unat (4294967296 :: u64) + 8 \<le> 18446744073709551616" by simp_all
  with conjunct1 [OF tlsf_realloc_too_large [OF a(3) l(1) this(1)]] l(2) show ?thesis using a(1,2) by blast
qed

end
