(* ===== verification/Hive_Memalign.thy ===== *)
theory Hive_Memalign
  imports Hive_Realloc
begin

text \<open>
  Aligned requests of \<^verbatim>\<open>mm/tlsf.c\<close>: \<^verbatim>\<open>tlsf_memalign\<close> asks for a block with room for the alignment, gives the
  gap in front of the aligned address back as a free block, and hands out the rest.
\<close>

section \<open>Alignment\<close>

text \<open>Rounding up to a multiple of \<open>2 ^ k\<close>, on numbers and as the code does it on words.\<close>

definition up :: "nat \<Rightarrow> nat \<Rightarrow> nat" where
  "up k n = (n + (2 ^ k - 1)) div 2 ^ k * 2 ^ k"

lemma up_bounds: "n \<le> up k n" "up k n < n + 2 ^ k" "up k n mod 2 ^ k = 0"
proof -
  let ?a = "2 ^ k :: nat"
  have a: "0 < ?a" by simp
  have "(n + (?a - 1)) div ?a * ?a + (n + (?a - 1)) mod ?a = n + (?a - 1)" by (rule div_mult_mod_eq)
  moreover have "(n + (?a - 1)) mod ?a < ?a" using a by (rule mod_less_divisor)
  ultimately show "n \<le> up k n" "up k n < n + ?a" unfolding up_def using a by linarith+
  show "up k n mod 2 ^ k = 0" by (simp add: up_def)
qed

lemma up_id: "n mod 2 ^ k = 0 \<Longrightarrow> up k n = n"
proof -
  assume "n mod 2 ^ k = 0"
  then obtain c where c: "n = c * 2 ^ k" by (metis div_mult_mod_eq add_0_right)
  have "(2 ^ k - 1 + c * 2 ^ k) div 2 ^ k = c + (2 ^ k - 1) div (2 ^ k :: nat)" by (rule div_mult_self1) simp
  then show ?thesis unfolding up_def c by (simp add: add.commute)
qed

lemma up_mod8: "3 \<le> k \<Longrightarrow> up k n mod 8 = 0"
proof -
  assume "3 \<le> k"
  then obtain i where "k = 3 + i" by (metis le_add_diff_inverse)
  then have "(2 :: nat) ^ k = 8 * 2 ^ i" by (simp add: power_add)
  then have "up k n = 8 * ((n + (2 ^ k - 1)) div 2 ^ k * 2 ^ i)" by (simp add: up_def)
  then show ?thesis by simp
qed

lemma power_word:
  assumes "k < 64"
  shows "unat (2 ^ k :: u64) = 2 ^ k" "(2 ^ k :: u64) AND (2 ^ k - 1) = 0" "unat (2 ^ k - 1 :: u64) = 2 ^ k - 1"
proof -
  have l: "(2 :: nat) ^ k < 2 ^ 64" using assms by (rule power_strict_increasing) simp
  have "unat (of_nat (2 ^ k) :: u64) = 2 ^ k" using l by (intro unat_of_nat64) simp
  then show u: "unat (2 ^ k :: u64) = 2 ^ k" by simp
  have "(2 ^ k :: u64) AND mask k = 0" by (rule bit_word_eqI) (auto simp: bit_simps)
  then show "(2 ^ k :: u64) AND (2 ^ k - 1) = 0" by (simp add: mask_eq_exp_minus_1)
  show "unat (2 ^ k - 1 :: u64) = 2 ^ k - 1" using u by (subst unat_sub64) (simp_all add: u)
qed

lemma align_up_power:
  assumes "k < 64" "unat x + 2 ^ k \<le> 18446744073709551616"
  shows "\<exists>a. align_up x (2 ^ k) = Some a \<and> align_ptr x (2 ^ k) = Some a \<and> unat a = up k (unat x)"
proof -
  note p = power_word [OF assms(1)]
  let ?y = "x + (2 ^ k - 1)"
  have "(0 :: nat) < 2 ^ k" by simp
  then have y: "unat ?y = unat x + (2 ^ k - 1)" using assms(2) p(3) by (subst unat_add64) simp_all
  have "unat (?y AND NOT (mask k)) = up k (unat x)"
    unfolding unat_align_down_mask y up_def by (rule minus_mod_eq_div_mult)
  then show ?thesis using p(2) by (simp add: align_up_def align_ptr_def tlsf_assert_def Let_def mask_eq_exp_minus_1)
qed

text \<open>The request with room for the alignment, and the size of the block that is looked for.\<close>

definition padded :: "nat \<Rightarrow> u64 \<Rightarrow> nat" where
  "padded k sz = (if rounded sz = 0 \<or> k \<le> 3 then rounded sz
     else if up k (rounded sz + 2 ^ k + 32) < 4294967296 then up k (rounded sz + 2 ^ k + 32) else 0)"

lemma adjust_padded:
  assumes k: "k \<le> 62" and sz: "unat sz + 8 \<le> 18446744073709551616"
  shows "\<exists>g. adjust_request_size (of_nat (rounded sz) + 2 ^ k + 32) (2 ^ k) = Some g \<and>
    (if of_nat (rounded sz) \<noteq> (0 :: u64) \<and> (2 :: u64) ^ k > 8 then g else of_nat (rounded sz)) = of_nat (padded k sz)"
    "unat (of_nat (padded k sz) :: u64) = padded k sz" "padded k sz < 4294967296" "al8 (of_nat (padded k sz))"
proof -
  have k64: "k < 64" using k by simp
  note p = power_word [OF k64] and a = adjust_rounded [OF sz]
  let ?x = "of_nat (rounded sz) + 2 ^ k + 32 :: u64"
  have r: "rounded sz < 4294967296" using rounded_bounds(2) by (cases "rounded sz = 0") auto
  have k62: "(2 :: nat) ^ k \<le> 2 ^ 62" using k by (rule power_increasing) simp
  have "unat (of_nat (rounded sz) + 2 ^ k :: u64) = rounded sz + 2 ^ k" using r k62 a(2) p(1) by (subst unat_add64) simp_all
  then have x: "unat ?x = rounded sz + 2 ^ k + 32" using r k62 by (subst unat_add64) simp_all
  obtain y where y: "align_up ?x (2 ^ k) = Some y" "unat y = up k (rounded sz + 2 ^ k + 32)"
    using align_up_power [OF k64, of ?x] x r k62 by auto
  have x0: "?x \<noteq> 0" using x by auto
  show lt: "padded k sz < 4294967296" using r by (simp add: padded_def)
  then show u: "unat (of_nat (padded k sz) :: u64) = padded k sz" by (intro unat_of_nat64) simp
  have big: "(2 :: u64) ^ k > 8 \<longleftrightarrow> \<not> k \<le> 3"
  proof -
    have "(2 :: u64) ^ k > 8 \<longleftrightarrow> (2 :: nat) ^ 3 < 2 ^ k" by (simp add: word_less_nat_alt p(1))
    then show ?thesis by (simp only: power_strict_increasing_iff) auto
  qed
  have r0: "of_nat (rounded sz) = (0 :: u64) \<longleftrightarrow> rounded sz = 0"
    using a(2) by (simp only: word_unat_eq_iff unat_0)
  have y24: "24 \<le> y" using up_bounds(1) [where n = "rounded sz + 2 ^ k + 32" and k = k] y(2) by (simp add: word_le_nat_alt)
  have lty: "y < block_size_max \<longleftrightarrow> up k (rounded sz + 2 ^ k + 32) < 4294967296" by (simp add: word_less_nat_alt y(2))
  have "adjust_request_size ?x (2 ^ k) = Some (if y < block_size_max then y else 0)"
    using x0 y(1) y24 by (simp add: adjust_request_size_def max_absorb1)
  moreover have "(if rounded sz \<noteq> 0 \<and> \<not> k \<le> 3 then (if y < block_size_max then y else 0) else of_nat (rounded sz)) = of_nat (padded k sz)"
  proof -
    have "of_nat (up k (rounded sz + 2 ^ k + 32)) = y" using y(2) by (metis of_nat_unat ucast_id)
    then show ?thesis using lty by (simp add: padded_def)
  qed
  ultimately show "\<exists>g. adjust_request_size ?x (2 ^ k) = Some g \<and>
    (if of_nat (rounded sz) \<noteq> (0 :: u64) \<and> (2 :: u64) ^ k > 8 then g else of_nat (rounded sz)) = of_nat (padded k sz)"
    by (intro exI [of _ "if y < block_size_max then y else 0"]) (simp only: big r0 simp_thms)
  have "rounded sz mod 8 = 0" using rounded_bounds(3) by (cases "rounded sz = 0") auto
  moreover have "up k (rounded sz + 2 ^ k + 32) mod 8 = 0" if "\<not> k \<le> 3"
    using up_mod8 [of k] that by simp
  ultimately show "al8 (of_nat (padded k sz))" unfolding al8_def u by (simp add: padded_def)
qed


lemma multiple_room:
  assumes "k < 64" "n mod 2 ^ k = 0" "n < 18446744073709551616"
  shows "n + 2 ^ k \<le> (18446744073709551616 :: nat)"
proof -
  obtain c where c: "n = c * 2 ^ k" using assms(2) by (metis div_mult_mod_eq add_0_right)
  have e: "(18446744073709551616 :: nat) = 2 ^ (64 - k) * 2 ^ k" using assms(1) by (simp flip: power_add)
  then have "c * 2 ^ k < 2 ^ (64 - k) * 2 ^ k" using assms(3) c by simp
  then have "c < 2 ^ (64 - k)" by simp
  then have "c + 1 \<le> 2 ^ (64 - k)" by simp
  then have "(c + 1) * 2 ^ k \<le> 2 ^ (64 - k) * 2 ^ k" by (rule mult_le_mono1)
  then show ?thesis using e c by simp
qed

lemma power_mod8: "3 \<le> k \<Longrightarrow> (2 :: nat) ^ k mod 8 = 0"
proof -
  assume "3 \<le> k"
  then obtain i where "k = 3 + i" by (metis le_add_diff_inverse)
  then have "(2 :: nat) ^ k = 8 * 2 ^ i" by (simp add: power_add)
  then show ?thesis by simp
qed

lemma al8_multiple: "al8 p \<Longrightarrow> k \<le> 3 \<Longrightarrow> unat p mod 2 ^ k = 0"
proof -
  assume p: "al8 p" and "k \<le> 3"
  then have "(2 :: nat) ^ k dvd 2 ^ 3" by (intro le_imp_power_dvd)
  moreover have "(2 :: nat) ^ 3 dvd unat p" using p by (simp add: al8_def dvd_eq_mod_eq_0)
  ultimately have "(2 :: nat) ^ k dvd unat p" by (rule dvd_trans)
  then show ?thesis by (simp add: mod_eq_0_iff_dvd)
qed

text \<open>
  The gap in front of the aligned address: none, or one that is large enough for a block of its own
  and at most 24 bytes more than the alignment.
\<close>

lemma aligned_gap:
  assumes p: "al8 p" and k: "k \<le> 62" and room: "unat p mod 2 ^ k \<noteq> 0 \<Longrightarrow> unat p + 2 ^ k + 56 < 18446744073709551616"
  obtains a G where "align_ptr p (2 ^ k) = Some a"
    "(if a - p \<noteq> 0 \<and> a - p < 32 then do {
        aligned \<leftarrow> align_ptr (a + max (32 - (a - p)) (2 ^ k)) (2 ^ k);
        Some (aligned - p) }
      else Some (a - p)) = Some G"
    "(unat p + unat G) mod 2 ^ k = 0" "G = 0 \<or> 32 \<le> unat G \<and> unat p mod 2 ^ k \<noteq> 0" "unat G \<le> 2 ^ k + 24" "al8 G"
proof -
  have k64: "k < 64" using k by simp
  note pw = power_word [OF k64]
  let ?A = "2 ^ k :: nat" and ?P = "unat p"
  have p8: "?P mod 8 = 0" using p by (simp add: al8_def)
  have "?P + ?A \<le> 18446744073709551616" using room multiple_room [OF k64, of ?P] unat64_lt [of p] by force
  from align_up_power [OF k64 this] obtain a where a: "align_ptr p (2 ^ k) = Some a" "unat a = up k ?P" by blast
  note ub = up_bounds [where n = ?P and k = k]
  have gap: "unat (a - p) = up k ?P - ?P" using ub(1) a(2) by (subst unat_sub64) simp_all
  show ?thesis
  proof (cases "?P mod ?A = 0")
    case True
    then have "a = p" using a(2) by (simp add: up_id word_unat_eq_iff)
    then show ?thesis using that [of a 0] a(1) True by simp
  next
    case False
    note room = room [OF False]
    have k4: "4 \<le> k" using al8_multiple [OF p, of k] False by linarith
    define g where "g = up k ?P - ?P"
    have u: "up k ?P = ?P + g" "unat (a - p) = g" "unat a = ?P + g" using ub(1) gap a(2) by (simp_all add: g_def)
    have "up k ?P \<noteq> ?P" using ub(3) False by metis
    then have g: "0 < g" "g < ?A" "g mod 8 = 0" "(?P + g) mod ?A = 0"
      using u(1) ub(2,3) up_mod8 [where k = k and n = ?P] k4 p8 by (auto simp: mod_add_eq [symmetric, of ?P g])
    have A: "16 \<le> ?A" "?A mod 8 = 0"
      using power_increasing [OF k4, of "2 :: nat"] power_mod8 [of k] k4 by simp_all
    have g0: "a - p \<noteq> 0" using g(1) u(2) by auto
    show ?thesis
    proof (cases "32 \<le> g")
      case True
      then have "\<not> a - p < 32" using u(2) by (simp add: word_less_nat_alt)
      then show ?thesis using that [of a "a - p"] a(1) u(2) g True False by (simp add: al8_def)
    next
      case small: False
      then have lt: "a - p < 32" using u(2) by (simp add: word_less_nat_alt)
      have g24: "g \<le> 24" using small g(3) by presburger
      let ?x = "a + max (32 - (a - p)) (2 ^ k)"
      have "unat (32 - (a - p)) = 32 - g" using u(2) small by (subst unat_sub64) simp_all
      then have "unat (max (32 - (a - p)) (2 ^ k)) = max (32 - g) ?A" using pw(1) by (simp add: max_def word_le_nat_alt)
      then have x: "unat ?x = ?P + g + max (32 - g) ?A" using u(3) room g24 by (subst unat_add64) simp_all
      obtain G where G: "align_ptr ?x (2 ^ k) = Some (p + G)" "unat G = g + ?A \<or> unat G = ?A + 24" "32 \<le> unat G"
        "(?P + unat G) mod ?A = 0" "unat G \<le> ?A + 24" "unat G mod 8 = 0"
      proof (cases "32 - g \<le> ?A")
        case True
        then have xm: "unat ?x = ?P + g + ?A" "unat ?x mod ?A = 0" using x g(4) by simp_all
        have "unat ?x + ?A \<le> 18446744073709551616" using multiple_room [OF k64 xm(2)] unat64_lt by simp
        from align_up_power [OF k64 this] obtain b where b: "align_ptr ?x (2 ^ k) = Some b" "unat b = ?P + g + ?A"
          using up_id [OF xm(2)] xm(1) by auto
        have "unat (b - p) = g + ?A" using b(2) by (subst unat_sub64) simp_all
        then show ?thesis using that [of "b - p"] b(1) g xm A g24 True by (auto simp: add.assoc)
      next
        case no: False
        have A16: "?A = 16" "g = 8" using no A g(1,3) by presburger+
        then have k: "k = 4" using power_inject_exp [of "2 :: nat" k 4] by simp
        have xm: "unat ?x = ?P + 32" using x A16 by simp
        have "unat ?x + ?A \<le> 18446744073709551616" using xm A16 room by simp
        from align_up_power [OF k64 this] obtain b where b: "align_ptr ?x (2 ^ k) = Some b" "unat b = up k (?P + 32)" using xm by auto
        have m: "(?P + 8) mod 16 = 0" using g(4) A16 by simp
        have "(?P + 32 + 15) div 16 * 16 = ?P + 40" using m by presburger
        then have b40: "unat b = ?P + 40" using b(2) by (simp add: up_def k)
        then have "unat (b - p) = 40" by (subst unat_sub64) simp_all
        moreover have "(?P + 40) mod 16 = 0" using m by presburger
        ultimately show ?thesis using that [of "b - p"] b(1) A16 by simp
      qed
      have "G = 0 \<or> 32 \<le> unat G \<and> ?P mod ?A \<noteq> 0" using G(3) False by blast
      then show ?thesis using that [of a G] a(1) g0 lt G by (simp add: al8_def)
    qed
  qed
qed


section \<open>memalign\<close>

text \<open>Cutting the front off a free block that is in no list: the front goes back to the lists.\<close>

lemma trim_leading_ok:
  assumes h: "heap_at ctl lo hi (words (mem m)) (control m) S F ((size_classes S F)(b := None))" and co: "\<forall>x \<in> F. nxt S x \<notin> F"
    and b: "b \<in> F" "S b = Some s" and gap: "al8 gap" "32 \<le> unat gap" "unat gap + 32 \<le> unat s"
  defines "r \<equiv> b + gap"
  defines "S' \<equiv> S(b \<mapsto> gap - 8, r \<mapsto> s - gap)"
  obtains M c where "block_trim_free_leading ctl b gap m = Some (r, m\<lparr>mem := M, control := c\<rparr>)"
    "heap_at ctl lo hi (words M) c S' (insert r F) ((size_classes S' (insert r F))(r := None))"
    "\<forall>x \<in> insert r F. nxt S' x \<notin> insert r F - {r}" "S r = None" "S' r = Some (s - gap)" "live S' (insert r F) = live S F"
    "within (meta ctl S F) (words (mem m)) (words M)" "meta ctl S' (insert r F) \<subseteq> meta ctl S F"
proof -
  note g = heap_atD(2) [OF h] and hd = heap_atD(3) [OF h]
  let ?K = "(size_classes S F)(b := None)" and ?G = "insert r F"
  have ug: "unat (gap - 8) = unat gap - 8" using gap(2) by (subst unat_sub64) simp_all
  have sz: "al8 (gap - 8)" "24 \<le> unat (gap - 8)" "unat (gap - 8) + 32 \<le> unat s"
    using gap ug by (simp_all add: al8_diff)
  have r: "b + 8 + (gap - 8) = r" "s - (gap - 8 + 8) = s - gap" by (simp_all add: r_def)
  note gs = geom_split [OF g b(2) sz, unfolded r, folded S'_def]
  have rF: "r \<notin> F" using gs(1) headersD(1) [OF hd, of r] by auto
  have rb: "r \<noteq> b" using gs(1) b(2) by (metis option.distinct(1))
  have bK: "b \<notin> dom ?K" by simp
  obtain M1 where m1: "block_split b (gap - 8) (mem m) = Some (r, M1)" "block_next M1 b = Some r"
    "heap_at ctl lo hi (words (block_set_prev_free r (store64 M1 r b))) (control m) S' ?G ?K"
    "within (meta ctl S F) (words (mem m)) (words (block_set_prev_free r (store64 M1 r b)))"
    using heap_split [OF h b(2) bK sz, unfolded r, folded S'_def] b(1) by metis
  have al: "al8 r" "al8 b" using gs(5) geom_block(1) [OF g b(2)] by simp_all
  let ?M2 = "block_set_prev_free r M1"
  have nx: "block_next ?M2 b = Some r"
  proof -
    have "load64 ?M2 (b + 8) = load64 M1 (b + 8)"
      using al rb by (simp add: block_set_prev_free_def size_field_def words_load)
    then have "block_size ?M2 b = block_size M1 b" by (simp add: block_size_def size_field_def)
    then show ?thesis using m1(2) by (simp add: block_next_def block_is_last_def)
  qed
  have w: "words (store64 ?M2 r b) = words (block_set_prev_free r (store64 M1 r b))"
    using al by (auto simp: block_set_prev_free_def size_field_def words_load fun_eq_iff)
  let ?m = "m\<lparr>mem := store64 ?M2 r b\<rparr>"
  have at: "heap_at ctl lo hi (words (mem ?m)) (control ?m) S' ?G ?K" using m1(3) w by simp
  have bG: "b \<in> ?G" "?K b = None" using b(1) by auto
  obtain M c where i: "block_insert ctl b ?m = Some (?m\<lparr>mem := M, control := c\<rparr>)"
    "heap_at ctl lo hi (words M) c S' ?G (?K(b \<mapsto> mapping_insert (the (S' b))))"
    "within (meta ctl S' ?G) (words (mem ?m)) (words M)"
    by (rule heap_insert [OF at bG])
  have K: "?K(b \<mapsto> mapping_insert (the (S' b))) = (size_classes S' ?G)(r := None)"
    using rF rb b(1) by (auto simp: size_classes_def S'_def fun_eq_iff)
  have m: "meta ctl S' ?G \<subseteq> meta ctl S F"
    using meta_split [OF g b(2) sz, of ctl F] b(1) unfolding r by (simp add: insert_absorb S'_def)
  have "unat gap < 4294967296" using geom_block(11) [OF g b(2)] gap(3) by simp
  then have "block_can_split (mem m) b gap" using can_split [OF g hd b(2)] gap(3) by simp
  then have "block_trim_free_leading ctl b gap m = Some (r, m\<lparr>mem := M, control := c\<rparr>)"
    using m1(1) nx i(1) by (simp add: block_trim_free_leading_def on_mem_def block_link_next_def)
  moreover have "nxt S' x \<notin> ?G - {r}" if x: "x \<in> ?G" for x
  proof (cases "x = b \<or> x = r")
    case True
    then show ?thesis using gs(6) co b(1) by auto
  next
    case False
    then show ?thesis using gs(6) co x by auto
  qed
  moreover have "live S' ?G = live S F"
    by (rule live_eqI) (use b(1) rb gs(1) live_real in \<open>auto simp: live_Some S'_def\<close>)
  moreover have "within (meta ctl S F) (words (mem m)) (words M)"
    using within_trans [OF m1(4) within_mono [OF _ m]] i(3) w by simp
  ultimately show ?thesis using that i(2) K gs(1) m rb by (simp add: S'_def)
qed


lemma memalign_none:
  assumes "k \<le> 62" "unat sz + 8 \<le> 18446744073709551616" "block_locate_free ctl (of_nat (padded k sz)) m = Some (NULL, m)"
  shows "tlsf_memalign ctl (2 ^ k) sz m = Some (NULL, m)"
proof -
  obtain g where g: "adjust_request_size (of_nat (rounded sz) + 2 ^ k + 32) (2 ^ k) = Some g"
    "(if of_nat (rounded sz) \<noteq> (0 :: u64) \<and> (2 :: u64) ^ k > 8 then g else of_nat (rounded sz)) = of_nat (padded k sz)"
    using adjust_padded(1) [OF assms(1,2)] by blast
  show ?thesis
    using adjust_rounded(1) [OF assms(2)] g(1) assms(3) unfolding g(2) [symmetric]
    by (simp add: tlsf_memalign_def tlsf_assert_def block_prepare_used_def)
qed

lemma memalign_found:
  assumes k: "k \<le> 62" and sz: "unat sz + 8 \<le> 18446744073709551616"
    and b: "block_locate_free ctl (of_nat (padded k sz)) m = Some (b, m1)" "b \<noteq> NULL" "block_to_ptr b = p"
    and a: "align_ptr p (2 ^ k) = Some a"
    and G: "(if a - p \<noteq> 0 \<and> a - p < 32 then do {
        aligned \<leftarrow> align_ptr (a + max (32 - (a - p)) (2 ^ k)) (2 ^ k);
        Some (aligned - p) }
      else Some (a - p)) = Some G" "G = 0 \<or> 32 \<le> unat G"
    and lead: "(if G \<noteq> 0 then block_trim_free_leading ctl b G m1 else Some (b, m1)) = Some (b', m2)"
  shows "tlsf_memalign ctl (2 ^ k) sz m = block_prepare_used ctl b' (of_nat (rounded sz)) m2"
proof -
  obtain g where g: "adjust_request_size (of_nat (rounded sz) + 2 ^ k + 32) (2 ^ k) = Some g"
    "(if of_nat (rounded sz) \<noteq> (0 :: u64) \<and> (2 :: u64) ^ k > 8 then g else of_nat (rounded sz)) = of_nat (padded k sz)"
    using adjust_padded(1) [OF k sz] by blast
  have G32: "G \<noteq> 0 \<Longrightarrow> 32 \<le> G" using G(2) by (auto simp: word_le_nat_alt)
  note run = tlsf_memalign_def tlsf_assert_def a Let_def
  note first = adjust_rounded(1) [OF sz] g(1) b
  show ?thesis
  proof (cases "a - p \<noteq> 0 \<and> a - p < 32")
    case True
    then obtain y where y: "align_ptr (a + max (32 - (a - p)) (2 ^ k)) (2 ^ k) = Some y" "G = y - p"
      using G(1) by (auto simp: bind_eq_Some_conv)
    show ?thesis
      using first lead G32 True y unfolding g(2) [symmetric] by (cases "G = 0") (simp_all add: run)
  next
    case False
    then have "G = a - p" using G(1) by (auto split: if_splits)
    then show ?thesis
      using first lead G32 False unfolding g(2) [symmetric] by (cases "G = 0") (simp_all add: run)
  qed
qed


lemma padded_room:
  assumes "padded k sz \<noteq> 0"
  shows "rounded sz \<noteq> 0" "rounded sz \<le> padded k sz" "4 \<le> k \<Longrightarrow> rounded sz + 2 ^ k + 32 \<le> padded k sz"
proof -
  show r: "rounded sz \<noteq> 0"
  proof
    assume "rounded sz = 0"
    then have "padded k sz = 0" by (simp add: padded_def)
    then show False using assms by simp
  qed
  have le: "rounded sz + 2 ^ k + 32 \<le> up k (rounded sz + 2 ^ k + 32)" by (rule up_bounds(1))
  then show "rounded sz \<le> padded k sz" "4 \<le> k \<Longrightarrow> rounded sz + 2 ^ k + 32 \<le> padded k sz"
    using assms by (auto simp: padded_def split: if_splits)
qed

text \<open>What is left to do with a block taken from the lists: cut it to the gap, and hand it out.\<close>

lemma memalign_takes:
  assumes h: "heap_at ctl lo hi (words (mem m1)) (control m1) S F ((size_classes S F)(b := None))" and co: "\<forall>x \<in> F. nxt S x \<notin> F"
    and b: "b \<in> F" "S b = Some s" and G: "G = 0 \<or> 32 \<le> unat G" "al8 G" "unat G + 32 \<le> unat s \<or> G = 0"
    and q: "al8 q" "24 \<le> unat q" "unat q + unat G \<le> unat s"
  obtains b' m2 M c S' F' t where "(if G \<noteq> 0 then block_trim_free_leading ctl b G m1 else Some (b, m1)) = Some (b', m2)"
    "block_prepare_used ctl b' q m2 = Some (b + G + 16, m1\<lparr>mem := M, control := c\<rparr>)" "heap ctl lo hi (words M) c S' F'"
    "live S F (b + G + 16) = None" "live S' F' = (live S F)(b + G + 16 \<mapsto> t)" "unat q \<le> unat t"
    "within (meta ctl S F) (words (mem m1)) (words M)"
proof (cases "G = 0")
  case True
  have co': "\<forall>x \<in> F. nxt S x \<notin> F - {b}" using co by blast
  have q': "unat q \<le> unat s" using q(3) by simp
  obtain M c S' F' t where p: "block_prepare_used ctl b q m1 = Some (b + 16, m1\<lparr>mem := M, control := c\<rparr>)"
    "heap ctl lo hi (words M) c S' F'" "live S' F' = (live S F)(b + 16 \<mapsto> t)" "unat q \<le> unat t"
    "within (meta ctl S F) (words (mem m1)) (words M)"
    by (rule prepare_used_ok [OF h refl co' b q(1,2) q'])
  have "live S F (b + 16) = None" using b(1) by (simp add: live_def)
  then show ?thesis using that [of b m1 c M S' F' t] p True by simp
next
  case False
  then have G32: "32 \<le> unat G" "unat G + 32 \<le> unat s" using G(1,3) by blast+
  note g = heap_atD(2) [OF h] and hd = heap_atD(3) [OF h]
  let ?r = "b + G"
  let ?S = "S(b \<mapsto> G - 8, ?r \<mapsto> s - G)" and ?F = "insert (b + G) F"
  obtain M1 c1 where l: "block_trim_free_leading ctl b G m1 = Some (?r, m1\<lparr>mem := M1, control := c1\<rparr>)"
    "heap_at ctl lo hi (words M1) c1 ?S ?F ((size_classes ?S ?F)(?r := None))"
    "\<forall>x \<in> ?F. nxt ?S x \<notin> ?F - {?r}" "S ?r = None" "?S ?r = Some (s - G)" "live ?S ?F = live S F"
    "within (meta ctl S F) (words (mem m1)) (words M1)" "meta ctl ?S ?F \<subseteq> meta ctl S F"
    by (rule trim_leading_ok [OF h co b G(2) G32])
  let ?m = "m1\<lparr>mem := M1, control := c1\<rparr>"
  have l2: "heap_at ctl lo hi (words (mem ?m)) (control ?m) ?S ?F ((size_classes ?S ?F)(?r := None))" using l(2) by simp
  have "unat (s - G) = unat s - unat G" using G32 by (subst unat_sub64) simp_all
  then have q': "unat q \<le> unat (s - G)" using q(3) by simp
  have rF: "?r \<in> ?F" by simp
  obtain M c S' F' t where p: "block_prepare_used ctl ?r q ?m = Some (?r + 16, ?m\<lparr>mem := M, control := c\<rparr>)"
    "heap ctl lo hi (words M) c S' F'" "live S' F' = (live ?S ?F)(?r + 16 \<mapsto> t)" "unat q \<le> unat t"
    "within (meta ctl ?S ?F) (words (mem ?m)) (words M)"
    by (rule prepare_used_ok [OF l2 refl l(3) rF l(5) q(1,2) q'])
  have "live S F (?r + 16) = None" using l(4) by (simp add: live_def)
  moreover have "within (meta ctl S F) (words (mem m1)) (words M)"
    using within_trans [OF l(7) within_mono [OF _ l(8)]] p(5) by simp
  ultimately show ?thesis using that [of ?r ?m c M S' F' t] False l(1,6) p(1-4) by simp
qed

lemma memalign_ok:
  assumes h: "heap ctl lo hi (words (mem m)) (control m) S F" and k: "k \<le> 62" and sz: "unat sz + 8 \<le> 18446744073709551616"
  shows "(tlsf_memalign ctl (2 ^ k) sz m = Some (NULL, m) \<and>
      (padded k sz = 0 \<or> (\<forall>b \<in> F. 32 * unat (the (S b)) < 33 * padded k sz))) \<or>
    (\<exists>p m' S' F' t. tlsf_memalign ctl (2 ^ k) sz m = Some (p, m') \<and> p \<noteq> NULL \<and> unat p mod 2 ^ k = 0 \<and>
      heap ctl lo hi (words (mem m')) (control m') S' F' \<and> live S F p = None \<and> live S' F' = (live S F)(p \<mapsto> t) \<and>
      rounded sz \<noteq> 0 \<and> rounded sz \<le> unat t \<and> agree (payload (live S F) \<union> beyond ctl hi) (mem m) (mem m'))"
proof -
  note at = heapD(1) [OF h]
  note g = heap_atD(2) [OF at] and hd = heap_atD(3) [OF at]
  note a = adjust_rounded [OF sz] and pd = adjust_padded(2-4) [OF k sz]
  let ?q = "of_nat (padded k sz) :: u64"
  show ?thesis
  proof (cases "padded k sz = 0")
    case True
    then have "tlsf_memalign ctl (2 ^ k) sz m = Some (NULL, m)"
      by (intro memalign_none [OF k sz]) (simp add: block_locate_free_def)
    then show ?thesis using True by blast
  next
    case False
    note room = padded_room [OF False]
    have q: "unat ?q < 4294967296" "?q \<noteq> 0" using pd(1,2) False by (simp_all only: word_unat_eq_iff unat_0 simp_thms)
    consider (none) "block_locate_free ctl ?q m = Some (NULL, m)"
        "\<forall>b k. size_classes S F b = Some k \<longrightarrow> \<not> class_le (mapping_search ?q) k"
      | (found) b s M c where "block_locate_free ctl ?q m = Some (b, m\<lparr>mem := M, control := c\<rparr>)" "b \<in> F" "S b = Some s"
        "unat ?q \<le> unat s" "heap_at ctl lo hi (words M) c S F ((size_classes S F)(b := None))"
        "within (meta ctl S F) (words (mem m)) (words M)"
      using locate_free_ok [OF at refl pd(3) q] by blast
    then show ?thesis
    proof cases
      case none
      have "32 * unat (the (S b)) < 33 * padded k sz" if "b \<in> F" for b
      proof (rule search_misses [OF pd(2)])
        have "size_classes S F b = Some (mapping_insert (the (S b)))" using that by (simp add: size_classes_def)
        then show "\<not> class_le (mapping_search ?q) (mapping_insert (the (S b)))" using none(2) by blast
      qed
      then show ?thesis using memalign_none [OF k sz none(1)] by blast
    next
      case found
      let ?m = "m\<lparr>mem := M, control := c\<rparr>" and ?p = "b + 16"
      have s: "s \<noteq> 0" "padded k sz \<le> unat s" using found(4) False by (auto simp: pd(1))
      note gb = geom_block [OF g found(3)] and gr = geom_real [OF g found(3) s(1)]
      have alp: "al8 ?p" using gb(1) by simp
      have rm: "4 \<le> k" if "unat ?p mod 2 ^ k \<noteq> 0" using al8_multiple [OF alp, of k] that by linarith
      have rp: "unat ?p + 2 ^ k + 56 < 18446744073709551616" if "unat ?p mod 2 ^ k \<noteq> 0"
        using room(3) [OF rm [OF that]] rounded_bounds(1) [OF room(1)] s(2) gr(2,4) gb(5) by linarith
      obtain x G where G: "align_ptr ?p (2 ^ k) = Some x"
        "(if x - ?p \<noteq> 0 \<and> x - ?p < 32 then do {
            aligned \<leftarrow> align_ptr (x + max (32 - (x - ?p)) (2 ^ k)) (2 ^ k);
            Some (aligned - ?p) }
          else Some (x - ?p)) = Some G"
        "(unat ?p + unat G) mod 2 ^ k = 0" "G = 0 \<or> 32 \<le> unat G \<and> unat ?p mod 2 ^ k \<noteq> 0" "unat G \<le> 2 ^ k + 24" "al8 G"
        by (rule aligned_gap [OF alp k rp])
      have fits: "unat G + 32 \<le> unat s \<and> rounded sz + unat G \<le> unat s" if "G \<noteq> 0"
      proof -
        have "unat ?p mod 2 ^ k \<noteq> 0" using G(4) that by blast
        from room(3) [OF rm [OF this]] show ?thesis using G(5) rounded_bounds(1) [OF room(1)] s(2) by linarith
      qed
      have G1: "G = 0 \<or> 32 \<le> unat G" "unat G + 32 \<le> unat s \<or> G = 0" using G(4) fits by blast+
      have r: "24 \<le> unat (of_nat (rounded sz) :: u64)" "unat (of_nat (rounded sz) :: u64) + unat G \<le> unat s"
        using rounded_bounds(1) [OF room(1)] fits room(2) s(2) by (cases "G = 0"; simp add: a(2))+
      have f5: "heap_at ctl lo hi (words (mem ?m)) (control ?m) S F ((size_classes S F)(b := None))" using found(5) by simp
      have co: "\<forall>x \<in> F. nxt S x \<notin> F" using heapD(2) [OF h] by blast
      obtain b' m2 M' c' S' F' t where t: "(if G \<noteq> 0 then block_trim_free_leading ctl b G ?m else Some (b, ?m)) = Some (b', m2)"
        "block_prepare_used ctl b' (of_nat (rounded sz)) m2 = Some (b + G + 16, ?m\<lparr>mem := M', control := c'\<rparr>)" "heap ctl lo hi (words M') c' S' F'"
        "live S F (b + G + 16) = None" "live S' F' = (live S F)(b + G + 16 \<mapsto> t)" "unat (of_nat (rounded sz) :: u64) \<le> unat t"
        "within (meta ctl S F) (words (mem ?m)) (words M')"
        by (rule memalign_takes [OF f5 co found(2,3) G1(1) G(6) G1(2) a(3) r])
      have b0: "b \<noteq> NULL" "block_to_ptr b = ?p" using gb(7) by (simp_all add: block_to_ptr_def)
      have run: "tlsf_memalign ctl (2 ^ k) sz m = Some (b + G + 16, m\<lparr>mem := M', control := c'\<rparr>)"
        using memalign_found [OF k sz found(1) b0 G(1,2) G1(1) t(1)] t(2) by simp
      have "unat (b + 16 + G) = unat ?p + unat G"
        using gr(2,4) gb(5) r(2) by (intro unat_add64) simp
      then have up: "unat (b + G + 16) = unat ?p + unat G" by (simp add: algebra_simps)
      have "b + G + 16 \<noteq> NULL"
      proof
        assume "b + G + 16 = NULL"
        then have "unat (b + G + 16) = 0" by simp
        then show False using up gr(4) by simp
      qed
      moreover have "unat (b + G + 16) mod 2 ^ k = 0" unfolding up by (rule G(3))
      moreover have "agree (payload (live S F) \<union> beyond ctl hi) (mem m) M'"
        using within_trans [OF found(6)] t(7) by (intro untouched_live [OF at]) simp
      ultimately show ?thesis using run t(3-6) room(1) a(2)
        by (intro disjI2 exI [of _ "b + G + 16"] exI [of _ "m\<lparr>mem := M', control := c'\<rparr>"] exI [of _ S'] exI [of _ F'] exI [of _ t]) simp
    qed
  qed
qed

text \<open>
  C7: on a sound heap memalign returns for every alignment up to 2^62 that is a power of two. It
  returns NULL, with nothing changed, only for a request that no block can hold with its padding or
  when every free block is smaller than that and one part in 32 of it. Otherwise the pointer is a
  multiple of the alignment, to a new block of at least the rounded request, the other blocks in
  use are the same with their bytes kept, and the heap is sound.
\<close>

theorem tlsf_memalign_aligned:
  assumes "heap ctl lo hi (words (mem m)) (control m) S F" "k \<le> 62" "unat sz + 8 \<le> 18446744073709551616"
  shows "(tlsf_memalign ctl (2 ^ k) sz m = Some (NULL, m) \<and>
      (padded k sz = 0 \<or> (\<forall>b \<in> F. 32 * unat (the (S b)) < 33 * padded k sz))) \<or>
    (\<exists>p m' S' F' t. tlsf_memalign ctl (2 ^ k) sz m = Some (p, m') \<and> p \<noteq> NULL \<and> unat p mod 2 ^ k = 0 \<and>
      heap ctl lo hi (words (mem m')) (control m') S' F' \<and> live S F p = None \<and> live S' F' = (live S F)(p \<mapsto> t) \<and>
      rounded sz \<noteq> 0 \<and> rounded sz \<le> unat t \<and> agree (payload (live S F) \<union> beyond ctl hi) (mem m) (mem m'))"
  using assms by (rule memalign_ok)

lemma tlsf_memalign_aligned_witness:
  "\<exists>m p m' S' F' t. tlsf_create_with_pool [] [] 8192 65536 heap_machine = Some (8192, m) \<and>
     tlsf_memalign 8192 4096 100 m = Some (p, m') \<and> p \<noteq> NULL \<and> unat p mod 4096 = 0 \<and> 104 \<le> unat t \<and>
     heap 8192 14728 73728 (words (mem m')) (control m') S' F' \<and> live S' F' = [p \<mapsto> t]"
proof -
  obtain m S where m: "tlsf_create_with_pool [] [] 8192 65536 heap_machine = Some (8192, m)"
    "heap 8192 14728 73728 (words (mem m)) (control m) S {14720}" "live S {14720} = Map.empty" "unat (the (S 14720)) = 58984"
    by (rule small_heap)
  have k: "(12 :: nat) \<le> 62" by simp
  have "padded 12 100 = 8192" by (simp add: padded_def up_def small_request(1))
  then have no: "\<not> (padded 12 100 = 0 \<or> (\<forall>b \<in> {14720}. 32 * unat (the (S b)) < 33 * padded 12 100))" using m(4) by simp
  note a = tlsf_memalign_aligned [OF m(2) k small_request(2)]
  from a no obtain p m' S' F' t where "tlsf_memalign 8192 (2 ^ 12) 100 m = Some (p, m') \<and> p \<noteq> NULL \<and> unat p mod 2 ^ 12 = 0 \<and>
      heap 8192 14728 73728 (words (mem m')) (control m') S' F' \<and> live S {14720} p = None \<and> live S' F' = (live S {14720})(p \<mapsto> t) \<and>
      rounded 100 \<noteq> 0 \<and> rounded 100 \<le> unat t \<and> agree (payload (live S {14720}) \<union> beyond 8192 73728) (mem m) (mem m')"
    by (simp only: simp_thms) (elim exE)
  then show ?thesis using m(1) unfolding m(3) small_request(1) by (intro exI [of _ m] exI [of _ p] exI [of _ m'] exI [of _ S'] exI [of _ F'] exI [of _ t]) simp
qed

end
