(* ===== verification/Hive_Queue_Walk.thy ===== *)
theory Hive_Queue_Walk
  imports Hive_Queue
begin

text \<open>
  The other loops of \<^verbatim>\<open>sdk/inc/sys/queue.h\<close>: backwards, and those whose name ends in \<^verbatim>\<open>SAFE\<close>, which read
  the element to go on with before the body runs, so that the body may remove the element it is
  called with.
\<close>

section \<open>The loops\<close>

definition TAILQ_NEXT :: "addr \<Rightarrow> memory \<Rightarrow> addr \<Rightarrow> addr" where
  "TAILQ_NEXT f m e = q_next f m e"
definition LIST_NEXT :: "addr \<Rightarrow> memory \<Rightarrow> addr \<Rightarrow> addr" where
  "LIST_NEXT f m e = q_next f m e"

definition LIST_FOREACH :: "addr \<Rightarrow> memory \<Rightarrow> addr \<Rightarrow> addr list option" where
  "LIST_FOREACH f m h = q_walk f m (LIST_FIRST m h)"

text \<open>The elements visited backwards, by a body that does not change the memory.\<close>

partial_function (option) q_walk_back :: "addr \<Rightarrow> memory \<Rightarrow> addr \<Rightarrow> addr list option" where
  "q_walk_back f m e =
     (if e = NULL then Some []
      else do { es \<leftarrow> q_walk_back f m (TAILQ_PREV f m e); Some (e # es) })"

definition TAILQ_FOREACH_REVERSE :: "addr \<Rightarrow> memory \<Rightarrow> addr \<Rightarrow> addr list option" where
  "TAILQ_FOREACH_REVERSE f m h = q_walk_back f m (TAILQ_LAST m h)"

text \<open>A body that changes the memory; \<open>step\<close> reads the element to go on with.\<close>

partial_function (option) safe_loop ::
    "(memory \<Rightarrow> addr \<Rightarrow> addr) \<Rightarrow> (addr \<Rightarrow> memory \<Rightarrow> memory option) \<Rightarrow> addr \<Rightarrow> memory \<Rightarrow> memory option" where
  "safe_loop step body var m =
     (if var \<noteq> NULL then
        let tvar = step m var in do {
          m \<leftarrow> body var m;
          safe_loop step body tvar m }
      else Some m)"

definition TAILQ_FOREACH_SAFE :: "addr \<Rightarrow> addr \<Rightarrow> (addr \<Rightarrow> memory \<Rightarrow> memory option) \<Rightarrow> memory \<Rightarrow> memory option" where
  "TAILQ_FOREACH_SAFE f h body m = safe_loop (TAILQ_NEXT f) body (TAILQ_FIRST m h) m"

definition TAILQ_FOREACH_REVERSE_SAFE :: "addr \<Rightarrow> addr \<Rightarrow> (addr \<Rightarrow> memory \<Rightarrow> memory option) \<Rightarrow> memory \<Rightarrow> memory option" where
  "TAILQ_FOREACH_REVERSE_SAFE f h body m = safe_loop (TAILQ_PREV f) body (TAILQ_LAST m h) m"

definition LIST_FOREACH_SAFE :: "addr \<Rightarrow> addr \<Rightarrow> (addr \<Rightarrow> memory \<Rightarrow> memory option) \<Rightarrow> memory \<Rightarrow> memory option" where
  "LIST_FOREACH_SAFE f h body m = safe_loop (LIST_NEXT f) body (LIST_FIRST m h) m"

section \<open>What they visit\<close>

lemma list_foreach_visits: "list_queue f m h xs \<Longrightarrow> LIST_FOREACH f m h = Some xs"
  by (simp add: LIST_FOREACH_def list_foreach)

lemma chain_next:
  assumes "chain f m p (xs @ e # ys)" "load64 m (q_end f p (xs @ e # ys)) = NULL"
  shows "q_next f m e = (if ys = [] then NULL else hd ys)"
  using assms by (cases ys) (simp_all add: q_next_def)

text \<open>
  The pointer to the previous cell is read as one to a queue head, whose last link lies where the
  cell's own pointer back does.
\<close>

lemma chain_back:
  assumes "tailq f m h (xs @ ys)"
  shows "load64 m (tqh_last m (q_end f h xs)) = (if xs = [] then NULL else last xs)"
proof (cases xs rule: rev_cases)
  case Nil
  then show ?thesis using assms by (simp add: tailq_def)
next
  case (snoc zs z)
  have "chain f m h (zs @ z # ys)" using assms snoc by (simp add: tailq_def)
  then have "load64 m (q_end f h zs) = z" "load64 m (z + f + 8) = q_end f h zs" by simp_all
  then show ?thesis using snoc by (simp add: tqh_last_def)
qed

lemma tailq_last: "tailq f m h xs \<Longrightarrow> TAILQ_LAST m h = (if xs = [] then NULL else last xs)"
  using chain_back [of f m h xs "[]"] by (simp add: TAILQ_LAST_def tailq_def del: q_end_simps)

lemma tailq_prev: "tailq f m h (xs @ e # ys) \<Longrightarrow> TAILQ_PREV f m e = (if xs = [] then NULL else last xs)"
  using chain_back [of f m h xs "e # ys"] by (simp add: TAILQ_PREV_def) (simp add: tailq_def q_prev_def)

lemma tailq_not_null: "tailq f m h (xs @ e # ys) \<Longrightarrow> e \<noteq> NULL"
  by (simp add: tailq_def)

lemma walk_back_visits:
  "tailq f m h (xs @ ys) \<Longrightarrow> q_walk_back f m (if xs = [] then NULL else last xs) = Some (rev xs)"
proof (induction xs arbitrary: ys rule: rev_induct)
  case Nil
  then show ?case by (subst q_walk_back.simps) simp
next
  case (snoc x xs)
  have t: "tailq f m h (xs @ x # ys)" using snoc.prems by simp
  have "q_walk_back f m (TAILQ_PREV f m x) = Some (rev xs)" using snoc.IH [OF t] tailq_prev [OF t] by simp
  then show ?case using tailq_not_null [OF t] by (subst q_walk_back.simps) simp
qed

section \<open>Removing on the way\<close>

text \<open>
  A body that removes some of the elements it is called with. The loop keeps to the elements that
  are left, forwards and backwards.
\<close>

locale removing =
  fixes repr :: "memory \<Rightarrow> addr list \<Rightarrow> bool"
    and forward :: "memory \<Rightarrow> addr \<Rightarrow> addr"
    and remove_elem :: "memory \<Rightarrow> addr \<Rightarrow> memory"
  assumes remove: "repr m (xs @ e # ys) \<Longrightarrow> repr (remove_elem m e) (xs @ ys)"
    and forward: "repr m (xs @ e # ys) \<Longrightarrow> forward m e = (if ys = [] then NULL else hd ys)"
    and not_null: "repr m (xs @ e # ys) \<Longrightarrow> e \<noteq> NULL"
begin

definition body :: "(addr \<Rightarrow> bool) \<Rightarrow> addr \<Rightarrow> memory \<Rightarrow> memory option" where
  "body P e m = Some (if P e then remove_elem m e else m)"

lemma body_keeps:
  assumes "repr m (xs @ e # ys)"
  shows "\<exists>m'. body P e m = Some m' \<and> repr m' (xs @ filter (\<lambda>x. \<not> P x) [e] @ ys)"
  using assms remove [OF assms] by (simp add: body_def)

lemma loop_removes:
  "repr m (xs @ ys) \<Longrightarrow> \<exists>m'. safe_loop forward (body P) (if ys = [] then NULL else hd ys) m = Some m' \<and>
    repr m' (xs @ filter (\<lambda>x. \<not> P x) ys)"
proof (induction ys arbitrary: xs m)
  case Nil
  then show ?case by (subst safe_loop.simps) simp
next
  case (Cons y ys)
  obtain m' where m': "body P y m = Some m'" "repr m' ((xs @ filter (\<lambda>x. \<not> P x) [y]) @ ys)"
    using body_keeps [OF Cons.prems] by auto
  from Cons.IH [OF m'(2)] obtain m'' where
    "safe_loop forward (body P) (if ys = [] then NULL else hd ys) m' = Some m''"
    "repr m'' ((xs @ filter (\<lambda>x. \<not> P x) [y]) @ filter (\<lambda>x. \<not> P x) ys)" by blast
  then show ?case
    using m'(1) forward [OF Cons.prems] not_null [OF Cons.prems]
    by (subst safe_loop.simps) (cases "P y"; simp add: Let_def)
qed

end

interpretation tq_forward: removing "\<lambda>m. tailq f m h" "TAILQ_NEXT f" "\<lambda>m. TAILQ_REMOVE f m h" for f h
proof unfold_locales
  fix m xs e ys assume t: "tailq f m h (xs @ e # ys)"
  show "tailq f (TAILQ_REMOVE f m h e) h (xs @ ys)" using t by (rule tailq_remove)
  show "TAILQ_NEXT f m e = (if ys = [] then NULL else hd ys)"
    unfolding TAILQ_NEXT_def using t by (intro chain_next [of f m h xs]) (simp_all add: tailq_def)
  show "e \<noteq> NULL" using t by (rule tailq_not_null)
qed

interpretation tq_back: removing "\<lambda>m xs. tailq f m h (rev xs)" "TAILQ_PREV f" "\<lambda>m. TAILQ_REMOVE f m h" for f h
proof unfold_locales
  fix m xs e ys assume "tailq f m h (rev (xs @ e # ys))"
  then have t: "tailq f m h (rev ys @ e # rev xs)" by simp
  show "tailq f (TAILQ_REMOVE f m h e) h (rev (xs @ ys))" using tailq_remove [OF t] by simp
  show "TAILQ_PREV f m e = (if ys = [] then NULL else hd ys)"
    using tailq_prev [OF t] by (simp add: last_rev)
  show "e \<noteq> NULL" using t by (rule tailq_not_null)
qed

interpretation list_forward: removing "\<lambda>m. list_queue f m h" "LIST_NEXT f" "\<lambda>m. LIST_REMOVE f m" for f h
proof unfold_locales
  fix m xs e ys assume t: "list_queue f m h (xs @ e # ys)"
  show "list_queue f (LIST_REMOVE f m e) h (xs @ ys)" using t by (rule list_remove)
  show "LIST_NEXT f m e = (if ys = [] then NULL else hd ys)"
    unfolding LIST_NEXT_def using t by (intro chain_next [of f m h xs]) (simp_all add: list_queue_def)
  show "e \<noteq> NULL" using t by (simp add: list_queue_def)
qed

lemma first_of_chain:
  "tailq f m h xs \<Longrightarrow> TAILQ_FIRST m h = (if xs = [] then NULL else hd xs)"
  "list_queue f m h xs \<Longrightarrow> LIST_FIRST m h = (if xs = [] then NULL else hd xs)"
  by (cases xs; simp add: tailq_def list_queue_def TAILQ_FIRST_def LIST_FIRST_def)+

text \<open>
  C25: on a well-formed tail queue \<^verbatim>\<open>TAILQ_FOREACH_REVERSE\<close> visits the elements from the last to the
  first, and the loops whose name ends in \<^verbatim>\<open>SAFE\<close> end with exactly the elements left that their body
  did not remove, in their order, with the queue well formed: forwards, backwards, and on a list.
\<close>

theorem queue_safe_loops:
  assumes "tailq f m h xs" "list_queue f n k ys"
  shows "TAILQ_FOREACH_REVERSE f m h = Some (rev xs) \<and>
    (\<exists>m'. TAILQ_FOREACH_SAFE f h (\<lambda>e m. Some (if P e then TAILQ_REMOVE f m h e else m)) m = Some m' \<and>
      tailq f m' h (filter (\<lambda>x. \<not> P x) xs)) \<and>
    (\<exists>m'. TAILQ_FOREACH_REVERSE_SAFE f h (\<lambda>e m. Some (if P e then TAILQ_REMOVE f m h e else m)) m = Some m' \<and>
      tailq f m' h (filter (\<lambda>x. \<not> P x) xs)) \<and>
    (\<exists>n'. LIST_FOREACH_SAFE f k (\<lambda>e m. Some (if P e then LIST_REMOVE f m e else m)) n = Some n' \<and>
      list_queue f n' k (filter (\<lambda>x. \<not> P x) ys))"
proof (intro conjI)
  have t: "tailq f m h (xs @ [])" "tailq f m h (rev ([] @ rev xs))" using assms(1) by simp_all
  show "TAILQ_FOREACH_REVERSE f m h = Some (rev xs)"
    using walk_back_visits [OF t(1)] tailq_last [OF assms(1)] by (simp add: TAILQ_FOREACH_REVERSE_def)
  show "\<exists>m'. TAILQ_FOREACH_SAFE f h (\<lambda>e m. Some (if P e then TAILQ_REMOVE f m h e else m)) m = Some m' \<and>
      tailq f m' h (filter (\<lambda>x. \<not> P x) xs)"
    using tq_forward.loop_removes [of f m h "[]" xs P] assms(1) first_of_chain(1) [OF assms(1)]
    unfolding TAILQ_FOREACH_SAFE_def tq_forward.body_def by simp
  show "\<exists>m'. TAILQ_FOREACH_REVERSE_SAFE f h (\<lambda>e m. Some (if P e then TAILQ_REMOVE f m h e else m)) m = Some m' \<and>
      tailq f m' h (filter (\<lambda>x. \<not> P x) xs)"
    using tq_back.loop_removes [OF t(2), of P] tailq_last [OF assms(1)]
    unfolding TAILQ_FOREACH_REVERSE_SAFE_def tq_back.body_def by (cases "xs = []") (simp_all add: rev_filter hd_rev)
  show "\<exists>n'. LIST_FOREACH_SAFE f k (\<lambda>e m. Some (if P e then LIST_REMOVE f m e else m)) n = Some n' \<and>
      list_queue f n' k (filter (\<lambda>x. \<not> P x) ys)"
    using list_forward.loop_removes [of f n k "[]" ys P] assms(2) first_of_chain(2) [OF assms(2)]
    unfolding LIST_FOREACH_SAFE_def list_forward.body_def by simp
qed

lemma queue_safe_loops_witness:
  "\<exists>m'. TAILQ_FOREACH_SAFE 56 16 (\<lambda>e m. Some (if e = 512 then TAILQ_REMOVE 56 m 16 e else m))
      (foldl (\<lambda>m e. TAILQ_INSERT_TAIL 56 m 16 e) (TAILQ_INIT (\<lambda>_. 1) 16) [256, 512, 1024]) = Some m' \<and>
    tailq 56 m' 16 [256, 1024]"
proof -
  have "tq.all_fresh 56 16 [] [256, 512, 1024]" by (rule tq_all_fresh) (simp_all add: al8_def q_sep_def)
  then have t: "tailq 56 (foldl (\<lambda>m e. TAILQ_INSERT_TAIL 56 m 16 e) (TAILQ_INIT (\<lambda>_. 1) 16) [256, 512, 1024]) 16 [256, 512, 1024]"
    using tq.insert_all [OF tailq_init, of 16 56 "[256, 512, 1024]" "\<lambda>_. 1"] by (simp add: al8_def)
  have l: "list_queue 56 (LIST_INIT (\<lambda>_. 1) 16) 16 []" by (rule list_init) (simp add: al8_def)
  from queue_safe_loops [OF t l, of "\<lambda>e. e = 512"] show ?thesis by simp
qed

end
