(* ===== verification/Hive_Queue_Ops.thy ===== *)
theory Hive_Queue_Ops
  imports Hive_Queue
begin

text \<open>
  The operations of \<^verbatim>\<open>sdk/inc/sys/queue.h\<close> on the middle of a tail queue, as operations on the list of its
  elements. Each of them links an element between a prefix and the rest, with its stores in an order
  of its own; what they have in common is stated on the words that are read afterwards.
\<close>

section \<open>Linking an element\<close>

abbreviation tq_words :: "addr \<Rightarrow> addr list" where
  "tq_words h \<equiv> [h, h + 8, h + 16]"

text \<open>The word that points back to what follows the prefix: of the next element or of the head.\<close>

definition back_cell :: "addr \<Rightarrow> addr \<Rightarrow> addr list \<Rightarrow> addr" where
  "back_cell f h ys = (if ys = [] then h + 8 else hd ys + f + 8)"

lemma link_cells:
  assumes "q_sep f (tq_words h) (xs @ e # ys)"
  shows "al8 (e + f)" "al8 (e + f + 8)" "al8 (h + 16)" "al8 (h + 8)" "al8 (q_end f h xs)" "al8 (back_cell f h ys)"
    "distinct [e + f, e + f + 8, h + 16, q_end f h xs, back_cell f h ys]"
    "h + 8 \<notin> {e + f, e + f + 8, h + 16, q_end f h xs}" "ys \<noteq> [] \<Longrightarrow> h + 8 \<noteq> back_cell f h ys"
    "xs \<noteq> [] \<Longrightarrow> h \<notin> {e + f, e + f + 8, h + 16, q_end f h xs, back_cell f h ys}"
proof -
  have hin: "h \<in> set (tq_words h)" by simp
  note mid = q_middle [OF assms hin]
  have h: "al8 h" "al8 (h + 8)" "al8 (h + 16)" using q_sep_cells(1) [OF assms] by auto
  have e: "al8 (e + f)" "al8 (e + f + 8)" "e + f \<notin> set (tq_words h)" "e + f + 8 \<notin> set (tq_words h)" using assms by auto
  have n: "al8 (back_cell f h ys)" "back_cell f h ys \<noteq> e + f" "back_cell f h ys \<noteq> e + f + 8" "back_cell f h ys \<noteq> h + 16"
    "back_cell f h ys \<noteq> h" "ys \<noteq> [] \<Longrightarrow> h + 8 \<noteq> back_cell f h ys" "back_cell f h ys \<noteq> q_end f h xs"
  proof -
    have "back_cell f h ys \<noteq> q_end f h xs" if "ys \<noteq> []"
    proof -
      have "back_cell f h ys \<in> set (q_cells f ys)" using that by (cases ys) (simp_all add: back_cell_def)
      then show ?thesis using mid(6) by metis
    qed
    moreover have "q_end f h xs \<noteq> h + 8" using mid(11) [of "h + 8"] by auto
    ultimately show "back_cell f h ys \<noteq> q_end f h xs" by (cases "ys = []") (simp_all add: back_cell_def)
  qed (use assms h in \<open>cases ys; auto simp: back_cell_def\<close>)+
  have l: "q_end f h xs \<noteq> h + 8" "q_end f h xs \<noteq> h + 16" using mid(11) [of "h + 8"] mid(11) [of "h + 16"] by auto
  show "al8 (e + f)" "al8 (e + f + 8)" "al8 (h + 16)" "al8 (h + 8)" "al8 (q_end f h xs)" "al8 (back_cell f h ys)"
    using e h n mid(3) by blast+
  show "distinct [e + f, e + f + 8, h + 16, q_end f h xs, back_cell f h ys]"
    using e(3,4) n(2-4,7) mid(4,5) l by auto
  show "h + 8 \<notin> {e + f, e + f + 8, h + 16, q_end f h xs}" using e(3,4) l by auto
  show "ys \<noteq> [] \<Longrightarrow> h + 8 \<noteq> back_cell f h ys" by (rule n(6))
  have "q_end f h xs \<noteq> h" if "xs \<noteq> []"
  proof -
    have "q_end f h xs \<in> set (q_cells f xs)" using that by (auto simp: q_end_def q_cells_def)
    then show ?thesis using q_sep_cells(3) [OF mid(1) hin] by metis
  qed
  then show "xs \<noteq> [] \<Longrightarrow> h \<notin> {e + f, e + f + 8, h + 16, q_end f h xs, back_cell f h ys}"
    using e(3,4) n(5) by auto
qed

text \<open>
  The words after linking \<open>e\<close> behind the prefix: \<open>w\<close> is what the last word of the prefix pointed to.
\<close>

definition linked :: "addr \<Rightarrow> memory \<Rightarrow> addr \<Rightarrow> addr list \<Rightarrow> addr \<Rightarrow> addr list \<Rightarrow> memory \<Rightarrow> bool" where
  "linked f m h xs e ys m' \<longleftrightarrow>
     load64 m' (q_end f h xs) = e \<and> load64 m' (e + f + 8) = q_end f h xs \<and> load64 m' (e + f) = load64 m (q_end f h xs) \<and>
     load64 m' (back_cell f h ys) = e + f \<and> load64 m' (h + 16) = load64 m (h + 16) + 1 \<and>
     (\<forall>c. al8 c \<longrightarrow> c \<notin> {e + f, e + f + 8, h + 16, q_end f h xs, back_cell f h ys} \<longrightarrow> load64 m' c = load64 m c)"

lemma tailq_link:
  assumes t: "tailq f m h (xs @ ys)" and sep: "q_sep f (tq_words h) (xs @ e # ys)" and e: "e \<noteq> NULL"
    and l: "linked f m h xs e ys m'"
  shows "tailq f m' h (xs @ e # ys)"
proof -
  note lc = link_cells [OF sep]
  have hin: "h \<in> set (tq_words h)" by simp
  note mid = q_middle [OF sep hin]
  have sep': "q_sep f (tq_words h) (xs @ ys)" using sep by simp
  have tq: "chain f m h (xs @ ys)" "load64 m (q_end f h (xs @ ys)) = NULL" "load64 m (h + 8) = q_end f h (xs @ ys)"
    "load64 m (h + 16) = of_nat (length (xs @ ys))" using t by (auto simp: tailq_def tq_head_defs)
  have at: "load64 m' (q_end f h xs) = e" "load64 m' (e + f + 8) = q_end f h xs" "load64 m' (e + f) = load64 m (q_end f h xs)"
    "load64 m' (back_cell f h ys) = e + f" "load64 m' (h + 16) = of_nat (length (xs @ ys)) + 1"
    and ot: "\<And>c. al8 c \<Longrightarrow> c \<notin> {e + f, e + f + 8, h + 16, q_end f h xs, back_cell f h ys} \<Longrightarrow> load64 m' c = load64 m c"
    using l unfolding linked_def tq(4) by blast+
  have n: "ys \<noteq> [] \<Longrightarrow> load64 m' (hd ys + f + 8) = e + f" using at(4) by (simp add: back_cell_def)
  have cells: "load64 m' c = load64 m c"
    if c: "c \<in> set (q_cells f (xs @ ys))" "c \<noteq> q_end f h xs" "ys \<noteq> [] \<longrightarrow> c \<noteq> hd ys + f + 8" for c
  proof (rule ot)
    show "al8 c" using q_sep_cells(2) [OF sep' c(1)] .
    have "c \<noteq> h + 8" "c \<noteq> h + 16" using q_sep_cells(3) [OF sep'] c(1) by auto
    moreover have "c \<noteq> e + f" "c \<noteq> e + f + 8" using c(1) mid(7-10) by auto
    ultimately show "c \<notin> {e + f, e + f + 8, h + 16, q_end f h xs, back_cell f h ys}"
      using c(2,3) by (auto simp: back_cell_def)
  qed
  have hd: "load64 m' h = load64 m h" if "xs \<noteq> []"
    using ot [of h] lc(10) [OF that] q_sep_cells(1) [OF sep hin] by blast
  have lk: "chain f m' h (xs @ e # ys)" "load64 m' (q_end f h (xs @ e # ys)) = NULL"
    using link_chain(1) [OF sep hin tq(1) e at(1-3)] link_chain(2) [OF sep hin tq(1) e at(1-3)] n cells hd tq(2) by blast+
  have "load64 m' (h + 8) = q_end f h (xs @ e # ys)"
  proof (cases "ys = []")
    case True
    then show ?thesis using at(4) by (simp add: back_cell_def)
  next
    case False
    then have "load64 m' (h + 8) = load64 m (h + 8)" using ot [of "h + 8"] lc(4,8,9) by blast
    then show ?thesis using tq(3) False by (simp add: q_end_def)
  qed
  then show ?thesis using sep lk at(5) by (simp add: tailq_def tq_head_defs)
qed


section \<open>Inserting\<close>

lemma next_of_end:
  assumes "tailq f m h (xs @ ys)"
  shows "load64 m (q_end f h xs) = (if ys = [] then NULL else hd ys)" "ys \<noteq> [] \<Longrightarrow> hd ys \<noteq> NULL"
    "xs \<noteq> [] \<Longrightarrow> load64 m (last xs + f + 8) = q_end f h (butlast xs)"
proof -
  show "load64 m (q_end f h xs) = (if ys = [] then NULL else hd ys)" "ys \<noteq> [] \<Longrightarrow> hd ys \<noteq> NULL"
    using assms by (cases ys; simp add: tailq_def)+
  show "xs \<noteq> [] \<Longrightarrow> load64 m (last xs + f + 8) = q_end f h (butlast xs)"
    using assms by (cases xs rule: rev_cases) (simp_all add: tailq_def)
qed

lemma insert_after_links:
  assumes t: "tailq f m h ((xs @ [l]) @ ys)" and sep: "q_sep f (tq_words h) ((xs @ [l]) @ e # ys)"
  shows "linked f m h (xs @ [l]) e ys (TAILQ_INSERT_AFTER f m h l e)"
proof -
  note lc = link_cells [OF sep]
  note nx = next_of_end [OF t]
  have eq: "TAILQ_INSERT_AFTER f m h l e = store64 (store64 (store64 (store64 (store64 m (e + f) (load64 m (l + f)))
      (back_cell f h ys) (e + f)) (l + f) e) (e + f + 8) (l + f)) (h + 16) (load64 m (h + 16) + 1)"
    using nx(1,2) lc(1-7)
    by (auto simp: TAILQ_INSERT_AFTER_def Let_def q_field_defs tq_head_defs back_cell_def load64_store64_other)
  show ?thesis
    unfolding linked_def eq using lc(1-7) by (auto simp: load64_store64_other)
qed

lemma insert_before_links:
  assumes t: "tailq f m h (xs @ l # ys)" and sep: "q_sep f (tq_words h) (xs @ e # l # ys)"
  shows "linked f m h xs e (l # ys) (TAILQ_INSERT_BEFORE f m h l e)"
proof -
  note lc = link_cells [OF sep]
  have p: "load64 m (l + f + 8) = q_end f h xs" "load64 m (q_end f h xs) = l" using t by (simp_all add: tailq_def)
  have eq: "TAILQ_INSERT_BEFORE f m h l e = store64 (store64 (store64 (store64 (store64 m (e + f + 8) (q_end f h xs))
      (e + f) l) (q_end f h xs) e) (l + f + 8) (e + f)) (h + 16) (load64 m (h + 16) + 1)"
    using p lc(1-7)
    by (auto simp: TAILQ_INSERT_BEFORE_def Let_def q_field_defs tq_head_defs back_cell_def load64_store64_other)
  show ?thesis
    unfolding linked_def eq using p lc(1-7) by (auto simp: load64_store64_other back_cell_def)
qed

section \<open>Replacing\<close>

text \<open>Replacing an element does what removing it and linking the other one in its place do.\<close>

lemma replace_links:
  assumes t: "tailq f m h (xs @ e # ys)" and sep: "q_sep f (tq_words h) (xs @ e # d # ys)"
  shows "linked f (TAILQ_REMOVE f m h e) h xs d ys (TAILQ_REPLACE f m h e d)"
proof -
  have sd: "q_sep f (tq_words h) (xs @ d # ys)" and se: "q_sep f (tq_words h) (xs @ e # ys)" using sep by auto
  note lc = link_cells [OF sd] and le = link_cells [OF se]
  have ed: "e + f \<notin> {d + f, d + f + 8}" "e + f + 8 \<notin> {d + f, d + f + 8}" using sep by auto
  have p: "load64 m (e + f + 8) = q_end f h xs" "load64 m (e + f) = (if ys = [] then NULL else hd ys)" "ys \<noteq> [] \<Longrightarrow> hd ys \<noteq> NULL"
    using t by (cases ys; simp add: tailq_def)+
  have rem: "TAILQ_REMOVE f m h e = store64 (store64 (store64 m (back_cell f h ys) (q_end f h xs)) (q_end f h xs) (load64 m (e + f)))
      (h + 16) (load64 m (h + 16) - 1)"
    using p le(1-7) by (auto simp: TAILQ_REMOVE_def Let_def q_field_defs tq_head_defs back_cell_def load64_store64_other)
  have rep: "TAILQ_REPLACE f m h e d = store64 (store64 (store64 (store64 m (d + f) (load64 m (e + f)))
      (back_cell f h ys) (d + f)) (d + f + 8) (q_end f h xs)) (q_end f h xs) d"
    using p le(1-7) lc(1-7) ed by (auto simp: TAILQ_REPLACE_def Let_def q_field_defs back_cell_def load64_store64_other)
  show ?thesis
    unfolding linked_def rem rep using lc(1-7) by (auto simp: load64_store64_other)
qed

section \<open>Joining two queues\<close>

lemma q_sep_heads: "q_sep f (hs @ ks) xs \<Longrightarrow> q_sep f hs xs" "q_sep f (hs @ ks) xs \<Longrightarrow> q_sep f ks xs"
  by (auto simp: q_sep_def)

lemma concat_links:
  assumes t: "tailq f m h xs" "tailq f m k ys" and sep: "q_sep f (tq_words h @ tq_words k) (xs @ ys)"
  defines "m' \<equiv> TAILQ_CONCAT f m h k"
  shows "chain f m' h (xs @ ys)" "load64 m' (q_end f h (xs @ ys)) = NULL" "load64 m' (h + 8) = q_end f h (xs @ ys)"
    "load64 m' (h + 16) = of_nat (length xs)" "tailq f m' k []"
proof -
  let ?hs = "tq_words h @ tq_words k" and ?l = "q_end f h xs"
  have tx: "chain f m h xs" "load64 m ?l = NULL" "load64 m (h + 8) = ?l" "load64 m (h + 16) = of_nat (length xs)"
    and ty: "chain f m k ys" "load64 m (q_end f k ys) = NULL" "load64 m (k + 8) = q_end f k ys" "load64 m k = (if ys = [] then NULL else hd ys)"
    using t by (cases ys; simp add: tailq_def tq_head_defs)+
  have al: "al8 h" "al8 (h + 8)" "al8 (h + 16)" "al8 k" "al8 (k + 8)" "al8 (k + 16)"
    using tailq_heads [OF t(1)] tailq_heads [OF t(2)] by blast+
  have dist: "distinct ?hs" using sep by (simp only: q_sep_def)
  have all: "chain f m' h (xs @ ys) \<and> load64 m' (q_end f h (xs @ ys)) = NULL \<and> load64 m' (h + 8) = q_end f h (xs @ ys) \<and>
    load64 m' (h + 16) = of_nat (length xs) \<and> tailq f m' k []"
  proof (cases ys)
    case Nil
    then show ?thesis using t tx ty(4) by (simp add: m'_def TAILQ_CONCAT_def TAILQ_EMPTY_def TAILQ_FIRST_def)
  next
    case (Cons y zs)
    have y0: "y \<noteq> NULL" using ty(1) Cons by simp
    have sx: "q_sep f ?hs xs" and sy: "q_sep f ?hs ys" using q_sep_append [OF sep] by blast+
    have disj: "set (q_cells f xs) \<inter> set (q_cells f ys) = {}" by (rule q_sep_disjoint [OF sep])
    note hc = q_sep_cells(3) [OF sx] q_sep_cells(3) [OF sy]
    have lc: "?l = h \<or> ?l \<in> set (q_cells f xs)" by (rule q_end_cells)
    have al_l: "al8 ?l" using lc al(1) q_sep_cells(2) [OF sx] by metis
    have yc: "y + f \<in> set (q_cells f ys)" "y + f + 8 \<in> set (q_cells f ys)" using Cons by simp_all
    have aly: "al8 (y + f + 8)" using q_sep_cells(2) [OF sy yc(2)] .
    have mem: "h \<in> set ?hs" "h + 8 \<in> set ?hs" "h + 16 \<in> set ?hs" "k \<in> set ?hs" "k + 8 \<in> set ?hs" "k + 16 \<in> set ?hs" by simp_all
    have l: "?l \<notin> {h + 8, h + 16, k, k + 8, k + 16}" "?l \<notin> set (q_cells f ys)"
    proof -
      have off: "?l \<noteq> c" if "c \<in> set ?hs" "c \<noteq> h" for c using lc hc(1) [OF that(1)] that(2) by metis
      have "h + 8 \<noteq> h" "h + 16 \<noteq> h" "k \<noteq> h" "k + 8 \<noteq> h" "k + 16 \<noteq> h" using dist by auto
      note d = this
      show "?l \<notin> {h + 8, h + 16, k, k + 8, k + 16}"
        unfolding insert_iff empty_iff de_Morgan_disj
        by (intro conjI off [OF mem(2) d(1)] off [OF mem(3) d(2)] off [OF mem(4) d(3)] off [OF mem(5) d(4)] off [OF mem(6) d(5)] notI)
      show "?l \<notin> set (q_cells f ys)"
        using lc
      proof
        assume "?l = h"
        then show ?thesis using hc(2) [OF mem(1)] by metis
      next
        assume "?l \<in> set (q_cells f xs)"
        then show ?thesis using disj by blast
      qed
    qed
    have yw: "y + f + 8 \<notin> set ?hs" using hc(2) yc(2) by blast
    have ne: "y + f + 8 \<noteq> ?l" using l(2) yc(2) by metis
    have eq: "m' = store64 (store64 (store64 (store64 (store64 (store64 m ?l y) (y + f + 8) ?l) (h + 8) (q_end f k ys)) k NULL) (k + 8) k) (k + 16) 0"
      using y0 Cons ty(3,4) tx(3) al al_l aly l yw ne dist
      by (auto simp: m'_def TAILQ_CONCAT_def TAILQ_EMPTY_def TAILQ_INIT_def Let_def tq_head_defs q_field_defs load64_store64_other)
    have ld: "load64 m' c = load64 m c" if "al8 c" "c \<notin> {?l, y + f + 8, h + 8, k, k + 8, k + 16}" for c
      unfolding eq using that al al_l aly by (auto simp: load64_store64_other)
    have at: "load64 m' ?l = y" "load64 m' (y + f + 8) = ?l" "load64 m' (h + 8) = q_end f k ys" "load64 m' k = NULL"
      "load64 m' (k + 8) = k" "load64 m' (k + 16) = 0" "load64 m' (h + 16) = of_nat (length xs)"
      unfolding eq using al al_l aly l yw ne dist tx(4) by (auto simp: load64_store64_other)
    have cx: "load64 m' c = load64 m c" if "c \<in> set (q_cells f xs)" "c \<noteq> ?l" for c
    proof (rule ld)
      show "al8 c" using q_sep_cells(2) [OF sx that(1)] .
      have "c \<noteq> y + f + 8" using that(1) disj yc(2) by blast
      then show "c \<notin> {?l, y + f + 8, h + 8, k, k + 8, k + 16}" using that hc(1) mem by auto
    qed
    have cz: "load64 m' c = load64 m c" if "c = y + f \<or> c \<in> set (q_cells f zs)" for c
    proof (rule ld)
      have c: "c \<in> set (q_cells f ys)" using that Cons by auto
      show "al8 c" using q_sep_cells(2) [OF sy c] .
      have "c \<noteq> y + f + 8" using that sy Cons by (auto simp: q_cells_def)
      then show "c \<notin> {?l, y + f + 8, h + 8, k, k + 8, k + 16}" using c l(2) hc(2) mem by auto
    qed
    have "chain f m' h xs"
    proof (rule chain_cong [OF tx(1) _ _ sx])
      show "xs \<noteq> [] \<longrightarrow> load64 m' h = load64 m h"
      proof
        assume "xs \<noteq> []"
        then have "?l \<in> set (q_cells f xs)" by (auto simp: q_end_def q_cells_def)
        then have "?l \<noteq> h" using hc(1) [OF mem(1)] by metis
        then show "load64 m' h = load64 m h" using ld [of h] al(1) yw dist by auto
      qed
    qed (use cx in blast)
    moreover have "chain f m' (y + f) zs"
    proof (rule chain_cong)
      show "chain f m (y + f) zs" "q_sep f ?hs zs" using ty(1) Cons sy by auto
      show "zs \<noteq> [] \<longrightarrow> load64 m' (y + f) = load64 m (y + f)" by (simp add: cz)
      show "\<forall>c \<in> set (q_cells f zs). c \<noteq> q_end f (y + f) zs \<longrightarrow> load64 m' c = load64 m c" by (simp add: cz)
    qed
    moreover have "load64 m' (q_end f (y + f) zs) = load64 m (q_end f (y + f) zs)"
      by (rule cz) (rule q_end_cells)
    moreover have "q_sep f (tq_words k) []" using q_sep_heads(2) [OF sep] by (simp add: q_sep_def)
    ultimately show ?thesis using at y0 Cons ty(2) by (simp add: tailq_def tq_head_defs)
  qed
  then show "chain f m' h (xs @ ys)" "load64 m' (q_end f h (xs @ ys)) = NULL" "load64 m' (h + 8) = q_end f h (xs @ ys)"
    "load64 m' (h + 16) = of_nat (length xs)" "tailq f m' k []" by blast+
qed

section \<open>Properties\<close>

text \<open>
  C24: on a well-formed tail queue and an aligned element apart from it, inserting at the head or at
  the tail, behind or before an element, and replacing an element leave a well-formed queue with the
  elements that the operation on lists gives; removing it again gives the queue back.
\<close>

theorem tailq_operations:
  assumes "tailq f m h (xs @ l # ys)" "q_sep f (tq_words h) (xs @ e # l # ys)" "e \<noteq> NULL"
  shows "tailq f (TAILQ_INSERT_HEAD f m h e) h (e # xs @ l # ys) \<and>
    tailq f (TAILQ_INSERT_TAIL f m h e) h (xs @ l # ys @ [e]) \<and>
    tailq f (TAILQ_INSERT_AFTER f m h l e) h (xs @ l # e # ys) \<and>
    tailq f (TAILQ_INSERT_BEFORE f m h l e) h (xs @ e # l # ys) \<and>
    tailq f (TAILQ_REPLACE f m h l e) h (xs @ e # ys) \<and>
    tailq f (TAILQ_REMOVE f (TAILQ_INSERT_BEFORE f m h l e) h e) h (xs @ l # ys)"
proof -
  have se: "q_sep f (tq_words h) (e # xs @ l # ys)" "q_sep f (tq_words h) ((xs @ [l]) @ e # ys)"
    "q_sep f (tq_words h) (xs @ l # e # ys)" "q_sep f (tq_words h) (xs @ e # ys)" using assms(2) by auto
  have ta: "tailq f m h ((xs @ [l]) @ ys)" using assms(1) by simp
  have 1: "tailq f (TAILQ_INSERT_HEAD f m h e) h (e # xs @ l # ys)" by (rule tailq_insert_head [OF assms(1) se(1) assms(3)])
  have 2: "tailq f (TAILQ_INSERT_TAIL f m h e) h (xs @ l # ys @ [e])" using tailq_insert_tail [OF assms(1) se(1) assms(3)] by simp
  have 3: "tailq f (TAILQ_INSERT_AFTER f m h l e) h (xs @ l # e # ys)"
    using tailq_link [OF ta se(2) assms(3) insert_after_links [OF ta se(2)]] by simp
  have 4: "tailq f (TAILQ_INSERT_BEFORE f m h l e) h (xs @ e # l # ys)"
    by (rule tailq_link [OF assms(1,2,3) insert_before_links [OF assms(1,2)]])
  have 5: "tailq f (TAILQ_REPLACE f m h l e) h (xs @ e # ys)"
    by (rule tailq_link [OF tailq_remove [OF assms(1)] se(4) assms(3) replace_links [OF assms(1) se(3)]])
  show ?thesis using 1 2 3 4 5 tailq_remove [OF 4] by blast
qed

lemma small_queue: "tailq 56 (foldl (\<lambda>m e. TAILQ_INSERT_TAIL 56 m 16 e) (TAILQ_INIT (\<lambda>_. 1) 16) [256, 512]) 16 [256, 512]"
proof -
  have "tq.all_fresh 56 16 [] [256, 512]" by (rule tq_all_fresh) (simp_all add: al8_def q_sep_def)
  then show ?thesis using tq.insert_all [OF tailq_init, of 16 56 "[256, 512]" "\<lambda>_. 1"] by (simp add: al8_def)
qed

lemma tailq_operations_witness:
  "let m = foldl (\<lambda>m e. TAILQ_INSERT_TAIL 56 m 16 e) (TAILQ_INIT (\<lambda>_. 1) 16) [256, 512]
   in tailq 56 (TAILQ_INSERT_BEFORE 56 m 16 512 1024) 16 [256, 1024, 512] \<and> tailq 56 (TAILQ_REPLACE 56 m 16 512 1024) 16 [256, 1024]"
proof -
  have q: "tailq 56 (foldl (\<lambda>m e. TAILQ_INSERT_TAIL 56 m 16 e) (TAILQ_INIT (\<lambda>_. 1) 16) [256, 512]) 16 ([256] @ 512 # [])"
    using small_queue by simp
  have s: "q_sep 56 (tq_words 16) ([256] @ 1024 # 512 # [])" by (simp add: al8_def q_sep_def)
  have n: "(1024 :: addr) \<noteq> NULL" by simp
  from tailq_operations [OF q s n] show ?thesis by (simp add: Let_def)
qed

text \<open>
  C26: \<^verbatim>\<open>TAILQ_CONCAT\<close> moves the elements of the second queue behind those of the first and leaves the
  second one empty, but it does not add the counts: \<^verbatim>\<open>TAILQ_NELEM\<close> of the joined queue is still the number
  of elements the first one had.
\<close>

theorem tailq_concat_count:
  assumes "tailq f m h xs" "tailq f m k ys" "q_sep f (tq_words h @ tq_words k) (xs @ ys)"
  shows "TAILQ_FOREACH f (TAILQ_CONCAT f m h k) h = Some (xs @ ys) \<and> tailq f (TAILQ_CONCAT f m h k) k [] \<and>
    tqh_last (TAILQ_CONCAT f m h k) h = q_end f h (xs @ ys) \<and> TAILQ_NELEM (TAILQ_CONCAT f m h k) h = of_nat (length xs)"
  using concat_links [OF assms] by (simp add: TAILQ_FOREACH_def TAILQ_FIRST_def TAILQ_NELEM_def tqh_last_def q_walk_chain)

lemma tailq_concat_count_witness:
  "\<exists>m. tailq 56 m 16 [256, 512] \<and> tailq 56 m 4096 [2048] \<and>
    TAILQ_FOREACH 56 (TAILQ_CONCAT 56 m 16 4096) 16 = Some [256, 512, 2048] \<and> TAILQ_NELEM (TAILQ_CONCAT 56 m 16 4096) 16 = 2"
proof -
  obtain n where q: "tailq 56 n 16 [256, 512]" using small_queue by blast
  let ?m = "TAILQ_INSERT_TAIL 56 (TAILQ_INIT n 4096) 4096 2048"
  have "q_sep 56 (tq_words 4096) [2048]" by (simp add: al8_def q_sep_def)
  then have k: "tailq 56 ?m 4096 [2048]"
    using tailq_insert_tail [OF tailq_init [of 4096 56 n], of 2048] by (simp add: al8_def)
  have ld: "load64 ?m c = load64 n c" if "c \<in> {16, 24, 32, 312, 320, 568, 576}" for c
    using that by (auto simp: TAILQ_INSERT_TAIL_def TAILQ_INIT_def Let_def tq_head_defs q_field_defs load64_store64_other al8_def)
  have h: "tailq 56 ?m 16 [256, 512]" using q by (simp add: tailq_def tq_head_defs ld)
  have s: "q_sep 56 (tq_words 16 @ tq_words 4096) ([256, 512] @ [2048])" by (simp add: al8_def q_sep_def)
  from tailq_concat_count [OF h k s] show ?thesis using h k by (intro exI [of _ ?m]) simp
qed

end
