(* ===== verification/Spec2Isabelle.thy ===== *)
theory Spec2Isabelle
  imports Hive_Kmain_Spec Hive_Memar Hive_Format Hive_Heap_Check Hive_Ob_Spec Hive_Memalign Hive_Queue_Walk Hive_Queue_Ops
begin

text \<open>
  A verification development for OpenModality: the Hive kernel under \<^verbatim>\<open>src/sys/hive\<close>, the string and
  system headers it shares with programs under \<^verbatim>\<open>src/sdk\<close>, and the archive tool \<^verbatim>\<open>src/gen/memar\<close>.

  \<^bold>\<open>The program.\<close> \<^verbatim>\<open>kmain\<close> (\<^verbatim>\<open>core/epoch.c\<close>) starts the components in order: the boot protocol
  translation reads the memory map, the offset of the direct map and the modules from the boot
  loader; the physical memory manager builds a bitmap of the page frames from the map; the root
  pool takes 8192 frames from it and puts a two-level segregated fit heap on them; the page table
  layer clears the lower half of the address space; the object store makes its root directory
  in the pool; the clock registers itself there; the ACPI tables are found; the initial ram disk
  is looked up among the modules; and the first program is loaded from it into new frames and
  mapped. Messages go through the string formatter to the serial port.

  \<^bold>\<open>The model.\<close> Memory is a function from 64-bit addresses to bytes. The state of the kernel is a
  record that grows by extension in the order in which the components need each other:
  \<open>machine\<close> (memory, serial port, control registers, interrupt flag), \<open>boot\<close>, \<open>pmem\<close>, \<open>tlsf\<close>,
  \<open>pool\<close>, then the object store, the ram disk, ACPI and the processor; each holds the static
  variables of its files, and an operation works on every extension of the record it needs. Every
  integer has its width in C and wraps around as there. A fallible function returns an error
  number or \<open>Inl\<close> of it; a pointer to a result is a flag that says whether it is null. The value
  None stands for what has no result in C: a panic, a failing assertion, a read through a null
  pointer of a structure the model keeps as a record, an array index out of range, or a loop that
  does not end (those loops are \<open>partial_function\<close>s; the others are total functions with a
  measure, so no fuel is used anywhere). The properties say when the result is not None.

  \<^bold>\<open>The theories\<close>, each with what its lemmas show:

  \<^item> \<open>Hive_Prelude\<close>: \<^verbatim>\<open>sys/errno.h\<close>, \<^verbatim>\<open>sys/param.h\<close>, \<^verbatim>\<open>sys/units.h\<close>; loads and stores, the alignment and
    bitmap macros, and the word lemmas the other theories share.
  \<^item> \<open>Hive_String\<close>, \<open>Hive_Itoa\<close>, \<open>Hive_Format\<close>: \<^verbatim>\<open>sdk/string\<close>, \<^verbatim>\<open>core/trace.c\<close>, \<^verbatim>\<open>core/panic.c\<close>. The
    string routines against lists of bytes; numbers read back; \<^verbatim>\<open>vsnprintf\<close> against a specification
    of the text it renders, within its bound.
  \<^item> \<open>Hive_Queue\<close>, \<open>Hive_Queue_Ops\<close>, \<open>Hive_Queue_Walk\<close>: \<^verbatim>\<open>sys/queue.h\<close>. A tail queue implements a list, as
    a locale with its interpretation; the operations on the middle of a queue and the concatenation,
    which leaves the count behind; the loops in both directions while their body removes elements.
  \<^item> \<open>Hive_Boot\<close>: \<^verbatim>\<open>core/bpt.c\<close>, \<^verbatim>\<open>bpt/limine.c\<close>. The memory map as a list, again a locale.
  \<^item> \<open>Hive_Sync\<close>: \<^verbatim>\<open>core/spinlock.c\<close>, \<^verbatim>\<open>sys/atomic.h\<close>. A step relation for many processors and mutual
    exclusion as an invariant of its reachable states.
  \<^item> \<open>Hive_Pmem\<close>: \<^verbatim>\<open>mm/pmem.c\<close>. What the bitmap holds after start-up; what the search returns, from
    the number of free frames it has counted; allocation and release as a round trip, and the two kinds
    of request it answers wrongly.
  \<^item> \<open>Hive_Pmap\<close>: \<^verbatim>\<open>arch/amd64/cpu/pmap.c\<close>, \<^verbatim>\<open>mm/vmem.c\<close>. The page tables as a forest of frames in
    memory, the translation the processor computes from them, and mapping as an update of it;
    the locale \<open>page_mapper\<close> carries it from one page to a region.
  \<^item> \<open>Hive_Tlsf_Map\<close>, \<open>Hive_Tlsf\<close>: all of \<^verbatim>\<open>mm/tlsf.c\<close>; the first has the bit searches and the size
    classes, with their reference definitions.
  \<^item> \<open>Hive_Blocks\<close>, \<open>Hive_Freelist\<close>, \<open>Hive_Heap\<close>: the proof of the heap in three layers: the chain
    of physical blocks their headers describe; the free lists and the bitmaps over them; the
    invariant of both, which \<^verbatim>\<open>tlsf_malloc\<close> and \<^verbatim>\<open>tlsf_free\<close> keep, with the words they write.
  \<^item> \<open>Hive_Pool\<close>, \<open>Hive_Alloc\<close>: \<^verbatim>\<open>os/pool.c\<close>, and the locale \<open>allocator\<close>: a partial function from the
    blocks in use to their sizes, the laws of allocation and release, and the safety of every
    client that follows them. It is interpreted on the heap and on the locked pool.
  \<^item> \<open>Hive_Heap_Spec\<close>, \<open>Hive_Heap_Check\<close>: the properties of the heap and the pool over these:
    allocation and release, whole runs of clients, nothing lost after everything is given back,
    the integrity checks of the source, and the sizes at the boundaries.
  \<^item> \<open>Hive_Realloc\<close>, \<open>Hive_Memalign\<close>: resizing a block and requests with an alignment, on the same
    invariant: what the client wrote is kept, every other block is left alone, the address has the
    alignment; and the request above the largest size, which resizing does not refuse.
  \<^item> \<open>Hive_Ob\<close>, \<open>Hive_Ob_Spec\<close>: \<^verbatim>\<open>ob/knode.c\<close>, \<^verbatim>\<open>ob/dir.c\<close>, \<^verbatim>\<open>ob/store.c\<close>. Nodes and directories are blocks of the
    pool; a directory is the list of its nodes.
  \<^item> \<open>Hive_Initrd\<close>, \<open>Hive_Memar\<close>: \<^verbatim>\<open>core/initrd.c\<close> and \<^verbatim>\<open>gen/memar/memar.c\<close>, the reader and the writer of
    the archive, which do not fit together.
  \<^item> \<open>Hive_Elf\<close>, \<open>Hive_Elf_Spec\<close>: \<^verbatim>\<open>core/elfload.c\<close> with the 64-bit headers of \<^verbatim>\<open>sys/elf.h\<close>. Loading an image
    allocates, maps and copies its segments, over the lemmas of the mapper and the frame allocator.
  \<^item> \<open>Hive_Acpi\<close>: \<^verbatim>\<open>acpi/acpi.c\<close>. The first table with a signature, and the walk over the entries of the
    interrupt controller table.
  \<^item> \<open>Hive_Cpu\<close>: descriptors, the trap handler, registers and clock of \<^verbatim>\<open>arch/amd64\<close> and \<^verbatim>\<open>core/timer.c\<close>.
  \<^item> \<open>Hive_Kmain\<close>, \<open>Hive_Kmain_Spec\<close>: \<^verbatim>\<open>core/epoch.c\<close>, composed from the operations above, and how the first
    program is entered, with a valid image and with an invalid one.

  \<^bold>\<open>Choices.\<close> The variable arguments of a format are a list of values. The bytes on the stack before a
  local buffer is written, the addresses of literals and static objects, and the entry point that
  \<^verbatim>\<open>start_rts\<close> leaves unwritten for an invalid image are arguments. The heap is the one a GNU compiler for
  64-bit targets builds, with assertions on. The control structure of the heap is a record beside the
  memory, except for its null block, which lies in memory. The page table proofs are for four levels
  and for direct-mapped frames below \<open>2^40\<close>, and those of loading a program for a first run of free frames
  that is long enough, because the search can give used frames to a request for several otherwise; the heap proofs for pools below \<open>2^32\<close> bytes, the limit
  of its size classes.

  \<^bold>\<open>Not modelled.\<close> Interrupt entry, segment loading and the first instructions, which are assembly
  (\<^verbatim>\<open>gdt.S\<close>, \<^verbatim>\<open>vector.S\<close>, \<^verbatim>\<open>locore.S\<close>, \<^verbatim>\<open>uvec.S\<close>); the translation cache of the processor; the parts of \<^verbatim>\<open>elf.h\<close>,
  \<^verbatim>\<open>limine.h\<close> and \<^verbatim>\<open>tables.h\<close> that no code reads; the debugging macros of \<^verbatim>\<open>queue.h\<close>; the text
  \<^verbatim>\<open>memar\<close> prints; the build files.
\<close>

end
